(* ===== verification/Prelude.thy ===== *)
theory Prelude
  imports Main "HOL-Library.Multiset" "HOL-Library.AList" "HOL-Library.Word"
begin

text \<open>
  Shared vocabulary of the development.

  The engine's fallible functions return \<open>Result\<close>; the model uses the sum type, with the
  error on the left.  Hash maps whose values the code enumerates (\<open>HashMap::values\<close>) are
  association lists with the operations of \<^theory_text>\<open>AList\<close>, so that the enumeration
  is a computation; maps the code only looks up in are HOL maps.

  The lemmas below are the generic facts the component theories share: how the multiset
  of all values of an association list changes under update and delete, and a sum over them,
  facts on filters, distinct lists and lists read through an index, the digits of a number in a
  base with the decimal text of one, and the saturating arithmetic of \<open>u64\<close> and \<open>usize\<close>.
\<close>

type_synonym ('e, 'a) result = "'e + 'a"

named_theorems pool_simps \<open>what the invariant of a work line's pool says\<close>
named_theorems room_calls \<open>unfolding facts of the calls that move a room's lifecycle\<close>

abbreviation Ok :: "'a \<Rightarrow> ('e, 'a) result" where "Ok \<equiv> Inr"
abbreviation Err :: "'e \<Rightarrow> ('e, 'a) result" where "Err \<equiv> Inl"

section \<open>Values of an association list\<close>

definition alist_values :: "('k \<times> 'v list) list \<Rightarrow> 'v list" where
  "alist_values al = concat (map snd al)"

lemma alist_values_Nil [simp]: "alist_values [] = []"
  by (simp add: alist_values_def)

lemma alist_values_Cons [simp]: "alist_values (p # al) = snd p @ alist_values al"
  by (simp add: alist_values_def)

lemma set_alist_values: "set (alist_values al) = (\<Union>p \<in> set al. set (snd p))"
  by (auto simp: alist_values_def)

lemma mset_values_update_new:
  "map_of al k = None \<Longrightarrow>
   mset (alist_values (AList.update k vs al)) = mset (alist_values al) + mset vs"
  by (induction al) (auto split: if_splits)

lemma mset_values_update:
  "map_of al k = Some ws \<Longrightarrow>
   mset (alist_values (AList.update k vs al)) + mset ws = mset (alist_values al) + mset vs"
  by (induction al) (auto split: if_splits simp: ac_simps)

lemma AList_delete_absent: "k \<notin> fst ` set al \<Longrightarrow> AList.delete k al = al"
  by (induction al) auto

lemma mset_values_delete:
  "distinct (map fst al) \<Longrightarrow> map_of al k = Some ws \<Longrightarrow>
   mset (alist_values (AList.delete k al)) + mset ws = mset (alist_values al)"
  by (induction al) (auto split: if_splits simp: AList_delete_absent ac_simps)

lemma map_of_values: "map_of al k = Some ws \<Longrightarrow> set ws \<subseteq> set (alist_values al)"
  by (induction al) (auto split: if_splits)

lemma fst_delete_alist: "fst ` set (AList.delete k al) = fst ` set al - {k}"
  by (induction al) auto

lemma map_of_dom_fst: "(map_of al k = None) = (k \<notin> fst ` set al)"
  by (simp add: map_of_eq_None_iff)

section \<open>Lists\<close>

lemma mset_distinct_cong: "mset xs = mset ys \<Longrightarrow> distinct xs = distinct ys"
  by (metis mset_eq_imp_distinct_iff)

lemma filter_neq_distinct:
  "distinct xs \<Longrightarrow> mset (filter (\<lambda>x. x \<noteq> a) xs) = mset xs - {#a#}"
  by (induction xs) (auto simp: filter_id_conv)

lemma mset_filter_neq:
  "distinct xs \<Longrightarrow> a \<in> set xs \<Longrightarrow> mset xs = add_mset a {#x \<in># mset xs. x \<noteq> a#}"
  using filter_neq_distinct [of xs a] by simp

section \<open>Digits of a number, most significant first\<close>

fun to_digits :: "nat \<Rightarrow> nat \<Rightarrow> nat \<Rightarrow> nat list" where
  "to_digits b 0 n = []"
| "to_digits b (Suc k) n = to_digits b k (n div b) @ [n mod b]"

definition from_digits :: "nat \<Rightarrow> nat list \<Rightarrow> nat" where
  "from_digits b ds = foldl (\<lambda>n d. n * b + d) 0 ds"

lemma from_digits_Nil [simp]: "from_digits b [] = 0"
  by (simp add: from_digits_def)

lemma from_digits_snoc [simp]: "from_digits b (ds @ [d]) = from_digits b ds * b + d"
  by (simp add: from_digits_def)

lemma length_to_digits [simp]: "length (to_digits b k n) = k"
  by (induction k arbitrary: n) auto

lemma to_digits_bound: "b > 0 \<Longrightarrow> d \<in> set (to_digits b k n) \<Longrightarrow> d < b"
  by (induction k arbitrary: n) auto

lemma from_to_digits: "n < b ^ k \<Longrightarrow> from_digits b (to_digits b k n) = n"
proof (induction k arbitrary: n)
  case (Suc k)
  then have "n div b < b ^ k" by (metis less_mult_imp_div_less mult.commute power_Suc)
  with Suc.IH show ?case by simp
qed simp

lemma to_from_digits: "(\<forall>d \<in> set ds. d < b) \<Longrightarrow> to_digits b (length ds) (from_digits b ds) = ds"
  by (induction ds rule: rev_induct) auto

lemma from_digits_bound: "(\<forall>d \<in> set ds. d < b) \<Longrightarrow> from_digits b ds < b ^ length ds"
proof (induction ds rule: rev_induct)
  case (snoc d ds)
  then have d: "d < b" and i: "Suc (from_digits b ds) \<le> b ^ length ds" by auto
  have "from_digits b ds * b + d < Suc (from_digits b ds) * b" using d by simp
  also have "\<dots> \<le> b ^ length ds * b" using i by (rule mult_le_mono1)
  finally show ?case by (simp add: mult.commute)
qed simp

lemma from_digits_append:
  "from_digits b (xs @ ys) = from_digits b xs * b ^ length ys + from_digits b ys"
proof (induction ys rule: rev_induct)
  case (snoc y ys)
  then show ?case by (simp flip: append_assoc add: algebra_simps)
qed simp

lemma from_digits_less:
  assumes "length xs = length ys" "\<forall>d \<in> set xs. d < b" "\<forall>d \<in> set ys. d < b"
  shows "from_digits b xs < from_digits b ys \<longleftrightarrow> ord_class.lexordp xs ys"
  using assms
proof (induction xs ys rule: list_induct2)
  case (Cons x xs y ys)
  have b: "from_digits b xs < b ^ length ys" "from_digits b ys < b ^ length ys"
    using from_digits_bound [of xs b] from_digits_bound [of ys b] Cons by auto
  have e: "from_digits b (z # zs) = z * b ^ length zs + from_digits b zs" for z zs
    using from_digits_append [of b "[z]" zs] from_digits_snoc [of b "[]" z] by simp
  have step: "m * B + i < n * B + j" if "m < n" "i < B" for m n i j B :: nat
  proof -
    have "Suc m * B \<le> n * B" using that(1) by (intro mult_le_mono1) simp
    then show ?thesis using that(2) by simp
  qed
  consider "x < y" | "x = y" | "y < x" by linarith
  then show ?case
  proof cases
    case 1
    with step [OF 1 b(1)] Cons(1) show ?thesis by (simp add: e)
  next
    case 2
    with Cons show ?thesis by (simp add: e)
  next
    case 3
    with step [OF 3 b(2), of "from_digits b xs"] Cons(1) show ?thesis by (auto simp: e)
  qed
qed simp

section \<open>Unsigned arithmetic of 64 bits\<close>

text \<open>A \<open>u64\<close> or \<open>usize\<close> the code adds with \<open>saturating_add\<close> is a natural number at most
  \<open>usize_max\<close>; \<open>saturating_sub\<close> is the subtraction of \<open>nat\<close>.\<close>

definition usize_max :: nat where "usize_max = 2 ^ 64 - 1"

definition sat_add :: "nat \<Rightarrow> nat \<Rightarrow> nat" where
  "sat_add a b = min (a + b) usize_max"

lemma sat_add_exact [simp]: "a + b \<le> usize_max \<Longrightarrow> sat_add a b = a + b"
  by (simp add: sat_add_def)

lemma sat_add_bound [simp]: "sat_add a b \<le> usize_max"
  by (simp add: sat_add_def)

lemma sat_add_ge: "a \<le> usize_max \<Longrightarrow> a \<le> sat_add a b"
  by (simp add: sat_add_def)

lemma sat_add_zero [simp]: "a \<le> usize_max \<Longrightarrow> sat_add a 0 = a" "b \<le> usize_max \<Longrightarrow> sat_add 0 b = b"
  by (simp_all add: sat_add_def)

section \<open>Decimal text\<close>

fun decimal :: "nat \<Rightarrow> string" where
  "decimal n = (if n < 10 then [char_of (48 + n)] else decimal (n div 10) @ [char_of (48 + n mod 10)])"

declare decimal.simps [simp del]

definition undecimal :: "string \<Rightarrow> nat" where
  "undecimal cs = foldl (\<lambda>n c. n * 10 + (of_char c - 48)) 0 cs"

lemma undecimal_decimal: "undecimal (decimal n) = n"
proof (induction n rule: decimal.induct)
  case (1 n)
  have "of_char (char_of (48 + d) :: char) = 48 + d" if "d < 10" for d :: nat
    using that by simp
  then show ?case using 1 by (simp add: decimal.simps [of n] undecimal_def)
qed

section \<open>Sums over an association list\<close>

definition alist_sum :: "('v \<Rightarrow> nat) \<Rightarrow> ('k \<times> 'v) list \<Rightarrow> nat" where
  "alist_sum f al = sum_list (map (f \<circ> snd) al)"

lemma alist_sum_Nil [simp]: "alist_sum f [] = 0"
  by (simp add: alist_sum_def)

lemma alist_sum_Cons [simp]: "alist_sum f ((k, v) # al) = f v + alist_sum f al"
  by (simp add: alist_sum_def)

lemma alist_sum_update_new: "map_of al k = None \<Longrightarrow> alist_sum f (AList.update k v al) = alist_sum f al + f v"
  by (induction al) (auto split: if_splits)

lemma alist_sum_update:
  "map_of al k = Some w \<Longrightarrow> alist_sum f (AList.update k v al) + f w = alist_sum f al + f v"
  by (induction al) (auto split: if_splits)

lemma alist_sum_ge: "map_of al k = Some v \<Longrightarrow> f v \<le> alist_sum f al"
  by (induction al) (auto split: if_splits)

lemma alist_sum_zero: "(\<And>v. v \<in> snd ` set al \<Longrightarrow> f v = 0) \<Longrightarrow> alist_sum f al = 0"
  by (induction al) auto

end
