(* ===== verification/WorkLine.thy ===== *)
theory WorkLine
  imports Prelude
begin

text \<open>
  The fair line for work that waits its turn (\<open>crates/oneiron-base/src/work_line.rs\<close>).

  A \<open>WorkLine\<close> hands out at most \<open>bound\<close> permits; further work waits, round-robin across
  keys and in arrival order within one key, and the host's own background work waits behind every
  caller.  The state below is the one the code keeps behind its queue lock: \<^theory_text>\<open>queue\<close>
  is \<open>Queue\<close>, \<^theory_text>\<open>pool\<close> is \<open>Pool\<close> with the heap of waiters it shares through \<open>Arc\<close>:
  a waiter is its identity (\<open>Arc::ptr_eq\<close> compares identities), \<open>granted\<close> holds the waiters whose
  flag is set and \<open>fresh\<close> is the next identity.  Every operation is one critical section of the
  lock; what it says to the \<open>LineCrossing\<close> after letting the lock go is the list it returns.
  Counters are naturals: \<open>held\<close> and the epoch count work that exists, far below \<open>u64\<close>.
\<close>

section \<open>State\<close>

type_synonym wid = nat

record 'k queue =
  held :: nat
  waiting :: "('k \<times> wid list) list"
  turns :: "'k list"
  background :: "wid list"
  asked :: bool
  unmet :: nat
  epoch :: nat

record 'k pool =
  queue :: "'k queue"
  bound :: nat
  wait_ms :: nat
  crossing :: bool
  granted :: "wid set"
  fresh :: wid

text \<open>What the line's crossing hears: a crossing's beginning, and its end.\<close>

datatype saying = Crossed nat nat nat | Drained nat

text \<open>A place in line (\<open>Place\<close>), and what \<open>enter\<close> returns (\<open>Entry\<close>).\<close>

record 'k place =
  waiter :: wid
  key :: "'k option"
  settled :: bool

datatype 'k entry = Admitted | Queued "'k place"

datatype wait_timed_out = WaitTimedOut
datatype line_shortage = LineShortage nat

section \<open>Operations on the queue\<close>

definition waiters :: "'k queue \<Rightarrow> nat" where
  "waiters q = length (alist_values (waiting q)) + length (background q)"

definition begin_crossing :: "nat \<Rightarrow> 'k queue \<Rightarrow> (nat \<times> nat) option \<times> 'k queue" where
  "begin_crossing asking q =
     (if asked q then (None, q\<lparr>asked := True\<rparr>)
      else (let q' = q\<lparr>asked := True, epoch := epoch q + 1\<rparr>
            in (Some (epoch q', held q' + waiters q' + asking), q')))"

definition end_settled_crossing :: "'k queue \<Rightarrow> nat option \<times> 'k queue" where
  "end_settled_crossing q =
     (if waiters q > 0 \<or> unmet q > 0 then (None, q)
      else (if asked q then Some (epoch q) else None, q\<lparr>asked := False\<rparr>))"

definition room_returned :: "nat \<Rightarrow> 'k queue \<Rightarrow> 'k queue" where
  "room_returned b q = (if b - held q \<ge> min (unmet q) b then q\<lparr>unmet := 0\<rparr> else q)"

definition next_waiter :: "'k queue \<Rightarrow> wid option \<times> 'k queue" where
  "next_waiter q =
     (case turns q of
        k # ks \<Rightarrow>
          (let q = q\<lparr>turns := ks\<rparr>
           in case map_of (waiting q) k of
                None \<Rightarrow> (None, q)
              | Some [] \<Rightarrow> (None, q\<lparr>waiting := AList.delete k (waiting q)\<rparr>)
              | Some [w] \<Rightarrow> (Some w, q\<lparr>waiting := AList.delete k (waiting q)\<rparr>)
              | Some (w # ws) \<Rightarrow>
                  (Some w, q\<lparr>waiting := AList.update k ws (waiting q), turns := ks @ [k]\<rparr>))
      | [] \<Rightarrow>
          (case background q of
             [] \<Rightarrow> (None, q)
           | w # ws \<Rightarrow> (Some w, q\<lparr>background := ws\<rparr>)))"

section \<open>Operations on the pool\<close>

definition say_crossed :: "'k pool \<Rightarrow> (nat \<times> nat) option \<Rightarrow> saying list" where
  "say_crossed p begun =
     (case begun of Some (e, observed) \<Rightarrow> (if crossing p then [Crossed e (bound p) observed] else [])
      | None \<Rightarrow> [])"

definition say_drained :: "'k pool \<Rightarrow> nat option \<Rightarrow> saying list" where
  "say_drained p ended = (case ended of Some e \<Rightarrow> (if crossing p then [Drained e] else []) | None \<Rightarrow> [])"

definition grant :: "wid \<Rightarrow> 'k pool \<Rightarrow> 'k pool" where
  "grant w p = p\<lparr>granted := insert w (granted p)\<rparr>"

definition new_line :: "bool \<Rightarrow> nat \<Rightarrow> nat \<Rightarrow> 'k pool" where
  "new_line cross b wait =
     \<lparr>queue = \<lparr>held = 0, waiting = [], turns = [], background = [],
               asked = False, unmet = 0, epoch = 0\<rparr>,
      bound = max b 1, wait_ms = wait, crossing = cross, granted = {}, fresh = 0\<rparr>"

definition exclusive :: "nat \<Rightarrow> 'k pool" where
  "exclusive wait = new_line False 1 wait"

text \<open>\<open>enter\<close>: a free permit at once, or the end of the key's line.\<close>

definition join_line :: "'k option \<Rightarrow> wid \<Rightarrow> 'k queue \<Rightarrow> 'k queue" where
  "join_line ko w q =
     (case ko of
        Some k \<Rightarrow>
          (let line = (case map_of (waiting q) k of None \<Rightarrow> [] | Some ws \<Rightarrow> ws)
           in q\<lparr>waiting := AList.update k (line @ [w]) (waiting q),
                turns := (if line = [] then turns q @ [k] else turns q)\<rparr>)
      | None \<Rightarrow> q\<lparr>background := background q @ [w]\<rparr>)"

definition enter :: "'k option \<Rightarrow> 'k pool \<Rightarrow> 'k entry \<times> 'k pool \<times> saying list" where
  "enter ko p =
     (if held (queue p) < bound p
      then (Admitted, p\<lparr>queue := (queue p)\<lparr>held := held (queue p) + 1\<rparr>\<rparr>, [])
      else (let w = fresh p;
                q = join_line ko w (queue p);
                (begun, q') = begin_crossing 0 q;
                p' = p\<lparr>queue := q', fresh := w + 1\<rparr>
            in (Queued \<lparr>waiter = w, key = ko, settled = False\<rparr>, p', say_crossed p' begun)))"

text \<open>\<open>Place::settle\<close>: the permit if one was handed over, else out of the line.\<close>

definition leave_line :: "'k option \<Rightarrow> wid \<Rightarrow> 'k queue \<Rightarrow> 'k queue" where
  "leave_line ko w q =
     (case ko of
        Some k \<Rightarrow>
          (case map_of (waiting q) k of
             None \<Rightarrow> q
           | Some ws \<Rightarrow>
               (let ws' = filter (\<lambda>x. x \<noteq> w) ws
                in if ws' = []
                   then q\<lparr>waiting := AList.delete k (waiting q),
                          turns := filter (\<lambda>t. t \<noteq> k) (turns q)\<rparr>
                   else q\<lparr>waiting := AList.update k ws' (waiting q)\<rparr>))
      | None \<Rightarrow> q\<lparr>background := filter (\<lambda>x. x \<noteq> w) (background q)\<rparr>)"

definition settle :: "'k place \<Rightarrow> 'k pool \<Rightarrow> bool \<times> 'k place \<times> 'k pool \<times> saying list" where
  "settle pl p =
     (if settled pl then (False, pl, p, [])
      else if waiter pl \<in> granted p then (True, pl\<lparr>settled := True\<rparr>, p, [])
      else (let (ended, q) = end_settled_crossing (leave_line (key pl) (waiter pl) (queue p));
                p' = p\<lparr>queue := q\<rparr>
            in (False, pl\<lparr>settled := True\<rparr>, p', say_drained p' ended)))"

text \<open>\<open>Release::release\<close>, run when a permit is dropped.\<close>

definition release :: "'k pool \<Rightarrow> 'k pool \<times> saying list" where
  "release p =
     (if held (queue p) > bound p
      then (p\<lparr>queue := (queue p)\<lparr>held := held (queue p) - 1\<rparr>\<rparr>, [])
      else
        (let p1 = (case next_waiter (queue p) of
                     (Some w, q) \<Rightarrow> grant w (p\<lparr>queue := q\<rparr>)
                   | (None, q) \<Rightarrow>
                       p\<lparr>queue := room_returned (bound p) (q\<lparr>held := held q - 1\<rparr>)\<rparr>);
             (ended, q') = end_settled_crossing (queue p1);
             p2 = p1\<lparr>queue := q'\<rparr>
         in (p2, say_drained p2 ended)))"

text \<open>\<open>configure\<close>: the loop lets waiters in while the raised bound has room.\<close>

function fill :: "nat \<Rightarrow> 'k pool \<Rightarrow> 'k pool" where
  "fill b p =
     (if held (queue p) < b
      then (case next_waiter (queue p) of
              (None, q) \<Rightarrow> p\<lparr>queue := q\<rparr>
            | (Some w, q) \<Rightarrow> fill b (grant w (p\<lparr>queue := q\<lparr>held := held q + 1\<rparr>\<rparr>)))
      else p)"
  by pat_completeness auto

lemma next_waiter_held [simp]: "held (snd (next_waiter q)) = held q"
  by (auto simp: next_waiter_def Let_def split: list.splits option.splits)

lemma next_waiter_held': "next_waiter q = (r, q') \<Longrightarrow> held q' = held q"
  using next_waiter_held [of q] by simp

termination fill
  by (relation "measure (\<lambda>(b, p). b - held (queue p))") (auto simp: grant_def dest!: next_waiter_held' [OF sym])

declare fill.simps [simp del]

definition configure :: "nat \<Rightarrow> nat \<Rightarrow> bool \<Rightarrow> 'k pool \<Rightarrow> 'k pool \<times> saying list" where
  "configure b wait cross p =
     (let b = max b 1;
          p1 = fill b (p\<lparr>wait_ms := wait, crossing := cross, bound := b\<rparr>);
          (ended, q) = end_settled_crossing (room_returned b (queue p1));
          p2 = p1\<lparr>queue := q\<rparr>
      in (p2, say_drained p2 ended))"

definition try_admit_background :: "'k pool \<Rightarrow> bool \<times> 'k pool" where
  "try_admit_background p =
     (if held (queue p) \<ge> bound p then (False, p)
      else (True, p\<lparr>queue := (queue p)\<lparr>held := held (queue p) + 1\<rparr>\<rparr>))"

definition try_admit_background_bundle ::
    "nat \<Rightarrow> 'k pool \<Rightarrow> (line_shortage, nat) result \<times> 'k pool \<times> saying list" where
  "try_admit_background_bundle permits p =
     (let q = queue p; free = bound p - held q
      in if permits \<le> free
         then (Ok permits, p\<lparr>queue := q\<lparr>held := held q + permits\<rparr>\<rparr>, [])
         else (let (begun, q') = begin_crossing permits (q\<lparr>unmet := max (unmet q) permits\<rparr>);
                   p' = p\<lparr>queue := q'\<rparr>
               in (Err (LineShortage free), p', say_crossed p' begun)))"

definition is_idle :: "'k pool \<Rightarrow> bool" where
  "is_idle p = (held (queue p) = 0 \<and> waiters (queue p) = 0)"

definition waiting_count :: "'k pool \<Rightarrow> nat" where
  "waiting_count p = waiters (queue p)"

definition crossing_epoch :: "'k pool \<Rightarrow> nat option" where
  "crossing_epoch p = (if asked (queue p) then Some (epoch (queue p)) else None)"


section \<open>The queue as a line of waiters\<close>

text \<open>
  The contract the pool relies on: a line holds a multiset of waiters, joining adds one, leaving
  removes one, and \<open>next\<close> hands over a waiter of the line, whenever there is one.
\<close>

fun serve :: "('q \<Rightarrow> 'w option \<times> 'q) \<Rightarrow> nat \<Rightarrow> 'q \<Rightarrow> 'w list \<times> 'q" where
  "serve nxt 0 q = ([], q)"
| "serve nxt (Suc n) q =
     (case nxt q of
        (None, q') \<Rightarrow> ([], q')
      | (Some w, q') \<Rightarrow> (let (ws, q'') = serve nxt n q' in (w # ws, q'')))"

locale waiting_line =
  fixes wf :: "'q \<Rightarrow> bool"
    and elems :: "'q \<Rightarrow> 'w multiset"
    and join :: "'c \<Rightarrow> 'w \<Rightarrow> 'q \<Rightarrow> 'q"
    and nxt :: "'q \<Rightarrow> 'w option \<times> 'q"
  assumes wf_join: "wf q \<Longrightarrow> wf (join c w q)"
    and elems_join: "wf q \<Longrightarrow> elems (join c w q) = add_mset w (elems q)"
    and wf_nxt: "wf q \<Longrightarrow> wf (snd (nxt q))"
    and nxt_None: "wf q \<Longrightarrow> fst (nxt q) = None \<longleftrightarrow> elems q = {#}"
    and nxt_empty: "wf q \<Longrightarrow> elems q = {#} \<Longrightarrow> snd (nxt q) = q"
    and nxt_Some: "wf q \<Longrightarrow> fst (nxt q) = Some w \<Longrightarrow> elems q = add_mset w (elems (snd (nxt q)))"
begin

lemma wf_serve: "wf q \<Longrightarrow> wf (snd (serve nxt n q))"
proof (induction n arbitrary: q)
  case (Suc n)
  obtain r q' where r: "nxt q = (r, q')" by force
  then have "wf q'" using wf_nxt [OF Suc.prems] by simp
  with Suc.IH [of q'] r show ?case by (cases r; cases "serve nxt n q'") simp_all
qed simp

lemma serve_conserves:
  "wf q \<Longrightarrow> elems q = mset (fst (serve nxt n q)) + elems (snd (serve nxt n q))"
proof (induction n arbitrary: q)
  case (Suc n)
  obtain r q' where r: "nxt q = (r, q')" by force
  show ?case
  proof (cases r)
    case None
    with r Suc.prems nxt_None [of q] nxt_empty [of q] show ?thesis by simp
  next
    case (Some w)
    have "elems q = add_mset w (elems q')" using nxt_Some [OF Suc.prems, of w] r Some by simp
    moreover have "wf q'" using wf_nxt [OF Suc.prems] r by simp
    ultimately show ?thesis using Suc.IH [of q'] r Some by (simp split: prod.splits)
  qed
qed simp

lemma serve_length:
  "wf q \<Longrightarrow> length (fst (serve nxt n q)) = min n (size (elems q))"
proof (induction n arbitrary: q)
  case (Suc n)
  obtain r q' where r: "nxt q = (r, q')" by force
  show ?case
  proof (cases r)
    case None
    then have "elems q = {#}" using r nxt_None [OF Suc.prems] by simp
    with r None show ?thesis by simp
  next
    case (Some w)
    have e: "elems q = add_mset w (elems q')" using nxt_Some [OF Suc.prems, of w] r Some by simp
    have "wf q'" using wf_nxt [OF Suc.prems] r by simp
    then have "length (fst (serve nxt n q')) = min n (size (elems q'))" by (rule Suc.IH)
    with e r Some show ?thesis by (cases "serve nxt n q'") simp
  qed
qed simp

lemma serve_all:
  assumes "wf q" "size (elems q) \<le> n"
  shows "mset (fst (serve nxt n q)) = elems q" "elems (snd (serve nxt n q)) = {#}"
proof -
  have l: "length (fst (serve nxt n q)) = size (elems q)"
    using serve_length [OF assms(1), of n] assms(2) by (simp only: min_absorb2)
  note c = serve_conserves [OF assms(1), of n]
  have "size (elems q) = length (fst (serve nxt n q)) + size (elems (snd (serve nxt n q)))"
    by (subst c) (simp only: size_union size_mset)
  then show e: "elems (snd (serve nxt n q)) = {#}" by (simp only: l size_eq_0_iff_empty add_cancel_right_right)
  show "mset (fst (serve nxt n q)) = elems q" by (subst c) (simp only: e add_0_right)
qed

end

text \<open>The model's queue provides the contract.\<close>

declare map_of_eq_Some_iff [simp del]

definition queue_wf :: "'k queue \<Rightarrow> bool" where
  "queue_wf q \<longleftrightarrow> distinct (map fst (waiting q)) \<and> distinct (turns q) \<and>
     set (turns q) = fst ` set (waiting q) \<and>
     (\<forall>k. map_of (waiting q) k \<noteq> Some [])"

definition line_of :: "'k queue \<Rightarrow> wid multiset" where
  "line_of q = mset (alist_values (waiting q)) + mset (background q)"

lemma waiters_line: "waiters q = size (line_of q)"
  by (simp add: waiters_def line_of_def)

lemma queue_wf_turn: "queue_wf q \<Longrightarrow> k \<in> set (turns q) \<longleftrightarrow> (\<exists>ws. map_of (waiting q) k = Some ws)"
  by (metis map_of_eq_None_iff not_Some_eq queue_wf_def)

lemma queue_wf_join: "queue_wf q \<Longrightarrow> queue_wf (join_line c w q)"
proof (cases c)
  case (Some k)
  assume wf: "queue_wf q"
  show ?thesis
  proof (cases "map_of (waiting q) k")
    case None
    then have "k \<notin> fst ` set (waiting q)" by (simp add: map_of_eq_None_iff)
    with wf None Some show ?thesis
      by (auto simp: queue_wf_def join_line_def distinct_update dom_update update_conv')
  next
    case (Some ws)
    then have "k \<in> fst ` set (waiting q)" by (force dest: map_of_SomeD)
    with wf Some \<open>c = Some k\<close> show ?thesis
      by (auto simp: queue_wf_def join_line_def distinct_update dom_update update_conv' Let_def)
  qed
qed (simp add: queue_wf_def join_line_def)

lemma line_of_join: "queue_wf q \<Longrightarrow> line_of (join_line c w q) = add_mset w (line_of q)"
proof (cases c)
  case (Some k)
  assume wf: "queue_wf q"
  show ?thesis
  proof (cases "map_of (waiting q) k")
    case None
    with Some show ?thesis by (simp add: line_of_def join_line_def mset_values_update_new)
  next
    case (Some ws)
    with mset_values_update [OF Some, of "ws @ [w]"] \<open>c = Some k\<close> show ?thesis
      by (simp add: line_of_def join_line_def Let_def)
  qed
qed (simp add: line_of_def join_line_def)

lemma next_waiter_cases:
  assumes "queue_wf q"
  obtains (served) k ks w ws where "turns q = k # ks" "map_of (waiting q) k = Some (w # ws)"
      "next_waiter q = (Some w,
         if ws = [] then q\<lparr>turns := ks, waiting := AList.delete k (waiting q)\<rparr>
         else q\<lparr>waiting := AList.update k ws (waiting q), turns := ks @ [k]\<rparr>)"
    | (background) w ws where "turns q = []" "waiting q = []" "background q = w # ws"
      "next_waiter q = (Some w, q\<lparr>background := ws\<rparr>)"
    | (idle) "turns q = []" "waiting q = []" "background q = []" "next_waiter q = (None, q)"
proof (cases "turns q")
  case Nil
  with assms have "waiting q = []" by (simp add: queue_wf_def)
  with Nil that(2,3) show ?thesis
    by (cases "background q") (auto simp: next_waiter_def)
next
  case (Cons k ks)
  then obtain xs where xs: "map_of (waiting q) k = Some xs"
    using queue_wf_turn [OF assms, of k] by auto
  then obtain w ws where "xs = w # ws" using assms by (cases xs) (auto simp: queue_wf_def)
  with Cons xs that(1) [of k ks w ws] show ?thesis
    by (auto simp: next_waiter_def Let_def split: list.splits)
qed

lemma queue_wf_next: "queue_wf q \<Longrightarrow> queue_wf (snd (next_waiter q))"
proof (rule next_waiter_cases [of q])
  fix k ks w ws
  assume wf: "queue_wf q" and t: "turns q = k # ks" and m: "map_of (waiting q) k = Some (w # ws)"
    and n: "next_waiter q = (Some w,
         if ws = [] then q\<lparr>turns := ks, waiting := AList.delete k (waiting q)\<rparr>
         else q\<lparr>waiting := AList.update k ws (waiting q), turns := ks @ [k]\<rparr>)"
  have f: "k \<in> fst ` set (waiting q)" using m by (force dest: map_of_SomeD)
  from wf t n f show "queue_wf (snd (next_waiter q))"
    by (auto simp: queue_wf_def distinct_update dom_update update_conv' distinct_delete
        fst_delete_alist delete_conv' split: if_splits)
qed (auto simp: queue_wf_def)

lemma line_of_next:
  "queue_wf q \<Longrightarrow> fst (next_waiter q) = Some w \<Longrightarrow> line_of q = add_mset w (line_of (snd (next_waiter q)))"
proof (rule next_waiter_cases [of q])
  fix k ks v ws
  assume wf: "queue_wf q" and t: "turns q = k # ks" and m: "map_of (waiting q) k = Some (v # ws)"
    and n: "next_waiter q = (Some v,
         if ws = [] then q\<lparr>turns := ks, waiting := AList.delete k (waiting q)\<rparr>
         else q\<lparr>waiting := AList.update k ws (waiting q), turns := ks @ [k]\<rparr>)"
    and r: "fst (next_waiter q) = Some w"
  have d: "distinct (map fst (waiting q))" using wf by (simp add: queue_wf_def)
  show "line_of q = add_mset w (line_of (snd (next_waiter q)))"
    using mset_values_delete [OF d m] mset_values_update [OF m, of ws] n r
    by (auto simp: line_of_def split: if_splits)
qed (auto simp: line_of_def)

lemma next_waiter_None: "queue_wf q \<Longrightarrow> fst (next_waiter q) = None \<longleftrightarrow> line_of q = {#}"
proof (rule next_waiter_cases [of q])
  fix k ks v ws
  assume "map_of (waiting q) k = Some (v # ws)"
  then have "v \<in> set (alist_values (waiting q))" using map_of_values [of "waiting q" k "v # ws"] by auto
  moreover assume "next_waiter q = (Some v,
         if ws = [] then q\<lparr>turns := ks, waiting := AList.delete k (waiting q)\<rparr>
         else q\<lparr>waiting := AList.update k ws (waiting q), turns := ks @ [k]\<rparr>)"
  ultimately show ?thesis by (auto simp: line_of_def)
qed (auto simp: line_of_def)

lemma next_waiter_empty: "queue_wf q \<Longrightarrow> line_of q = {#} \<Longrightarrow> snd (next_waiter q) = q"
proof -
  assume wf: "queue_wf q" and e: "line_of q = {#}"
  then have "fst (next_waiter q) = None" by (simp add: next_waiter_None)
  with wf show ?thesis by (cases rule: next_waiter_cases) auto
qed

interpretation fair_line: waiting_line queue_wf line_of join_line next_waiter
  by (rule waiting_line.intro)
    (fact queue_wf_join line_of_join queue_wf_next next_waiter_None next_waiter_empty line_of_next)+


section \<open>Where a waiter stands\<close>

definition queued :: "'k queue \<Rightarrow> wid list" where
  "queued q = alist_values (waiting q) @ background q"

definition located :: "'k option \<Rightarrow> wid \<Rightarrow> 'k queue \<Rightarrow> bool" where
  "located ko w q =
     (case ko of
        Some k \<Rightarrow> (case map_of (waiting q) k of None \<Rightarrow> False | Some ws \<Rightarrow> w \<in> set ws)
      | None \<Rightarrow> w \<in> set (background q))"

lemma mset_queued: "mset (queued q) = line_of q"
  by (simp add: queued_def line_of_def)

lemma set_queued: "set (queued q) = set_mset (line_of q)"
  by (metis mset_queued set_mset_mset)

lemma queue_wf_update:
  "queue_wf q \<Longrightarrow> k \<in> fst ` set (waiting q) \<Longrightarrow> v \<noteq> [] \<Longrightarrow>
   queue_wf (q\<lparr>waiting := AList.update k v (waiting q)\<rparr>)"
  by (auto simp: queue_wf_def distinct_update dom_update update_conv')

lemma mset_swap_add: "A + W = B + F \<Longrightarrow> add_mset w F = W \<Longrightarrow> add_mset w A = B"
  by (metis add_mset_add_single add_right_cancel union_mset_add_mset_left union_mset_add_mset_right)

lemma mset_add_distinct:
  "mset xs = add_mset w (mset ys) \<Longrightarrow> distinct xs \<longleftrightarrow> w \<notin> set ys \<and> distinct ys"
  using mset_distinct_cong [of xs "w # ys"] by simp

lemma queued_add:
  "line_of q = add_mset w (line_of q') \<Longrightarrow>
   (distinct (queued q) \<longleftrightarrow> w \<notin> set (queued q') \<and> distinct (queued q')) \<and>
   set (queued q) = insert w (set (queued q'))"
  by (metis mset_add_distinct mset_queued set_mset_add_mset_insert set_queued)

lemma located_queued: "located ko w q \<Longrightarrow> w \<in> set (queued q)"
  using map_of_values [of "waiting q"]
  by (fastforce simp: located_def queued_def split: option.splits)

lemma located_join: "located ko w q \<Longrightarrow> located ko w (join_line c v q)"
  by (auto simp: located_def join_line_def Let_def update_conv' split: option.splits)

lemma located_join_self: "located c w (join_line c w q)"
  by (auto simp: located_def join_line_def Let_def update_conv' split: option.splits)

text \<open>Leaving the line removes the one waiter and keeps every other in its place.\<close>

lemma leave_line_line:
  assumes wf: "queue_wf q" and d: "distinct (queued q)" and l: "located c w q"
  shows "queue_wf (leave_line c w q)" and "line_of q = add_mset w (line_of (leave_line c w q))"
proof -
  have "queue_wf (leave_line c w q) \<and> line_of q = add_mset w (line_of (leave_line c w q))"
  proof (cases c)
    case None
    have "distinct (background q)" using d by (simp add: queued_def)
    moreover have "w \<in> set (background q)" using l None by (simp add: located_def)
    ultimately show ?thesis using wf None
      by (simp add: leave_line_def queue_wf_def line_of_def flip: mset_filter_neq)
  next
    case (Some k)
    with l obtain ws where m: "map_of (waiting q) k = Some ws" and w: "w \<in> set ws"
      by (auto simp: located_def split: option.splits)
    have dk: "distinct (map fst (waiting q))" using wf by (simp add: queue_wf_def)
    have "distinct ws"
    proof -
      have "ws \<in> snd ` set (waiting q)" using m by (force dest: map_of_SomeD)
      then show ?thesis using d by (auto simp: queued_def alist_values_def distinct_concat_iff)
    qed
    then have f: "add_mset w (mset (filter (\<lambda>x. x \<noteq> w) ws)) = mset ws"
      by (metis mset_filter mset_filter_neq w)
    have k: "k \<in> fst ` set (waiting q)" using m by (force dest: map_of_SomeD)
    let ?ws = "filter (\<lambda>x. x \<noteq> w) ws"
    show ?thesis
    proof (cases "?ws = []")
      case True
      have e: "leave_line c w q = q\<lparr>waiting := AList.delete k (waiting q), turns := filter (\<lambda>t. t \<noteq> k) (turns q)\<rparr>"
        using Some m True by (simp only: leave_line_def Let_def option.case) simp
      have "mset ws = {#w#}" using f unfolding True by simp
      with mset_values_delete [OF dk m] wf k show ?thesis
        by (auto simp: e queue_wf_def line_of_def distinct_delete fst_delete_alist delete_conv')
    next
      case False
      have e: "leave_line c w q = q\<lparr>waiting := AList.update k ?ws (waiting q)\<rparr>"
        using Some m False by (simp only: leave_line_def Let_def option.case) simp
      have "add_mset w (mset (alist_values (AList.update k ?ws (waiting q)))) = mset (alist_values (waiting q))"
        by (rule mset_swap_add [OF mset_values_update [OF m] f])
      moreover have "queue_wf (q\<lparr>waiting := AList.update k ?ws (waiting q)\<rparr>)"
        by (rule queue_wf_update [OF wf k False])
      ultimately show ?thesis by (simp only: e) (simp add: line_of_def)
    qed
  qed
  then show "queue_wf (leave_line c w q)" and "line_of q = add_mset w (line_of (leave_line c w q))"
    by auto
qed

lemma located_leave: "v \<noteq> w \<Longrightarrow> located ko v q \<Longrightarrow> located ko v (leave_line c w q)"
  by (auto simp: located_def leave_line_def Let_def update_conv' delete_conv' filter_empty_conv
      split: option.splits)

lemma located_next:
  "queue_wf q \<Longrightarrow> next_waiter q = (Some v, q') \<Longrightarrow> w \<noteq> v \<Longrightarrow> located ko w q \<Longrightarrow> located ko w q'"
  by (erule next_waiter_cases)
    (auto simp: located_def update_conv' delete_conv' split: option.splits if_splits)

lemma leave_line_fields [simp]:
  "held (leave_line c w q) = held q" "asked (leave_line c w q) = asked q"
  "unmet (leave_line c w q) = unmet q" "epoch (leave_line c w q) = epoch q"
  by (auto simp: leave_line_def Let_def split: option.splits)

lemma join_line_fields [simp]:
  "held (join_line c w q) = held q" "asked (join_line c w q) = asked q"
  "unmet (join_line c w q) = unmet q" "epoch (join_line c w q) = epoch q"
  by (auto simp: join_line_def Let_def split: option.splits)

lemma next_waiter_fields [simp]:
  "asked (snd (next_waiter q)) = asked q" "unmet (snd (next_waiter q)) = unmet q"
  "epoch (snd (next_waiter q)) = epoch q"
  by (auto simp: next_waiter_def Let_def split: list.splits option.splits)

section \<open>The pool invariant\<close>

text \<open>
  Waiters exist only while every permit is held; a crossing is in progress exactly while work
  waits or a bundle's shortage is unmet; a shortage is unmet only while room for it lacks.
\<close>

definition crossing_inv :: "nat \<Rightarrow> 'k queue \<Rightarrow> bool" where
  "crossing_inv b q \<longleftrightarrow>
     (waiters q > 0 \<longrightarrow> held q \<ge> b) \<and>
     (asked q \<longleftrightarrow> waiters q > 0 \<or> unmet q > 0) \<and>
     (unmet q > 0 \<longrightarrow> b - held q < min (unmet q) b \<or> held q = 0 \<and> unmet q > b)"

definition pool_wf :: "'k pool \<Rightarrow> bool" where
  "pool_wf p \<longleftrightarrow>
     queue_wf (queue p) \<and> distinct (queued (queue p)) \<and> bound p \<ge> 1 \<and>
     set (queued (queue p)) \<inter> granted p = {} \<and>
     (\<forall>w \<in> set (queued (queue p)) \<union> granted p. w < fresh p)"

definition pool_inv :: "'k pool \<Rightarrow> bool" where
  "pool_inv p \<longleftrightarrow> pool_wf p \<and> crossing_inv (bound p) (queue p)"

declare pool_wf_def [pool_simps] pool_inv_def [pool_simps]

lemma pool_invD:
  assumes "pool_inv p"
  shows "queue_wf (queue p)" "distinct (queued (queue p))" "bound p \<ge> 1"
    "crossing_inv (bound p) (queue p)"
  using assms by (auto simp: pool_simps)

lemma queued_unaffected [simp]:
  "queued (q\<lparr>held := h\<rparr>) = queued q" "queued (q\<lparr>asked := a\<rparr>) = queued q"
  "queued (q\<lparr>unmet := u\<rparr>) = queued q" "queued (q\<lparr>epoch := e\<rparr>) = queued q"
  "waiters (q\<lparr>held := h\<rparr>) = waiters q" "waiters (q\<lparr>asked := a\<rparr>) = waiters q"
  "waiters (q\<lparr>unmet := u\<rparr>) = waiters q" "waiters (q\<lparr>epoch := e\<rparr>) = waiters q"
  "queue_wf (q\<lparr>held := h\<rparr>) = queue_wf q" "queue_wf (q\<lparr>asked := a\<rparr>) = queue_wf q"
  "queue_wf (q\<lparr>unmet := u\<rparr>) = queue_wf q" "queue_wf (q\<lparr>epoch := e\<rparr>) = queue_wf q"
  "located c w (q\<lparr>held := h\<rparr>) = located c w q" "located c w (q\<lparr>asked := a\<rparr>) = located c w q"
  "located c w (q\<lparr>unmet := u\<rparr>) = located c w q" "located c w (q\<lparr>epoch := e\<rparr>) = located c w q"
  "line_of (q\<lparr>held := h\<rparr>) = line_of q" "line_of (q\<lparr>asked := a\<rparr>) = line_of q"
  "line_of (q\<lparr>unmet := u\<rparr>) = line_of q" "line_of (q\<lparr>epoch := e\<rparr>) = line_of q"
  by (simp_all add: queued_def waiters_def queue_wf_def located_def line_of_def split: option.split)

lemma waiters_queued: "waiters q = length (queued q)"
  by (simp add: waiters_def queued_def)

lemma new_line_inv: "pool_inv (new_line cross b wait)"
  by (simp add: pool_simps new_line_def queue_wf_def queued_def waiters_def crossing_inv_def)


lemma crossing_inv_begin:
  "crossing_inv b (q\<lparr>asked := a\<rparr>) \<Longrightarrow> crossing_inv b (q\<lparr>asked := a, epoch := e\<rparr>)"
  by (simp add: crossing_inv_def)

text \<open>Entering: a permit when one is free, the end of the key's line when none is.\<close>

lemma enter_admitted:
  assumes "pool_inv p" "held (queue p) < bound p"
  shows "enter ko p = (Admitted, p\<lparr>queue := (queue p)\<lparr>held := held (queue p) + 1\<rparr>\<rparr>, [])"
    and "pool_inv (p\<lparr>queue := (queue p)\<lparr>held := held (queue p) + 1\<rparr>\<rparr>)"
  using assms by (auto simp: enter_def pool_simps crossing_inv_def)

lemma enter_queued:
  assumes inv: "pool_inv p" and full: "\<not> held (queue p) < bound p"
    and e: "enter ko p = (en, p', said)"
  shows "en = Queued \<lparr>waiter = fresh p, key = ko, settled = False\<rparr>"
    and "pool_inv p'" and "held (queue p') = held (queue p)" and "granted p' = granted p"
    and "bound p' = bound p" and "fresh p' = Suc (fresh p)"
    and "located ko (fresh p) (queue p')"
    and "line_of (queue p') = add_mset (fresh p) (line_of (queue p))"
    and "\<And>c w. located c w (queue p) \<Longrightarrow> located c w (queue p')"
proof -
  let ?q = "join_line ko (fresh p) (queue p)"
  obtain begun q' where b: "begin_crossing 0 ?q = (begun, q')" by force
  have q': "q' = ?q\<lparr>asked := True, epoch := epoch q'\<rparr>"
    using b by (auto simp: begin_crossing_def Let_def split: if_splits)
  have p': "en = Queued \<lparr>waiter = fresh p, key = ko, settled = False\<rparr>"
      "p' = p\<lparr>queue := q', fresh := Suc (fresh p)\<rparr>"
    using e full b by (auto simp: enter_def Let_def)
  have l: "line_of q' = add_mset (fresh p) (line_of (queue p))"
    using line_of_join [of "queue p" ko "fresh p"] pool_invD(1) [OF inv]
    by (subst q') simp
  then have w: "waiters q' > 0" by (simp add: waiters_line)
  have wf: "queue_wf q'" using queue_wf_join [OF pool_invD(1) [OF inv], of ko "fresh p"]
    by (subst q') simp
  have h: "held q' = held (queue p)" "unmet q' = unmet (queue p)" "asked q'"
    by (subst q', simp)+
  from p' show "en = Queued \<lparr>waiter = fresh p, key = ko, settled = False\<rparr>" by simp
  from p' h show "held (queue p') = held (queue p)" "granted p' = granted p"
      "bound p' = bound p" "fresh p' = Suc (fresh p)" by simp_all
  show "line_of (queue p') = add_mset (fresh p) (line_of (queue p))" using p' l by simp
  show "located ko (fresh p) (queue p')" using p'
    by (simp, subst q') (simp add: located_join_self)
  show "\<And>c w. located c w (queue p) \<Longrightarrow> located c w (queue p')" using p'
    by (simp, subst q') (simp add: located_join)
  have n: "fresh p \<notin> set (queued (queue p))" "fresh p \<notin> granted p"
    using inv by (auto simp: pool_simps)
  have "crossing_inv (bound p) q'"
    using pool_invD(4) [OF inv] w h full by (auto simp: crossing_inv_def)
  with queued_add [OF l] n inv wf p' show "pool_inv p'"
    by (auto simp: pool_simps less_Suc_eq)
qed

text \<open>Settling: the permit, when it was handed over, or out of the line.\<close>

lemma end_settled_fields [simp]:
  "held (snd (end_settled_crossing q)) = held q" "unmet (snd (end_settled_crossing q)) = unmet q"
  "epoch (snd (end_settled_crossing q)) = epoch q"
  "queued (snd (end_settled_crossing q)) = queued q"
  "waiters (snd (end_settled_crossing q)) = waiters q"
  "line_of (snd (end_settled_crossing q)) = line_of q"
  "queue_wf (snd (end_settled_crossing q)) = queue_wf q"
  "located c w (snd (end_settled_crossing q)) = located c w q"
  "asked (snd (end_settled_crossing q)) = (asked q \<and> (waiters q > 0 \<or> unmet q > 0))"
  by (auto simp: end_settled_crossing_def)

lemma end_settled_crossing_inv:
  "(waiters q > 0 \<longrightarrow> held q \<ge> b) \<Longrightarrow> (waiters q > 0 \<or> unmet q > 0 \<longrightarrow> asked q) \<Longrightarrow>
   (unmet q > 0 \<longrightarrow> b - held q < min (unmet q) b \<or> held q = 0 \<and> unmet q > b) \<Longrightarrow>
   crossing_inv b (snd (end_settled_crossing q))"
  by (auto simp: crossing_inv_def)

lemma settle_granted:
  assumes "\<not> settled pl" "waiter pl \<in> granted p"
  shows "settle pl p = (True, pl\<lparr>settled := True\<rparr>, p, [])"
  using assms by (simp add: settle_def)

lemma settle_left:
  assumes inv: "pool_inv p" and u: "\<not> settled pl" and g: "waiter pl \<notin> granted p"
    and l: "located (key pl) (waiter pl) (queue p)"
    and s: "settle pl p = (got, pl', p', said)"
  shows "\<not> got" and "pool_inv p'" and "held (queue p') = held (queue p)"
    and "granted p' = granted p" and "bound p' = bound p" and "fresh p' = fresh p"
    and "line_of (queue p) = add_mset (waiter pl) (line_of (queue p'))"
    and "\<And>c v. v \<noteq> waiter pl \<Longrightarrow> located c v (queue p) \<Longrightarrow> located c v (queue p')"
proof -
  let ?q = "leave_line (key pl) (waiter pl) (queue p)"
  note L = leave_line_line [OF pool_invD(1,2) [OF inv] l]
  have p': "\<not> got" "p' = p\<lparr>queue := snd (end_settled_crossing ?q)\<rparr>"
    using s u g by (auto simp: settle_def Let_def split: prod.splits)
  from p' show "\<not> got" "held (queue p') = held (queue p)" "granted p' = granted p"
    "bound p' = bound p" "fresh p' = fresh p" by simp_all
  show line: "line_of (queue p) = add_mset (waiter pl) (line_of (queue p'))" using L(2) p' by simp
  show "\<And>c v. v \<noteq> waiter pl \<Longrightarrow> located c v (queue p) \<Longrightarrow> located c v (queue p')"
    using p' by (simp add: located_leave)
  have "waiters (queue p) > 0" using line by (simp add: waiters_line)
  then have "crossing_inv (bound p) (queue p')"
    using pool_invD(4) [OF inv] p' by (auto intro!: end_settled_crossing_inv simp: crossing_inv_def)
  moreover have "queue_wf (queue p')" using L(1) p' by simp
  ultimately show "pool_inv p'"
    using queued_add [OF line] inv p' by (auto simp: pool_simps)
qed


section \<open>Handing permits over\<close>

text \<open>
  What release and configure do to the line: some waiters leave it with their flag set, every
  other keeps its place.
\<close>

definition handover :: "'k pool \<Rightarrow> wid list \<Rightarrow> 'k pool \<Rightarrow> bool" where
  "handover p ws p' \<longleftrightarrow>
     line_of (queue p) = mset ws + line_of (queue p') \<and> granted p' = granted p \<union> set ws \<and>
     fresh p' = fresh p \<and>
     (\<forall>c v. v \<notin> set ws \<longrightarrow> located c v (queue p) \<longrightarrow> located c v (queue p'))"

lemma handover_refl: "handover p [] p"
  by (simp add: handover_def)

lemma handover_one:
  assumes "pool_wf p" "next_waiter (queue p) = (Some w, q)"
  shows "handover p [w] (grant w (p\<lparr>queue := q\<rparr>))" "pool_wf (grant w (p\<lparr>queue := q\<rparr>))"
proof -
  have wf: "queue_wf (queue p)" using assms by (simp add: pool_wf_def)
  have l: "line_of (queue p) = add_mset w (line_of q)"
    using fair_line.nxt_Some [OF wf, of w] assms(2) by simp
  have "queue_wf q" using fair_line.wf_nxt [OF wf] assms(2) by simp
  with queued_add [OF l] assms(1) show "pool_wf (grant w (p\<lparr>queue := q\<rparr>))"
    by (auto simp: pool_wf_def grant_def)
  from l located_next [OF wf assms(2)] show "handover p [w] (grant w (p\<lparr>queue := q\<rparr>))"
    by (auto simp: handover_def grant_def)
qed

lemma handover_trans:
  "handover p ws p' \<Longrightarrow> handover p' vs p'' \<Longrightarrow> handover p (ws @ vs) p''"
  by (auto simp: handover_def ac_simps)

lemma handover_queue:
  "handover p ws p' \<Longrightarrow> line_of q = line_of (queue p') \<Longrightarrow>
   (\<And>c v. located c v (queue p') \<Longrightarrow> located c v q) \<Longrightarrow> handover p ws (p'\<lparr>queue := q\<rparr>)"
  by (auto simp: handover_def)

lemma pool_wf_queue:
  "pool_wf p \<Longrightarrow> queued q = queued (queue p) \<Longrightarrow> queue_wf q = queue_wf (queue p) \<Longrightarrow>
   pool_wf (p\<lparr>queue := q\<rparr>)"
  by (simp add: pool_wf_def)

lemma room_returned_fields [simp]:
  "held (room_returned b q) = held q" "asked (room_returned b q) = asked q"
  "queued (room_returned b q) = queued q" "waiters (room_returned b q) = waiters q"
  "line_of (room_returned b q) = line_of q" "queue_wf (room_returned b q) = queue_wf q"
  "located c w (room_returned b q) = located c w q"
  "unmet (room_returned b q) = (if b - held q \<ge> min (unmet q) b then 0 else unmet q)"
  by (auto simp: room_returned_def)

lemma next_waiter_none:
  assumes "queue_wf q" "next_waiter q = (None, q')"
  shows "q' = q" "waiters q = 0"
proof -
  have "line_of q = {#}" using assms next_waiter_None [of q] by simp
  then show "waiters q = 0" and "q' = q"
    using assms next_waiter_empty [of q] by (auto simp: waiters_line)
qed

lemma release_effect:
  assumes inv: "pool_inv p" and h: "held (queue p) > 0" and r: "release p = (p', said)"
  shows "pool_inv p' \<and> bound p' = bound p \<and>
    (\<exists>ws. handover p ws p' \<and> held (queue p') + 1 = held (queue p) + length ws)"
proof (cases "held (queue p) > bound p")
  case True
  then have "p' = p\<lparr>queue := (queue p)\<lparr>held := held (queue p) - 1\<rparr>\<rparr>"
    using r by (simp add: release_def)
  with True inv show ?thesis
    by (auto simp: pool_simps crossing_inv_def handover_def intro!: exI [of _ "[]"])
next
  case False
  have wf: "pool_wf p" "queue_wf (queue p)" using inv by (auto simp: pool_simps)
  obtain o' q where n: "next_waiter (queue p) = (o', q)" by force
  show ?thesis
  proof (cases o')
    case None
    then have q: "q = queue p" "waiters (queue p) = 0"
      using next_waiter_none [OF wf(2)] n by auto
    let ?q = "room_returned (bound p) (q\<lparr>held := held q - 1\<rparr>)"
    have p': "p' = p\<lparr>queue := snd (end_settled_crossing ?q)\<rparr>"
      using r False n None by (auto simp: release_def Let_def split: prod.splits)
    have "crossing_inv (bound p) (snd (end_settled_crossing ?q))"
      by (rule end_settled_crossing_inv)
        (use pool_invD(4) [OF inv] q in \<open>auto simp: crossing_inv_def\<close>)
    moreover have "handover p [] p'" using p' q by (auto simp: handover_def)
    moreover have "pool_wf p'" using wf p' q by (auto intro!: pool_wf_queue)
    ultimately show ?thesis using p' q h
      by (auto simp: pool_inv_def intro!: exI [of _ "[]"])
  next
    case (Some w)
    let ?p = "grant w (p\<lparr>queue := q\<rparr>)"
    have p': "p' = ?p\<lparr>queue := snd (end_settled_crossing q)\<rparr>"
      using r False n Some by (auto simp: release_def Let_def grant_def split: prod.splits)
    have nw: "next_waiter (queue p) = (Some w, q)" using n Some by simp
    note H = handover_one [OF wf(1) nw]
    have f: "held q = held (queue p)" "asked q = asked (queue p)" "unmet q = unmet (queue p)"
      using n next_waiter_held [of "queue p"] next_waiter_fields [of "queue p"] by auto
    have w: "waiters (queue p) > 0"
      using fair_line.nxt_Some [OF wf(2), of w] nw by (simp add: waiters_line)
    have "crossing_inv (bound p) (snd (end_settled_crossing q))"
      by (rule end_settled_crossing_inv)
        (use pool_invD(4) [OF inv] w f in \<open>auto simp: crossing_inv_def\<close>)
    moreover have "handover p [w] p'" unfolding p' using H(1)
      by (rule handover_queue) (auto simp: grant_def)
    moreover have "pool_wf p'" unfolding p' using H(2) by (rule pool_wf_queue) (auto simp: grant_def)
    ultimately show ?thesis using p' f by (auto simp: pool_inv_def grant_def intro!: exI [of _ "[w]"])
  qed
qed

lemma fill_effect:
  assumes "pool_wf p"
  shows "pool_wf (fill b p) \<and> bound (fill b p) = bound p \<and> crossing (fill b p) = crossing p \<and>
     asked (queue (fill b p)) = asked (queue p) \<and> unmet (queue (fill b p)) = unmet (queue p) \<and>
     epoch (queue (fill b p)) = epoch (queue p) \<and>
     held (queue (fill b p)) \<le> max b (held (queue p)) \<and>
     (waiters (queue (fill b p)) > 0 \<longrightarrow> held (queue (fill b p)) \<ge> b) \<and>
     (\<exists>ws. handover p ws (fill b p) \<and> held (queue (fill b p)) = held (queue p) + length ws)"
  using assms
proof (induction b p rule: fill.induct)
  case (1 b p)
  have wf: "queue_wf (queue p)" using 1(2) by (simp add: pool_wf_def)
  obtain o' q where n: "next_waiter (queue p) = (o', q)" by force
  show ?case
  proof (cases "held (queue p) < b")
    case False
    then have "fill b p = p" by (simp add: fill.simps)
    with False 1(2) show ?thesis by (auto intro!: exI [of _ "[]"] handover_refl)
  next
    case True
    show ?thesis
    proof (cases o')
      case None
      then have "q = queue p" "waiters (queue p) = 0" using next_waiter_none [OF wf] n by auto
      then have "fill b p = p" using True n None by (simp add: fill.simps)
      with \<open>waiters (queue p) = 0\<close> 1(2) True show ?thesis
        by (auto intro!: exI [of _ "[]"] handover_refl)
    next
      case (Some w)
      let ?p = "grant w (p\<lparr>queue := q\<lparr>held := held q + 1\<rparr>\<rparr>)"
      have nw: "next_waiter (queue p) = (Some w, q)" using n Some by simp
      have f: "held q = held (queue p)" "asked q = asked (queue p)" "unmet q = unmet (queue p)"
        "epoch q = epoch (queue p)"
        using n next_waiter_held [of "queue p"] next_waiter_fields [of "queue p"] by auto
      have e: "fill b p = fill b ?p" using True nw by (simp add: fill.simps)
      have p: "?p = (grant w (p\<lparr>queue := q\<rparr>))\<lparr>queue := q\<lparr>held := held q + 1\<rparr>\<rparr>"
        by (simp add: grant_def)
      note H = handover_one [OF 1(2) nw]
      have h: "handover p [w] ?p" unfolding p using H(1)
        by (rule handover_queue) (auto simp: grant_def)
      have "pool_wf ?p" unfolding p using H(2) by (rule pool_wf_queue) (auto simp: grant_def)
      note IH = 1(1) [OF True, OF n [symmetric], OF Some this]
      from IH obtain ws where "handover ?p ws (fill b ?p)"
        "held (queue (fill b ?p)) = held (queue ?p) + length ws" by blast
      with handover_trans [OF h] have "\<exists>ws. handover p ws (fill b p) \<and>
          held (queue (fill b p)) = held (queue p) + length ws"
        using f e by (auto simp: grant_def intro!: exI [of _ "[w] @ ws"])
      moreover have "bound ?p = bound p" "crossing ?p = crossing p" "asked (queue ?p) = asked (queue p)"
        "unmet (queue ?p) = unmet (queue p)" "epoch (queue ?p) = epoch (queue p)"
        "held (queue ?p) = held (queue p) + 1" using f by (simp_all add: grant_def)
      ultimately show ?thesis using IH True unfolding e by auto
    qed
  qed
qed


lemma configure_effect:
  assumes inv: "pool_inv p" and c: "configure b wait cross p = (p', said)"
  shows "pool_inv p' \<and> bound p' = max b 1 \<and> crossing p' = cross \<and>
    (\<exists>ws. handover p ws p' \<and> held (queue p') = held (queue p) + length ws) \<and>
    held (queue p') \<le> max (max b 1) (held (queue p))"
proof -
  let ?p = "p\<lparr>wait_ms := wait, crossing := cross, bound := max b 1\<rparr>"
  define m f q where "m = max b 1" and "f = fill m ?p" and "q = room_returned m (queue f)"
  have wf: "pool_wf ?p" using inv by (simp add: pool_simps)
  have F: "pool_wf f" "bound f = m" "crossing f = cross" "asked (queue f) = asked (queue p)"
      "unmet (queue f) = unmet (queue p)" "held (queue f) \<le> max m (held (queue p))"
      "waiters (queue f) > 0 \<longrightarrow> held (queue f) \<ge> m"
    using fill_effect [OF wf, of m] by (simp_all add: f_def m_def)
  obtain ws where "handover ?p ws f" and ws2: "held (queue f) = held (queue p) + length ws"
    using fill_effect [OF wf, of m] by (auto simp: f_def)
  then have ws: "handover p ws f" by (simp add: handover_def)
  have p': "p' = f\<lparr>queue := snd (end_settled_crossing q)\<rparr>"
    using c by (auto simp: configure_def Let_def f_def q_def m_def split: prod.splits)
  have a: "asked (queue p) \<longleftrightarrow> waiters (queue p) > 0 \<or> unmet (queue p) > 0"
    using pool_invD(4) [OF inv] by (simp add: crossing_inv_def)
  have l: "line_of (queue p) = mset ws + line_of (queue f)" using ws by (simp add: handover_def)
  have w: "waiters (queue f) > 0 \<Longrightarrow> waiters (queue p) > 0"
    using arg_cong [OF l, of size] by (simp add: waiters_line)
  have "crossing_inv m (snd (end_settled_crossing q))"
  proof (rule end_settled_crossing_inv)
    show "0 < waiters q \<longrightarrow> m \<le> held q" using F(7) by (simp add: q_def)
    show "0 < waiters q \<or> 0 < unmet q \<longrightarrow> asked q" using F(4,5) a w by (auto simp: q_def)
    show "0 < unmet q \<longrightarrow> m - held q < min (unmet q) m \<or> held q = 0 \<and> m < unmet q"
      by (auto simp: q_def)
  qed
  moreover have "pool_wf p'" unfolding p' using F(1) by (rule pool_wf_queue) (simp_all add: q_def)
  ultimately have "pool_inv p'" using F(2) p' by (simp add: pool_inv_def)
  moreover have "handover p ws p'" unfolding p' using ws by (rule handover_queue) (simp_all add: q_def)
  ultimately show ?thesis using F(2,3,6) ws2 p' by (auto simp: q_def m_def)
qed

lemma try_background_effect:
  assumes "pool_inv p" "try_admit_background p = (got, p')"
  shows "pool_inv p' \<and> handover p [] p' \<and> bound p' = bound p \<and> crossing p' = crossing p \<and>
    held (queue p') = held (queue p) + of_bool got \<and> held (queue p') \<le> max (held (queue p)) (bound p)"
  using assms by (auto simp: try_admit_background_def pool_simps crossing_inv_def handover_def split: if_splits)

lemma bundle_effect:
  assumes inv: "pool_inv p" and b: "try_admit_background_bundle n p = (r, p', said)"
  shows "pool_inv p' \<and> handover p [] p' \<and> bound p' = bound p \<and> crossing p' = crossing p \<and>
    held (queue p') = held (queue p) + (case r of Inr m \<Rightarrow> m | Inl _ \<Rightarrow> 0) \<and>
    held (queue p') \<le> max (held (queue p)) (bound p)"
proof (cases "n \<le> bound p - held (queue p)")
  case True
  then have r: "r = Ok n" "p' = p\<lparr>queue := (queue p)\<lparr>held := held (queue p) + n\<rparr>\<rparr>"
    using b by (simp_all add: try_admit_background_bundle_def Let_def)
  have "held (queue p) < bound p \<or> n = 0" using True by linarith
  then have "crossing_inv (bound p) (queue p')"
    using pool_invD(4) [OF inv] by (auto simp: r crossing_inv_def)
  then have "pool_inv p'" using inv by (simp add: r pool_simps)
  moreover have "held (queue p) + n \<le> max (held (queue p)) (bound p)" using True by linarith
  ultimately show ?thesis by (simp add: r handover_def)
next
  case False
  let ?q = "(queue p)\<lparr>unmet := max (unmet (queue p)) n\<rparr>"
  obtain bg q' where g: "begin_crossing n ?q = (bg, q')" by force
  have q': "q' = ?q\<lparr>asked := True, epoch := epoch q'\<rparr>"
    using g by (auto simp: begin_crossing_def Let_def split: if_splits)
  have p': "r = Err (LineShortage (bound p - held (queue p)))" "p' = p\<lparr>queue := q'\<rparr>"
    using b False g by (auto simp: try_admit_background_bundle_def Let_def)
  have f: "held q' = held (queue p)" "asked q'" "unmet q' = max (unmet (queue p)) n"
    "queued q' = queued (queue p)" "waiters q' = waiters (queue p)" "line_of q' = line_of (queue p)"
    "queue_wf q' = queue_wf (queue p)" "\<And>c w. located c w q' = located c w (queue p)"
    by (subst q', simp)+
  have "bound p - held (queue p) < bound p \<or> held (queue p) = 0"
    using pool_invD(3) [OF inv] by linarith
  with f False pool_invD(4) [OF inv] have "crossing_inv (bound p) q'"
    by (auto simp: crossing_inv_def)
  with p' f inv show ?thesis by (auto simp: pool_simps handover_def)
qed

lemma release_held:
  assumes inv: "pool_inv p" and h: "held (queue p) > 0" and r: "release p = (p', said)"
  shows "held (queue p') \<le> held (queue p)"
proof (cases "next_waiter (queue p)")
  case (Pair o' q)
  then have "held q = held (queue p)" using next_waiter_held [of "queue p"] by simp
  with Pair r show ?thesis
    by (cases o')
      (auto simp: release_def Let_def grant_def end_settled_crossing_def room_returned_def split: if_splits)
qed

end
