(* ===== verification/WorkLineRuns.thy ===== *)
theory WorkLineRuns
  imports WorkLine
begin

text \<open>
  Runs of the work line: the machine of a pool and the work that uses it, what it keeps on every
  run, what its crossing hears, whose turn comes when, and the calls that wait for a permit
  (\<open>admit_blocking\<close>, \<open>admit_in_line_until\<close>, \<open>admit_blocking_untimed\<close> and their variants) while
  other threads use the line.
\<close>

section \<open>The line and the work that uses it\<close>

text \<open>
  The callers' side: the permits that are held (\<open>LinePermit\<close> values alive) and the places not
  yet settled (\<open>Place\<close> values alive).  A step is one critical section of the lock; which caller
  moves is not determined.  The list is what the step says to the crossing.
\<close>

record 'k line =
  pool :: "'k pool"
  permits :: nat
  places :: "'k place list"

inductive line_step :: "'k line \<Rightarrow> saying list \<Rightarrow> 'k line \<Rightarrow> bool" where
  enters_now: "enter ko (pool s) = (Admitted, p, said) \<Longrightarrow>
     line_step s said (s\<lparr>pool := p, permits := permits s + 1\<rparr>)"
| enters_line: "enter ko (pool s) = (Queued pl, p, said) \<Longrightarrow>
     line_step s said (s\<lparr>pool := p, places := places s @ [pl]\<rparr>)"
| settles: "places s = xs @ pl # ys \<Longrightarrow> settle pl (pool s) = (got, pl', p, said) \<Longrightarrow>
     line_step s said (s\<lparr>pool := p, permits := permits s + of_bool got, places := xs @ ys\<rparr>)"
| drops: "permits s > 0 \<Longrightarrow> release (pool s) = (p, said) \<Longrightarrow>
     line_step s said (s\<lparr>pool := p, permits := permits s - 1\<rparr>)"
| configures: "configure b wait cross (pool s) = (p, said) \<Longrightarrow>
     line_step s said (s\<lparr>pool := p\<rparr>)"
| tries: "try_admit_background (pool s) = (got, p) \<Longrightarrow>
     line_step s [] (s\<lparr>pool := p, permits := permits s + of_bool got\<rparr>)"
| bundles: "try_admit_background_bundle n (pool s) = (r, p, said) \<Longrightarrow>
     line_step s said (s\<lparr>pool := p, permits := permits s + (case r of Inr m \<Rightarrow> m | Inl _ \<Rightarrow> 0)\<rparr>)"

text \<open>
  A run from a new line whose every pool satisfies \<open>ok\<close>, with what it said.
\<close>

inductive line_run :: "('k pool \<Rightarrow> bool) \<Rightarrow> 'k line \<Rightarrow> saying list \<Rightarrow> bool" for ok where
  opened: "ok (new_line cross b wait) \<Longrightarrow>
     line_run ok \<lparr>pool = new_line cross b wait, permits = 0, places = []\<rparr> []"
| stepped: "line_run ok s log \<Longrightarrow> line_step s said s' \<Longrightarrow> ok (pool s') \<Longrightarrow>
     line_run ok s' (log @ said)"

text \<open>The places whose permit was handed over and not yet taken.\<close>

definition handed :: "'k line \<Rightarrow> nat" where
  "handed s = length (filter (\<lambda>pl. waiter pl \<in> granted (pool s)) (places s))"

definition line_inv :: "'k line \<Rightarrow> bool" where
  "line_inv s \<longleftrightarrow>
     pool_inv (pool s) \<and> held (queue (pool s)) = permits s + handed s \<and>
     distinct (map waiter (places s)) \<and>
     (\<forall>pl \<in> set (places s). \<not> settled pl \<and> waiter pl < fresh (pool s) \<and>
        (waiter pl \<in> granted (pool s) \<or> located (key pl) (waiter pl) (queue (pool s)))) \<and>
     set (queued (queue (pool s))) \<subseteq> waiter ` set (places s)"

lemma handed_insert:
  "distinct (map waiter pls) \<Longrightarrow> w \<in> waiter ` set pls \<Longrightarrow> w \<notin> G \<Longrightarrow>
   length (filter (\<lambda>pl. waiter pl \<in> insert w G) pls) =
     Suc (length (filter (\<lambda>pl. waiter pl \<in> G) pls))"
proof (induction pls)
  case (Cons pl pls)
  show ?case
  proof (cases "waiter pl = w")
    case True
    then have "filter (\<lambda>pl. waiter pl \<in> insert w G) pls = filter (\<lambda>pl. waiter pl \<in> G) pls"
      using Cons.prems(1) by (intro filter_cong) (auto simp: rev_image_eqI)
    with True Cons.prems(3) show ?thesis by simp
  qed (use Cons in auto)
qed simp

lemma handed_union:
  "distinct (map waiter pls) \<Longrightarrow> distinct ws \<Longrightarrow> set ws \<subseteq> waiter ` set pls \<Longrightarrow> set ws \<inter> G = {} \<Longrightarrow>
   length (filter (\<lambda>pl. waiter pl \<in> G \<union> set ws) pls) =
     length (filter (\<lambda>pl. waiter pl \<in> G) pls) + length ws"
proof (induction ws)
  case (Cons w ws)
  then have "length (filter (\<lambda>pl. waiter pl \<in> insert w (G \<union> set ws)) pls) =
      Suc (length (filter (\<lambda>pl. waiter pl \<in> G \<union> set ws) pls))"
    by (intro handed_insert) auto
  with Cons show ?case by simp
qed simp

lemma line_invD:
  assumes "line_inv s"
  shows "pool_inv (pool s)" "pool_wf (pool s)" "held (queue (pool s)) = permits s + handed s"
    "distinct (map waiter (places s))"
    "set (queued (queue (pool s))) \<subseteq> waiter ` set (places s)"
  using assms by (auto simp: line_inv_def pool_inv_def)

text \<open>Every operation that hands permits over keeps the books.\<close>

lemma line_inv_handover:
  assumes inv: "line_inv s" and h: "handover (pool s) ws p" and p: "pool_inv p"
    and n: "held (queue p) = n + handed s + length ws"
  shows "line_inv (s\<lparr>pool := p, permits := n\<rparr>)"
proof -
  have l: "line_of (queue (pool s)) = mset ws + line_of (queue p)"
    and g: "granted p = granted (pool s) \<union> set ws" and f: "fresh p = fresh (pool s)"
    and loc: "\<And>c v. v \<notin> set ws \<Longrightarrow> located c v (queue (pool s)) \<Longrightarrow> located c v (queue p)"
    using h by (auto simp: handover_def)
  have m: "mset (queued (queue (pool s))) = mset (ws @ queued (queue p))"
    using l by (simp add: mset_queued)
  have d: "distinct (ws @ queued (queue p))"
    using line_invD(2) [OF inv] mset_distinct_cong [OF m] by (simp add: pool_wf_def)
  have sub: "set (ws @ queued (queue p)) \<subseteq> waiter ` set (places s)"
    using line_invD(5) [OF inv] mset_eq_setD [OF m] by simp
  have "set ws \<inter> granted (pool s) = {}"
    using line_invD(2) [OF inv] mset_eq_setD [OF m] by (auto simp: pool_wf_def)
  then have "handed (s\<lparr>pool := p, permits := n\<rparr>) = handed s + length ws"
    using handed_union [OF line_invD(4) [OF inv], of ws] d sub by (simp add: handed_def g)
  with inv p n g f loc sub show ?thesis by (fastforce simp: line_inv_def)
qed

lemma line_inv_opened: "line_inv \<lparr>pool = new_line cross b wait, permits = 0, places = []\<rparr>"
  using new_line_inv by (simp add: line_inv_def handed_def) (simp add: new_line_def queued_def)

lemma line_inv_enters_line:
  assumes inv: "line_inv s" and e: "enter ko (pool s) = (Queued pl, p, said)"
  shows "line_inv (s\<lparr>pool := p, places := places s @ [pl]\<rparr>)"
proof -
  have full: "\<not> held (queue (pool s)) < bound (pool s)" using e by (auto simp: enter_def)
  note E = enter_queued [OF line_invD(1) [OF inv] full e]
  have pl: "waiter pl = fresh (pool s)" "key pl = ko" "\<not> settled pl" using E(1) by simp_all
  have g: "fresh (pool s) \<notin> granted (pool s)" using line_invD(2) [OF inv] by (auto simp: pool_wf_def)
  have n: "fresh (pool s) \<notin> waiter ` set (places s)" using inv by (auto simp: line_inv_def)
  have q: "set (queued (queue p)) = insert (fresh (pool s)) (set (queued (queue (pool s))))"
    using queued_add [OF E(8)] by simp
  have "handed (s\<lparr>pool := p, places := places s @ [pl]\<rparr>) = handed s"
    using E(4) pl g by (simp add: handed_def)
  with inv E pl n q show ?thesis by (auto simp: line_inv_def less_Suc_eq)
qed

lemma line_inv_settles:
  assumes inv: "line_inv s" and s: "places s = xs @ pl # ys"
    and e: "settle pl (pool s) = (got, pl', p, said)"
  shows "line_inv (s\<lparr>pool := p, permits := permits s + of_bool got, places := xs @ ys\<rparr>)"
proof (cases "waiter pl \<in> granted (pool s)")
  case True
  have "\<not> settled pl" using inv s by (auto simp: line_inv_def)
  then have "got" "p = pool s" using settle_granted [OF _ True] e by auto
  moreover have "waiter pl \<notin> set (queued (queue (pool s)))"
    using line_invD(2) [OF inv] True by (auto simp: pool_wf_def)
  ultimately show ?thesis using inv s True by (auto simp: line_inv_def handed_def)
next
  case False
  have u: "\<not> settled pl" and l: "located (key pl) (waiter pl) (queue (pool s))"
    using inv s False by (auto simp: line_inv_def)
  note L = settle_left [OF line_invD(1) [OF inv] u False l e]
  have q: "set (queued (queue (pool s))) = insert (waiter pl) (set (queued (queue p)))"
    "waiter pl \<notin> set (queued (queue p))"
    using queued_add [OF L(7)] pool_invD(2) [OF line_invD(1) [OF inv]] by simp_all
  have w: "\<And>x. x \<in> set xs \<union> set ys \<Longrightarrow> waiter x \<noteq> waiter pl"
    using line_invD(4) [OF inv] s by (auto simp: rev_image_eqI)
  have "handed (s\<lparr>pool := p, permits := permits s + of_bool got, places := xs @ ys\<rparr>) = handed s"
    using L(4) s False by (simp add: handed_def)
  with inv L s q w show ?thesis by (auto simp: line_inv_def)
qed

theorem line_step_inv: "line_step s said s' \<Longrightarrow> line_inv s \<Longrightarrow> line_inv s'"
proof (induction rule: line_step.induct)
  case (enters_now ko s p said)
  have h: "held (queue (pool s)) < bound (pool s)"
    using enters_now(1) by (auto simp: enter_def Let_def split: if_splits prod.splits)
  note E = enter_admitted [OF line_invD(1) [OF enters_now(2)] h]
  have p: "p = (pool s)\<lparr>queue := (queue (pool s))\<lparr>held := held (queue (pool s)) + 1\<rparr>\<rparr>"
    using enters_now(1) E(1) by auto
  show ?case
    by (rule line_inv_handover [OF enters_now(2), of "[]"])
      (use E(2) p line_invD(3) [OF enters_now(2)] in \<open>auto simp: handover_def\<close>)
next
  case (enters_line ko s pl p said)
  then show ?case by (blast intro: line_inv_enters_line)
next
  case (settles s xs pl ys got pl' p said)
  then show ?case by (blast intro: line_inv_settles)
next
  case (drops s p said)
  have "held (queue (pool s)) > 0" using drops(1) line_invD(3) [OF drops(3)] by simp
  from release_effect [OF line_invD(1) [OF drops(3)] this drops(2)]
  obtain ws where "pool_inv p" "handover (pool s) ws p"
    "held (queue p) + 1 = held (queue (pool s)) + length ws" by blast
  with drops(1) line_invD(3) [OF drops(3)] show ?case
    by (auto intro!: line_inv_handover [OF drops(3), of ws])
next
  case (configures b wait cross s p said)
  from configure_effect [OF line_invD(1) [OF configures(2)] configures(1)]
  obtain ws where "pool_inv p" "handover (pool s) ws p"
    "held (queue p) = held (queue (pool s)) + length ws" by blast
  with line_inv_handover [OF configures(2), of ws p "permits s"] line_invD(3) [OF configures(2)]
  show ?case by simp
next
  case (tries s got p)
  with try_background_effect [OF line_invD(1) [OF tries(2)] tries(1)] line_invD(3) [OF tries(2)]
  show ?case by (intro line_inv_handover [OF tries(2), of "[]"]) auto
next
  case (bundles n s r p said)
  with bundle_effect [OF line_invD(1) [OF bundles(2)] bundles(1)] line_invD(3) [OF bundles(2)]
  show ?case by (intro line_inv_handover [OF bundles(2), of "[]"]) auto
qed

lemma line_run_inv: "line_run ok s log \<Longrightarrow> line_inv s"
  by (induction rule: line_run.induct) (auto intro: line_inv_opened line_step_inv)


section \<open>What the line says\<close>

text \<open>
  The protocol of the crossing messages, as an automaton over (a crossing is open, its epoch):
  a crossing is said once, with the next epoch and more work than the bound, and it is drained
  once, with its own epoch, before the next one begins.
\<close>

fun said_ok :: "bool \<times> nat \<Rightarrow> saying list \<Rightarrow> (bool \<times> nat) option" where
  "said_ok st [] = Some st"
| "said_ok (False, e) (Crossed e' b n # xs) = (if e' = Suc e \<and> n > b then said_ok (True, e') xs else None)"
| "said_ok (True, e) (Drained e' # xs) = (if e' = e then said_ok (False, e) xs else None)"
| "said_ok _ _ = None"

lemma said_ok_append:
  "said_ok st (xs @ ys) = (case said_ok st xs of None \<Rightarrow> None | Some st' \<Rightarrow> said_ok st' ys)"
  by (induction st xs rule: said_ok.induct) auto

definition crossing_state :: "'k pool \<Rightarrow> bool \<times> nat" where
  "crossing_state p = (asked (queue p), epoch (queue p))"

lemma says_begin:
  assumes "begin_crossing n q = (begun, q')" "crossing p" "held q + waiters q + n > bound p"
  shows "said_ok (asked q, epoch q) (say_crossed p begun) = Some (asked q', epoch q')"
  using assms by (auto simp: begin_crossing_def say_crossed_def Let_def split: if_splits)

lemma says_end:
  assumes "end_settled_crossing q = (ended, q')" "crossing p"
  shows "said_ok (asked q, epoch q) (say_drained p ended) = Some (asked q', epoch q')"
  using assms by (cases "asked q") (auto simp: end_settled_crossing_def say_drained_def split: if_splits)

lemma enter_says:
  assumes inv: "pool_inv p" and e: "enter ko p = (en, p', said)" and c: "crossing p'"
  shows "said_ok (crossing_state p) said = Some (crossing_state p')"
proof (cases "held (queue p) < bound p")
  case True
  then show ?thesis using e by (auto simp: enter_def crossing_state_def)
next
  case False
  let ?q = "join_line ko (fresh p) (queue p)"
  obtain begun q' where b: "begin_crossing 0 ?q = (begun, q')" by force
  have w: "waiters ?q > 0" using line_of_join [OF pool_invD(1) [OF inv], of ko "fresh p"]
    by (simp add: waiters_line)
  have "p' = p\<lparr>queue := q', fresh := Suc (fresh p)\<rparr>" "said = say_crossed p' begun"
    using e False b by (auto simp: enter_def Let_def)
  with says_begin [OF b, of p'] c w False show ?thesis by (simp add: crossing_state_def)
qed

lemma settle_says:
  assumes e: "settle pl p = (got, pl', p', said)" and c: "crossing p'"
  shows "said_ok (crossing_state p) said = Some (crossing_state p')"
proof -
  obtain ended q where q: "end_settled_crossing (leave_line (key pl) (waiter pl) (queue p)) = (ended, q)"
    by force
  show ?thesis using e c says_end [OF q, of p']
    by (auto simp: settle_def Let_def q crossing_state_def split: if_splits)
qed

lemma release_says:
  assumes r: "release p = (p', said)" and c: "crossing p'"
  shows "said_ok (crossing_state p) said = Some (crossing_state p')"
proof (cases "held (queue p) > bound p")
  case False
  obtain o' q where n: "next_waiter (queue p) = (o', q)" by force
  have f: "asked q = asked (queue p)" "epoch q = epoch (queue p)"
    using n next_waiter_fields [of "queue p"] by auto
  define p1 where "p1 = (case o' of Some w \<Rightarrow> grant w (p\<lparr>queue := q\<rparr>)
    | None \<Rightarrow> p\<lparr>queue := room_returned (bound p) (q\<lparr>held := held q - 1\<rparr>)\<rparr>)"
  obtain ended q' where e: "end_settled_crossing (queue p1) = (ended, q')" by force
  have s: "asked (queue p1) = asked (queue p)" "epoch (queue p1) = epoch (queue p)"
    using f by (auto simp: p1_def grant_def room_returned_def split: option.splits)
  have "release p = (p1\<lparr>queue := q'\<rparr>, say_drained (p1\<lparr>queue := q'\<rparr>) ended)"
    using False n e by (auto simp: release_def Let_def p1_def split: option.splits)
  with r says_end [OF e, of p'] c s show ?thesis by (auto simp: crossing_state_def)
qed (use r in \<open>auto simp: release_def crossing_state_def\<close>)

lemma configure_says:
  assumes inv: "pool_inv p" and e: "configure b wait cross p = (p', said)" and c: "crossing p'"
  shows "said_ok (crossing_state p) said = Some (crossing_state p')"
proof -
  define m where "m = max b 1"
  define f where "f = fill m (p\<lparr>wait_ms := wait, crossing := cross, bound := m\<rparr>)"
  have wf: "pool_wf (p\<lparr>wait_ms := wait, crossing := cross, bound := m\<rparr>)"
    using inv by (simp add: pool_simps m_def)
  have F: "asked (queue f) = asked (queue p)" "epoch (queue f) = epoch (queue p)"
    using fill_effect [OF wf, of m] by (simp_all add: f_def)
  obtain ended q where q: "end_settled_crossing (room_returned m (queue f)) = (ended, q)"
    by force
  have "configure b wait cross p = (f\<lparr>queue := q\<rparr>, say_drained (f\<lparr>queue := q\<rparr>) ended)"
    unfolding configure_def Let_def m_def [symmetric] f_def [symmetric] q by simp
  then have "p' = f\<lparr>queue := q\<rparr>" "said = say_drained p' ended" using e by auto
  with says_end [OF q, of p'] c F show ?thesis
    by (simp add: crossing_state_def room_returned_def split: if_splits)
qed

lemma bundle_says:
  assumes b: "try_admit_background_bundle n p = (r, p', said)" and c: "crossing p'"
  shows "said_ok (crossing_state p) said = Some (crossing_state p')"
proof (cases "n \<le> bound p - held (queue p)")
  case False
  obtain begun q' where g: "begin_crossing n ((queue p)\<lparr>unmet := max (unmet (queue p)) n\<rparr>) = (begun, q')"
    by force
  have "p' = p\<lparr>queue := q'\<rparr>" "said = say_crossed p' begun"
    using b False g by (auto simp: try_admit_background_bundle_def Let_def)
  with says_begin [OF g, of p'] c False show ?thesis by (simp add: crossing_state_def)
qed (use b in \<open>auto simp: try_admit_background_bundle_def Let_def crossing_state_def\<close>)

lemma line_step_says:
  "line_step s said s' \<Longrightarrow> line_inv s \<Longrightarrow> crossing (pool s') \<Longrightarrow>
   said_ok (crossing_state (pool s)) said = Some (crossing_state (pool s'))"
  by (cases rule: line_step.cases)
    (auto simp: crossing_state_def try_admit_background_def split: if_splits
      dest: enter_says [OF line_invD(1)] settle_says release_says
        configure_says [OF line_invD(1)] bundle_says)

section \<open>Whose turn it is\<close>

text \<open>The keys served before \<open>k\<close> in this round, and the oldest waiter of a key.\<close>

definition ahead :: "'k \<Rightarrow> 'k queue \<Rightarrow> nat" where
  "ahead k q = length (takeWhile (\<lambda>t. t \<noteq> k) (turns q))"

definition oldest :: "'k \<Rightarrow> wid \<Rightarrow> 'k queue \<Rightarrow> bool" where
  "oldest k w q \<longleftrightarrow> (\<exists>ws. map_of (waiting q) k = Some (w # ws))"

lemma oldest_turn: "queue_wf q \<Longrightarrow> oldest k w q \<Longrightarrow> k \<in> set (turns q)"
  by (auto simp: oldest_def queue_wf_turn)

lemma oldest_waits: "queue_wf q \<Longrightarrow> oldest k w q \<Longrightarrow> w \<in> set (queued q)"
  by (rule located_queued [of "Some k"]) (auto simp: oldest_def located_def)

lemma takeWhile_append_in: "k \<in> set xs \<Longrightarrow> takeWhile (\<lambda>t. t \<noteq> k) (xs @ ys) = takeWhile (\<lambda>t. t \<noteq> k) xs"
  by (induction xs) auto

lemma takeWhile_filter_le:
  "length (takeWhile (\<lambda>t. t \<noteq> k) (filter (\<lambda>t. t \<noteq> j) xs)) \<le> length (takeWhile (\<lambda>t. t \<noteq> k) xs)" if "j \<noteq> k"
  using that by (induction xs) auto

lemma join_keeps_turn:
  "queue_wf q \<Longrightarrow> oldest k w q \<Longrightarrow> oldest k w (join_line c v q) \<and> ahead k (join_line c v q) = ahead k q"
  using oldest_turn [of q k w]
  by (cases c) (auto simp: oldest_def ahead_def join_line_def Let_def update_conv' takeWhile_append_in
      split: option.splits)

lemma leave_keeps_turn:
  "oldest k w q \<Longrightarrow> v \<noteq> w \<Longrightarrow> oldest k w (leave_line c v q) \<and> ahead k (leave_line c v q) \<le> ahead k q"
  by (cases c) (auto simp: oldest_def ahead_def leave_line_def Let_def update_conv' delete_conv'
      takeWhile_filter_le split: option.splits)

lemma next_serves_turn:
  assumes "queue_wf q" "oldest k w q"
  shows "(ahead k q = 0 \<longrightarrow> fst (next_waiter q) = Some w) \<and>
    (ahead k q > 0 \<longrightarrow> (\<exists>v. fst (next_waiter q) = Some v) \<and> oldest k w (snd (next_waiter q)) \<and>
       ahead k (snd (next_waiter q)) = ahead k q - 1)"
  using assms(1)
proof (cases rule: next_waiter_cases)
  case (served t ks v vs)
  show ?thesis
  proof (cases "t = k")
    case True
    with served assms(2) show ?thesis by (auto simp: ahead_def oldest_def)
  next
    case False
    have "k \<in> set ks" using oldest_turn [OF assms] served(1) False by auto
    with served assms(2) False show ?thesis
      by (auto simp: ahead_def oldest_def update_conv' delete_conv' takeWhile_append_in)
  qed
qed (use oldest_turn [OF assms] in auto)


text \<open>
  A run of the line during which one waiter neither leaves nor has the bound changed under it,
  counting the permits dropped.
\<close>

inductive waiting_run :: "wid \<Rightarrow> 'k line \<Rightarrow> nat \<Rightarrow> 'k line \<Rightarrow> bool" for w s where
  waits: "waiting_run w s 0 s"
| passes: "waiting_run w s n s1 \<Longrightarrow> line_step s1 said s2 \<Longrightarrow> bound (pool s2) = bound (pool s1) \<Longrightarrow>
     w \<in> waiter ` set (places s2) \<Longrightarrow>
     waiting_run w s (n + of_bool (permits s2 < permits s1)) s2"

definition backlog :: "'k \<Rightarrow> 'k pool \<Rightarrow> nat" where
  "backlog k p = ahead k (queue p) + (held (queue p) - bound p)"

lemma oldest_full:
  assumes "pool_inv p" "oldest k w (queue p)"
  shows "bound p \<le> held (queue p)"
  using oldest_waits [OF pool_invD(1) [OF assms(1)] assms(2)] pool_invD(4) [OF assms(1)]
  by (cases "queued (queue p)") (auto simp: crossing_inv_def waiters_queued)

text \<open>A dropped permit moves the line on by one place, or hands the oldest waiter its permit.\<close>

lemma release_advances:
  assumes inv: "pool_inv p" and o: "oldest k w (queue p)" and r: "release p = (p', said)"
  shows "w \<in> granted p' \<or> oldest k w (queue p') \<and> backlog k p' < backlog k p"
proof (cases "held (queue p) > bound p")
  case True
  then have "p' = p\<lparr>queue := (queue p)\<lparr>held := held (queue p) - 1\<rparr>\<rparr>" using r by (simp add: release_def)
  with True o show ?thesis by (auto simp: oldest_def backlog_def ahead_def)
next
  case False
  obtain o' q where n: "next_waiter (queue p) = (o', q)" by force
  note N = next_serves_turn [OF pool_invD(1) [OF inv] o]
  have h: "held (queue p) = bound p" using oldest_full [OF inv o] False by simp
  obtain v where v: "o' = Some v" using N n by (cases "ahead k (queue p) = 0") auto
  define p1 where "p1 = grant v (p\<lparr>queue := q\<rparr>)"
  obtain ended q' where e: "end_settled_crossing q = (ended, q')" by force
  then have q': "turns q' = turns q" "waiting q' = waiting q" "held q' = held q"
    by (auto simp: end_settled_crossing_def split: if_splits)
  have p': "p' = p1\<lparr>queue := q'\<rparr>"
    using r False n v e by (auto simp: release_def Let_def p1_def grant_def)
  have hq: "held q = bound p" using n h next_waiter_held [of "queue p"] by simp
  show ?thesis
  proof (cases "ahead k (queue p) = 0")
    case True
    then show ?thesis using N n v p' by (simp add: p1_def grant_def)
  next
    case False
    then have "oldest k w q" "ahead k q < ahead k (queue p)" using N n by auto
    moreover have "oldest k w (queue p') = oldest k w q" "backlog k p' = ahead k q"
      using q' hq by (simp_all add: p' p1_def grant_def backlog_def oldest_def ahead_def)
    ultimately show ?thesis by (simp add: backlog_def)
  qed
qed

lemma line_step_backlog:
  assumes "line_step s said s'" "line_inv s" "oldest k w (queue (pool s))"
    "bound (pool s') = bound (pool s)" "w \<in> waiter ` set (places s')"
  shows "w \<in> granted (pool s') \<or>
    oldest k w (queue (pool s')) \<and>
    backlog k (pool s') + of_bool (permits s' < permits s) \<le> backlog k (pool s)"
  using assms
proof (cases rule: line_step.cases)
  case (enters_now ko p)
  with oldest_full [OF line_invD(1) [OF assms(2)] assms(3)] show ?thesis
    by (auto simp: enter_def Let_def split: if_splits prod.splits)
next
  case (enters_line ko pl p)
  obtain bg q where b: "begin_crossing 0 (join_line ko (fresh (pool s)) (queue (pool s))) = (bg, q)"
    by force
  then have "waiting q = waiting (join_line ko (fresh (pool s)) (queue (pool s)))"
    "turns q = turns (join_line ko (fresh (pool s)) (queue (pool s)))"
    "held q = held (queue (pool s))"
    by (auto simp: begin_crossing_def Let_def split: if_splits)
  moreover have "p = (pool s)\<lparr>queue := q, fresh := Suc (fresh (pool s))\<rparr>"
    using enters_line(2) b by (auto simp: enter_def Let_def split: if_splits)
  ultimately show ?thesis
    using join_keeps_turn [OF pool_invD(1) [OF line_invD(1) [OF assms(2)]] assms(3), of ko "fresh (pool s)"]
      enters_line(1) by (auto simp: oldest_def ahead_def backlog_def)
next
  case (settles xs pl ys got pl' p)
  have "waiter pl \<noteq> w"
    using assms(5) settles(1,2) line_invD(4) [OF assms(2)] by (auto simp: rev_image_eqI)
  note L = leave_keeps_turn [OF assms(3) this, of "key pl"]
  obtain e q where e: "end_settled_crossing (leave_line (key pl) (waiter pl) (queue (pool s))) = (e, q)"
    by force
  then have "turns q = turns (leave_line (key pl) (waiter pl) (queue (pool s)))"
    "waiting q = waiting (leave_line (key pl) (waiter pl) (queue (pool s)))"
    "held q = held (queue (pool s))"
    by (auto simp: end_settled_crossing_def split: if_splits)
  with L settles(1,3) e assms(3) show ?thesis
    by (auto simp: settle_def Let_def oldest_def ahead_def backlog_def split: if_splits)
next
  case (drops p)
  with release_advances [OF line_invD(1) [OF assms(2)] assms(3) drops(3)] show ?thesis by auto
next
  case (configures b wait cross p)
  let ?p = "(pool s)\<lparr>wait_ms := wait, crossing := cross, bound := max b 1\<rparr>"
  have m: "max b 1 = bound (pool s)"
    using configure_effect [OF line_invD(1) [OF assms(2)] configures(2)] configures(1) assms(4) by simp
  then have "fill (max b 1) ?p = ?p"
    using oldest_full [OF line_invD(1) [OF assms(2)] assms(3)] by (simp add: fill.simps)
  then have "turns (queue p) = turns (queue (pool s)) \<and> waiting (queue p) = waiting (queue (pool s))
      \<and> held (queue p) = held (queue (pool s))"
    using configures(2) by (auto simp: configure_def Let_def end_settled_crossing_def
        room_returned_def split: if_splits)
  with configures(1) assms(3,4) show ?thesis
    by (auto simp: oldest_def ahead_def backlog_def)
next
  case (tries got p)
  with oldest_full [OF line_invD(1) [OF assms(2)] assms(3)] assms(3) show ?thesis
    by (auto simp: try_admit_background_def)
next
  case (bundles n r p)
  have "turns (queue p) = turns (queue (pool s)) \<and> waiting (queue p) = waiting (queue (pool s))
      \<and> held (queue p) = held (queue (pool s))"
    using bundles(2) oldest_full [OF line_invD(1) [OF assms(2)] assms(3)]
    by (auto simp: try_admit_background_bundle_def Let_def begin_crossing_def split: if_splits)
  with bundles(1) assms(3,4) show ?thesis
    by (auto simp: oldest_def ahead_def backlog_def split: sum.splits)
qed

lemma line_step_keeps_grant:
  assumes "line_step s said s'" "line_inv s" "w \<in> granted (pool s)"
  shows "w \<in> granted (pool s')"
  using assms
proof (cases rule: line_step.cases)
  case (enters_line ko pl p)
  then have "\<not> held (queue (pool s)) < bound (pool s)" by (auto simp: enter_def)
  from enter_queued(4) [OF line_invD(1) [OF assms(2)] this enters_line(2)] enters_line(1) assms(3)
  show ?thesis by simp
next
  case (drops p)
  then have "held (queue (pool s)) > 0" using line_invD(3) [OF assms(2)] by simp
  from release_effect [OF line_invD(1) [OF assms(2)] this drops(3)] drops(1) assms(3)
  show ?thesis by (auto simp: handover_def)
next
  case (configures b wait cross p)
  with configure_effect [OF line_invD(1) [OF assms(2)] configures(2)] assms(3)
  show ?thesis by (auto simp: handover_def)
next
  case (bundles n r p)
  with bundle_effect [OF line_invD(1) [OF assms(2)] bundles(2)] assms(3)
  show ?thesis by (auto simp: handover_def)
qed (auto simp: enter_def settle_def try_admit_background_def Let_def split: if_splits prod.splits)

lemma waiting_run_advances:
  assumes "waiting_run w s n s'" "line_inv s" "oldest k w (queue (pool s))"
  shows "line_inv s' \<and> (w \<in> granted (pool s') \<or>
    oldest k w (queue (pool s')) \<and> n + backlog k (pool s') \<le> backlog k (pool s))"
  using assms
proof (induction rule: waiting_run.induct)
  case (passes n s1 said s2)
  then have i: "line_inv s1" "line_inv s2" by (auto intro: line_step_inv)
  show ?case
  proof (cases "w \<in> granted (pool s1)")
    case True
    with line_step_keeps_grant [OF passes(2) i(1)] i show ?thesis by simp
  next
    case False
    then have o: "oldest k w (queue (pool s1))" "n + backlog k (pool s1) \<le> backlog k (pool s)"
      using passes by auto
    from line_step_backlog [OF passes(2) i(1) o(1) passes(3,4)] o(2) i(2) show ?thesis by auto
  qed
qed simp


section \<open>Waiting for a permit\<close>

text \<open>
  One caller's wait, while other threads go on using the line.  What they do before the wait ends
  is a list of acts, each a critical section of theirs; a timed wait ends when it is granted or
  when the list does (the deadline), an untimed one only when it is granted.  The observer's
  calls are returned as a list.
\<close>

datatype 'k move = Arrives "'k option" | Settles "'k place" | Drops
  | Configures nat nat bool | Tries | Bundles nat

fun perform :: "'k move \<Rightarrow> 'k pool \<Rightarrow> 'k pool" where
  "perform (Arrives ko) p = fst (snd (enter ko p))"
| "perform (Settles pl) p = fst (snd (snd (settle pl p)))"
| "perform Drops p = fst (release p)"
| "perform (Configures b wait cross) p = fst (configure b wait cross p)"
| "perform Tries p = snd (try_admit_background p)"
| "perform (Bundles n) p = fst (snd (try_admit_background_bundle n p))"

datatype observed = ObservedQueued | ObservedHeld

fun wait_granted :: "'k move list \<Rightarrow> wid \<Rightarrow> 'k pool \<Rightarrow> 'k pool" where
  "wait_granted [] w p = p"
| "wait_granted (a # as) w p = (if w \<in> granted p then p else wait_granted as w (perform a p))"

definition observe_entry :: "'k entry \<Rightarrow> observed list" where
  "observe_entry e = (case e of Admitted \<Rightarrow> [ObservedHeld] | Queued _ \<Rightarrow> [ObservedQueued])"

definition wait_blocking ::
    "'k option \<Rightarrow> 'k move list \<Rightarrow> 'k pool \<Rightarrow> (wait_timed_out, unit) result \<times> 'k pool" where
  "wait_blocking ko acts p =
     (case enter ko p of
        (Admitted, p1, _) \<Rightarrow> (Ok (), p1)
      | (Queued pl, p1, _) \<Rightarrow>
          (let (got, _, p2, _) = settle pl (wait_granted acts (waiter pl) p1)
           in (if got then Ok () else Err WaitTimedOut, p2)))"

definition wait_blocking_observed ::
    "'k \<Rightarrow> 'k move list \<Rightarrow> 'k pool \<Rightarrow> (wait_timed_out, unit) result \<times> observed list \<times> 'k pool" where
  "wait_blocking_observed k acts p =
     (let (entry, p1, _) = enter (Some k) p; seen = observe_entry entry
      in case entry of
           Admitted \<Rightarrow> (Ok (), seen, p1)
         | Queued pl \<Rightarrow>
             (let (got, _, p2, _) = settle pl (wait_granted acts (waiter pl) p1)
              in if got then (Ok (), seen @ [ObservedHeld], p2)
                 else (Err WaitTimedOut, seen, p2)))"

text \<open>\<open>before\<close>: a permit that comes at or past the deadline goes on to the next waiter.\<close>

definition before :: "nat \<Rightarrow> nat \<Rightarrow> 'k pool \<Rightarrow> (wait_timed_out, unit) result \<times> 'k pool" where
  "before deadline now p =
     (if now < deadline then (Ok (), p) else (Err WaitTimedOut, fst (release p)))"

definition admit_in_line_until ::
    "nat \<Rightarrow> nat \<Rightarrow> nat \<Rightarrow> 'k \<Rightarrow> 'k move list \<Rightarrow> 'k pool \<Rightarrow>
     (wait_timed_out, unit) result \<times> observed list \<times> 'k pool" where
  "admit_in_line_until called deadline came k acts p =
     (if called < deadline
      then (let (entry, p1, _) = enter (Some k) p
            in case entry of
                 Admitted \<Rightarrow>
                   (let (r, p2) = before deadline came p1
                    in (r, if r = Ok () then [ObservedHeld] else [], p2))
               | Queued pl \<Rightarrow>
                   (let (got, _, p2, _) = settle pl (wait_granted acts (waiter pl) p1)
                    in if got
                       then (let (r, p3) = before deadline came p2
                             in (r, ObservedQueued # (if r = Ok () then [ObservedHeld] else []), p3))
                       else (Err WaitTimedOut, [ObservedQueued], p2)))
      else (Err WaitTimedOut, [], p))"

text \<open>An untimed wait: no result while it is not granted.\<close>

fun wait_untimed :: "'k move list \<Rightarrow> wid \<Rightarrow> 'k pool \<Rightarrow> 'k pool option" where
  "wait_untimed [] w p = (if w \<in> granted p then Some p else None)"
| "wait_untimed (a # as) w p = (if w \<in> granted p then Some p else wait_untimed as w (perform a p))"

definition admit_blocking_untimed :: "'k \<Rightarrow> 'k move list \<Rightarrow> 'k pool \<Rightarrow> (bool \<times> 'k pool) option" where
  "admit_blocking_untimed k acts p =
     (case enter (Some k) p of
        (Admitted, p1, _) \<Rightarrow> Some (True, p1)
      | (Queued pl, p1, _) \<Rightarrow>
          (case wait_untimed acts (waiter pl) p1 of
             None \<Rightarrow> None
           | Some p2 \<Rightarrow> (let (got, _, p3, _) = settle pl p2 in Some (got, p3))))"

text \<open>What another thread may do while the waiter \<open>w\<close> waits.\<close>

fun legal :: "wid \<Rightarrow> 'k move \<Rightarrow> 'k pool \<Rightarrow> bool" where
  "legal w (Settles pl) p \<longleftrightarrow> waiter pl \<noteq> w \<and> \<not> settled pl \<and>
     (waiter pl \<in> granted p \<or> located (key pl) (waiter pl) (queue p))"
| "legal w Drops p \<longleftrightarrow> held (queue p) > 0"
| "legal w a p \<longleftrightarrow> True"

fun legal_acts :: "wid \<Rightarrow> 'k move list \<Rightarrow> 'k pool \<Rightarrow> bool" where
  "legal_acts w [] p \<longleftrightarrow> True"
| "legal_acts w (a # as) p \<longleftrightarrow> w \<in> granted p \<or> legal w a p \<and> legal_acts w as (perform a p)"

lemma handover_waits:
  "handover p ws p' \<Longrightarrow> w \<in> granted p \<or> located c w (queue p) \<Longrightarrow>
   w \<in> granted p' \<or> located c w (queue p')"
  by (auto simp: handover_def)

lemma perform_keeps_waiting:
  assumes inv: "pool_inv p" and l: "legal w a p" and w: "w \<in> granted p \<or> located c w (queue p)"
  shows "pool_inv (perform a p) \<and> (w \<in> granted (perform a p) \<or> located c w (queue (perform a p)))"
proof (cases a)
  case (Arrives ko)
  obtain en p' said where e: "enter ko p = (en, p', said)" by (cases "enter ko p") auto
  show ?thesis
  proof (cases "held (queue p) < bound p")
    case True
    note E = enter_admitted [OF inv True]
    show ?thesis using E(2) w unfolding Arrives perform.simps E(1) by simp
  next
    case False
    note E = enter_queued [OF inv False e]
    show ?thesis using E(2,4,9) w unfolding Arrives perform.simps e by auto
  qed
next
  case (Settles pl)
  obtain got pl' p' said where e: "settle pl p = (got, pl', p', said)" by (cases "settle pl p") auto
  have u: "\<not> settled pl" "w \<noteq> waiter pl" using l Settles by auto
  show ?thesis
  proof (cases "waiter pl \<in> granted p")
    case True
    then show ?thesis using inv w by (simp add: Settles settle_granted [OF u(1) True])
  next
    case False
    have "located (key pl) (waiter pl) (queue p)" using l False Settles by simp
    note S = settle_left [OF inv u(1) False this e]
    show ?thesis using S(2,4,8) w u(2) unfolding Settles perform.simps e by auto
  qed
next
  case Drops
  obtain p' said where e: "release p = (p', said)" by force
  have "held (queue p) > 0" using l Drops by simp
  from release_effect [OF inv this e] obtain ws where "pool_inv p'" "handover p ws p'" by blast
  with handover_waits [OF this(2) w] show ?thesis by (simp add: Drops e)
next
  case (Configures b wait cross)
  obtain p' said where e: "configure b wait cross p = (p', said)" by force
  from configure_effect [OF inv e] obtain ws where "pool_inv p'" "handover p ws p'" by blast
  with handover_waits [OF this(2) w] show ?thesis by (simp add: Configures e)
next
  case Tries
  obtain got p' where e: "try_admit_background p = (got, p')" by force
  from try_background_effect [OF inv e] have "pool_inv p'" "handover p [] p'" by simp_all
  with handover_waits [OF this(2) w] show ?thesis by (simp add: Tries e)
next
  case (Bundles n)
  obtain r p' said where e: "try_admit_background_bundle n p = (r, p', said)"
    by (cases "try_admit_background_bundle n p") auto
  from bundle_effect [OF inv e] have "pool_inv p'" "handover p [] p'" by simp_all
  with handover_waits [OF this(2) w] show ?thesis by (simp add: Bundles e)
qed

lemma wait_granted_waits:
  "pool_inv p \<Longrightarrow> legal_acts w acts p \<Longrightarrow> w \<in> granted p \<or> located c w (queue p) \<Longrightarrow>
   pool_inv (wait_granted acts w p) \<and>
   (w \<in> granted (wait_granted acts w p) \<or> located c w (queue (wait_granted acts w p)))"
proof (induction acts arbitrary: p)
  case (Cons a acts)
  show ?case
  proof (cases "w \<in> granted p")
    case False
    with Cons.prems have "legal w a p" "legal_acts w acts (perform a p)" by auto
    with Cons.IH perform_keeps_waiting [OF Cons.prems(1) _ Cons.prems(3)] False show ?thesis by simp
  qed (use Cons.prems in simp)
qed simp

lemma wait_untimed_granted: "wait_untimed acts w p = Some p' \<Longrightarrow> w \<in> granted p'"
  by (induction acts w p rule: wait_untimed.induct) (auto split: if_splits)

lemma settle_outcome:
  assumes inv: "pool_inv p" and u: "\<not> settled pl"
    and w: "waiter pl \<in> granted p \<or> located (key pl) (waiter pl) (queue p)"
    and s: "settle pl p = (got, pl', p', said)"
  shows "pool_inv p' \<and> (got \<longleftrightarrow> waiter pl \<in> granted p) \<and> granted p' = granted p \<and>
    waiter pl \<notin> set (queued (queue p'))"
proof (cases "waiter pl \<in> granted p")
  case True
  with settle_granted [OF u True] s inv show ?thesis by (auto simp: pool_simps)
next
  case False
  with w have l: "located (key pl) (waiter pl) (queue p)" by simp
  note L = settle_left [OF inv u False l s]
  show ?thesis using L queued_add [OF L(7)] pool_invD(2) [OF inv] False by auto
qed


section \<open>Correctness of the line\<close>

lemma line_step_bounded:
  assumes s: "line_step s said s'" and i: "line_inv s" and h: "held (queue (pool s)) \<le> B"
    and b: "bound (pool s') \<le> B"
  shows "held (queue (pool s')) \<le> B"
proof -
  note I = line_invD(1) [OF i]
  show ?thesis using s
  proof (cases rule: line_step.cases)
    case (enters_now ko p)
    then have "held (queue p) = held (queue (pool s)) + 1" "held (queue (pool s)) < bound p"
      by (auto simp: enter_def Let_def split: if_splits prod.splits)
    with enters_now(1) b show ?thesis by simp
  next
    case (enters_line ko pl p)
    then have "\<not> held (queue (pool s)) < bound (pool s)" by (auto simp: enter_def)
    from enter_queued(3) [OF I this enters_line(2)] enters_line(1) h show ?thesis by simp
  next
    case (settles xs pl ys got pl' p)
    then have "held (queue p) = held (queue (pool s))"
      by (auto simp: settle_def Let_def end_settled_crossing_def split: if_splits prod.splits)
    with settles(1) h show ?thesis by simp
  next
    case (drops p)
    have "held (queue (pool s)) > 0" using drops(2) line_invD(3) [OF i] by simp
    from release_held [OF I this drops(3)] drops(1) h show ?thesis by simp
  next
    case (configures b' wait cross p)
    with configure_effect [OF I configures(2)] h b show ?thesis by auto
  next
    case (tries got p)
    with try_background_effect [OF I tries(3)] h b show ?thesis by auto
  next
    case (bundles n r p)
    with bundle_effect [OF I bundles(2)] h b show ?thesis by auto
  qed
qed

lemma line_run_bounded:
  "line_run (\<lambda>p. bound p \<le> B) s log \<Longrightarrow> held (queue (pool s)) \<le> B"
proof (induction rule: line_run.induct)
  case (stepped s log said s')
  from line_step_bounded [OF stepped(2) line_run_inv [OF stepped(1)] stepped(4,3)] show ?case .
qed (simp add: new_line_def)

text \<open>A line of one permit, held, with one caller waiting: the input of the witnesses below.\<close>

definition busy_line :: "nat line" where
  "busy_line = (let p = fst (snd (enter (Some 7) (fst (snd (enter (Some 0) (new_line True 1 5))))))
     in \<lparr>pool = p, permits = 1, places = [\<lparr>waiter = 0, key = Some 7, settled = False\<rparr>]\<rparr>)"

lemmas line_eval = busy_line_def new_line_def enter_def join_line_def begin_crossing_def
  say_crossed_def waiters_def Let_def handed_def

lemma busy_line_run:
  assumes "\<And>p. bound p = 1 \<Longrightarrow> crossing p \<Longrightarrow> ok p"
  shows "line_run ok busy_line [Crossed 1 1 2]"
proof -
  let ?p = "new_line True 1 5 :: nat pool"
  define p1 where "p1 = fst (snd (enter (Some 0) ?p))"
  define p2 where "p2 = fst (snd (enter (Some 7) p1))"
  have e1: "enter (Some 0) ?p = (Admitted, p1, [])" by (simp add: p1_def line_eval)
  have e2: "enter (Some 7) p1 = (Queued \<lparr>waiter = 0, key = Some 7, settled = False\<rparr>, p2, [Crossed 1 1 2])"
    by (simp add: p1_def p2_def line_eval)
  have o: "ok ?p" "ok p1" "ok p2" by (auto intro!: assms simp: p1_def p2_def line_eval)
  have "line_run ok \<lparr>pool = ?p, permits = 0, places = []\<rparr> []" using o by (intro line_run.opened)
  then have "line_run ok \<lparr>pool = p1, permits = 1, places = []\<rparr> ([] @ [])"
    by (rule line_run.stepped) (use line_step.enters_now [of "Some 0" "\<lparr>pool = ?p, permits = 0, places = []\<rparr>"] e1 o in simp_all)
  then have "line_run ok \<lparr>pool = p2, permits = 1, places = [\<lparr>waiter = 0, key = Some 7, settled = False\<rparr>]\<rparr>
      (([] @ []) @ [Crossed 1 1 2])"
    by (rule line_run.stepped) (use line_step.enters_line [of "Some 7" "\<lparr>pool = p1, permits = 1, places = []\<rparr>"] e2 o in simp_all)
  moreover have "busy_line = \<lparr>pool = p2, permits = 1, places = [\<lparr>waiter = 0, key = Some 7, settled = False\<rparr>]\<rparr>"
    by (simp add: busy_line_def p1_def p2_def Let_def)
  ultimately show ?thesis by simp
qed

text \<open>C29: On every run of a work line, each permit the pool counts as held is held by exactly
  one piece of work, or was handed to exactly one waiter that has yet to take it; none is lost
  when callers give up, permits are dropped or the bound changes.\<close>

theorem line_conserves_permits:
  assumes "line_run (\<lambda>_. True) s log"
  shows "held (queue (pool s)) = permits s + handed s"
  by (rule line_invD(3) [OF line_run_inv [OF assms]])

lemma line_conserves_permits_witness:
  "line_run (\<lambda>_. True) busy_line [Crossed 1 1 2] \<and> held (queue (pool busy_line)) = permits busy_line + handed busy_line"
  using line_conserves_permits [OF busy_line_run] busy_line_run [of "\<lambda>_. True"] by simp

text \<open>While any work waits, every permit of the bound is in use, and every waiter of the line
  has a live place: nobody waits beside a free permit, and nobody in line was forgotten.\<close>

theorem line_work_conserving:
  assumes "line_run (\<lambda>_. True) s log" "waiting_count (pool s) > 0"
  shows "bound (pool s) \<le> permits s + handed s \<and> set (queued (queue (pool s))) \<subseteq> waiter ` set (places s)"
  using pool_invD(4) [OF line_invD(1) [OF line_run_inv [OF assms(1)]]] line_invD(3,5) [OF line_run_inv [OF assms(1)]] assms(2)
  by (simp add: crossing_inv_def waiting_count_def)

lemma line_work_conserving_witness:
  "bound (pool busy_line) \<le> permits busy_line + handed busy_line \<and>
   set (queued (queue (pool busy_line))) \<subseteq> waiter ` set (places busy_line)"
proof (rule line_work_conserving [OF busy_line_run])
  show "waiting_count (pool busy_line) > 0" by (simp add: line_eval waiting_count_def)
qed simp

text \<open>C30: While the configured bound never exceeds \<open>B\<close>, at most \<open>B\<close> pieces of work run or have
  been let in, whatever the callers, the host's bundles and the reconfigurations do.\<close>

theorem line_never_exceeds_bound:
  assumes "line_run (\<lambda>p. bound p \<le> B) s log"
  shows "permits s + handed s \<le> B"
  using line_run_bounded [OF assms] line_invD(3) [OF line_run_inv [OF assms]] by simp

lemma line_never_exceeds_bound_witness: "permits busy_line + handed busy_line \<le> 1"
  by (rule line_never_exceeds_bound [OF busy_line_run]) simp

lemma line_run_says:
  "line_run crossing s log \<Longrightarrow> said_ok (False, 0) log = Some (crossing_state (pool s))"
proof (induction rule: line_run.induct)
  case (stepped s log said s')
  from line_step_says [OF stepped(2) line_run_inv [OF stepped(1)] stepped(3)] stepped(4)
  show ?case by (simp add: said_ok_append)
qed (simp add: crossing_state_def new_line_def)

text \<open>The crossing of a line is told a well-formed history: crossings are numbered one after
  the other, each begins only when more work than the bound holds, waits for or asked for
  permits, and ends once, by its own number, before the next begins; the history agrees with the
  crossing in progress.\<close>

theorem line_says_crossings_in_order:
  assumes "line_run crossing s log"
  shows "said_ok (False, 0) log = Some (crossing_state (pool s))"
  by (rule line_run_says [OF assms])

lemma line_says_crossings_in_order_witness:
  "said_ok (False, 0) [Crossed 1 1 2] = Some (crossing_state (pool busy_line))"
  by (rule line_says_crossings_in_order [OF busy_line_run])

text \<open>C37: Fairness: the oldest waiter of a key is given a permit after at most one dropped permit
  per key ahead of it in the round (plus those the bound was exceeded by, and its own), however
  many callers of other keys arrive, settle or wait meanwhile.\<close>

theorem line_is_fair:
  assumes "line_run (\<lambda>_. True) s log" "oldest k w (queue (pool s))"
    and "waiting_run w s n s'" "n > backlog k (pool s)"
  shows "w \<in> granted (pool s')"
  using waiting_run_advances [OF assms(3) line_run_inv [OF assms(1)] assms(2)] assms(4) by auto

lemma line_is_fair_witness:
  "\<exists>s'. waiting_run 0 busy_line 1 s' \<and> 0 \<in> granted (pool s')"
proof -
  obtain p said where r: "release (pool busy_line) = (p, said)" by force
  let ?s = "busy_line\<lparr>pool := p, permits := permits busy_line - 1\<rparr>"
  have "permits busy_line > 0" by (simp add: line_eval)
  from line_step.drops [OF this r] have st: "line_step busy_line said ?s" .
  have b: "bound p = bound (pool busy_line)"
    using r by (auto simp: line_eval release_def next_waiter_def grant_def end_settled_crossing_def split: if_splits)
  have "waiting_run 0 busy_line (0 + of_bool (permits ?s < permits busy_line)) ?s"
    by (rule waiting_run.passes [OF waiting_run.waits st]) (use b in \<open>simp_all add: line_eval\<close>)
  then have w: "waiting_run 0 busy_line 1 ?s" by (simp add: line_eval)
  have "0 \<in> granted (pool ?s)"
    by (rule line_is_fair [OF busy_line_run _ w, of 7])
      (simp_all add: line_eval oldest_def backlog_def ahead_def)
  with w show ?thesis by blast
qed

text \<open>A full round of the line, one permit after another, serves every waiter that was in line
  exactly once and nobody else, and leaves the line empty.\<close>

theorem line_round_serves_everyone:
  assumes "pool_inv p"
  shows "mset (fst (serve next_waiter (waiting_count p) (queue p))) = mset (queued (queue p)) \<and>
    distinct (fst (serve next_waiter (waiting_count p) (queue p))) \<and>
    waiters (snd (serve next_waiter (waiting_count p) (queue p))) = 0"
proof -
  have n: "size (line_of (queue p)) \<le> waiting_count p" by (simp add: waiting_count_def waiters_line)
  note S = fair_line.serve_all [OF pool_invD(1) [OF assms] n]
  then have "mset (fst (serve next_waiter (waiting_count p) (queue p))) = mset (queued (queue p))"
    by (simp add: mset_queued)
  with mset_distinct_cong [OF this] pool_invD(2) [OF assms] S(2) show ?thesis by (simp add: waiters_line)
qed

lemma line_round_serves_everyone_witness:
  "pool_inv (pool busy_line) \<and>
   mset (fst (serve next_waiter 1 (queue (pool busy_line)))) = mset (queued (queue (pool busy_line)))"
proof -
  have i: "pool_inv (pool busy_line)"
    by (rule line_invD(1) [OF line_run_inv [OF busy_line_run, of "\<lambda>_. True"]]) simp
  from line_round_serves_everyone [OF this] i show ?thesis by (simp add: waiting_count_def line_eval)
qed


section \<open>Correctness of the waits\<close>

lemma perform_grants_held:
  assumes inv: "pool_inv p" and l: "legal w a p" and n: "w \<notin> granted p" and g: "w \<in> granted (perform a p)"
  shows "held (queue (perform a p)) > 0"
proof (cases a)
  case (Arrives ko)
  obtain en p' said where e: "enter ko p = (en, p', said)" by (cases "enter ko p") auto
  then have "granted p' = granted p" by (auto simp: enter_def Let_def split: if_splits prod.splits)
  with g n e show ?thesis by (simp add: Arrives)
next
  case (Settles pl)
  obtain got pl' p' said where e: "settle pl p = (got, pl', p', said)" by (cases "settle pl p") auto
  then have "granted p' = granted p" by (auto simp: settle_def Let_def split: if_splits prod.splits)
  with g n e show ?thesis by (simp add: Settles)
next
  case Drops
  obtain p' said where e: "release p = (p', said)" by force
  have h: "held (queue p) > 0" using l Drops by simp
  from release_effect [OF inv h e] obtain ws where
    ws: "handover p ws p'" "held (queue p') + 1 = held (queue p) + length ws" by blast
  then have "ws \<noteq> []" using g n e by (auto simp: Drops handover_def)
  with ws h show ?thesis by (cases ws) (simp_all add: Drops e)
next
  case (Configures b wait cross)
  obtain p' said where e: "configure b wait cross p = (p', said)" by force
  from configure_effect [OF inv e] obtain ws where
    ws: "handover p ws p'" "held (queue p') = held (queue p) + length ws" by blast
  then have "ws \<noteq> []" using g n e by (auto simp: Configures handover_def)
  with ws show ?thesis by (cases ws) (simp_all add: Configures e)
next
  case Tries
  with g n show ?thesis by (simp add: try_admit_background_def split: if_splits)
next
  case (Bundles m)
  obtain r p' said where e: "try_admit_background_bundle m p = (r, p', said)"
    by (cases "try_admit_background_bundle m p") auto
  from bundle_effect [OF inv e] have "granted p' = granted p" by (simp add: handover_def)
  with g n show ?thesis by (simp add: Bundles e)
qed

lemma wait_granted_held:
  "pool_inv p \<Longrightarrow> legal_acts w acts p \<Longrightarrow> w \<notin> granted p \<Longrightarrow> located c w (queue p) \<Longrightarrow>
   w \<in> granted (wait_granted acts w p) \<Longrightarrow> held (queue (wait_granted acts w p)) > 0"
proof (induction acts arbitrary: p)
  case (Cons a acts)
  then have l: "legal w a p" "legal_acts w acts (perform a p)" by auto
  have k: "pool_inv (perform a p)" "w \<in> granted (perform a p) \<or> located c w (queue (perform a p))"
    using perform_keeps_waiting [OF Cons.prems(1) l(1), of c] Cons.prems(4) by auto
  show ?case
  proof (cases "w \<in> granted (perform a p)")
    case True
    then have "wait_granted acts w (perform a p) = perform a p" by (cases acts) simp_all
    with perform_grants_held [OF Cons.prems(1) l(1) Cons.prems(3) True] Cons.prems(3) show ?thesis by simp
  next
    case False
    with Cons.IH [OF k(1) l(2)] k(2) Cons.prems(3,5) show ?thesis by simp
  qed
qed simp

lemma wait_untimed_eq:
  "wait_untimed acts w p = (if w \<in> granted (wait_granted acts w p) then Some (wait_granted acts w p) else None)"
  by (induction acts arbitrary: p) auto

text \<open>A caller that found no free permit, from its entry to the end of its wait.\<close>

lemma waits_from_entry:
  assumes inv: "pool_inv p" and full: "\<not> held (queue p) < bound p"
    and l: "legal_acts (fresh p) acts (fst (snd (enter ko p)))"
    and s: "settle \<lparr>waiter = fresh p, key = ko, settled = False\<rparr>
      (wait_granted acts (fresh p) (fst (snd (enter ko p)))) = (got, pl', p', said)"
  shows "fst (enter ko p) = Queued \<lparr>waiter = fresh p, key = ko, settled = False\<rparr>"
    and "pool_inv p'" and "got \<longleftrightarrow> fresh p \<in> granted p'" and "fresh p \<notin> set (queued (queue p'))"
    and "got \<Longrightarrow> held (queue p') > 0"
    and "got \<longleftrightarrow> fresh p \<in> granted (wait_granted acts (fresh p) (fst (snd (enter ko p))))"
proof -
  let ?pl = "\<lparr>waiter = fresh p, key = ko, settled = False\<rparr>"
  obtain en p1 said1 where e: "enter ko p = (en, p1, said1)" by (cases "enter ko p") auto
  note E = enter_queued [OF inv full e]
  have n: "fresh p \<notin> granted p1" using inv E(4) by (auto simp: pool_simps)
  have l1: "legal_acts (fresh p) acts p1" using l e by simp
  note W = wait_granted_waits [OF E(2) l1, of ko] wait_granted_held [OF E(2) l1 n E(7)]
  have s1: "settle ?pl (wait_granted acts (fresh p) p1) = (got, pl', p', said)" using s e by simp
  have "pool_inv p' \<and> (got \<longleftrightarrow> waiter ?pl \<in> granted (wait_granted acts (fresh p) p1)) \<and>
    granted p' = granted (wait_granted acts (fresh p) p1) \<and> waiter ?pl \<notin> set (queued (queue p'))"
    by (rule settle_outcome [OF _ _ _ s1]) (use W(1) E(7) in auto)
  note S = this
  show "fst (enter ko p) = Queued ?pl" using E(1) e by simp
  show "pool_inv p'" "got \<longleftrightarrow> fresh p \<in> granted p'" "fresh p \<notin> set (queued (queue p'))" using S by auto
  show "got \<longleftrightarrow> fresh p \<in> granted (wait_granted acts (fresh p) (fst (snd (enter ko p))))" using S e by simp
  assume g: "got"
  then have "p' = wait_granted acts (fresh p) p1" using s1 S by (simp add: settle_def)
  then show "held (queue p') > 0" using W(2) g S by simp
qed

text \<open>A blocking wait ends in one of two ways, however other threads use the line meanwhile: it
  returns a permit, or it times out and then its waiter is neither in line nor granted, so no
  permit was handed to a caller that had already given up.\<close>

theorem wait_blocking_takes_or_leaves:
  assumes inv: "pool_inv p" and l: "legal_acts (fresh p) acts (fst (snd (enter ko p)))"
    and w: "wait_blocking ko acts p = (r, p')"
  shows "pool_inv p' \<and> fresh p \<notin> set (queued (queue p')) \<and>
    (r = Ok () \<longleftrightarrow> held (queue p) < bound p \<or> fresh p \<in> granted p')"
proof (cases "held (queue p) < bound p")
  case True
  have "fresh p \<notin> set (queued (queue p))" using inv by (auto simp: pool_simps)
  with w inv enter_admitted [OF inv True] True show ?thesis by (auto simp: wait_blocking_def)
next
  case False
  let ?pl = "\<lparr>waiter = fresh p, key = ko, settled = False\<rparr>"
  obtain got pl' p2 said where s:
    "settle ?pl (wait_granted acts (fresh p) (fst (snd (enter ko p)))) = (got, pl', p2, said)"
    by (cases "settle ?pl (wait_granted acts (fresh p) (fst (snd (enter ko p))))") auto
  note W = waits_from_entry [OF inv False l s]
  have "p' = p2" "r = (if got then Ok () else Err WaitTimedOut)"
    using w W(1) s by (auto simp: wait_blocking_def split: prod.splits entry.splits)
  with W(2-4) False show ?thesis by auto
qed

text \<open>Another thread drops its permit while the caller of key 7 waits behind \<open>busy_line\<close>'s waiter.\<close>

definition drops_twice :: "nat move list" where
  "drops_twice = [Drops, Drops]"

lemma busy_line_pool_inv: "pool_inv (pool busy_line)"
  by (rule line_invD(1) [OF line_run_inv [OF busy_line_run, of "\<lambda>_. True"]]) simp

lemmas wait_eval = line_eval drops_twice_def release_def next_waiter_def grant_def
  end_settled_crossing_def room_returned_def settle_def say_drained_def leave_line_def

lemma drops_twice_legal: "legal_acts (fresh (pool busy_line)) drops_twice (fst (snd (enter (Some 7) (pool busy_line))))"
  by (simp add: wait_eval)

lemma wait_blocking_takes_or_leaves_witness:
  "fst (wait_blocking (Some 7) drops_twice (pool busy_line)) = Ok () \<and>
   fresh (pool busy_line) \<notin> set (queued (queue (snd (wait_blocking (Some 7) drops_twice (pool busy_line)))))"
proof -
  obtain r p' where w: "wait_blocking (Some 7) drops_twice (pool busy_line) = (r, p')" by force
  have "fst (wait_blocking (Some 7) drops_twice (pool busy_line)) = Ok ()"
    by (simp add: wait_blocking_def wait_eval)
  with wait_blocking_takes_or_leaves [OF busy_line_pool_inv drops_twice_legal w] w show ?thesis by simp
qed




lemma before_outcome:
  assumes inv: "pool_inv p" and h: "held (queue p) > 0" and w: "w \<notin> set (queued (queue p))"
    and b: "before deadline now p = (r, p')"
  shows "pool_inv p' \<and> (r = Ok () \<longleftrightarrow> now < deadline) \<and> (now < deadline \<longrightarrow> p' = p) \<and> w \<notin> set (queued (queue p'))"
proof (cases "now < deadline")
  case True
  then show ?thesis using assms by (simp add: before_def)
next
  case False
  obtain p2 said where e: "release p = (p2, said)" by force
  from release_effect [OF inv h e] obtain ws where "pool_inv p2" "handover p ws p2" by blast
  moreover from this(2) have "set (queued (queue p2)) \<subseteq> set (queued (queue p))"
    by (auto simp: handover_def set_queued)
  ultimately show ?thesis using b w False e by (auto simp: before_def)
qed

text \<open>A wait with a deadline: one that is already past puts nothing in line, a permit that comes
  at or past it is passed on rather than kept, being held is observed exactly with the permit the
  caller keeps, and in every case the line stays well formed without the caller in it.\<close>

theorem deadline_wait_is_exact:
  assumes inv: "pool_inv p" and l: "legal_acts (fresh p) acts (fst (snd (enter (Some k) p)))"
    and a: "admit_in_line_until called deadline came k acts p = (r, seen, p')"
  shows "pool_inv p' \<and> fresh p \<notin> set (queued (queue p')) \<and>
    (deadline \<le> called \<longrightarrow> p' = p \<and> seen = []) \<and> (deadline \<le> came \<longrightarrow> r = Err WaitTimedOut) \<and>
    (ObservedHeld \<in> set seen \<longleftrightarrow> r = Ok ())"
proof (cases "called < deadline")
  case True
  show ?thesis
  proof (cases "held (queue p) < bound p")
    case free: True
    let ?p1 = "p\<lparr>queue := (queue p)\<lparr>held := held (queue p) + 1\<rparr>\<rparr>"
    obtain r1 p2 where b: "before deadline came ?p1 = (r1, p2)" by force
    have f: "fresh p \<notin> set (queued (queue ?p1))" using inv by (auto simp: pool_simps)
    have "r = r1" "p' = p2" "seen = (if r = Ok () then [ObservedHeld] else [])"
      using a enter_admitted(1) [OF inv free, of "Some k"] True b by (auto simp: admit_in_line_until_def)
    moreover have "r1 \<noteq> Ok () \<longrightarrow> r1 = Err WaitTimedOut" using b by (simp add: before_def split: if_splits) 
    ultimately show ?thesis
      using before_outcome [OF enter_admitted(2) [OF inv free] _ f b] True by auto
  next
    case False
    let ?pl = "\<lparr>waiter = fresh p, key = Some k, settled = False\<rparr>"
    obtain got pl' p2 said where s:
      "settle ?pl (wait_granted acts (fresh p) (fst (snd (enter (Some k) p)))) = (got, pl', p2, said)"
      by (cases "settle ?pl (wait_granted acts (fresh p) (fst (snd (enter (Some k) p))))") auto
    note W = waits_from_entry [OF inv False l s]
    obtain en p1 said1 where e: "enter (Some k) p = (en, p1, said1)" by (cases "enter (Some k) p") auto
    then have en: "en = Queued ?pl" using W(1) by simp
    show ?thesis
    proof (cases got)
      case True
      obtain r1 p3 where b: "before deadline came p2 = (r1, p3)" by force
      have "r = r1" "p' = p3" "seen = ObservedQueued # (if r = Ok () then [ObservedHeld] else [])"
        using a e en s b True \<open>called < deadline\<close> by (auto simp: admit_in_line_until_def)
      moreover have "r1 \<noteq> Ok () \<longrightarrow> r1 = Err WaitTimedOut" using b by (simp add: before_def split: if_splits)
      ultimately show ?thesis
        using before_outcome [OF W(2) W(5) [OF True] W(4) b] \<open>called < deadline\<close> by auto
    next
      case False
      then have "r = Err WaitTimedOut" "p' = p2" "seen = [ObservedQueued]"
        using a e en s \<open>called < deadline\<close> by (auto simp: admit_in_line_until_def)
      with W(2,4) \<open>called < deadline\<close> show ?thesis by simp
    qed
  qed
next
  case False
  have "fresh p \<notin> set (queued (queue p))" using inv by (auto simp: pool_simps)
  with False a inv show ?thesis by (auto simp: admit_in_line_until_def)
qed

lemma deadline_wait_is_exact_witness:
  "fst (admit_in_line_until 1 5 9 7 drops_twice (pool busy_line)) = Err WaitTimedOut \<and>
   pool_inv (snd (snd (admit_in_line_until 1 5 9 7 drops_twice (pool busy_line))))"
proof -
  obtain r seen p' where a: "admit_in_line_until 1 5 9 7 drops_twice (pool busy_line) = (r, seen, p')"
    by (cases "admit_in_line_until 1 5 9 7 drops_twice (pool busy_line)") auto
  from deadline_wait_is_exact [OF busy_line_pool_inv drops_twice_legal a] a show ?thesis by simp
qed

text \<open>Observing a wait changes nothing: the observed wait returns what the plain one returns,
  from the same line to the same line, and the observer hears of a permit exactly when the caller
  gets one.\<close>

theorem observed_wait_is_the_wait:
  "wait_blocking_observed k acts p =
     (fst (wait_blocking (Some k) acts p),
      (if held (queue p) < bound p then [] else [ObservedQueued]) @
      (if fst (wait_blocking (Some k) acts p) = Ok () then [ObservedHeld] else []),
      snd (wait_blocking (Some k) acts p))"
  by (auto simp: wait_blocking_observed_def wait_blocking_def observe_entry_def enter_def Let_def
      split: prod.splits)




section \<open>The awaited calls\<close>

text \<open>
  The awaited twins take their place in line when they are called and only wait when they are
  polled, so the moves of other threads run from the call on.  A caller may have no observer.
\<close>

definition heard :: "bool \<Rightarrow> observed list \<Rightarrow> observed list" where
  "heard observer seen = (if observer then seen else [])"

definition admit_in_line_observed ::
    "bool \<Rightarrow> 'k \<Rightarrow> 'k move list \<Rightarrow> 'k pool \<Rightarrow> (wait_timed_out, unit) result \<times> observed list \<times> 'k pool" where
  "admit_in_line_observed observer k acts p =
     (let (entry, p1, _) = enter (Some k) p;
          seen = heard observer (case entry of Admitted \<Rightarrow> [ObservedHeld] | Queued _ \<Rightarrow> [ObservedQueued])
      in case entry of
           Admitted \<Rightarrow> (Ok (), seen, p1)
         | Queued pl \<Rightarrow>
             (let (got, _, p2, _) = settle pl (wait_granted acts (waiter pl) p1)
              in if got then (Ok (), seen @ heard observer [ObservedHeld], p2)
                 else (Err WaitTimedOut, seen, p2)))"

definition admit_in_line_for ::
    "'k \<Rightarrow> 'k move list \<Rightarrow> 'k pool \<Rightarrow> (wait_timed_out, unit) result \<times> 'k pool" where
  "admit_in_line_for k acts p =
     (case enter (Some k) p of
        (Admitted, p1, _) \<Rightarrow> (Ok (), p1)
      | (Queued pl, p1, _) \<Rightarrow>
          (let (got, _, p2, _) = settle pl (wait_granted acts (waiter pl) p1)
           in (if got then Ok () else Err WaitTimedOut, p2)))"

definition admit_in_line_untimed ::
    "bool \<Rightarrow> 'k \<Rightarrow> 'k move list \<Rightarrow> 'k pool \<Rightarrow> (bool \<times> observed list \<times> 'k pool) option" where
  "admit_in_line_untimed observer k acts p =
     (let (entry, p1, _) = enter (Some k) p;
          seen = heard observer (case entry of Admitted \<Rightarrow> [ObservedHeld] | Queued _ \<Rightarrow> [ObservedQueued])
      in case entry of
           Admitted \<Rightarrow> Some (True, seen, p1)
         | Queued pl \<Rightarrow>
             (case wait_untimed acts (waiter pl) p1 of
                None \<Rightarrow> None
              | Some p2 \<Rightarrow>
                  (let (got, _, p3, _) = settle pl p2
                   in Some (got, seen @ (if got then heard observer [ObservedHeld] else []), p3))))"

definition admit_blocking_until ::
    "nat \<Rightarrow> nat \<Rightarrow> nat \<Rightarrow> 'k \<Rightarrow> 'k move list \<Rightarrow> 'k pool \<Rightarrow> (wait_timed_out, unit) result \<times> 'k pool" where
  "admit_blocking_until called deadline came k acts p =
     (if called \<ge> deadline then (Err WaitTimedOut, p)
      else case enter (Some k) p of
             (Admitted, p1, _) \<Rightarrow> before deadline came p1
           | (Queued pl, p1, _) \<Rightarrow>
               (let (got, _, p2, _) = settle pl (wait_granted acts (waiter pl) p1)
                in if got then before deadline came p2 else (Err WaitTimedOut, p2)))"

text \<open>
  The host's own cancellable wait: a cancellation that is already complete puts nothing in line;
  one that completes later ends the list of moves, as the deadline does.
\<close>

definition admit_background_blocking_for_cancel ::
    "bool \<Rightarrow> 'k move list \<Rightarrow> 'k pool \<Rightarrow> (wait_timed_out, unit) result \<times> 'k pool" where
  "admit_background_blocking_for_cancel cancelled acts p =
     (if cancelled then (Err WaitTimedOut, p)
      else case enter None p of
             (Admitted, p1, _) \<Rightarrow> (Ok (), p1)
           | (Queued pl, p1, _) \<Rightarrow>
               (let (got, _, p2, _) = settle pl (wait_granted acts (waiter pl) p1)
                in (if got then Ok () else Err WaitTimedOut, p2)))"

text \<open>The awaited calls are the blocking ones: each of them takes the same place, returns the
  same result and leaves the same line, with or without an observer, and a cancelled wait that
  took a place is the host's own plain wait.\<close>

theorem awaited_calls_are_the_blocking_ones:
  "admit_in_line_for k acts p = wait_blocking (Some k) acts p \<and>
   (let (r, seen, p') = admit_in_line_observed b k acts p
    in (r, p') = wait_blocking (Some k) acts p \<and>
       seen = heard b (fst (snd (wait_blocking_observed k acts p)))) \<and>
   map_option (\<lambda>(got, seen, p'). (got, p')) (admit_in_line_untimed b k acts p) =
     admit_blocking_untimed k acts p \<and>
   (let (r, seen, p') = admit_in_line_until called deadline came k acts p
    in (r, p') = admit_blocking_until called deadline came k acts p) \<and>
   admit_background_blocking_for_cancel False acts p = wait_blocking None acts p"
proof (cases "enter (Some k) p")
  case (fields en p1 said)
  note d = admit_in_line_for_def wait_blocking_def admit_in_line_observed_def
    wait_blocking_observed_def observe_entry_def admit_in_line_untimed_def
    admit_blocking_untimed_def admit_in_line_until_def admit_blocking_until_def
    admit_background_blocking_for_cancel_def heard_def
  have "admit_background_blocking_for_cancel False acts p = wait_blocking None acts p"
    by (simp add: d)
  then show ?thesis
    by (cases en)
      (auto simp: d fields Let_def split_beta split: option.split prod.splits entry.splits)
qed

end
