(* ===== verification/Registry.thy ===== *)
theory Registry
  imports Prelude
begin

text \<open>
  The entity-type registry (\<open>crates/oneiron-contracts/src/registry/\<close>): the type-byte zones
  (\<open>zones.rs\<close>), the family allocation table (\<open>families.rs\<close>), the table of registered kinds and
  its lookups (\<open>registry_table.rs\<close>, \<open>artifact_kinds.rs\<close>), the presentation-id namespaces
  (\<open>namespaces.rs\<close>) and the validation of a type byte on the write paths (\<open>validation.rs\<close>).
  A \<open>u8\<close> is an 8-bit word.  The tables are the source's, row by row; the lemmas show what the
  rest of the engine relies on them for: bytes, families and prefixes are unambiguous, zones
  and families agree, allocation never collides, and the codes round-trip.
\<close>

section \<open>Zones, classifications and families\<close>

type_synonym byte = "8 word"

datatype classification = ClassSemantic | ClassCore | ClassPack | ClassMaintenance

datatype type_zone = ZoneSemantic | ZoneCore | ZoneSystem | ZoneCompiledProduct
  | ZoneEngineExperimental | ZonePackHandle | ZonePackExperimental | ZoneSentinel

definition zone_of :: "byte \<Rightarrow> type_zone" where
  "zone_of b =
     (if b = 0 then ZoneSemantic
      else if 1 \<le> b \<and> b \<le> 63 then ZoneCore
      else if 64 \<le> b \<and> b \<le> 99 then ZoneSystem
      else if 100 \<le> b \<and> b \<le> 125 then ZoneCompiledProduct
      else if 126 \<le> b \<and> b \<le> 127 then ZoneEngineExperimental
      else if 128 \<le> b \<and> b \<le> 247 then ZonePackHandle
      else if 248 \<le> b \<and> b \<le> 254 then ZonePackExperimental
      else ZoneSentinel)"

datatype type_family = Conversation | People | World | Content | AgentsAndSurfacing
  | CoreOverflow | AuthorityPolicyCustody | AuditObservability | OutboundCommunicationConsent
  | RegistriesDerived | Productivity | Code | Documents | Companion | PackOverflow

record family_row =
  family :: type_family
  family_name :: string
  family_zone :: type_zone
  first_byte :: byte
  last_byte :: byte

definition type_byte_families :: "family_row list" where
  "type_byte_families =
    [
     \<lparr>family = Conversation, family_name = ''conversation'', family_zone = ZoneCore, first_byte = 1, last_byte = 9\<rparr>,
     \<lparr>family = People, family_name = ''people'', family_zone = ZoneCore, first_byte = 10, last_byte = 19\<rparr>,
     \<lparr>family = World, family_name = ''world'', family_zone = ZoneCore, first_byte = 20, last_byte = 29\<rparr>,
     \<lparr>family = Content, family_name = ''content'', family_zone = ZoneCore, first_byte = 30, last_byte = 39\<rparr>,
     \<lparr>family = AgentsAndSurfacing, family_name = ''agents and surfacing'', family_zone = ZoneCore, first_byte = 40, last_byte = 49\<rparr>,
     \<lparr>family = CoreOverflow, family_name = ''overflow'', family_zone = ZoneCore, first_byte = 50, last_byte = 63\<rparr>,
     \<lparr>family = AuthorityPolicyCustody, family_name = ''authority, policy, custody'', family_zone = ZoneSystem, first_byte = 64, last_byte = 71\<rparr>,
     \<lparr>family = AuditObservability, family_name = ''audit and observability'', family_zone = ZoneSystem, first_byte = 72, last_byte = 79\<rparr>,
     \<lparr>family = OutboundCommunicationConsent, family_name = ''outbound communication and consent'', family_zone = ZoneSystem, first_byte = 80, last_byte = 89\<rparr>,
     \<lparr>family = RegistriesDerived, family_name = ''registries and derived'', family_zone = ZoneSystem, first_byte = 90, last_byte = 99\<rparr>,
     \<lparr>family = Productivity, family_name = ''productivity'', family_zone = ZoneCompiledProduct, first_byte = 100, last_byte = 104\<rparr>,
     \<lparr>family = Code, family_name = ''code'', family_zone = ZoneCompiledProduct, first_byte = 105, last_byte = 109\<rparr>,
     \<lparr>family = Documents, family_name = ''documents'', family_zone = ZoneCompiledProduct, first_byte = 110, last_byte = 114\<rparr>,
     \<lparr>family = Companion, family_name = ''companion'', family_zone = ZoneCompiledProduct, first_byte = 115, last_byte = 119\<rparr>,
     \<lparr>family = PackOverflow, family_name = ''overflow'', family_zone = ZoneCompiledProduct, first_byte = 120, last_byte = 125\<rparr>
    ]"

fun family_class :: "type_family \<Rightarrow> classification" where
  "family_class Conversation = ClassCore"
| "family_class People = ClassCore"
| "family_class World = ClassCore"
| "family_class Content = ClassCore"
| "family_class AgentsAndSurfacing = ClassCore"
| "family_class CoreOverflow = ClassCore"
| "family_class AuthorityPolicyCustody = ClassMaintenance"
| "family_class AuditObservability = ClassMaintenance"
| "family_class OutboundCommunicationConsent = ClassMaintenance"
| "family_class RegistriesDerived = ClassMaintenance"
| "family_class Productivity = ClassPack"
| "family_class Code = ClassPack"
| "family_class Documents = ClassPack"
| "family_class Companion = ClassPack"
| "family_class PackOverflow = ClassPack"

text \<open>
  \<open>expect\<close> and the list index are options here; that they never fail is shown below.
\<close>

definition allocation :: "type_family \<Rightarrow> family_row option" where
  "allocation f = find (\<lambda>row. family row = f) type_byte_families"

fun position :: "('a \<Rightarrow> bool) \<Rightarrow> 'a list \<Rightarrow> nat option" where
  "position P [] = None"
| "position P (x # xs) = (if P x then Some 0 else map_option Suc (position P xs))"

definition family_code :: "type_family \<Rightarrow> byte option" where
  "family_code f =
     (case position (\<lambda>row. family row = f) type_byte_families of
        None \<Rightarrow> None
      | Some i \<Rightarrow> (if i + 1 < 256 then Some (of_nat (i + 1)) else None))"

definition family_from_code :: "byte \<Rightarrow> type_family option" where
  "family_from_code c =
     (if c = 0 then None
      else if unat c - 1 < length type_byte_families
           then Some (family (type_byte_families ! (unat c - 1))) else None)"

section \<open>Registered kinds\<close>

datatype artifact_kind = ArtifactCode | ArtifactBlob

record registry_row =
  row_kind :: string
  type_byte :: byte
  short_prefix :: "string option"
  legacy_prefixes :: "string list"
  row_class :: classification
  row_zone :: type_zone
  row_family :: "type_family option"
  artifact :: "artifact_kind option"

abbreviation row :: "string \<Rightarrow> byte \<Rightarrow> string option \<Rightarrow> string list \<Rightarrow> classification \<Rightarrow>
    type_zone \<Rightarrow> type_family option \<Rightarrow> artifact_kind option \<Rightarrow> registry_row" where
  "row k b p l c z f a \<equiv>
     \<lparr>row_kind = k, type_byte = b, short_prefix = p, legacy_prefixes = l, row_class = c, row_zone = z,
      row_family = f, artifact = a\<rparr>"

definition entity_type_registry :: "registry_row list" where
  "entity_type_registry =
    [
     row ''CLAIM'' 0 (Some ''cl'') [] ClassSemantic ZoneSemantic None None,
     row ''TURN'' 1 (Some ''tn'') [] ClassCore ZoneCore (Some Conversation) None,
     row ''SESSION'' 2 (Some ''ss'') [] ClassCore ZoneCore (Some Conversation) None,
     row ''MESSAGE'' 3 (Some ''ms'') [] ClassCore ZoneCore (Some Conversation) None,
     row ''PERSON'' 10 (Some ''pr'') [] ClassCore ZoneCore (Some People) None,
     row ''RELATIONSHIP'' 11 (Some ''rl'') [] ClassCore ZoneCore (Some People) None,
     row ''EVENT'' 20 (Some ''ev'') [] ClassCore ZoneCore (Some World) None,
     row ''SKILL'' 40 (Some ''sk'') [] ClassCore ZoneCore (Some AgentsAndSurfacing) None,
     row ''SUMMARY'' 5 (Some ''sm'') [] ClassCore ZoneCore (Some Conversation) None,
     row ''PLACE'' 21 (Some ''pl'') [] ClassCore ZoneCore (Some World) None,
     row ''ASSET_TEXT'' 31 (Some ''tx'') [] ClassCore ZoneCore (Some Content) None,
     row ''CONVERSATION'' 4 (Some ''cv'') [] ClassCore ZoneCore (Some Conversation) None,
     row ''ORG'' 12 (Some ''og'') [] ClassCore ZoneCore (Some People) None,
     row ''FACET'' 13 (Some ''fc'') [] ClassCore ZoneCore (Some People) None,
     row ''WORLD'' 22 (Some ''wd'') [] ClassCore ZoneCore (Some World) None,
     row ''ASSET'' 30 (Some ''as'') [] ClassCore ZoneCore (Some Content) None,
     row ''NOTIFICATION'' 42 (Some ''nt'') [] ClassCore ZoneCore (Some AgentsAndSurfacing) None,
     row ''AGENT_DEF'' 41 (Some ''ag'') [] ClassCore ZoneCore (Some AgentsAndSurfacing) None,
     row ''WORKFLOW'' 43 (Some ''wf'') [] ClassCore ZoneCore (Some AgentsAndSurfacing) None,
     row ''IDENTITY_TOPOLOGY_EVENT'' 74 None [] ClassMaintenance ZoneSystem (Some AuditObservability) None,
     row ''TASK_LIST'' 100 (Some ''tl'') [] ClassPack ZoneCompiledProduct (Some Productivity) None,
     row ''TASK'' 101 (Some ''tk'') [] ClassPack ZoneCompiledProduct (Some Productivity) None,
     row ''MACHINE'' 102 (Some ''mc'') [] ClassPack ZoneCompiledProduct (Some Productivity) None,
     row ''CODE_ARTIFACT'' 105 (Some ''cd'') [] ClassPack ZoneCompiledProduct (Some Code) (Some ArtifactCode),
     row ''CODE_SYMBOL'' 106 (Some ''cs'') [] ClassPack ZoneCompiledProduct (Some Code) None,
     row ''BLOB_ARTIFACT'' 110 (Some ''ba'') [] ClassPack ZoneCompiledProduct (Some Documents) (Some ArtifactBlob),
     row ''NOTE'' 111 (Some ''no'') [] ClassPack ZoneCompiledProduct (Some Documents) None,
     row ''SECRET_CUSTODY'' 68 (Some ''sc'') [] ClassMaintenance ZoneSystem (Some AuthorityPolicyCustody) None,
     row ''RECEIPT_RECORD'' 86 None [] ClassMaintenance ZoneSystem (Some OutboundCommunicationConsent) None,
     row ''REDACTION_AUDIT'' 72 None [] ClassMaintenance ZoneSystem (Some AuditObservability) None,
     row ''MODEL'' 90 (Some ''mo'') [] ClassMaintenance ZoneSystem (Some RegistriesDerived) None,
     row ''AUTHORITY_LOG'' 64 None [] ClassMaintenance ZoneSystem (Some AuthorityPolicyCustody) None,
     row ''WORLD_KEY_PAD'' 69 None [] ClassMaintenance ZoneSystem (Some AuthorityPolicyCustody) None,
     row ''POLICY_MANIFEST'' 65 None [] ClassMaintenance ZoneSystem (Some AuthorityPolicyCustody) None,
     row ''FEDERATION_GRANT'' 66 None [] ClassMaintenance ZoneSystem (Some AuthorityPolicyCustody) None,
     row ''DIAGNOSTIC'' 73 None [] ClassMaintenance ZoneSystem (Some AuditObservability) None,
     row ''ISSUE'' 76 None [] ClassMaintenance ZoneSystem (Some AuditObservability) None,
     row ''ACCESS_GRANT'' 67 None [] ClassMaintenance ZoneSystem (Some AuthorityPolicyCustody) None,
     row ''PSYCH_PROFILE'' 94 None [] ClassMaintenance ZoneSystem (Some RegistriesDerived) None,
     row ''CHANNEL_IDENTITY'' 81 None [] ClassMaintenance ZoneSystem (Some OutboundCommunicationConsent) None,
     row ''COUNTERPARTY_CONTACT'' 82 None [] ClassMaintenance ZoneSystem (Some OutboundCommunicationConsent) None,
     row ''OUTBOUND_GRANT'' 83 None [] ClassMaintenance ZoneSystem (Some OutboundCommunicationConsent) None,
     row ''PERSONA_SNAPSHOT_EXPORT'' 85 None [] ClassMaintenance ZoneSystem (Some OutboundCommunicationConsent) None,
     row ''CONNECTOR_KEY'' 80 (Some ''ck'') [] ClassMaintenance ZoneSystem (Some OutboundCommunicationConsent) None,
     row ''COMM_RECORD'' 84 None [] ClassMaintenance ZoneSystem (Some OutboundCommunicationConsent) None,
     row ''CLAIM_CLASS_DESCRIPTOR'' 91 None [] ClassMaintenance ZoneSystem (Some RegistriesDerived) None,
     row ''SKILL_HUB'' 92 None [] ClassMaintenance ZoneSystem (Some RegistriesDerived) None,
     row ''SKILL_CONTENT_ANCHOR'' 93 None [] ClassMaintenance ZoneSystem (Some RegistriesDerived) None,
     row ''EMBEDDING_SETUP'' 95 None [] ClassMaintenance ZoneSystem (Some RegistriesDerived) None
    ]"

definition answers_to_prefix :: "registry_row \<Rightarrow> string \<Rightarrow> bool" where
  "answers_to_prefix e p \<longleftrightarrow> short_prefix e = Some p \<or> p \<in> set (legacy_prefixes e)"

definition entity_type_registry_entry :: "byte \<Rightarrow> registry_row option" where
  "entity_type_registry_entry b = find (\<lambda>e. type_byte e = b) entity_type_registry"

definition is_structural_kind :: "byte \<Rightarrow> bool" where
  "is_structural_kind b \<longleftrightarrow>
     (case entity_type_registry_entry b of
        Some e \<Rightarrow> row_class e = ClassCore \<or> row_class e = ClassPack | None \<Rightarrow> False)"

definition is_delete_protected_engine_record :: "byte \<Rightarrow> bool" where
  "is_delete_protected_engine_record b \<longleftrightarrow> b \<in> {65, 64, 93, 74, 86}"

datatype registry_error = InvalidEntityType byte | MaintenanceKindNotWritable byte

definition short_id_prefix :: "byte \<Rightarrow> (registry_error, string) result" where
  "short_id_prefix b =
     (case entity_type_registry_entry b of
        Some e \<Rightarrow> (case short_prefix e of Some p \<Rightarrow> Ok p | None \<Rightarrow> Err (InvalidEntityType b))
      | None \<Rightarrow> Err (InvalidEntityType b))"

definition artifact_family_kind_of :: "byte \<Rightarrow> artifact_kind option" where
  "artifact_family_kind_of b = Option.bind (entity_type_registry_entry b) artifact"

definition family_of :: "byte \<Rightarrow> type_family option" where
  "family_of b = Option.bind (entity_type_registry_entry b) row_family"

definition family_matches :: "registry_row \<Rightarrow> type_family \<Rightarrow> bool" where
  "family_matches e f \<longleftrightarrow> row_family e = Some f \<and> row_class e = family_class f"

text \<open>The bytes of the canon reserves without a substrate, and the first free byte of a family.\<close>

definition reserved_bytes :: "byte list" where
  "reserved_bytes = [75, 91, 92]"

definition byte_free :: "byte list \<Rightarrow> byte \<Rightarrow> bool" where
  "byte_free occupied b \<longleftrightarrow>
     b \<notin> set occupied \<and> \<not> list_ex (\<lambda>e. type_byte e = b) entity_type_registry \<and>
     b \<notin> set reserved_bytes"

definition bytes_from :: "byte \<Rightarrow> byte \<Rightarrow> byte list" where
  "bytes_from lo hi = map of_nat [unat lo ..< Suc (unat hi)]"

definition allocate_type_byte :: "type_family \<Rightarrow> byte list \<Rightarrow> byte option" where
  "allocate_type_byte f occupied =
     (case allocation f of
        None \<Rightarrow> None
      | Some r \<Rightarrow>
          (case find (byte_free occupied) (bytes_from (first_byte r) (last_byte r)) of
             Some b \<Rightarrow> Some b
           | None \<Rightarrow>
               (case (case family_zone r of ZoneCore \<Rightarrow> Some CoreOverflow
                      | ZoneCompiledProduct \<Rightarrow> Some PackOverflow | _ \<Rightarrow> None) of
                  None \<Rightarrow> None
                | Some overflow \<Rightarrow>
                    (case allocation overflow of
                       None \<Rightarrow> None
                     | Some v \<Rightarrow> find (byte_free occupied) (bytes_from (first_byte v) (last_byte v))))))"

section \<open>Validation on the write paths\<close>

definition validate_entity_type_for_mode :: "byte \<Rightarrow> bool \<Rightarrow> (registry_error, unit) result" where
  "validate_entity_type_for_mode b dev =
     (case zone_of b of
        ZoneEngineExperimental \<Rightarrow> (if dev then Ok () else Err (InvalidEntityType b))
      | ZonePackExperimental \<Rightarrow> (if dev then Ok () else Err (InvalidEntityType b))
      | ZonePackHandle \<Rightarrow> Err (InvalidEntityType b)
      | ZoneSentinel \<Rightarrow> Err (InvalidEntityType b)
      | _ \<Rightarrow> (case entity_type_registry_entry b of
                Some _ \<Rightarrow> Ok () | None \<Rightarrow> Err (InvalidEntityType b)))"

definition validate_public_entity_type :: "byte \<Rightarrow> (registry_error, unit) result" where
  "validate_public_entity_type b =
     (case entity_type_registry_entry b of
        None \<Rightarrow> Err (InvalidEntityType b)
      | Some e \<Rightarrow> (if row_class e = ClassMaintenance then Err (MaintenanceKindNotWritable b) else Ok ()))"

section \<open>Presentation-id namespaces\<close>

datatype namespace_target = EntityType byte | Vault

record namespace_entry =
  ns_target :: namespace_target
  ns_prefix :: string

definition id_namespace_registry :: "namespace_entry list" where
  "id_namespace_registry = [\<lparr>ns_target = Vault, ns_prefix = ''vt''\<rparr>]"

definition id_namespace_for_prefix :: "string \<Rightarrow> namespace_entry option" where
  "id_namespace_for_prefix p =
     (case Option.bind (find (\<lambda>e. answers_to_prefix e p) entity_type_registry)
             (\<lambda>e. map_option (\<lambda>c. \<lparr>ns_target = EntityType (type_byte e), ns_prefix = c\<rparr>) (short_prefix e)) of
        Some n \<Rightarrow> Some n
      | None \<Rightarrow> find (\<lambda>n. ns_prefix n = p) id_namespace_registry)"

definition static_short_id_prefix_collision :: "string \<Rightarrow> bool" where
  "static_short_id_prefix_collision p \<longleftrightarrow>
     list_ex (\<lambda>e. answers_to_prefix e p) entity_type_registry \<or>
     list_ex (\<lambda>n. ns_prefix n = p) id_namespace_registry"


section \<open>What the tables promise\<close>

definition row_ok :: "registry_row \<Rightarrow> bool" where
  "row_ok e \<longleftrightarrow> row_zone e = zone_of (type_byte e) \<and>
     (case row_family e of None \<Rightarrow> row_class e = ClassSemantic | Some f \<Rightarrow> family_matches e f) \<and>
     (row_zone e = ZoneSemantic \<or> row_zone e = ZoneCore \<or> row_zone e = ZoneSystem \<or>
      row_zone e = ZoneCompiledProduct)"

definition prefixes :: "registry_row \<Rightarrow> string list" where
  "prefixes e = (case short_prefix e of Some p \<Rightarrow> [p] | None \<Rightarrow> []) @ legacy_prefixes e"

lemma rows_ok: "list_all row_ok entity_type_registry"
  by code_simp

lemma type_bytes_distinct: "distinct (map type_byte entity_type_registry)"
  by code_simp

lemma prefixes_distinct: "distinct (concat (map prefixes entity_type_registry))"
  by code_simp

lemma find_unique:
  "distinct (map f xs) \<Longrightarrow> x \<in> set xs \<Longrightarrow> find (\<lambda>y. f y = f x) xs = Some x"
  by (induction xs) (auto simp: image_iff)

lemma find_SomeD: "find P xs = Some x \<Longrightarrow> P x \<and> x \<in> set xs"
  by (induction xs) (auto split: if_splits)

lemma entry_Some: "entity_type_registry_entry b = Some e \<longleftrightarrow> e \<in> set entity_type_registry \<and> type_byte e = b"
  using find_SomeD [of "\<lambda>e. type_byte e = b" entity_type_registry e]
    find_unique [OF type_bytes_distinct, of e]
  by (auto simp: entity_type_registry_entry_def)

lemma entry_ok: "entity_type_registry_entry b = Some e \<Longrightarrow> row_ok e"
  using rows_ok by (simp add: entry_Some list_all_iff)

lemma entry_zone:
  "entity_type_registry_entry b = Some e \<Longrightarrow>
   zone_of b \<in> {ZoneSemantic, ZoneCore, ZoneSystem, ZoneCompiledProduct}"
  by (frule entry_ok) (auto simp: row_ok_def entry_Some)

lemma answers_prefixes: "answers_to_prefix e p \<longleftrightarrow> p \<in> set (prefixes e)"
  by (auto simp: answers_to_prefix_def prefixes_def split: option.splits)

lemma prefix_owner:
  "distinct (concat (map g xs)) \<Longrightarrow> x \<in> set xs \<Longrightarrow> y \<in> set xs \<Longrightarrow> p \<in> set (g x) \<Longrightarrow> p \<in> set (g y) \<Longrightarrow> x = y"
  by (induction xs) auto

lemma find_owner:
  assumes "x \<in> set xs" "P x" and u: "\<And>y. y \<in> set xs \<Longrightarrow> P y \<Longrightarrow> y = x"
  shows "find P xs = Some x"
proof (cases "find P xs")
  case (Some y)
  with find_SomeD [OF this] u [of y] show ?thesis by simp
qed (use assms(1,2) in \<open>auto simp: find_None_iff\<close>)

lemma bytes_from_set: "set (bytes_from lo hi) = {b. lo \<le> b \<and> b \<le> hi}"
proof -
  have "b \<in> set (bytes_from lo hi) \<longleftrightarrow> lo \<le> b \<and> b \<le> hi" for b
  proof
    assume "b \<in> set (bytes_from lo hi)"
    then obtain n where n: "b = of_nat n" "unat lo \<le> n" "n \<le> unat hi"
      by (auto simp: bytes_from_def less_Suc_eq_le simp del: upt_Suc)
    moreover have "n < 256" using n(3) unsigned_less [of hi, where 'a = nat] by simp
    ultimately have "unat b = n" by (simp add: unat_of_nat)
    with n show "lo \<le> b \<and> b \<le> hi" by (simp add: word_le_nat_alt)
  next
    assume "lo \<le> b \<and> b \<le> hi"
    then have "unat b \<in> set [unat lo ..< Suc (unat hi)]" by (simp add: word_le_nat_alt less_Suc_eq_le del: upt_Suc)
    then have "of_nat (unat b) \<in> set (bytes_from lo hi)" unfolding bytes_from_def set_map by (rule imageI)
    then show "b \<in> set (bytes_from lo hi)" by simp
  qed
  then show ?thesis by auto
qed

lemma allocation_total: "\<exists>r. allocation f = Some r \<and> family r = f"
  by (cases f) (simp_all add: allocation_def type_byte_families_def)

lemma find_None_free: "find P xs = None \<longleftrightarrow> (\<forall>x \<in> set xs. \<not> P x)"
  by (induction xs) auto

text \<open>The bytes allocated to a family.\<close>

definition family_bytes :: "type_family \<Rightarrow> byte set" where
  "family_bytes f = (case allocation f of Some r \<Rightarrow> {b. first_byte r \<le> b \<and> b \<le> last_byte r} | None \<Rightarrow> {})"

definition spill_bytes :: "type_family \<Rightarrow> byte set" where
  "spill_bytes f = (case family_class f of ClassCore \<Rightarrow> family_bytes CoreOverflow
     | ClassPack \<Rightarrow> family_bytes PackOverflow | _ \<Rightarrow> {})"

lemmas allocation_eval = allocation_def type_byte_families_def

lemma allocate_search:
  "allocate_type_byte f occupied =
     (case find (byte_free occupied) (bytes_from (first_byte (the (allocation f))) (last_byte (the (allocation f)))) of
        Some b \<Rightarrow> Some b
      | None \<Rightarrow>
          (case family_class f of
             ClassCore \<Rightarrow> find (byte_free occupied) (bytes_from 50 63)
           | ClassPack \<Rightarrow> find (byte_free occupied) (bytes_from 120 125)
           | _ \<Rightarrow> None))"
  by (cases f) (simp_all add: allocate_type_byte_def allocation_eval split: option.splits)

lemma family_bytes_from: "set (bytes_from (first_byte (the (allocation f))) (last_byte (the (allocation f)))) = family_bytes f"
  using allocation_total [of f] by (auto simp: bytes_from_set family_bytes_def)

lemma overflow_bytes:
  "family_bytes CoreOverflow = set (bytes_from 50 63)" "family_bytes PackOverflow = set (bytes_from 120 125)"
  by (auto simp: bytes_from_set family_bytes_def allocation_eval)

text \<open>Allocating a type byte never collides: the byte handed out is not occupied, not a
  registered kind and not a canon reserve, it lies in the family's own range, or in its zone's
  overflow range when the family's is used up, and no byte is handed out only when both ranges are
  used up.\<close>

theorem allocate_type_byte_exact:
  "case allocate_type_byte f occupied of
     Some b \<Rightarrow> byte_free occupied b \<and> entity_type_registry_entry b = None \<and>
       (b \<in> family_bytes f \<or> b \<in> spill_bytes f \<and> Collect (byte_free occupied) \<inter> family_bytes f = {})
   | None \<Rightarrow> Collect (byte_free occupied) \<inter> (family_bytes f \<union> spill_bytes f) = {}"
proof -
  have free: "byte_free occupied b \<Longrightarrow> entity_type_registry_entry b = None" for b
    by (auto simp: byte_free_def entity_type_registry_entry_def find_None_iff list_ex_iff)
  have found: "find (byte_free occupied) bs = Some b \<Longrightarrow> byte_free occupied b \<and> b \<in> set bs" for bs b
    by (metis find_Some_iff nth_mem)
  show ?thesis
  proof (cases "find (byte_free occupied) (bytes_from (first_byte (the (allocation f))) (last_byte (the (allocation f))))")
    case None
    then have none: "Collect (byte_free occupied) \<inter> family_bytes f = {}"
      by (auto simp: find_None_free family_bytes_from)
    have spill: "case find (byte_free occupied) bs of
        Some b \<Rightarrow> byte_free occupied b \<and> entity_type_registry_entry b = None \<and> b \<in> set bs
      | None \<Rightarrow> Collect (byte_free occupied) \<inter> set bs = {}" for bs
      using free found [of bs] find_None_free [of "byte_free occupied" bs]
      by (cases "find (byte_free occupied) bs") auto
    have "allocate_type_byte f occupied = (case family_class f of
             ClassCore \<Rightarrow> find (byte_free occupied) (bytes_from 50 63)
           | ClassPack \<Rightarrow> find (byte_free occupied) (bytes_from 120 125)
           | _ \<Rightarrow> None)" by (simp add: allocate_search None)
    then show ?thesis
      using none spill [of "bytes_from 50 63"] spill [of "bytes_from 120 125"]
      by (cases "family_class f")
        (auto simp: spill_bytes_def overflow_bytes Int_Un_distrib split: option.splits)
  next
    case (Some b)
    with free found [OF Some] show ?thesis by (simp add: allocate_search family_bytes_from)
  qed
qed

text \<open>A presentation prefix is a faithful name of its kind: the prefix a type byte mints short
  ids with resolves back to exactly that byte, in its canonical spelling.\<close>

theorem short_prefix_roundtrip:
  assumes "short_id_prefix b = Ok p"
  shows "id_namespace_for_prefix p = Some \<lparr>ns_target = EntityType b, ns_prefix = p\<rparr>"
proof -
  obtain e where e: "entity_type_registry_entry b = Some e" "short_prefix e = Some p"
    using assms by (auto simp: short_id_prefix_def split: option.splits)
  then have m: "e \<in> set entity_type_registry" "type_byte e = b" by (auto simp: entry_Some)
  have a: "answers_to_prefix e p" using e by (simp add: answers_to_prefix_def)
  have "find (\<lambda>e. answers_to_prefix e p) entity_type_registry = Some e"
  proof (rule find_owner [where x = e, OF m(1)])
    show "answers_to_prefix e p" by (rule a)
  next
    fix y assume y: "y \<in> set entity_type_registry" "answers_to_prefix y p"
    show "y = e"
      by (rule prefix_owner [OF prefixes_distinct y(1) m(1)]) (use y(2) a in \<open>simp_all add: answers_prefixes\<close>)
  qed
  with e m show ?thesis by (simp add: id_namespace_for_prefix_def)
qed

lemma short_prefix_roundtrip_witness:
  "id_namespace_for_prefix ''tk'' = Some \<lparr>ns_target = EntityType 101, ns_prefix = ''tk''\<rparr>"
proof (rule short_prefix_roundtrip)
  show "short_id_prefix 101 = Ok ''tk''" by code_simp
qed

text \<open>Validation of a type byte: a byte passes the write gate exactly when it names a registered
  kind, or an experimental byte in development mode; the public gate passes exactly the registered
  kinds the engine does not author itself, so every structural kind and the semantic claim.\<close>

theorem type_byte_validation:
  "(validate_entity_type_for_mode b dev = Ok () \<longleftrightarrow>
      (\<exists>e. entity_type_registry_entry b = Some e) \<or>
      dev \<and> (zone_of b = ZoneEngineExperimental \<or> zone_of b = ZonePackExperimental)) \<and>
   (validate_public_entity_type b = Ok () \<longleftrightarrow> is_structural_kind b \<or> b = 0) \<and>
   validate_entity_type_for_mode 255 dev \<noteq> Ok ()"
proof -
  have a: "validate_entity_type_for_mode b dev = Ok () \<longleftrightarrow>
      entity_type_registry_entry b \<noteq> None \<or>
      dev \<and> (zone_of b = ZoneEngineExperimental \<or> zone_of b = ZonePackExperimental)" for b
  proof (cases "entity_type_registry_entry b")
    case (Some e)
    from entry_zone [OF this] Some show ?thesis by (auto simp: validate_entity_type_for_mode_def)
  qed (cases "zone_of b"; simp add: validate_entity_type_for_mode_def)
  have "list_all (\<lambda>e. row_class e = ClassSemantic \<longleftrightarrow> type_byte e = 0) entity_type_registry" by code_simp
  then have sem: "entity_type_registry_entry b = Some e \<Longrightarrow> row_class e = ClassSemantic \<longleftrightarrow> b = 0" for e
    by (auto simp: entry_Some list_all_iff)
  have zero: "entity_type_registry_entry 0 \<noteq> None" by (simp add: entity_type_registry_entry_def entity_type_registry_def)
  have p: "validate_public_entity_type b = Ok () \<longleftrightarrow> is_structural_kind b \<or> b = 0"
  proof (cases "entity_type_registry_entry b")
    case (Some e)
    with sem [OF Some] show ?thesis
      by (cases "row_class e") (auto simp: validate_public_entity_type_def is_structural_kind_def)
  qed (use zero in \<open>auto simp: validate_public_entity_type_def is_structural_kind_def\<close>)
  have "zone_of 255 = ZoneSentinel" by (simp add: zone_of_def)
  then have "validate_entity_type_for_mode 255 dev \<noteq> Ok ()" by (simp add: validate_entity_type_for_mode_def)
  with a p show ?thesis by (simp add: not_None_eq)
qed

text \<open>The family table is consistent: family codes decode to the family they encode and to
  nothing else, a byte belongs to at most one family, and every byte of a family lies in the zone
  of its row.\<close>

theorem family_table_consistent:
  "(family_from_code c = Some f \<longleftrightarrow> family_code f = Some c) \<and>
   (f = g \<or> family_bytes f \<inter> family_bytes g = {}) \<and>
   family_bytes f \<subseteq> {b. allocation f \<noteq> None \<and> zone_of b = family_zone (the (allocation f))}"
proof (intro conjI)
  show "family_from_code c = Some f \<longleftrightarrow> family_code f = Some c"
  proof
    assume a: "family_from_code c = Some f"
    have "length type_byte_families = 15" by (simp add: type_byte_families_def)
    with a have "c \<noteq> 0" "unat c - 1 < 15" by (simp_all add: family_from_code_def split: if_splits)
    then have "1 \<le> unat c" "unat c \<le> 15" using unat_eq_zero [of c] by linarith+
    then have "c \<in> set (bytes_from 1 15)" by (simp add: bytes_from_set word_le_nat_alt)
    also have "bytes_from 1 15 = [1, 2, 3, 4, 5, 6, 7, 8, 9, 10, 11, 12, 13, 14, 15]" by code_simp
    finally show "family_code f = Some c" using a
      by (auto simp: family_from_code_def family_code_def type_byte_families_def)
  next
    assume "family_code f = Some c"
    then show "family_from_code c = Some f"
      by (cases f) (auto simp: family_from_code_def family_code_def type_byte_families_def)
  qed
  have "list_all (\<lambda>r. list_all (\<lambda>r'. family r = family r' \<or>
      last_byte r < first_byte r' \<or> last_byte r' < first_byte r) type_byte_families) type_byte_families"
    by code_simp
  then have d: "r \<in> set type_byte_families \<Longrightarrow> r' \<in> set type_byte_families \<Longrightarrow> family r = family r' \<or>
      last_byte r < first_byte r' \<or> last_byte r' < first_byte r" for r r'
    by (simp add: list_all_iff)
  have m: "allocation f = Some r \<Longrightarrow> r \<in> set type_byte_families \<and> family r = f" for f r
    by (auto simp: allocation_def dest: find_SomeD)
  show "f = g \<or> family_bytes f \<inter> family_bytes g = {}"
  proof -
    obtain r r' where "allocation f = Some r" "allocation g = Some r'"
      using allocation_total [of f] allocation_total [of g] by blast
    with d [of r r'] m [of f r] m [of g r'] show ?thesis by (auto simp: family_bytes_def)
  qed
  have "list_all (\<lambda>r. list_all (\<lambda>b. zone_of b = family_zone r) (bytes_from (first_byte r) (last_byte r))) type_byte_families"
    by code_simp
  then have z: "r \<in> set type_byte_families \<Longrightarrow> b \<in> set (bytes_from (first_byte r) (last_byte r)) \<Longrightarrow> zone_of b = family_zone r" for r b
    by (simp add: list_all_iff)
  show "family_bytes f \<subseteq> {b. allocation f \<noteq> None \<and> zone_of b = family_zone (the (allocation f))}"
    using allocation_total [of f] m [of f] z by (auto simp: family_bytes_def bytes_from_set)
qed

end
