(* ===== verification/EntityIds.thy ===== *)
theory EntityIds
  imports Registry "HOL-Library.Char_ord" "HOL-Library.List_Lexorder"
begin

text \<open>
  Entity ids (\<open>crates/oneiron-contracts/src/entity_id.rs\<close>): the 16-byte ids, their ULID and hex
  texts, the mint (\<open>now\<close>), derived ids, world-id ranges and the presentation-id grammar.

  A byte array is a list of 8-bit words, of length 16 for an id; a \<open>&str\<close> is the list of its
  bytes, as characters.  \<open>u128\<close> numbers are naturals with the overflow checks of the code written
  out.  BLAKE3 is a parameter of \<open>derive_with\<close>; the clock and the random bytes are parameters
  of the mint, and the last minted number is its state.
\<close>

unbundle bit_operations_syntax

section \<open>Numbers, bytes and text\<close>

type_synonym entity_id = "byte list"

datatype id_error = InvalidKey | CorruptedIndex string | InvariantViolation string

definition from_be_bytes :: "byte list \<Rightarrow> nat" where
  "from_be_bytes bs = from_digits 256 (map unat bs)"

definition to_be_bytes :: "nat \<Rightarrow> nat \<Rightarrow> byte list" where
  "to_be_bytes k n = map of_nat (to_digits 256 k n)"

definition to_le_bytes :: "nat \<Rightarrow> nat \<Rightarrow> byte list" where
  "to_le_bytes k n = rev (to_be_bytes k n)"

definition crockford :: string where
  "crockford = ''0123456789ABCDEFGHJKMNPQRSTVWXYZ''"

definition hex_digits :: string where
  "hex_digits = ''0123456789abcdef''"

definition in_range :: "char \<Rightarrow> char \<Rightarrow> char \<Rightarrow> bool" where
  "in_range lo hi c \<longleftrightarrow> (of_char lo :: nat) \<le> of_char c \<and> (of_char c :: nat) \<le> of_char hi"

definition ascii_upper :: "char \<Rightarrow> char" where
  "ascii_upper c = (if in_range CHR ''a'' CHR ''z'' c then char_of ((of_char c :: nat) - 32) else c)"

section \<open>Ids\<close>

definition is_reserved_entity_id_bytes :: "byte list \<Rightarrow> bool" where
  "is_reserved_entity_id_bytes bs \<longleftrightarrow>
     bs = replicate 16 0 \<or> bs = replicate 16 255 \<or>
     (list_all (\<lambda>b. b = 255) (tl bs) \<and> (case short_id_prefix (hd bs) of Inr _ \<Rightarrow> True | Inl _ \<Rightarrow> False))"

definition from_bytes :: "byte list \<Rightarrow> (id_error, entity_id) result" where
  "from_bytes bs = (if is_reserved_entity_id_bytes bs then Err InvalidKey else Ok bs)"

definition parse_entity_id :: "byte list \<Rightarrow> string \<Rightarrow> (id_error, entity_id) result" where
  "parse_entity_id bs context =
     (if length bs \<noteq> 16 then Err (CorruptedIndex context)
      else if is_reserved_entity_id_bytes bs then Err InvalidKey else Ok bs)"

definition to_ulid :: "entity_id \<Rightarrow> string" where
  "to_ulid i = map (\<lambda>d. crockford ! d) (to_digits 32 26 (from_be_bytes i))"

definition ulid_digit :: "char \<Rightarrow> nat option" where
  "ulid_digit c =
     (let u = ascii_upper c
      in if u = CHR ''I'' \<or> u = CHR ''L'' then Some 1
         else if u = CHR ''O'' then Some 0
         else position (\<lambda>a. a = u) crockford)"

fun ulid_number :: "string \<Rightarrow> nat \<Rightarrow> nat option" where
  "ulid_number [] n = Some n"
| "ulid_number (c # cs) n =
     (case ulid_digit c of
        None \<Rightarrow> None
      | Some d \<Rightarrow>
          (if n * 32 < 2 ^ 128 \<and> n * 32 + d < 2 ^ 128 then ulid_number cs (n * 32 + d) else None))"

definition from_ulid :: "string \<Rightarrow> (id_error, entity_id) result" where
  "from_ulid text =
     (if length text \<noteq> 26 then Err InvalidKey
      else case ulid_number text 0 of
             None \<Rightarrow> Err InvalidKey
           | Some n \<Rightarrow> from_bytes (to_be_bytes 16 n))"

definition bytes_to_hex_lower :: "byte list \<Rightarrow> string" where
  "bytes_to_hex_lower bs =
     concat (map (\<lambda>b. [hex_digits ! (unat b div 16), hex_digits ! (unat b mod 16)]) bs)"

definition to_hex :: "entity_id \<Rightarrow> string" where
  "to_hex i = bytes_to_hex_lower i"

definition hex_nibble :: "char \<Rightarrow> nat option" where
  "hex_nibble c =
     (if in_range CHR ''0'' CHR ''9'' c then Some (of_char c - 48)
      else if in_range CHR ''a'' CHR ''f'' c then Some (of_char c - 97 + 10)
      else if in_range CHR ''A'' CHR ''F'' c then Some (of_char c - 65 + 10)
      else None)"

fun hex_bytes :: "string \<Rightarrow> byte list option" where
  "hex_bytes (hi # lo # cs) =
     (case hex_nibble hi of
        None \<Rightarrow> None
      | Some h \<Rightarrow>
          (case hex_nibble lo of
             None \<Rightarrow> None
           | Some l \<Rightarrow> map_option (\<lambda>bs. of_nat (h * 16 + l) # bs) (hex_bytes cs)))"
| "hex_bytes _ = Some []"

definition from_hex :: "string \<Rightarrow> (id_error, entity_id) result" where
  "from_hex s =
     (if length s \<noteq> 32 then Err InvalidKey
      else case hex_bytes s of None \<Rightarrow> Err InvalidKey | Some bs \<Rightarrow> from_bytes bs)"

text \<open>
  A scope id's JSON (\<open>federation/scope.rs\<close>, \<open>ScopeId\<close>) is the canonical lower hex and nothing else.
\<close>

definition scope_id_from_text :: "string \<Rightarrow> entity_id option" where
  "scope_id_from_text s =
     (case from_hex s of Inl _ \<Rightarrow> None | Inr i \<Rightarrow> (if to_hex i \<noteq> s then None else Some i))"

section \<open>The mint\<close>

text \<open>
  \<open>now\<close>: the Unix milliseconds (a \<open>u64\<close>), ten random bytes and the number minted last.  \<open>None\<close>
  is the panic at exhaustion.
\<close>

definition mint :: "nat \<Rightarrow> byte list \<Rightarrow> nat \<Rightarrow> (entity_id \<times> nat) option" where
  "mint millis rnd prior =
     (let random = from_be_bytes (drop 2 (to_be_bytes 8 millis) @ rnd)
      in if random div 2 ^ 80 \<le> prior div 2 ^ 80
         then (if prior + 1 < 2 ^ 128 then Some (to_be_bytes 16 (prior + 1), prior + 1) else None)
         else Some (to_be_bytes 16 random, random))"

section \<open>Derived ids\<close>

text \<open>\<open>str::from_utf8\<close>: the well-formed sequences of the Unicode standard.\<close>

definition byte_in :: "byte \<Rightarrow> byte \<Rightarrow> byte \<Rightarrow> bool" where
  "byte_in lo hi b \<longleftrightarrow> lo \<le> b \<and> b \<le> hi"

text \<open>\<open>char::is_control\<close> of some character of a text: the C0 and C1 controls and DEL, the C1 controls being
  the two-byte sequences that start with \<open>0xC2\<close>.\<close>

fun has_control :: "string \<Rightarrow> bool" where
  "has_control [] = False"
| "has_control (c # cs) =
     ((of_char c :: nat) < 32 \<or> (of_char c :: nat) = 127 \<or>
      ((of_char c :: nat) = 0xC2 \<and>
       (case cs of d # _ \<Rightarrow> 0x80 \<le> (of_char d :: nat) \<and> (of_char d :: nat) \<le> 0x9F | [] \<Rightarrow> False)) \<or>
      has_control cs)"

fun utf8_valid :: "byte list \<Rightarrow> bool" where
  "utf8_valid [] = True"
| "utf8_valid (a # bs) =
     (if a \<le> 127 then utf8_valid bs
      else case bs of
        b # cs \<Rightarrow>
          (if byte_in 0xC2 0xDF a then byte_in 0x80 0xBF b \<and> utf8_valid cs
           else case cs of
             c # ds \<Rightarrow>
               (if a = 0xE0 then byte_in 0xA0 0xBF b \<and> byte_in 0x80 0xBF c \<and> utf8_valid ds
                else if byte_in 0xE1 0xEC a \<or> byte_in 0xEE 0xEF a
                then byte_in 0x80 0xBF b \<and> byte_in 0x80 0xBF c \<and> utf8_valid ds
                else if a = 0xED then byte_in 0x80 0x9F b \<and> byte_in 0x80 0xBF c \<and> utf8_valid ds
                else case ds of
                  d # es \<Rightarrow>
                    (if a = 0xF0 then byte_in 0x90 0xBF b
                     else if byte_in 0xF1 0xF3 a then byte_in 0x80 0xBF b
                     else a = 0xF4 \<and> byte_in 0x80 0x8F b) \<and>
                    byte_in 0x80 0xBF c \<and> byte_in 0x80 0xBF d \<and> utf8_valid es
                | [] \<Rightarrow> False)
           | [] \<Rightarrow> False)
      | [] \<Rightarrow> False)"

definition framed :: "byte list list \<Rightarrow> byte list" where
  "framed parts = concat (map (\<lambda>p. to_le_bytes 8 (length p) @ p) parts)"

definition stamped :: "byte list \<Rightarrow> byte list" where
  "stamped bs = (let bs = bs[6 := (bs ! 6 AND 0x0F) OR 0x80] in bs[8 := (bs ! 8 AND 0x3F) OR 0x80])"

definition derive_with ::
    "(byte list \<Rightarrow> byte list \<Rightarrow> byte list) \<Rightarrow> byte list \<Rightarrow> byte list list \<Rightarrow> (byte list \<Rightarrow> bool) \<Rightarrow>
     (id_error, entity_id) result" where
  "derive_with blake3 domain parts reserved =
     (if \<not> utf8_valid domain \<or> domain = []
      then Err (InvariantViolation ''a derived-id domain must be non-empty UTF-8'')
      else (let bytes = stamped (take 16 (blake3 domain (framed parts)))
            in if reserved bytes then Err InvalidKey else Ok bytes))"

definition derive :: "(byte list \<Rightarrow> byte list \<Rightarrow> byte list) \<Rightarrow> byte list \<Rightarrow> byte list list \<Rightarrow> (id_error, entity_id) result" where
  "derive blake3 domain parts = derive_with blake3 domain parts is_reserved_entity_id_bytes"

definition has_derived_stamp :: "entity_id \<Rightarrow> bool" where
  "has_derived_stamp i \<longleftrightarrow> (i ! 6 AND 0xF0) = 0x80 \<and> (i ! 8 AND 0xC0) = 0x80"

section \<open>World ids\<close>

definition is_foreign_world_id_range :: "entity_id \<Rightarrow> bool" where
  "is_foreign_world_id_range i \<longleftrightarrow> hd i \<ge> 0xF0"

definition local_world_id :: "entity_id \<Rightarrow> (id_error, entity_id) result" where
  "local_world_id i = (if is_foreign_world_id_range i then Err InvalidKey else Ok i)"

definition foreign_world_id :: "entity_id \<Rightarrow> (id_error, entity_id) result" where
  "foreign_world_id i = (if \<not> is_foreign_world_id_range i then Err InvalidKey else Ok i)"

section \<open>Presentation ids\<close>

record parsed_presentation_id =
  id_prefix :: string
  digits :: string

definition parse_presentation_id :: "string \<Rightarrow> (id_error, parsed_presentation_id) result" where
  "parse_presentation_id raw =
     (case position (\<lambda>c. \<not> in_range CHR ''a'' CHR ''z'' c) raw of
        None \<Rightarrow> Err InvalidKey
      | Some split \<Rightarrow>
          (let pre = take split raw; digs = drop split raw
           in if length pre < 2 \<or> digs = [] \<or> \<not> list_all (in_range CHR ''0'' CHR ''9'') digs
              then Err InvalidKey
              else Ok \<lparr>id_prefix = pre, digits = digs\<rparr>))"

definition split_once :: "char \<Rightarrow> string \<Rightarrow> (string \<times> string) option" where
  "split_once sep s =
     map_option (\<lambda>i. (take i s, drop (Suc i) s)) (position (\<lambda>c. c = sep) s)"

definition parse_short_ref_syntax :: "string \<Rightarrow> (id_error, string \<times> byte) result" where
  "parse_short_ref_syntax reference =
     (case split_once CHR '':'' reference of
        None \<Rightarrow> Err InvalidKey
      | Some (short_id, hash) \<Rightarrow>
          (case parse_presentation_id short_id of
             Inl e \<Rightarrow> Err e
           | Inr _ \<Rightarrow>
               (if length hash \<noteq> 2 \<or> \<not> list_all (\<lambda>c. hex_nibble c \<noteq> None) hash then Err InvalidKey
                else case hex_bytes hash of
                       Some [b] \<Rightarrow> Ok (short_id, b)
                     | _ \<Rightarrow> Err InvalidKey)))"


section \<open>Round trips\<close>

lemma unat_byte [simp]: "unat (b :: byte) < 256"
  using unsigned_less [of b, where 'a = nat] by simp

lemma unat_of_nat_byte: "n < 256 \<Longrightarrow> unat (of_nat n :: byte) = n"
  by (simp add: unat_of_nat)

lemma map_unat_inverse: "map of_nat (map unat bs) = (bs :: byte list)"
  by (induction bs) auto

lemma map_of_nat_inverse: "(\<forall>d \<in> set ds. d < 256) \<Longrightarrow> map unat (map (of_nat :: nat \<Rightarrow> byte) ds) = ds"
  by (induction ds) (auto simp: unat_of_nat_byte)

lemma length_to_be_bytes [simp]: "length (to_be_bytes k n) = k"
  by (simp add: to_be_bytes_def)

lemma be_bytes_bound: "from_be_bytes bs < 256 ^ length bs"
  using from_digits_bound [of "map unat bs" 256] by (simp add: from_be_bytes_def)

lemma to_from_be_bytes: "to_be_bytes (length bs) (from_be_bytes bs) = bs"
  using to_from_digits [of "map unat bs" 256] map_unat_inverse [of bs]
  by (simp add: to_be_bytes_def from_be_bytes_def)

lemma from_to_be_bytes: "n < 256 ^ k \<Longrightarrow> from_be_bytes (to_be_bytes k n) = n"
  using map_of_nat_inverse [of "to_digits 256 k n"] to_digits_bound [of 256 _ k n] from_to_digits [of n 256 k]
  by (auto simp: to_be_bytes_def from_be_bytes_def)

lemma id_number: "length i = 16 \<Longrightarrow> from_be_bytes i < 2 ^ 128"
  using be_bytes_bound [of i] by simp

lemma be_bytes_order:
  "length x = length y \<Longrightarrow> from_be_bytes x < from_be_bytes y \<longleftrightarrow> x < y"
proof -
  assume l: "length x = length y"
  have u: "ord_class.lexordp (map unat x) (map unat y) \<longleftrightarrow> x < y"
    using l by (induction x y rule: list_induct2)
      (auto simp: word_less_nat_alt list_less_def dest: unsigned_word_eqI)
  show ?thesis using from_digits_less [of "map unat x" "map unat y" 256] l u
    by (simp add: from_be_bytes_def)
qed

lemma crockford_length: "length crockford = 32"
  by (simp add: crockford_def)

lemma ulid_digit_crockford: "d < 32 \<Longrightarrow> ulid_digit (crockford ! d) = Some d"
proof -
  have "list_all (\<lambda>d. ulid_digit (crockford ! d) = Some d) [0..<32]"
    by (simp add: ulid_digit_def crockford_def ascii_upper_def in_range_def upt_rec Let_def)
  then show "d < 32 \<Longrightarrow> ulid_digit (crockford ! d) = Some d" by (auto simp: list_all_iff)
qed

lemma ulid_digit_bound: "ulid_digit c = Some d \<Longrightarrow> d < 32"
proof -
  have p: "position P xs = Some i \<Longrightarrow> i < length xs" for P :: "char \<Rightarrow> bool" and xs i
    by (induction xs arbitrary: i) (auto split: if_splits)
  show "ulid_digit c = Some d \<Longrightarrow> d < 32"
    using p [of "\<lambda>a. a = ascii_upper c" crockford d] crockford_length
    by (auto simp: ulid_digit_def Let_def split: if_splits)
qed

lemma ulid_number_digits:
  "(\<forall>d \<in> set ds. d < 32) \<Longrightarrow> from_digits 32 (es @ ds) < 2 ^ 128 \<Longrightarrow>
   ulid_number (map (\<lambda>d. crockford ! d) ds) (from_digits 32 es) = Some (from_digits 32 (es @ ds))"
proof (induction ds arbitrary: es)
  case (Cons d ds)
  have "from_digits 32 (es @ [d]) \<le> from_digits 32 ((es @ [d]) @ ds)"
    by (subst (2) from_digits_append) (simp add: trans_le_add1)
  also have "\<dots> < 2 ^ 128" using Cons.prems(2) by simp
  finally have l: "from_digits 32 es * 32 + d < 2 ^ 128" by simp
  moreover have "ulid_number (map (\<lambda>d. crockford ! d) ds) (from_digits 32 (es @ [d])) =
      Some (from_digits 32 ((es @ [d]) @ ds))"
    by (rule Cons.IH) (use Cons.prems in auto)
  ultimately show ?case using Cons.prems(1) by (simp add: ulid_digit_crockford)
qed simp

lemma ulid_number_value:
  "ulid_number cs n = Some m \<Longrightarrow>
   \<exists>ds. length ds = length cs \<and> (\<forall>d \<in> set ds. d < 32) \<and> m = foldl (\<lambda>n d. n * 32 + d) n ds \<and> (n < 2 ^ 128 \<longrightarrow> m < 2 ^ 128) \<and>
        list_all2 (\<lambda>c d. ulid_digit c = Some d) cs ds"
proof (induction cs n rule: ulid_number.induct)
  case (2 c cs n)
  then obtain d where d: "ulid_digit c = Some d" "n * 32 + d < 2 ^ 128" "ulid_number cs (n * 32 + d) = Some m"
    by (auto split: option.splits if_splits)
  with 2 obtain ds where ds: "length ds = length cs" "\<forall>d \<in> set ds. d < 32" "m = foldl (\<lambda>n d. n * 32 + d) (n * 32 + d) ds"
     "m < 2 ^ 128" "list_all2 (\<lambda>c d. ulid_digit c = Some d) cs ds"
    by (auto split: if_splits)
  with d ulid_digit_bound [OF d(1)] show ?case by (intro exI [of _ "d # ds"]) auto
qed simp

lemma from_ulid_spelling:
  assumes "from_ulid t = Ok i"
  shows "list_all2 (\<lambda>c d. ulid_digit c = ulid_digit d) t (to_ulid i)"
proof -
  obtain m where l: "length t = 26" and m: "ulid_number t 0 = Some m" and i: "i = to_be_bytes 16 m"
    using assms by (auto simp: from_ulid_def from_bytes_def split: if_splits option.splits)
  from ulid_number_value [OF m] obtain ds where ds: "length ds = 26" "\<forall>d \<in> set ds. d < 32"
    "m = from_digits 32 ds" "m < 2 ^ 128" "list_all2 (\<lambda>c d. ulid_digit c = Some d) t ds"
    using l by (auto simp: from_digits_def)
  have "from_be_bytes i = m" using i ds(4) by (simp add: from_to_be_bytes)
  then have "to_digits 32 26 (from_be_bytes i) = ds" using to_from_digits [OF ds(2)] ds(1,3) by simp
  then have u: "to_ulid i = map (\<lambda>d. crockford ! d) ds" by (simp add: to_ulid_def)
  show ?thesis unfolding u list_all2_map2
    by (rule list_all2_all_nthI)
      (use ds l in \<open>auto simp: list_all2_conv_all_nth ulid_digit_crockford\<close>)
qed

text \<open>The ULID text of an id is faithful: it has 26 characters and parses back to the id, unless
  the id is one of the reserved patterns (then it is refused), and every text that parses to an id
  is a spelling of the id's own text, character by character.\<close>

theorem ulid_roundtrip:
  assumes "length i = 16"
  shows "length (to_ulid i) = 26 \<and> from_ulid (to_ulid i) = from_bytes i \<and>
    (from_ulid t = Ok i \<longrightarrow> list_all2 (\<lambda>c d. ulid_digit c = ulid_digit d) t (to_ulid i))"
proof -
  have b: "from_be_bytes i < 32 ^ 26" "from_be_bytes i < 2 ^ 128"
    using id_number [OF assms] by simp_all
  have "ulid_number (to_ulid i) (from_digits 32 []) = Some (from_digits 32 ([] @ to_digits 32 26 (from_be_bytes i)))"
    unfolding to_ulid_def
    by (rule ulid_number_digits) (use b from_to_digits [OF b(1)] to_digits_bound [of 32 _ 26] in auto)
  then have "ulid_number (to_ulid i) 0 = Some (from_be_bytes i)"
    using from_to_digits [OF b(1)] by simp
  moreover have "length (to_ulid i) = 26" by (simp add: to_ulid_def)
  ultimately show ?thesis
    using to_from_be_bytes [of i] assms from_ulid_spelling [of t i] by (simp add: from_ulid_def)
qed

lemma ulid_roundtrip_witness:
  "from_ulid (to_ulid (replicate 15 1 @ [7])) = Ok (replicate 15 1 @ [7])"
proof -
  have "from_ulid (to_ulid (replicate 15 1 @ [7])) = from_bytes (replicate 15 1 @ [7])"
    using ulid_roundtrip [of "replicate 15 1 @ [7]"] by simp
  also have "\<dots> = Ok (replicate 15 1 @ [7])" by code_simp
  finally show ?thesis .
qed

lemma ulid_text_order:
  assumes "length i = 16" "length j = 16"
  shows "to_ulid i < to_ulid j \<longleftrightarrow> i < j"
proof -
  let ?d = "\<lambda>i. to_digits 32 26 (from_be_bytes i)"
  have v: "from_digits 32 (?d k) = from_be_bytes k" if "length k = 16" for k
    using from_to_digits [of "from_be_bytes k" 32 26] id_number [OF that] by simp
  have m: "list_all (\<lambda>d. list_all (\<lambda>e. (crockford ! d < crockford ! e) = (d < e)) [0..<32]) [0..<32]"
    by code_simp
  then have mono: "d < 32 \<Longrightarrow> e < 32 \<Longrightarrow> (crockford ! d < crockford ! e) = (d < e)" for d e
    by (simp add: list_all_iff)
  have inj: "crockford ! d = crockford ! e \<longleftrightarrow> d = e" if "d < 32" "e < 32" for d e
    using mono [OF that] mono [OF that(2,1)] by (metis less_irrefl nat_neq_iff)
  have "map ((!) crockford) xs < map ((!) crockford) ys \<longleftrightarrow> ord_class.lexordp xs ys"
    if "length xs = length ys" "\<forall>d \<in> set xs. d < 32" "\<forall>d \<in> set ys. d < 32" for xs ys
    using that by (induction xs ys rule: list_induct2) (auto simp: list_less_def mono inj)
  then have "to_ulid i < to_ulid j \<longleftrightarrow> ord_class.lexordp (?d i) (?d j)"
    using to_digits_bound [of 32 _ 26] by (simp add: to_ulid_def)
  also have "\<dots> \<longleftrightarrow> from_be_bytes i < from_be_bytes j"
    using from_digits_less [of "?d i" "?d j" 32] to_digits_bound [of 32 _ 26] v assms by auto
  also have "\<dots> \<longleftrightarrow> i < j" using be_bytes_order [of i j] assms by simp
  finally show ?thesis .
qed

text \<open>Ids, their numbers and their ULID texts have one order, so newest-id projections may
  compare any of the three.\<close>

theorem ulid_order:
  assumes "length i = 16" "length j = 16"
  shows "(to_ulid i < to_ulid j \<longleftrightarrow> i < j) \<and> (from_be_bytes i < from_be_bytes j \<longleftrightarrow> i < j)"
  using ulid_text_order [OF assms] be_bytes_order [of i j] assms by simp

lemma ulid_order_witness: "to_ulid (replicate 16 1) < to_ulid (replicate 15 1 @ [2])"
proof -
  have "replicate 16 (1 :: byte) < replicate 15 1 @ [2]" by code_simp
  with ulid_order [of "replicate 16 1" "replicate 15 1 @ [2]"] show ?thesis by simp
qed


section \<open>Hex\<close>

lemma hex_nibble_digit: "n < 16 \<Longrightarrow> hex_nibble (hex_digits ! n) = Some n"
proof -
  have "list_all (\<lambda>n. hex_nibble (hex_digits ! n) = Some n) [0..<16]"
    by (simp add: hex_nibble_def hex_digits_def in_range_def upt_rec)
  then show "n < 16 \<Longrightarrow> hex_nibble (hex_digits ! n) = Some n" by (auto simp: list_all_iff)
qed

lemma hex_bytes_lower: "hex_bytes (bytes_to_hex_lower bs) = Some bs"
proof (induction bs)
  case (Cons b bs)
  have "unat b div 16 < 16" using unat_byte [of b] by (simp add: less_mult_imp_div_less)
  moreover have "(of_nat (unat b div 16 * 16 + unat b mod 16) :: byte) = b" by (simp only: div_mult_mod_eq) simp
  ultimately show ?case using Cons by (simp add: bytes_to_hex_lower_def hex_nibble_digit)
qed (simp add: bytes_to_hex_lower_def)

lemma length_hex [simp]: "length (bytes_to_hex_lower bs) = 2 * length bs"
  by (induction bs) (simp_all add: bytes_to_hex_lower_def)

lemma hex_bytes_length: "hex_bytes s = Some bs \<Longrightarrow> length bs = length s div 2"
  by (induction s arbitrary: bs rule: hex_bytes.induct) (auto split: option.splits)

text \<open>Hex is a faithful text of ids: every id prints as 32 digits that parse back to it unless
  it is reserved, and the scope-id spelling accepts, of all texts, exactly the canonical one of
  each id that is not reserved.\<close>

theorem hex_roundtrip:
  assumes "length i = 16"
  shows "length (to_hex i) = 32 \<and> from_hex (to_hex i) = from_bytes i \<and>
    (scope_id_from_text s = Some i \<longleftrightarrow> s = to_hex i \<and> \<not> is_reserved_entity_id_bytes i)"
proof -
  have r: "from_hex (to_hex i) = from_bytes i"
    using assms by (simp add: from_hex_def to_hex_def hex_bytes_lower)
  have "scope_id_from_text s = Some i \<Longrightarrow> s = to_hex i"
    by (auto simp: scope_id_from_text_def split: sum.splits if_splits)
  then have "scope_id_from_text s = Some i \<longleftrightarrow> s = to_hex i \<and> scope_id_from_text (to_hex i) = Some i" by blast
  also have "scope_id_from_text (to_hex i) = Some i \<longleftrightarrow> \<not> is_reserved_entity_id_bytes i"
    by (simp add: scope_id_from_text_def r from_bytes_def)
  finally show ?thesis using r assms by (simp add: to_hex_def)
qed

lemma hex_roundtrip_witness: "scope_id_from_text (to_hex (replicate 16 1)) = Some (replicate 16 1)"
proof -
  have "\<not> is_reserved_entity_id_bytes (replicate 16 1)" by code_simp
  with hex_roundtrip [of "replicate 16 1" "to_hex (replicate 16 1)"] show ?thesis by simp
qed

section \<open>Minted ids\<close>

lemma timestamp:
  assumes "length rnd = 10"
  shows "from_be_bytes (drop 2 (to_be_bytes 8 millis) @ rnd) < 2 ^ 128"
  using be_bytes_bound [of "drop 2 (to_be_bytes 8 millis) @ rnd"] assms by simp

text \<open>Minting is strictly monotone: whatever the clock reads and whatever the random bytes are,
  a minted id is 16 bytes, is above the id minted last as a number and in byte order, becomes the
  last one, and never carries an earlier timestamp; only the exhaustion of 2^128 numbers stops it.\<close>

theorem mint_monotone:
  assumes "length rnd = 10" "mint millis rnd prior = Some (i, next)"
  shows "length i = 16 \<and> from_be_bytes i = next \<and> prior < next \<and> next < 2 ^ 128 \<and>
    to_be_bytes 16 prior < i \<and> prior div 2 ^ 80 \<le> next div 2 ^ 80"
proof -
  let ?r = "from_be_bytes (drop 2 (to_be_bytes 8 millis) @ rnd)"
  have r: "?r < 2 ^ 128" by (rule timestamp [OF assms(1)])
  have n: "i = to_be_bytes 16 next" "prior < next" "next < 2 ^ 128" "prior div 2 ^ 80 \<le> next div 2 ^ 80"
  proof -
    have "?r div 2 ^ 80 \<le> prior div 2 ^ 80 \<or> prior < ?r \<and> prior div 2 ^ 80 \<le> ?r div 2 ^ 80"
      using div_le_mono [of ?r prior "2 ^ 80"] by linarith
    then show "i = to_be_bytes 16 next" "prior < next" "next < 2 ^ 128" "prior div 2 ^ 80 \<le> next div 2 ^ 80"
      using assms(2) r by (auto simp: mint_def Let_def div_le_mono split: if_splits)
  qed
  have "from_be_bytes (to_be_bytes 16 prior) < from_be_bytes i"
    using n by (simp add: from_to_be_bytes)
  then have "to_be_bytes 16 prior < i" using n(1) be_bytes_order [of "to_be_bytes 16 prior" i] by simp
  with n show ?thesis by (simp add: from_to_be_bytes)
qed

lemma mint_monotone_witness:
  "\<exists>i next. mint 1700000000000 (replicate 10 3) 5 = Some (i, next) \<and> to_be_bytes 16 5 < i"
proof -
  have "mint 1700000000000 (replicate 10 3) 5 \<noteq> None" by (simp add: mint_def Let_def)
  then obtain i n where m: "mint 1700000000000 (replicate 10 3) 5 = Some (i, n)" by auto
  have "length (replicate 10 (3 :: byte)) = 10" by simp
  from mint_monotone [OF this m] m show ?thesis by blast
qed

section \<open>Derived ids\<close>

lemma framed_Cons: "framed (p # ps) = to_le_bytes 8 (length p) @ p @ framed ps"
  by (simp add: framed_def)

lemma length_le [simp]: "length (to_le_bytes k n) = k"
  by (simp add: to_le_bytes_def)

lemma le_inject:
  assumes "m < 256 ^ k" "n < 256 ^ k" "to_le_bytes k m = to_le_bytes k n"
  shows "m = n"
proof -
  have "to_be_bytes k m = to_be_bytes k n" using assms(3) by (simp only: to_le_bytes_def rev_is_rev_conv)
  then have "from_be_bytes (to_be_bytes k m) = from_be_bytes (to_be_bytes k n)" by (rule arg_cong)
  then show ?thesis by (simp only: from_to_be_bytes [OF assms(1)] from_to_be_bytes [OF assms(2)])
qed

lemma framed_nonempty: "framed (p # ps) \<noteq> []"
proof
  assume "framed (p # ps) = []"
  then have "to_le_bytes 8 (length p) = []" unfolding framed_Cons by (metis append_is_Nil_conv)
  then have "length (to_le_bytes 8 (length p)) = 0" by (simp only: list.size)
  then show False by (simp only: length_le)
qed

lemma framed_Nil: "framed [] = []"
  by (simp add: framed_def)

lemma framed_inject:
  "\<forall>p \<in> set ps. length p < 2 ^ 64 \<Longrightarrow> \<forall>q \<in> set qs. length q < 2 ^ 64 \<Longrightarrow> framed ps = framed qs \<Longrightarrow> ps = qs"
proof (induction ps arbitrary: qs)
  case Nil
  then show ?case using framed_nonempty by (cases qs) (simp_all add: framed_Nil, metis)
next
  case (Cons p ps)
  show ?case
  proof (cases qs)
    case Nil
    with Cons.prems(3) framed_nonempty [of p ps] show ?thesis by (simp add: framed_Nil)
  next
    case (Cons q qs')
    with Cons.prems(3) have e: "to_le_bytes 8 (length p) @ p @ framed ps = to_le_bytes 8 (length q) @ q @ framed qs'"
      by (simp add: framed_Cons)
    then have "to_le_bytes 8 (length p) = to_le_bytes 8 (length q)" "p @ framed ps = q @ framed qs'" by simp_all
    moreover have "length p < 256 ^ 8" "length q < 256 ^ 8" using Cons.prems(1,2) Cons by simp_all
    ultimately have "length p = length q" using le_inject [of "length p" 8 "length q"] by blast
    with \<open>p @ framed ps = q @ framed qs'\<close> have "p = q" "framed ps = framed qs'" by auto
    with Cons.IH [of qs'] Cons.prems(1,2) Cons show ?thesis by simp
  qed
qed

lemma stamp_bits: "((b :: byte) AND 0x0F OR 0x80) AND 0xF0 = 0x80" "((b :: byte) AND 0x3F OR 0x80) AND 0xC0 = 0x80"
  by (simp_all add: bit.conj_disj_distrib2 and.assoc)

lemma stamped_nth:
  "length bs = 16 \<Longrightarrow> stamped bs ! 6 = (bs ! 6 AND 0x0F) OR 0x80 \<and> stamped bs ! 8 = (bs ! 8 AND 0x3F) OR 0x80 \<and>
    length (stamped bs) = 16"
  by (simp add: stamped_def Let_def)

text \<open>A derived id always carries the version and variant stamp and is never a reserved
  pattern, so derivation under a proper domain cannot fail, whatever the hash returns; and its
  parts are framed without ambiguity, so different part lists feed the hash different bytes.\<close>

theorem derived_id_total:
  assumes "utf8_valid domain" "domain \<noteq> []" "length (blake3 domain (framed parts)) = 32"
    and "\<forall>p \<in> set parts. length p < 2 ^ 64" "\<forall>p \<in> set others. length p < 2 ^ 64"
  shows "(\<exists>i. derive blake3 domain parts = Ok i \<and> length i = 16 \<and> has_derived_stamp i \<and>
      \<not> is_reserved_entity_id_bytes i) \<and>
    (framed parts = framed others \<longleftrightarrow> parts = others)"
proof -
  let ?i = "stamped (take 16 (blake3 domain (framed parts)))"
  have s: "has_derived_stamp ?i" "length ?i = 16"
    using stamped_nth [of "take 16 (blake3 domain (framed parts))"] assms(3)
    by (simp_all add: has_derived_stamp_def stamp_bits)
  have "?i ! 6 \<noteq> 0" "?i ! 6 \<noteq> 255" using s(1) by (auto simp: has_derived_stamp_def)
  moreover have "?i ! 6 \<in> set (tl ?i)" using s(2) by (cases ?i) auto
  ultimately have "\<not> is_reserved_entity_id_bytes ?i"
    by (auto simp: is_reserved_entity_id_bytes_def list_all_iff split: sum.splits)
  then have "derive blake3 domain parts = Ok ?i \<and> \<not> is_reserved_entity_id_bytes ?i"
    using assms(1,2) by (simp add: derive_def derive_with_def Let_def)
  with s framed_inject [OF assms(4,5)] show ?thesis by blast
qed

lemma derived_id_total_witness:
  "\<exists>i. derive (\<lambda>d ps. replicate 32 255) [0x61] [[1], [2, 3]] = Ok i \<and> has_derived_stamp i"
  using derived_id_total [of "[0x61]" "\<lambda>d ps. replicate 32 255" "[[1], [2, 3]]" "[]"] by auto

section \<open>The presentation grammar\<close>

lemma position_take: "position P xs = Some i \<Longrightarrow> i < length xs \<and> P (xs ! i) \<and> list_all (\<lambda>x. \<not> P x) (take i xs)"
  by (induction xs arbitrary: i) (auto split: if_splits)

lemma position_split: "list_all (\<lambda>x. \<not> P x) xs \<Longrightarrow> P y \<Longrightarrow> position P (xs @ y # ys) = Some (length xs)"
  by (induction xs) auto

lemma digit_not_letter: "in_range CHR ''0'' CHR ''9'' c \<Longrightarrow> \<not> in_range CHR ''a'' CHR ''z'' c"
  by (simp add: in_range_def)

text \<open>The presentation grammar is exactly a run of at least two lowercase letters followed by a
  non-empty run of digits, kept verbatim: what parses is the concatenation of its parts, every
  such concatenation parses to those parts, and so no one-letter session alias ever parses.\<close>

theorem presentation_grammar:
  "parse_presentation_id raw = Ok \<lparr>id_prefix = p, digits = d\<rparr> \<longleftrightarrow>
   raw = p @ d \<and> length p \<ge> 2 \<and> list_all (in_range CHR ''a'' CHR ''z'') p \<and>
   d \<noteq> [] \<and> list_all (in_range CHR ''0'' CHR ''9'') d"
proof
  assume "parse_presentation_id raw = Ok \<lparr>id_prefix = p, digits = d\<rparr>"
  then obtain i where "position (\<lambda>c. \<not> in_range CHR ''a'' CHR ''z'' c) raw = Some i"
    "p = take i raw" "d = drop i raw" "\<not> length p < 2" "d \<noteq> []" "list_all (in_range CHR ''0'' CHR ''9'') d"
    by (auto simp: parse_presentation_id_def Let_def split: option.splits if_splits)
  with position_take [of "\<lambda>c. \<not> in_range CHR ''a'' CHR ''z'' c" raw i]
  show "raw = p @ d \<and> length p \<ge> 2 \<and> list_all (in_range CHR ''a'' CHR ''z'') p \<and>
    d \<noteq> [] \<and> list_all (in_range CHR ''0'' CHR ''9'') d" by simp
next
  assume g: "raw = p @ d \<and> length p \<ge> 2 \<and> list_all (in_range CHR ''a'' CHR ''z'') p \<and>
    d \<noteq> [] \<and> list_all (in_range CHR ''0'' CHR ''9'') d"
  then obtain c cs where d: "d = c # cs" "in_range CHR ''0'' CHR ''9'' c" by (cases d) auto
  have "position (\<lambda>c. \<not> in_range CHR ''a'' CHR ''z'' c) raw = Some (length p)"
    using g d position_split [of "\<lambda>c. \<not> in_range CHR ''a'' CHR ''z'' c" p c cs] digit_not_letter by simp
  with g show "parse_presentation_id raw = Ok \<lparr>id_prefix = p, digits = d\<rparr>"
    by (auto simp: parse_presentation_id_def Let_def)
qed

lemma hex_nibble_colon: "hex_nibble CHR '':'' = None"
  by (simp add: hex_nibble_def in_range_def)

lemma presentation_no_colon:
  "parse_presentation_id s = Ok r \<Longrightarrow> list_all (\<lambda>c. c \<noteq> CHR '':'') s"
proof -
  assume "parse_presentation_id s = Ok r"
  then have "parse_presentation_id s = Ok \<lparr>id_prefix = id_prefix r, digits = digits r\<rparr>" by simp
  then have "s = id_prefix r @ digits r" "list_all (in_range CHR ''a'' CHR ''z'') (id_prefix r)"
    "list_all (in_range CHR ''0'' CHR ''9'') (digits r)" unfolding presentation_grammar by auto
  moreover have "\<not> in_range CHR ''a'' CHR ''z'' CHR '':''" "\<not> in_range CHR ''0'' CHR ''9'' CHR '':''"
    by (simp_all add: in_range_def)
  ultimately show ?thesis by (auto simp: list_all_iff)
qed

text \<open>A short reference is a presentation id, a colon and the lower-hex of its content hash, and
  printing it that way parses back to the same id and hash.\<close>

theorem short_ref_roundtrip:
  assumes "parse_presentation_id s = Ok r"
  shows "parse_short_ref_syntax (s @ CHR '':'' # bytes_to_hex_lower [h]) = Ok (s, h)"
proof -
  have "split_once CHR '':'' (s @ CHR '':'' # bytes_to_hex_lower [h]) = Some (s, bytes_to_hex_lower [h])"
    using position_split [of "\<lambda>c. c = CHR '':''" s "CHR '':''"] presentation_no_colon [OF assms]
    by (simp add: split_once_def)
  moreover have "list_all (\<lambda>c. hex_nibble c \<noteq> None) (bytes_to_hex_lower [h])"
    using hex_nibble_digit [of "unat h div 16"] hex_nibble_digit [of "unat h mod 16"] unat_byte [of h]
    by (simp add: bytes_to_hex_lower_def less_mult_imp_div_less)
  ultimately show ?thesis using assms hex_bytes_lower [of "[h]"] by (simp add: parse_short_ref_syntax_def)
qed

lemma short_ref_roundtrip_witness:
  "parse_short_ref_syntax ''cl17:a3'' = Ok (''cl17'', 0xA3)"
proof -
  have "parse_presentation_id ''cl17'' = Ok \<lparr>id_prefix = ''cl'', digits = ''17''\<rparr>" by code_simp
  from short_ref_roundtrip [OF this, of "0xA3"]
  show ?thesis by (simp add: bytes_to_hex_lower_def hex_digits_def)
qed

end
