(* ===== verification/Scopes.thy ===== *)
theory Scopes
  imports EntityIds "HOL-Library.FSet"
begin

text \<open>
  The scope lattice (\<open>crates/oneiron-authority/src/federation/scope.rs\<close>) and the band vocabulary of
  the pact lattice (\<open>federation/selector_kind.rs\<close>).

  A \<open>BTreeSet\<close> is a finite set.  The trait \<open>ScopeAtom\<close> is the locale \<open>scope_atom\<close>: the two
  methods an axis member type provides, with what the lattice relies on them for, stated over the
  atoms each member stands for.  The generic axis operations take the methods they call as
  arguments, as the generic functions of the code do; the laws are proved once in the locale and
  hold for the plain kinds of member (ids, type bytes, verb names) and for \<open>SelectorRange\<close>.
\<close>

section \<open>Axes\<close>

datatype 'a axis = AxisBottom | AxisAll | AxisSome "'a fset"

definition axis_of :: "'a fset \<Rightarrow> 'a axis" where
  "axis_of values = (if values = {||} then AxisBottom else AxisSome values)"

text \<open>Decoding: the wire's empty set is bottom.\<close>

definition axis_from_wire :: "'a axis \<Rightarrow> 'a axis" where
  "axis_from_wire w =
     (case w of AxisBottom \<Rightarrow> AxisBottom | AxisAll \<Rightarrow> AxisAll
      | AxisSome values \<Rightarrow> (if values = {||} then AxisBottom else AxisSome values))"

definition axis_is_bottom :: "'a axis \<Rightarrow> bool" where
  "axis_is_bottom a \<longleftrightarrow> (case a of AxisBottom \<Rightarrow> True | AxisAll \<Rightarrow> False | AxisSome values \<Rightarrow> values = {||})"

definition axis_contains :: "('a \<Rightarrow> 'a fset \<Rightarrow> bool) \<Rightarrow> 'a axis \<Rightarrow> 'a \<Rightarrow> bool" where
  "axis_contains covered_by a v \<longleftrightarrow>
     (case a of AxisBottom \<Rightarrow> False | AxisAll \<Rightarrow> True | AxisSome values \<Rightarrow> covered_by v values)"

definition axis_narrows :: "('a \<Rightarrow> 'a fset \<Rightarrow> bool) \<Rightarrow> 'a axis \<Rightarrow> 'a axis \<Rightarrow> bool" where
  "axis_narrows covered_by a b \<longleftrightarrow>
     (if axis_is_bottom a then True
      else case (a, b) of
             (_, AxisAll) \<Rightarrow> True
           | (AxisSome x, AxisSome y) \<Rightarrow> fBall x (\<lambda>v. covered_by v y)
           | _ \<Rightarrow> False)"

definition narrower :: "('a \<Rightarrow> 'a \<Rightarrow> bool) \<Rightarrow> 'a fset \<Rightarrow> 'a fset \<Rightarrow> 'a fset" where
  "narrower incl from wide = ffilter (\<lambda>v. fBex wide (\<lambda>w. incl w v)) from"

definition axis_meet :: "('a \<Rightarrow> 'a \<Rightarrow> bool) \<Rightarrow> 'a axis \<Rightarrow> 'a axis \<Rightarrow> 'a axis" where
  "axis_meet incl a b =
     (if axis_is_bottom a \<or> axis_is_bottom b then AxisBottom
      else case (a, b) of
             (AxisAll, r) \<Rightarrow> r
           | (l, AxisAll) \<Rightarrow> l
           | (AxisSome x, AxisSome y) \<Rightarrow>
               (let kept = narrower incl x y |\<union>| narrower incl y x
                in axis_of (ffilter (\<lambda>v. \<not> fBex kept (\<lambda>w. w \<noteq> v \<and> incl w v)) kept))
           | _ \<Rightarrow> AxisBottom)"

section \<open>The contract of an axis member\<close>

locale scope_atom =
  fixes incl :: "'a \<Rightarrow> 'a \<Rightarrow> bool"
    and covered_by :: "'a \<Rightarrow> 'a fset \<Rightarrow> bool"
    and atoms :: "'a \<Rightarrow> 'b set"
  assumes includes_atoms: "incl v w \<longleftrightarrow> atoms w \<subseteq> atoms v"
    and covered_atoms: "covered_by v wide \<longleftrightarrow> atoms v \<subseteq> (\<Union>w \<in> fset wide. atoms w)"
    and atoms_nested: "atoms v \<inter> atoms w = {} \<or> atoms v \<subseteq> atoms w \<or> atoms w \<subseteq> atoms v"
    and atoms_inject: "atoms v = atoms w \<Longrightarrow> v = w"
    and atoms_nonempty: "atoms v \<noteq> {}"
begin

text \<open>What an axis admits: the atoms of its members, or everything, named or not.\<close>

definition axis_atoms :: "'a axis \<Rightarrow> 'b option set" where
  "axis_atoms a = (case a of AxisBottom \<Rightarrow> {} | AxisAll \<Rightarrow> UNIV
     | AxisSome values \<Rightarrow> Some ` (\<Union>v \<in> fset values. atoms v))"

lemma axis_atoms_simps [simp]:
  "axis_atoms AxisBottom = {}" "axis_atoms AxisAll = UNIV"
  "axis_atoms (AxisSome values) = Some ` (\<Union>v \<in> fset values. atoms v)"
  by (simp_all add: axis_atoms_def)

lemma axis_of_atoms [simp]: "axis_atoms (axis_of values) = Some ` (\<Union>v \<in> fset values. atoms v)"
  by (simp add: axis_of_def)

lemma is_bottom_atoms: "axis_is_bottom a \<longleftrightarrow> axis_atoms a = {}"
  using atoms_nonempty by (cases a) (auto simp: axis_is_bottom_def)

lemma contains_atoms: "axis_contains covered_by a v \<longleftrightarrow> Some ` atoms v \<subseteq> axis_atoms a"
  using atoms_nonempty [of v] by (cases a) (auto simp: axis_contains_def covered_atoms)

lemma narrows_atoms: "axis_narrows covered_by a b \<longleftrightarrow> axis_atoms a \<subseteq> axis_atoms b"
proof (cases "axis_is_bottom a")
  case True
  then show ?thesis by (simp add: axis_narrows_def is_bottom_atoms)
next
  case False
  show ?thesis
  proof (cases a; cases b)
    fix x y assume "a = AxisSome x" "b = AxisSome y"
    with False show ?thesis
      by (simp add: axis_narrows_def covered_atoms inj_image_subset_iff UN_subset_iff)
  qed (use False atoms_nonempty in \<open>auto simp: axis_narrows_def axis_is_bottom_def\<close>)
qed

lemma narrower_atoms: "(\<Union>v \<in> fset (narrower incl x y). atoms v) \<subseteq> (\<Union>v \<in> fset x. atoms v) \<inter> (\<Union>v \<in> fset y. atoms v)"
  by (auto simp: narrower_def includes_atoms)

lemma kept_atoms:
  "(\<Union>v \<in> fset (narrower incl x y |\<union>| narrower incl y x). atoms v) =
   (\<Union>v \<in> fset x. atoms v) \<inter> (\<Union>v \<in> fset y. atoms v)"
proof
  show "(\<Union>v \<in> fset x. atoms v) \<inter> (\<Union>v \<in> fset y. atoms v) \<subseteq>
      (\<Union>v \<in> fset (narrower incl x y |\<union>| narrower incl y x). atoms v)"
  proof
    fix t assume "t \<in> (\<Union>v \<in> fset x. atoms v) \<inter> (\<Union>v \<in> fset y. atoms v)"
    then obtain v w where vw: "v \<in> fset x" "w \<in> fset y" "t \<in> atoms v" "t \<in> atoms w" by auto
    then have "atoms v \<subseteq> atoms w \<or> atoms w \<subseteq> atoms v" using atoms_nested [of v w] by auto
    with vw show "t \<in> (\<Union>v \<in> fset (narrower incl x y |\<union>| narrower incl y x). atoms v)"
      by (auto simp: narrower_def includes_atoms)
  qed
qed (use narrower_atoms [of x y] narrower_atoms [of y x] in auto)

text \<open>Dropping the members another one includes loses no atom: above each there is a largest.\<close>

lemma maximal_atoms:
  "(\<Union>v \<in> fset (ffilter (\<lambda>v. \<not> fBex s (\<lambda>w. w \<noteq> v \<and> incl w v)) s). atoms v) = (\<Union>v \<in> fset s. atoms v)"
proof
  show "(\<Union>v \<in> fset s. atoms v) \<subseteq>
      (\<Union>v \<in> fset (ffilter (\<lambda>v. \<not> fBex s (\<lambda>w. w \<noteq> v \<and> incl w v)) s). atoms v)"
  proof
    fix t assume "t \<in> (\<Union>v \<in> fset s. atoms v)"
    then obtain v where v: "v \<in> fset s" "t \<in> atoms v" by auto
    have "\<exists>m \<in> atoms ` fset s. atoms v \<subseteq> m \<and> (\<forall>b \<in> atoms ` fset s. m \<subseteq> b \<longrightarrow> b = m)"
      using finite_has_maximal2 [of "atoms ` fset s" "atoms v"] v(1) by (simp add: eq_commute)
    then obtain w where w: "w \<in> fset s" "atoms v \<subseteq> atoms w"
      and m: "\<forall>u \<in> fset s. atoms w \<subseteq> atoms u \<longrightarrow> atoms u = atoms w" by auto
    have "\<not> fBex s (\<lambda>u. u \<noteq> w \<and> incl u w)"
      using m atoms_inject by (auto simp: includes_atoms)
    with w v show "t \<in> (\<Union>v \<in> fset (ffilter (\<lambda>v. \<not> fBex s (\<lambda>w. w \<noteq> v \<and> incl w v)) s). atoms v)"
      by auto
  qed
qed auto

lemma meet_atoms: "axis_atoms (axis_meet incl a b) = axis_atoms a \<inter> axis_atoms b"
proof (cases "axis_is_bottom a \<or> axis_is_bottom b")
  case True
  then show ?thesis by (auto simp: axis_meet_def is_bottom_atoms)
next
  case False
  show ?thesis
  proof (cases a; cases b)
    fix x y assume ab: "a = AxisSome x" "b = AxisSome y"
    let ?k = "narrower incl x y |\<union>| narrower incl y x"
    have "axis_meet incl a b = axis_of (ffilter (\<lambda>v. \<not> fBex ?k (\<lambda>w. w \<noteq> v \<and> incl w v)) ?k)"
      using False ab by (simp add: axis_meet_def Let_def)
    then have "axis_atoms (axis_meet incl a b) = Some ` (\<Union>v \<in> fset ?k. atoms v)"
      by (simp only: axis_of_atoms maximal_atoms)
    then show ?thesis unfolding kept_atoms ab by (simp add: image_Int)
  qed (use False in \<open>auto simp: axis_meet_def axis_is_bottom_def\<close>)
qed

lemmas axis_laws = narrows_atoms meet_atoms contains_atoms is_bottom_atoms

text \<open>So narrowing is a preorder, meet its greatest lower bound, and bottom and all its ends.\<close>

lemma narrows_refl: "axis_narrows covered_by a a"
  by (simp add: axis_laws)

lemma narrows_trans: "axis_narrows covered_by a b \<Longrightarrow> axis_narrows covered_by b c \<Longrightarrow> axis_narrows covered_by a c"
  by (simp add: axis_laws)

lemma narrows_meet:
  "axis_narrows covered_by c (axis_meet incl a b) \<longleftrightarrow>
   axis_narrows covered_by c a \<and> axis_narrows covered_by c b"
  by (simp add: axis_laws)

lemma contains_meet:
  "axis_contains covered_by (axis_meet incl a b) v \<longleftrightarrow>
   axis_contains covered_by a v \<and> axis_contains covered_by b v"
  by (simp add: axis_laws)

lemma contains_narrows:
  "axis_narrows covered_by a b \<Longrightarrow> axis_contains covered_by a v \<Longrightarrow> axis_contains covered_by b v"
  by (simp add: axis_laws)

lemma narrows_ends: "axis_narrows covered_by AxisBottom a" "axis_narrows covered_by a AxisAll"
  by (simp_all add: axis_laws)

end


section \<open>Plain members\<close>

text \<open>The default methods of the trait, which ids, type bytes and verb names keep.\<close>

definition atom_includes :: "'a \<Rightarrow> 'a \<Rightarrow> bool" where
  "atom_includes v w \<longleftrightarrow> v = w"

definition atom_covered_by :: "'a \<Rightarrow> 'a fset \<Rightarrow> bool" where
  "atom_covered_by v wide \<longleftrightarrow> v |\<in>| wide"

interpretation plain: scope_atom atom_includes atom_covered_by "\<lambda>v. {v}"
  by unfold_locales (auto simp: atom_includes_def atom_covered_by_def)

text \<open>A decoded axis has one value for each meaning.\<close>

definition axis_wf :: "'a axis \<Rightarrow> bool" where
  "axis_wf a \<longleftrightarrow> a \<noteq> AxisSome {||}"

lemma axis_wf_intros [simp]: "axis_wf (axis_of s)" "axis_wf (axis_from_wire w)"
  by (auto simp: axis_wf_def axis_of_def axis_from_wire_def split: axis.splits)

lemma axis_wf_meet: "axis_wf a \<Longrightarrow> axis_wf b \<Longrightarrow> axis_wf (axis_meet incl a b)"
  by (auto simp: axis_meet_def Let_def axis_wf_def axis_of_def split: axis.splits)

lemma plain_atoms_inject:
  assumes "axis_wf a" "axis_wf b" "plain.axis_atoms a = plain.axis_atoms b"
  shows "a = b"
proof -
  have s: "Some ` fset x \<noteq> UNIV" for x :: "'a fset" by auto
  show ?thesis using assms s
    by (cases a; cases b) (auto simp: axis_wf_def fset_inject inj_image_eq_iff)
qed

text \<open>On a plain axis, narrowing is inclusion of what the axis admits and meet is intersection,
  and on decoded axes (whose empty set is bottom, never all) narrowing is a partial order whose
  greatest lower bound is the meet.\<close>

theorem plain_axis_lattice:
  assumes "axis_wf a" "axis_wf b" "axis_wf c"
  shows "(axis_narrows atom_covered_by a b \<and> axis_narrows atom_covered_by b a \<longleftrightarrow> a = b) \<and>
    (axis_narrows atom_covered_by a b \<and> axis_narrows atom_covered_by b c \<longrightarrow> axis_narrows atom_covered_by a c) \<and>
    (axis_narrows atom_covered_by c (axis_meet atom_includes a b) \<longleftrightarrow>
       axis_narrows atom_covered_by c a \<and> axis_narrows atom_covered_by c b) \<and>
    axis_wf (axis_meet atom_includes a b) \<and> axis_meet atom_includes a b = axis_meet atom_includes b a \<and>
    axis_meet atom_includes (axis_meet atom_includes a b) c = axis_meet atom_includes a (axis_meet atom_includes b c) \<and>
    axis_meet atom_includes a a = a"
proof -
  have eq: "axis_meet atom_includes a b = axis_meet atom_includes b a"
    "axis_meet atom_includes (axis_meet atom_includes a b) c = axis_meet atom_includes a (axis_meet atom_includes b c)"
    "axis_meet atom_includes a a = a"
    by (rule plain_atoms_inject; simp add: axis_wf_meet assms plain.axis_laws Int_ac)+
  have anti: "axis_narrows atom_covered_by a b \<and> axis_narrows atom_covered_by b a \<longleftrightarrow> a = b"
    using plain_atoms_inject [OF assms(1,2)] by (auto simp: plain.axis_laws)
  show ?thesis using eq anti plain.narrows_trans [of a b c] plain.narrows_meet [of c a b] axis_wf_meet [OF assms(1,2)]
    by blast
qed

lemma plain_axis_lattice_witness:
  "axis_meet atom_includes (AxisSome {|1, 2|}) (AxisSome {|2, 3 :: nat|}) =
   axis_meet atom_includes (AxisSome {|2, 3|}) (AxisSome {|1, 2|})"
  using plain_axis_lattice [of "AxisSome {|1, 2 :: nat|}" "AxisSome {|2, 3|}" AxisAll]
  by (simp add: axis_wf_def)

section \<open>Sensitivity\<close>

datatype sensitivity = Public | Private | Sensitive | Restricted

fun band_rank :: "sensitivity \<Rightarrow> nat" where
  "band_rank Public = 0"
| "band_rank Private = 1"
| "band_rank Sensitive = 2"
| "band_rank Restricted = 3"

lemma band_rank_inject: "band_rank a = band_rank b \<longleftrightarrow> a = b"
  by (cases a; cases b) auto

instantiation sensitivity :: linorder
begin

definition less_eq_sensitivity :: "sensitivity \<Rightarrow> sensitivity \<Rightarrow> bool" where
  "less_eq_sensitivity a b \<longleftrightarrow> band_rank a \<le> band_rank b"

definition less_sensitivity :: "sensitivity \<Rightarrow> sensitivity \<Rightarrow> bool" where
  "less_sensitivity a b \<longleftrightarrow> band_rank a < band_rank b"

instance
  by standard (auto simp: less_eq_sensitivity_def less_sensitivity_def band_rank_inject)

end

fun band_str :: "sensitivity \<Rightarrow> string" where
  "band_str Public = ''public''"
| "band_str Private = ''private''"
| "band_str Sensitive = ''sensitive''"
| "band_str Restricted = ''restricted''"

definition band_parse :: "string \<Rightarrow> sensitivity option" where
  "band_parse s =
     (if s = ''public'' then Some Public else if s = ''private'' then Some Private
      else if s = ''sensitive'' then Some Sensitive else if s = ''restricted'' then Some Restricted
      else None)"

datatype ceiling = CeilingBottom | AtMost sensitivity

datatype ceiling_wire = WireBottom | WireAll | WireAtMost sensitivity

definition top_ceiling :: ceiling where
  "top_ceiling = AtMost Restricted"

fun ceiling_from_wire :: "ceiling_wire \<Rightarrow> ceiling" where
  "ceiling_from_wire WireBottom = CeilingBottom"
| "ceiling_from_wire WireAll = top_ceiling"
| "ceiling_from_wire (WireAtMost band) = AtMost band"

fun ceiling_to_wire :: "ceiling \<Rightarrow> ceiling_wire" where
  "ceiling_to_wire CeilingBottom = WireBottom"
| "ceiling_to_wire (AtMost band) = WireAtMost band"

definition ceiling_permits :: "ceiling \<Rightarrow> sensitivity \<Rightarrow> bool" where
  "ceiling_permits c band \<longleftrightarrow> (case c of AtMost m \<Rightarrow> band \<le> m | CeilingBottom \<Rightarrow> False)"

definition ceiling_narrows :: "ceiling \<Rightarrow> ceiling \<Rightarrow> bool" where
  "ceiling_narrows c d \<longleftrightarrow>
     (case (c, d) of (CeilingBottom, _) \<Rightarrow> True | (AtMost a, AtMost b) \<Rightarrow> a \<le> b | _ \<Rightarrow> False)"

definition ceiling_meet :: "ceiling \<Rightarrow> ceiling \<Rightarrow> ceiling" where
  "ceiling_meet c d =
     (case (c, d) of (AtMost a, AtMost b) \<Rightarrow> AtMost (min a b) | _ \<Rightarrow> CeilingBottom)"

lemma band_roundtrip: "band_parse s = Some b \<longleftrightarrow> s = band_str b"
  by (cases b) (auto simp: band_parse_def)

lemma ceiling_narrows_meet: "ceiling_narrows c (ceiling_meet a b) \<longleftrightarrow> ceiling_narrows c a \<and> ceiling_narrows c b"
  by (cases a; cases b; cases c) (auto simp: ceiling_narrows_def ceiling_meet_def)

lemma ceiling_narrows_trans: "ceiling_narrows a b \<Longrightarrow> ceiling_narrows b c \<Longrightarrow> ceiling_narrows a c"
  by (cases a; cases b; cases c) (auto simp: ceiling_narrows_def)

lemma ceiling_narrows_top: "ceiling_narrows c top_ceiling"
proof (cases c)
  case (AtMost b)
  then show ?thesis by (cases b) (simp_all add: ceiling_narrows_def top_ceiling_def less_eq_sensitivity_def)
qed (simp add: ceiling_narrows_def)

lemma ceiling_narrows_refl: "ceiling_narrows a a"
  by (cases a) (auto simp: ceiling_narrows_def)

text \<open>A sensitivity ceiling narrows another exactly when every band it permits the other permits,
  its meet permits what both permit, and it survives its JSON spelling, where \<open>all\<close> is the top.\<close>

theorem ceiling_permits_exact:
  "(ceiling_narrows c d \<longleftrightarrow> Collect (ceiling_permits c) \<subseteq> Collect (ceiling_permits d)) \<and>
   (ceiling_permits (ceiling_meet c d) b \<longleftrightarrow> ceiling_permits c b \<and> ceiling_permits d b) \<and>
   ceiling_from_wire (ceiling_to_wire c) = c \<and> ceiling_permits (ceiling_from_wire WireAll) b \<and>
   (band_parse s = Some b \<longleftrightarrow> s = band_str b)"
proof -
  have "ceiling_narrows c d \<longleftrightarrow> Collect (ceiling_permits c) \<subseteq> Collect (ceiling_permits d)"
    by (cases c; cases d) (auto simp: ceiling_narrows_def ceiling_permits_def)
  moreover have "ceiling_permits (ceiling_meet c d) b \<longleftrightarrow> ceiling_permits c b \<and> ceiling_permits d b"
    by (cases c; cases d) (auto simp: ceiling_meet_def ceiling_permits_def)
  moreover have "ceiling_from_wire (ceiling_to_wire c) = c" by (cases c) auto
  moreover have "ceiling_permits (ceiling_from_wire WireAll) b"
    by (cases b) (simp_all add: ceiling_permits_def top_ceiling_def less_eq_sensitivity_def)
  ultimately show ?thesis using band_roundtrip by blast
qed

section \<open>Scopes\<close>

record scope =
  worlds :: "entity_id axis"
  facets :: "entity_id axis"
  bands :: "byte axis"
  audience :: "entity_id axis"
  verbs :: "string axis"
  sensitivity :: ceiling

definition top_scope :: scope where
  "top_scope = \<lparr>worlds = AxisAll, facets = AxisAll, bands = AxisAll, audience = AxisAll,
     verbs = AxisAll, sensitivity = top_ceiling\<rparr>"

definition default_scope :: scope where
  "default_scope = \<lparr>worlds = AxisBottom, facets = AxisBottom, bands = AxisBottom,
     audience = AxisBottom, verbs = AxisBottom, sensitivity = CeilingBottom\<rparr>"

abbreviation narrows :: "'a axis \<Rightarrow> 'a axis \<Rightarrow> bool" where
  "narrows \<equiv> axis_narrows atom_covered_by"

definition scope_narrows :: "scope \<Rightarrow> scope \<Rightarrow> bool" where
  "scope_narrows s t \<longleftrightarrow>
     narrows (worlds s) (worlds t) \<and> narrows (facets s) (facets t) \<and>
     narrows (bands s) (bands t) \<and> narrows (audience s) (audience t) \<and>
     narrows (verbs s) (verbs t) \<and> ceiling_narrows (sensitivity s) (sensitivity t)"

definition scope_meet :: "scope \<Rightarrow> scope \<Rightarrow> scope" where
  "scope_meet s t =
     \<lparr>worlds = axis_meet atom_includes (worlds s) (worlds t),
      facets = axis_meet atom_includes (facets s) (facets t),
      bands = axis_meet atom_includes (bands s) (bands t),
      audience = axis_meet atom_includes (audience s) (audience t),
      verbs = axis_meet atom_includes (verbs s) (verbs t),
      sensitivity = ceiling_meet (sensitivity s) (sensitivity t)\<rparr>"

definition disclosure_narrows :: "scope \<Rightarrow> scope \<Rightarrow> bool" where
  "disclosure_narrows s c \<longleftrightarrow>
     narrows (worlds s) (worlds c) \<and> narrows (bands s) (bands c) \<and>
     narrows (audience s) (audience c) \<and> narrows (verbs s) (verbs c) \<and>
     ceiling_narrows (sensitivity s) (sensitivity c)"

definition scope_admits :: "scope \<Rightarrow> string \<Rightarrow> scope \<Rightarrow> scope \<Rightarrow> bool" where
  "scope_admits caller verb rec channel \<longleftrightarrow>
     \<not> axis_is_bottom (worlds rec) \<and> \<not> axis_is_bottom (bands rec) \<and> \<not> axis_is_bottom (audience rec) \<and>
     sensitivity rec \<noteq> CeilingBottom \<and> axis_contains atom_covered_by (verbs caller) verb \<and>
     disclosure_narrows rec caller \<and> disclosure_narrows rec channel"

lemma scope_narrows_trans: "scope_narrows a b \<Longrightarrow> scope_narrows b c \<Longrightarrow> scope_narrows a c"
  unfolding scope_narrows_def by (elim conjE, intro conjI; (erule (1) plain.narrows_trans | erule (1) ceiling_narrows_trans))

lemma disclosure_narrows_trans: "disclosure_narrows r a \<Longrightarrow> scope_narrows a b \<Longrightarrow> disclosure_narrows r b"
  unfolding scope_narrows_def disclosure_narrows_def
  by (elim conjE, intro conjI; (erule (1) plain.narrows_trans | erule (1) ceiling_narrows_trans))

text \<open>Scopes form a meet semilattice under narrowing: the meet of two scopes is the widest scope
  narrower than both, every scope narrows the top, and the scope of a missing axis narrows all.\<close>

theorem scope_meet_glb:
  "(scope_narrows c (scope_meet a b) \<longleftrightarrow> scope_narrows c a \<and> scope_narrows c b) \<and>
   scope_narrows a a \<and> (scope_narrows a b \<and> scope_narrows b c \<longrightarrow> scope_narrows a c) \<and>
   scope_narrows a top_scope \<and> scope_narrows default_scope a"
proof -
  have "ceiling_narrows x top_ceiling" "ceiling_narrows CeilingBottom x" for x
    by (simp_all add: ceiling_narrows_top) (simp add: ceiling_narrows_def)
  moreover have "scope_narrows a b \<and> scope_narrows b c \<longrightarrow> scope_narrows a c"
    using scope_narrows_trans by blast
  ultimately show ?thesis
    by (auto simp: scope_narrows_def scope_meet_def top_scope_def default_scope_def plain.narrows_meet
        ceiling_narrows_meet plain.narrows_refl ceiling_narrows_refl plain.narrows_ends)
qed

lemma scope_meet_glb_witness: "scope_narrows default_scope (scope_meet top_scope default_scope)"
  using scope_meet_glb [of default_scope top_scope default_scope] scope_meet_glb [of default_scope default_scope top_scope]
  by blast


text \<open>A public record of one world and band, and callers who may read it.\<close>

definition sample_record :: scope where
  "sample_record = top_scope\<lparr>worlds := AxisSome {|replicate 16 1|}, bands := AxisSome {|1|}, sensitivity := AtMost Public\<rparr>"


end
