(* ===== verification/Selectors.thy ===== *)
theory Selectors
  imports Scopes
begin

text \<open>
  The band vocabulary (\<open>crates/oneiron-authority/src/federation/selector_kind.rs\<close>): a selector
  range is a classification or one family, families are disjoint atoms and a classification is
  the union of its families.  The type instantiates the axis-member contract \<open>scope_atom\<close>, so the
  band axis of the pact lattice has every law of a scope axis.
\<close>

section \<open>Selector ranges\<close>

datatype selector_range = RangeSemantic | RangeCore | RangeMaintenance | RangeFamily type_family

text \<open>The derived order: the declaration order of the variants, then of the families.\<close>

fun family_rank :: "type_family \<Rightarrow> nat" where
  "family_rank Conversation = 0"
| "family_rank People = 1"
| "family_rank World = 2"
| "family_rank Content = 3"
| "family_rank AgentsAndSurfacing = 4"
| "family_rank CoreOverflow = 5"
| "family_rank AuthorityPolicyCustody = 6"
| "family_rank AuditObservability = 7"
| "family_rank OutboundCommunicationConsent = 8"
| "family_rank RegistriesDerived = 9"
| "family_rank Productivity = 10"
| "family_rank Code = 11"
| "family_rank Documents = 12"
| "family_rank Companion = 13"
| "family_rank PackOverflow = 14"

fun range_rank :: "selector_range \<Rightarrow> nat" where
  "range_rank RangeSemantic = 0"
| "range_rank RangeCore = 1"
| "range_rank RangeMaintenance = 2"
| "range_rank (RangeFamily f) = 3 + family_rank f"

fun range_for_entry :: "registry_row \<Rightarrow> selector_range option" where
  "range_for_entry e =
     (if row_class e = ClassSemantic \<and> row_family e = None then Some RangeSemantic
      else case row_family e of
             None \<Rightarrow> None
           | Some f \<Rightarrow> (if family_matches e f then Some (RangeFamily f) else None))"

fun range_includes :: "selector_range \<Rightarrow> selector_range \<Rightarrow> bool" where
  "range_includes v w \<longleftrightarrow>
     v = w \<or>
     (case (v, w) of
        (RangeCore, RangeFamily f) \<Rightarrow> family_class f = ClassCore
      | (RangeMaintenance, RangeFamily f) \<Rightarrow> family_class f = ClassMaintenance
      | _ \<Rightarrow> False)"

fun wire_name :: "selector_range \<Rightarrow> string" where
  "wire_name RangeSemantic = ''semantic''"
| "wire_name RangeCore = ''core''"
| "wire_name RangeMaintenance = ''maintenance''"
| "wire_name (RangeFamily Conversation) = ''core/conversation''"
| "wire_name (RangeFamily People) = ''core/people''"
| "wire_name (RangeFamily World) = ''core/world''"
| "wire_name (RangeFamily Content) = ''core/content''"
| "wire_name (RangeFamily AgentsAndSurfacing) = ''core/agents_and_surfacing''"
| "wire_name (RangeFamily CoreOverflow) = ''core/core_overflow''"
| "wire_name (RangeFamily AuthorityPolicyCustody) = ''maintenance/authority_policy_custody''"
| "wire_name (RangeFamily AuditObservability) = ''maintenance/audit_observability''"
| "wire_name (RangeFamily OutboundCommunicationConsent) = ''maintenance/outbound_communication_consent''"
| "wire_name (RangeFamily RegistriesDerived) = ''maintenance/registries_derived''"
| "wire_name (RangeFamily Productivity) = ''pack/productivity''"
| "wire_name (RangeFamily Code) = ''pack/code''"
| "wire_name (RangeFamily Documents) = ''pack/documents''"
| "wire_name (RangeFamily Companion) = ''pack/companion''"
| "wire_name (RangeFamily PackOverflow) = ''pack/pack_overflow''"

definition from_wire_name :: "string \<Rightarrow> selector_range option" where
  "from_wire_name s =
     (if s = ''semantic'' then Some RangeSemantic
      else if s = ''core'' then Some RangeCore
      else if s = ''maintenance'' then Some RangeMaintenance
      else if s = ''core/conversation'' then Some (RangeFamily Conversation) 
      else if s = ''core/people'' then Some (RangeFamily People) 
      else if s = ''core/world'' then Some (RangeFamily World) 
      else if s = ''core/content'' then Some (RangeFamily Content) 
      else if s = ''core/agents_and_surfacing'' then Some (RangeFamily AgentsAndSurfacing) 
      else if s = ''core/core_overflow'' then Some (RangeFamily CoreOverflow) 
      else if s = ''maintenance/authority_policy_custody'' then Some (RangeFamily AuthorityPolicyCustody) 
      else if s = ''maintenance/audit_observability'' then Some (RangeFamily AuditObservability) 
      else if s = ''maintenance/outbound_communication_consent'' then Some (RangeFamily OutboundCommunicationConsent) 
      else if s = ''maintenance/registries_derived'' then Some (RangeFamily RegistriesDerived) 
      else if s = ''pack/productivity'' then Some (RangeFamily Productivity) 
      else if s = ''pack/code'' then Some (RangeFamily Code) 
      else if s = ''pack/documents'' then Some (RangeFamily Documents) 
      else if s = ''pack/companion'' then Some (RangeFamily Companion) 
      else if s = ''pack/pack_overflow'' then Some (RangeFamily PackOverflow)
      else None)"

definition range_covered_by :: "selector_range \<Rightarrow> selector_range fset \<Rightarrow> bool" where
  "range_covered_by v wide =
     (if fBex wide (\<lambda>band. range_includes band v) then True
      else (case (case v of RangeCore \<Rightarrow> Some ClassCore | RangeMaintenance \<Rightarrow> Some ClassMaintenance
                  | _ \<Rightarrow> None) of
              None \<Rightarrow> False
            | Some c \<Rightarrow>
                list_all (\<lambda>row. fBex wide (\<lambda>band. range_includes band (RangeFamily (family row))))
                  (filter (\<lambda>row. family_class (family row) = c) type_byte_families)))"

definition selector_range_of :: "byte \<Rightarrow> selector_range option" where
  "selector_range_of b = Option.bind (entity_type_registry_entry b) range_for_entry"

section \<open>The order\<close>

lemma family_rank_inject: "family_rank f = family_rank g \<longleftrightarrow> f = g"
  by (cases f; cases g) simp_all

lemma range_rank_inject: "range_rank v = range_rank w \<longleftrightarrow> v = w"
  by (cases v; cases w) (auto simp: family_rank_inject)

instantiation selector_range :: linorder
begin

definition less_eq_selector_range :: "selector_range \<Rightarrow> selector_range \<Rightarrow> bool" where
  "less_eq_selector_range v w \<longleftrightarrow> range_rank v \<le> range_rank w"

definition less_selector_range :: "selector_range \<Rightarrow> selector_range \<Rightarrow> bool" where
  "less_selector_range v w \<longleftrightarrow> range_rank v < range_rank w"

instance
  by standard (auto simp: less_eq_selector_range_def less_selector_range_def range_rank_inject)

end

text \<open>Sorting, removing repeats and redundant members.\<close>

definition normalize_ranges :: "selector_range list \<Rightarrow> selector_range list" where
  "normalize_ranges bs =
     (let all = remdups_adj (sort bs)
      in filter (\<lambda>b. \<not> list_ex (\<lambda>wide. wide \<noteq> b \<and> range_includes wide b) all) all)"

section \<open>The contract of an axis member\<close>

datatype band_atom = SemanticAtom | FamilyAtom type_family

fun range_atoms :: "selector_range \<Rightarrow> band_atom set" where
  "range_atoms RangeSemantic = {SemanticAtom}"
| "range_atoms RangeCore = FamilyAtom ` {f. family_class f = ClassCore}"
| "range_atoms RangeMaintenance = FamilyAtom ` {f. family_class f = ClassMaintenance}"
| "range_atoms (RangeFamily f) = {FamilyAtom f}"

text \<open>No family stands for a whole classification.\<close>

lemma class_two:
  "\<exists>f. family_class f = ClassCore \<and> f \<noteq> g" "\<exists>f. family_class f = ClassMaintenance \<and> f \<noteq> g"
proof -
  have "family_class Conversation = ClassCore" "family_class People = ClassCore"
    "family_class AuditObservability = ClassMaintenance" "family_class RegistriesDerived = ClassMaintenance"
    by simp_all
  then show "\<exists>f. family_class f = ClassCore \<and> f \<noteq> g" "\<exists>f. family_class f = ClassMaintenance \<and> f \<noteq> g"
    by (metis type_family.distinct(1), metis type_family.distinct)
qed

lemma class_nonempty: "\<exists>f. family_class f = ClassCore" "\<exists>f. family_class f = ClassMaintenance"
  using class_two by blast+

lemma range_includes_atoms: "range_includes v w \<longleftrightarrow> range_atoms w \<subseteq> range_atoms v"
  using class_two class_nonempty
  by (cases v; cases w) (auto simp: image_subset_iff subset_iff)

lemma family_row_exists: "\<exists>row \<in> set type_byte_families. family row = f"
  using allocation_total [of f] by (auto simp: allocation_def dest!: find_SomeD)

lemma family_in_union:
  "fBex wide (\<lambda>band. range_includes band (RangeFamily f)) \<longleftrightarrow> FamilyAtom f \<in> (\<Union>w \<in> fset wide. range_atoms w)"
  unfolding range_includes_atoms by auto

lemma all_families:
  "list_all (\<lambda>row. P (family row)) (filter (\<lambda>row. family_class (family row) = c) type_byte_families) \<longleftrightarrow>
   (\<forall>f. family_class f = c \<longrightarrow> P f)"
proof
  assume all: "list_all (\<lambda>row. P (family row)) (filter (\<lambda>row. family_class (family row) = c) type_byte_families)"
  show "\<forall>f. family_class f = c \<longrightarrow> P f"
  proof (intro allI impI)
    fix f assume f: "family_class f = c"
    obtain r where "r \<in> set type_byte_families" "family r = f" using family_row_exists [of f] by blast
    with all f show "P f" by (auto simp: list_all_iff)
  qed
qed (simp add: list_all_iff)

lemma range_covered_atoms: "range_covered_by v wide \<longleftrightarrow> range_atoms v \<subseteq> (\<Union>w \<in> fset wide. range_atoms w)"
proof -
  have up: "fBex wide (\<lambda>band. range_includes band v) \<Longrightarrow> range_atoms v \<subseteq> (\<Union>w \<in> fset wide. range_atoms w)"
    by (auto simp: range_includes_atoms simp del: range_includes.simps)
  have single: "fBex wide (\<lambda>band. range_includes band v) \<longleftrightarrow> t \<in> (\<Union>w \<in> fset wide. range_atoms w)"
    if "range_atoms v = {t}" for t
    using that by (auto simp: range_includes_atoms simp del: range_includes.simps)
  show ?thesis
  proof (cases v)
    case RangeCore
    have "(\<forall>f. family_class f = ClassCore \<longrightarrow> fBex wide (\<lambda>band. range_includes band (RangeFamily f))) \<longleftrightarrow>
        range_atoms v \<subseteq> (\<Union>w \<in> fset wide. range_atoms w)"
      unfolding family_in_union RangeCore by auto
    moreover have "range_covered_by v wide \<longleftrightarrow> fBex wide (\<lambda>band. range_includes band v) \<or>
        (\<forall>f. family_class f = ClassCore \<longrightarrow> fBex wide (\<lambda>band. range_includes band (RangeFamily f)))"
      by (simp add: range_covered_by_def RangeCore all_families [where P = "\<lambda>f. fBex wide (\<lambda>band. range_includes band (RangeFamily f))"] del: range_includes.simps)
    ultimately show ?thesis by (simp only:) (rule iffI, erule disjE, erule up, assumption, erule disjI2)
  next
    case RangeMaintenance
    have "(\<forall>f. family_class f = ClassMaintenance \<longrightarrow> fBex wide (\<lambda>band. range_includes band (RangeFamily f))) \<longleftrightarrow>
        range_atoms v \<subseteq> (\<Union>w \<in> fset wide. range_atoms w)"
      unfolding family_in_union RangeMaintenance by auto
    moreover have "range_covered_by v wide \<longleftrightarrow> fBex wide (\<lambda>band. range_includes band v) \<or>
        (\<forall>f. family_class f = ClassMaintenance \<longrightarrow> fBex wide (\<lambda>band. range_includes band (RangeFamily f)))"
      by (simp add: range_covered_by_def RangeMaintenance all_families [where P = "\<lambda>f. fBex wide (\<lambda>band. range_includes band (RangeFamily f))"] del: range_includes.simps)
    ultimately show ?thesis by (simp only:) (rule iffI, erule disjE, erule up, assumption, erule disjI2)
  qed (use single in \<open>simp_all add: range_covered_by_def del: range_includes.simps\<close>)
qed

interpretation band: scope_atom range_includes range_covered_by range_atoms
proof
  show "range_includes v w \<longleftrightarrow> range_atoms w \<subseteq> range_atoms v" for v w
    by (rule range_includes_atoms)
  show "range_covered_by v wide \<longleftrightarrow> range_atoms v \<subseteq> (\<Union>w \<in> fset wide. range_atoms w)" for v wide
    by (rule range_covered_atoms)
  show "range_atoms v \<inter> range_atoms w = {} \<or> range_atoms v \<subseteq> range_atoms w \<or> range_atoms w \<subseteq> range_atoms v" for v w
    by (cases v; cases w) auto
  show "range_atoms v = range_atoms w \<Longrightarrow> v = w" for v w
    using range_includes_atoms [of v w] range_includes_atoms [of w v]
    by (cases v; cases w) simp_all
  show "range_atoms v \<noteq> {}" for v
    using class_nonempty by (cases v) auto
qed


section \<open>What the vocabulary promises\<close>

lemma wire_roundtrip: "from_wire_name s = Some v \<longleftrightarrow> s = wire_name v"
proof
  assume "from_wire_name s = Some v"
  then show "s = wire_name v" by (auto simp: from_wire_name_def split: if_splits)
next
  assume "s = wire_name v"
  then show "from_wire_name s = Some v"
  proof (cases v)
    case (RangeFamily f)
    with \<open>s = wire_name v\<close> show ?thesis by (cases f) (simp_all add: from_wire_name_def)
  qed (simp_all add: from_wire_name_def)
qed

text \<open>The members of a band set that no other member includes.\<close>

definition redundant :: "selector_range set \<Rightarrow> selector_range \<Rightarrow> bool" where
  "redundant bs b \<longleftrightarrow> (\<exists>wide \<in> bs. wide \<noteq> b \<and> range_includes wide b)"

lemma normalize_set: "set (normalize_ranges bs) = {b \<in> set bs. \<not> redundant (set bs) b}"
  by (auto simp: normalize_ranges_def Let_def list_ex_iff redundant_def simp del: range_includes.simps)

lemma distinct_remdups_sorted: "sorted xs \<Longrightarrow> distinct (remdups_adj xs)"
  by (induction xs rule: remdups_adj.induct) (auto simp: less_le)

lemma sorted_normalize: "sorted (normalize_ranges bs) \<and> distinct (normalize_ranges bs)"
  by (simp add: normalize_ranges_def Let_def sorted_wrt_filter distinct_remdups_sorted
      del: range_includes.simps)

lemma length_normalize: "length (normalize_ranges bs) = card {b \<in> set bs. \<not> redundant (set bs) b}"
  using sorted_normalize [of bs] by (simp add: distinct_card [symmetric] normalize_set)

text \<open>Normalising a list of bands keeps what it stands for: the result covers exactly the same
  atoms, is sorted without repeats, has no member another one includes, and is the same for every
  list of the same members.\<close>

theorem normalize_ranges_canonical:
  "(\<Union>b \<in> set (normalize_ranges bs). range_atoms b) = (\<Union>b \<in> set bs. range_atoms b) \<and>
   sorted (normalize_ranges bs) \<and> distinct (normalize_ranges bs) \<and>
   \<not> (\<exists>b c. {b, c} \<subseteq> set (normalize_ranges bs) \<and> c \<noteq> b \<and> range_includes c b) \<and>
   (set bs = set cs \<longrightarrow> normalize_ranges bs = normalize_ranges cs)"
proof -
  have f: "fset (ffilter (\<lambda>v. \<not> fBex (fset_of_list bs) (\<lambda>w. w \<noteq> v \<and> range_includes w v)) (fset_of_list bs)) =
      set (normalize_ranges bs)"
    by (auto simp: normalize_set redundant_def fset_of_list.rep_eq simp del: range_includes.simps)
  have a: "(\<Union>b \<in> set (normalize_ranges bs). range_atoms b) = (\<Union>b \<in> set bs. range_atoms b)"
    using band.maximal_atoms [of "fset_of_list bs"] unfolding f by (simp add: fset_of_list.rep_eq)
  have "\<not> (\<exists>b c. {b, c} \<subseteq> set (normalize_ranges bs) \<and> c \<noteq> b \<and> range_includes c b)"
    by (auto simp: normalize_set redundant_def simp del: range_includes.simps)
  moreover have "set bs = set cs \<Longrightarrow> normalize_ranges bs = normalize_ranges cs"
    using sorted_normalize [of bs] sorted_normalize [of cs]
    by (intro sorted_distinct_set_unique) (simp_all add: normalize_set)
  ultimately show ?thesis using a sorted_normalize [of bs] by blast
qed

lemma normalize_ranges_canonical_witness:
  "normalize_ranges [RangeFamily People, RangeCore, RangeCore] = normalize_ranges [RangeCore, RangeFamily People] \<and>
   normalize_ranges [RangeCore, RangeFamily People] = [RangeCore]"
proof -
  have "normalize_ranges [RangeCore, RangeFamily People] = [RangeCore]" by code_simp
  moreover have "set [RangeFamily People, RangeCore, RangeCore] = set [RangeCore, RangeFamily People]" by auto
  ultimately show ?thesis using normalize_ranges_canonical by metis
qed

text \<open>A classification covers exactly its families: a band is covered by a set of bands when every
  family it stands for is in one of them, so naming all families of a classification covers it,
  and narrowing of band axes is inclusion of the kinds they admit.\<close>

theorem band_cover_exact:
  "(range_covered_by v wide \<longleftrightarrow> range_atoms v \<subseteq> (\<Union>w \<in> fset wide. range_atoms w)) \<and>
   (axis_narrows range_covered_by a b \<longleftrightarrow> band.axis_atoms a \<subseteq> band.axis_atoms b) \<and>
   band.axis_atoms (axis_meet range_includes a b) = band.axis_atoms a \<inter> band.axis_atoms b \<and>
   range_covered_by RangeCore (fset_of_list (map RangeFamily
     [Conversation, People, World, Content, AgentsAndSurfacing, CoreOverflow]))"
proof -
  have "range_atoms RangeCore \<subseteq> (\<Union>w \<in> fset (fset_of_list (map RangeFamily
     [Conversation, People, World, Content, AgentsAndSurfacing, CoreOverflow])). range_atoms w)"
  proof -
    have "family_class f = ClassCore \<Longrightarrow> f \<in> {Conversation, People, World, Content, AgentsAndSurfacing, CoreOverflow}" for f
      by (cases f) simp_all
    then show ?thesis by (auto simp: fset_of_list.rep_eq)
  qed
  then show ?thesis by (simp add: band.axis_laws range_covered_atoms)
qed

text \<open>Every registered kind has a band of replication, found from its declared family and never
  from its byte, and an unregistered byte has none; the wire name of a band decodes to it and to
  no other band.\<close>

theorem selector_range_of_registered:
  "(selector_range_of b \<noteq> None \<longleftrightarrow> entity_type_registry_entry b \<noteq> None) \<and>
   (selector_range_of b = Some (RangeFamily f) \<longleftrightarrow> family_of b = Some f) \<and>
   (from_wire_name s = Some v \<longleftrightarrow> s = wire_name v)"
proof (cases "entity_type_registry_entry b")
  case (Some e)
  from entry_ok [OF this] Some wire_roundtrip show ?thesis
    by (auto simp: selector_range_of_def family_of_def row_ok_def family_matches_def split: option.splits)
qed (use wire_roundtrip in \<open>simp add: selector_range_of_def family_of_def\<close>)

end
