(* ===== verification/PactScopes.thy ===== *)
theory PactScopes
  imports Selectors
begin

text \<open>
  The scope of a federation pact and its one canonical codec
  (\<open>crates/oneiron-authority/src/federation/pact_scope.rs\<close>).

  A MessagePack value is the tree \<open>rmpv::Value\<close> documents; the constructors the code tells apart
  are named, the rest are \<open>VOther\<close>.  Turning a value into bytes and back is \<open>rmpv\<close>'s, a pair of
  parameters.  The one error of the decoder carries no data beyond its message.  How an axis
  spells its points (\<open>AxisSpelling\<close>) is a record of the functions the code stores in it; the
  locale \<open>axis_codec\<close> is what a spelling has to promise for the generic codec to be faithful, and
  the three spellings of the source provide it.
\<close>

section \<open>Values\<close>

datatype msg = VInt int | VStr string | VArray "msg list" | VMap "(msg \<times> msg) list" | VOther nat

datatype pact_error = InvalidPactScope | EncodeFailed

definition as_str :: "msg \<Rightarrow> string option" where
  "as_str v = (case v of VStr s \<Rightarrow> Some s | _ \<Rightarrow> None)"

definition as_u64 :: "msg \<Rightarrow> int option" where
  "as_u64 v = (case v of VInt n \<Rightarrow> (if 0 \<le> n \<and> n < 2 ^ 64 then Some n else None) | _ \<Rightarrow> None)"

fun optional_value :: "(msg \<times> msg) list \<Rightarrow> string \<Rightarrow> msg option" where
  "optional_value [] key = None"
| "optional_value ((candidate, v) # es) key =
     (if as_str candidate = Some key then Some v else optional_value es key)"

text \<open>The scan both map decoders make: every key known, none twice; which were seen.\<close>

fun scan_keys :: "string list \<Rightarrow> (msg \<times> msg) list \<Rightarrow> bool list \<Rightarrow> bool list option" where
  "scan_keys known [] seen = Some seen"
| "scan_keys known ((k, _) # es) seen =
     (case as_str k of
        None \<Rightarrow> None
      | Some s \<Rightarrow>
          (case position (\<lambda>n. n = s) known of
             None \<Rightarrow> None
           | Some i \<Rightarrow> (if seen ! i then None else scan_keys known es (seen[i := True]))))"

definition validate_exact_keys :: "(msg \<times> msg) list \<Rightarrow> string list \<Rightarrow> bool" where
  "validate_exact_keys entries expected \<longleftrightarrow>
     (case scan_keys expected entries (replicate (length expected) False) of
        None \<Rightarrow> False | Some seen \<Rightarrow> list_all id seen)"

definition axis_kind_value :: "string \<Rightarrow> msg" where
  "axis_kind_value kind = VMap [(VStr ''kind'', VStr kind)]"

definition decode_axis_map :: "msg \<Rightarrow> (pact_error, string \<times> msg list option) result" where
  "decode_axis_map v =
     (case v of
        VMap entries \<Rightarrow>
          (case scan_keys [''kind'', ''ids''] entries [False, False] of
             None \<Rightarrow> Err InvalidPactScope
           | Some seen \<Rightarrow>
               (if \<not> seen ! 0 then Err InvalidPactScope
                else case Option.bind (optional_value entries ''kind'') as_str of
                       None \<Rightarrow> Err InvalidPactScope
                     | Some kind \<Rightarrow>
                         (if seen ! 1
                          then (case optional_value entries ''ids'' of
                                  Some (VArray vs) \<Rightarrow> Ok (kind, Some vs)
                                | _ \<Rightarrow> Err InvalidPactScope)
                          else Ok (kind, None))))
      | _ \<Rightarrow> Err InvalidPactScope)"

section \<open>Spellings of an axis\<close>

record 'a axis_spelling =
  set_kind :: string
  named_point :: "(string \<times> 'a axis) option"
  empty_set_is_bottom :: bool
  encode_member :: "'a \<Rightarrow> msg"
  decode_member :: "msg \<Rightarrow> 'a option"
  admits_set :: "'a fset \<Rightarrow> bool"

definition set_value :: "('a :: linorder) axis_spelling \<Rightarrow> 'a fset \<Rightarrow> msg" where
  "set_value sp values =
     VMap [(VStr ''kind'', VStr (set_kind sp)),
           (VStr ''ids'', VArray (map (encode_member sp) (sorted_list_of_fset values)))]"

definition axis_value :: "('a :: linorder) axis_spelling \<Rightarrow> 'a axis \<Rightarrow> msg" where
  "axis_value sp a =
     (case named_point sp of
        Some (kind, point) \<Rightarrow>
          (if a = point then axis_kind_value kind
           else (case a of AxisAll \<Rightarrow> axis_kind_value ''all'' | AxisBottom \<Rightarrow> axis_kind_value ''bottom''
                 | AxisSome values \<Rightarrow> set_value sp values))
      | None \<Rightarrow>
          (case a of AxisAll \<Rightarrow> axis_kind_value ''all'' | AxisBottom \<Rightarrow> axis_kind_value ''bottom''
           | AxisSome values \<Rightarrow> set_value sp values))"

fun decode_members :: "(msg \<Rightarrow> 'a option) \<Rightarrow> msg list \<Rightarrow> 'a list option" where
  "decode_members f [] = Some []"
| "decode_members f (v # vs) =
     (case f v of None \<Rightarrow> None | Some x \<Rightarrow> map_option ((#) x) (decode_members f vs))"

definition decode_axis :: "('a :: linorder) axis_spelling \<Rightarrow> msg \<Rightarrow> (pact_error, 'a axis) result" where
  "decode_axis sp v =
     (case decode_axis_map v of
        Inl e \<Rightarrow> Err e
      | Inr (kind, None) \<Rightarrow>
          (if kind = ''all'' then Ok AxisAll
           else if kind = ''bottom'' then Ok AxisBottom
           else case named_point sp of
                  Some (named, point) \<Rightarrow> (if kind = named then Ok point else Err InvalidPactScope)
                | None \<Rightarrow> Err InvalidPactScope)
      | Inr (kind, Some ids) \<Rightarrow>
          (if kind \<noteq> set_kind sp then Err InvalidPactScope
           else case decode_members (decode_member sp) ids of
                  None \<Rightarrow> Err InvalidPactScope
                | Some members \<Rightarrow>
                    (if members = [] \<and> empty_set_is_bottom sp then Ok AxisBottom
                     else if members = [] \<or> \<not> successively (<) members then Err InvalidPactScope
                     else Ok (AxisSome (fset_of_list members)))))"

definition validate_axis :: "'a axis_spelling \<Rightarrow> 'a axis \<Rightarrow> bool" where
  "validate_axis sp a \<longleftrightarrow>
     (case a of AxisAll \<Rightarrow> True | AxisBottom \<Rightarrow> True
      | AxisSome values \<Rightarrow> values \<noteq> {||} \<and> admits_set sp values)"

section \<open>The contract of a spelling\<close>

lemma scan_kind: "scan_keys [''kind'', ''ids''] [(VStr ''kind'', k)] [False, False] = Some [True, False]"
  by (simp add: as_str_def)

lemma scan_set: "scan_keys [''kind'', ''ids''] [(VStr ''kind'', k), (VStr ''ids'', i)] [False, False] = Some [True, True]"
  by (simp add: as_str_def)

lemma decode_kind_value: "decode_axis_map (axis_kind_value k) = Ok (k, None)"
  unfolding decode_axis_map_def axis_kind_value_def msg.case scan_kind by (simp add: as_str_def)

lemma decode_set_value: "decode_axis_map (set_value sp s) =
    Ok (set_kind sp, Some (map (encode_member sp) (sorted_list_of_fset s)))"
  unfolding decode_axis_map_def set_value_def msg.case scan_set by (simp add: as_str_def)

lemma fset_of_list_empty [simp]: "fset_of_list xs = {||} \<longleftrightarrow> xs = []"
  by (cases xs) simp_all

lemma sorted_fset_ascending: "successively (<) (sorted_list_of_fset s)"
  by (simp add: strict_sorted_imp_sorted successively_conv_sorted_wrt transp_def sorted_list_of_fset.rep_eq)

locale axis_codec =
  fixes sp :: "('a :: linorder) axis_spelling"
    and member_ok :: "'a \<Rightarrow> bool"
  assumes decode_encode: "member_ok x \<Longrightarrow> decode_member sp (encode_member sp x) = Some x"
    and decode_ok: "decode_member sp v = Some x \<Longrightarrow> member_ok x \<and> v = encode_member sp x"
    and named_ok: "named_point sp = Some (k, p) \<Longrightarrow> k \<noteq> ''all'' \<and> k \<noteq> ''bottom'' \<and>
      (\<exists>s. p = AxisSome s \<and> s \<noteq> {||} \<and> admits_set sp s \<and> (\<forall>x \<in> fset s. member_ok x))"
begin

definition axis_ok :: "'a axis \<Rightarrow> bool" where
  "axis_ok a \<longleftrightarrow> (case a of AxisSome s \<Rightarrow> s \<noteq> {||} \<and> (\<forall>x \<in> fset s. member_ok x) | _ \<Rightarrow> True)"

lemma decode_members_encode: "(\<forall>x \<in> set xs. member_ok x) \<Longrightarrow> decode_members (decode_member sp) (map (encode_member sp) xs) = Some xs"
  by (induction xs) (auto simp: decode_encode)

lemma decode_members_ok: "decode_members (decode_member sp) vs = Some xs \<Longrightarrow> \<forall>x \<in> set xs. member_ok x"
  by (induction vs arbitrary: xs) (auto split: option.splits dest: decode_ok)

lemma axis_roundtrip:
  assumes "axis_ok a"
  shows "decode_axis sp (axis_value sp a) = Ok a"
proof (cases "\<exists>k. named_point sp = Some (k, a)")
  case True
  then obtain k where k: "named_point sp = Some (k, a)" by blast
  with named_ok [OF k] show ?thesis by (simp add: axis_value_def decode_axis_def decode_kind_value)
next
  case False
  then have v: "axis_value sp a = (case a of AxisAll \<Rightarrow> axis_kind_value ''all''
      | AxisBottom \<Rightarrow> axis_kind_value ''bottom'' | AxisSome values \<Rightarrow> set_value sp values)"
    by (auto simp: axis_value_def split: option.splits)
  show ?thesis
  proof (cases a)
    case (AxisSome s)
    then have s: "s \<noteq> {||}" "\<forall>x \<in> set (sorted_list_of_fset s). member_ok x"
      using assms by (simp_all add: axis_ok_def)
    then have "sorted_list_of_fset s \<noteq> []"
      by (metis fset_of_list_simps(1) sorted_list_of_fset_simps(2))
    moreover have "axis_value sp a = set_value sp s" using v AxisSome by simp
    ultimately show ?thesis using decode_members_encode [OF s(2)] AxisSome
      by (simp add: decode_axis_def decode_set_value sorted_fset_ascending)
  qed (use v in \<open>simp_all add: decode_axis_def decode_kind_value\<close>)
qed

lemma decoded_axis_ok: "decode_axis sp v = Ok a \<Longrightarrow> axis_ok a"
proof -
  assume d: "decode_axis sp v = Ok a"
  obtain kind ids where m: "decode_axis_map v = Ok (kind, ids)"
    using d by (cases "decode_axis_map v") (auto simp: decode_axis_def)
  show ?thesis
  proof (cases ids)
    case None
    with d m named_ok show ?thesis
      by (auto simp: decode_axis_def axis_ok_def split: if_splits option.splits prod.splits)
  next
    case (Some vs)
    with d m decode_members_ok [of vs] show ?thesis
      by (auto simp: decode_axis_def axis_ok_def fset_of_list.rep_eq split: if_splits option.splits)
  qed
qed

end


section \<open>The three axes\<close>

definition base_world_id :: entity_id where
  "base_world_id = replicate 15 0 @ [1]"

definition base_world_axis :: "entity_id axis" where
  "base_world_axis = AxisSome {|base_world_id|}"

definition id_value :: "entity_id \<Rightarrow> msg" where
  "id_value i = VStr (to_hex i)"

definition id_from_value :: "msg \<Rightarrow> entity_id option" where
  "id_from_value v =
     (case as_str v of
        None \<Rightarrow> None
      | Some hex \<Rightarrow>
          (case from_hex hex of Inl _ \<Rightarrow> None | Inr i \<Rightarrow> (if to_hex i = hex then Some i else None)))"

definition worlds_spelling :: "entity_id axis_spelling" where
  "worlds_spelling =
     \<lparr>set_kind = ''worlds'', named_point = Some (''base'', base_world_axis), empty_set_is_bottom = True,
      encode_member = id_value, decode_member = id_from_value,
      admits_set = (\<lambda>ids. \<not> fBex ids is_foreign_world_id_range)\<rparr>"

definition facets_spelling :: "entity_id axis_spelling" where
  "facets_spelling =
     \<lparr>set_kind = ''some'', named_point = None, empty_set_is_bottom = False,
      encode_member = id_value, decode_member = id_from_value, admits_set = (\<lambda>_. True)\<rparr>"

definition bands_spelling :: "selector_range axis_spelling" where
  "bands_spelling =
     \<lparr>set_kind = ''some'', named_point = None, empty_set_is_bottom = False,
      encode_member = (\<lambda>b. VStr (wire_name b)),
      decode_member = (\<lambda>v. Option.bind (as_str v) from_wire_name),
      admits_set = (\<lambda>bs. length (normalize_ranges (sorted_list_of_fset bs)) = fcard bs)\<rparr>"

lemmas spelling_defs = worlds_spelling_def facets_spelling_def bands_spelling_def

definition id_ok :: "entity_id \<Rightarrow> bool" where
  "id_ok i \<longleftrightarrow> length i = 16 \<and> \<not> is_reserved_entity_id_bytes i"

lemma id_value_roundtrip: "id_ok i \<Longrightarrow> id_from_value (id_value i) = Some i"
  by (simp add: id_ok_def id_from_value_def id_value_def as_str_def from_hex_def to_hex_def
      hex_bytes_lower from_bytes_def)

lemma id_from_value_ok: "id_from_value v = Some i \<Longrightarrow> id_ok i \<and> v = id_value i"
  by (auto simp: id_from_value_def id_value_def as_str_def from_hex_def from_bytes_def id_ok_def
      split: msg.splits option.splits sum.splits if_splits dest: hex_bytes_length)

lemma base_world_ok: "id_ok base_world_id" "\<not> is_foreign_world_id_range base_world_id"
  by code_simp+

interpretation worlds_codec: axis_codec worlds_spelling id_ok
  by unfold_locales
    (auto simp: spelling_defs id_value_roundtrip base_world_axis_def base_world_ok dest: id_from_value_ok)

interpretation facets_codec: axis_codec facets_spelling id_ok
  by unfold_locales (auto simp: spelling_defs id_value_roundtrip dest: id_from_value_ok)

interpretation bands_codec: axis_codec bands_spelling "\<lambda>_. True"
  by unfold_locales (auto simp: spelling_defs as_str_def wire_roundtrip split: msg.splits)

section \<open>Direction and pact scopes\<close>

record direction_scope =
  dir_worlds :: "entity_id axis"
  dir_facets :: "entity_id axis"
  dir_bands :: "selector_range axis"

record pact_scope =
  lo_to_hi :: direction_scope
  hi_to_lo :: direction_scope

text \<open>A position and a ceiling wrap a direction scope; only the comparison between them is public.\<close>

datatype scope_position = Position direction_scope
datatype scope_ceiling = Ceiling direction_scope

definition direction_narrows :: "direction_scope \<Rightarrow> direction_scope \<Rightarrow> bool" where
  "direction_narrows s c \<longleftrightarrow>
     axis_narrows atom_covered_by (dir_worlds s) (dir_worlds c) \<and>
     axis_narrows atom_covered_by (dir_facets s) (dir_facets c) \<and>
     axis_narrows range_covered_by (dir_bands s) (dir_bands c)"

fun position_narrows :: "scope_position \<Rightarrow> scope_ceiling \<Rightarrow> bool" where
  "position_narrows (Position s) (Ceiling c) = direction_narrows s c"

fun ceiling_within :: "scope_ceiling \<Rightarrow> scope_ceiling \<Rightarrow> bool" where
  "ceiling_within (Ceiling s) (Ceiling c) = direction_narrows s c"

definition direction_intersect :: "direction_scope \<Rightarrow> direction_scope \<Rightarrow> direction_scope" where
  "direction_intersect s t =
     \<lparr>dir_worlds = axis_meet atom_includes (dir_worlds s) (dir_worlds t),
      dir_facets = axis_meet atom_includes (dir_facets s) (dir_facets t),
      dir_bands = axis_meet range_includes (dir_bands s) (dir_bands t)\<rparr>"

definition validate_direction :: "direction_scope \<Rightarrow> bool" where
  "validate_direction s \<longleftrightarrow> validate_axis worlds_spelling (dir_worlds s) \<and>
     validate_axis facets_spelling (dir_facets s) \<and> validate_axis bands_spelling (dir_bands s)"

definition validate_pact_scope :: "pact_scope \<Rightarrow> bool" where
  "validate_pact_scope p \<longleftrightarrow> validate_direction (lo_to_hi p) \<and> validate_direction (hi_to_lo p)"

definition direction_value :: "direction_scope \<Rightarrow> msg" where
  "direction_value s =
     VMap [(VStr ''worlds'', axis_value worlds_spelling (dir_worlds s)),
           (VStr ''facets'', axis_value facets_spelling (dir_facets s)),
           (VStr ''bands'', axis_value bands_spelling (dir_bands s))]"

definition pact_value :: "pact_scope \<Rightarrow> msg" where
  "pact_value p =
     VMap [(VStr ''schema_version'', VInt 2),
           (VStr ''lo_to_hi'', direction_value (lo_to_hi p)),
           (VStr ''hi_to_lo'', direction_value (hi_to_lo p))]"

definition decode_direction :: "msg \<Rightarrow> (pact_error, direction_scope) result" where
  "decode_direction v =
     (case v of
        VMap entries \<Rightarrow>
          (if \<not> validate_exact_keys entries [''worlds'', ''facets'', ''bands''] then Err InvalidPactScope
           else case Option.bind (optional_value entries ''worlds'')
                       (\<lambda>v. case decode_axis worlds_spelling v of Inl _ \<Rightarrow> None | Inr a \<Rightarrow> Some a) of
             None \<Rightarrow> Err InvalidPactScope
           | Some w \<Rightarrow>
           (case Option.bind (optional_value entries ''facets'')
                   (\<lambda>v. case decode_axis facets_spelling v of Inl _ \<Rightarrow> None | Inr a \<Rightarrow> Some a) of
             None \<Rightarrow> Err InvalidPactScope
           | Some f \<Rightarrow>
           (case Option.bind (optional_value entries ''bands'')
                   (\<lambda>v. case decode_axis bands_spelling v of Inl _ \<Rightarrow> None | Inr a \<Rightarrow> Some a) of
             None \<Rightarrow> Err InvalidPactScope
           | Some b \<Rightarrow>
               (let s = \<lparr>dir_worlds = w, dir_facets = f, dir_bands = b\<rparr>
                in if validate_direction s then Ok s else Err InvalidPactScope))))
      | _ \<Rightarrow> Err InvalidPactScope)"

definition decode_pact_value :: "msg \<Rightarrow> (pact_error, pact_scope) result" where
  "decode_pact_value v =
     (case v of
        VMap entries \<Rightarrow>
          (if \<not> validate_exact_keys entries [''schema_version'', ''lo_to_hi'', ''hi_to_lo''] then Err InvalidPactScope
           else if Option.bind (optional_value entries ''schema_version'') as_u64 \<noteq> Some 2 then Err InvalidPactScope
           else case Option.bind (optional_value entries ''lo_to_hi'')
                       (\<lambda>v. case decode_direction v of Inl _ \<Rightarrow> None | Inr s \<Rightarrow> Some s) of
             None \<Rightarrow> Err InvalidPactScope
           | Some lo \<Rightarrow>
           (case Option.bind (optional_value entries ''hi_to_lo'')
                   (\<lambda>v. case decode_direction v of Inl _ \<Rightarrow> None | Inr s \<Rightarrow> Some s) of
             None \<Rightarrow> Err InvalidPactScope
           | Some hi \<Rightarrow>
               (let p = \<lparr>lo_to_hi = lo, hi_to_lo = hi\<rparr>
                in if validate_pact_scope p then Ok p else Err InvalidPactScope)))
      | _ \<Rightarrow> Err InvalidPactScope)"

text \<open>The byte codec, over \<open>rmpv\<close>'s writer and its reader of one value and where it ends.\<close>

definition encode_pact_scope ::
    "(msg \<Rightarrow> byte list option) \<Rightarrow> pact_scope \<Rightarrow> (pact_error, byte list) result" where
  "encode_pact_scope write p =
     (if \<not> validate_pact_scope p then Err InvalidPactScope
      else case write (pact_value p) of None \<Rightarrow> Err EncodeFailed | Some bs \<Rightarrow> Ok bs)"

definition decode_pact_scope ::
    "(byte list \<Rightarrow> (msg \<times> nat) option) \<Rightarrow> byte list \<Rightarrow> (pact_error, pact_scope) result" where
  "decode_pact_scope read bs =
     (case read bs of
        None \<Rightarrow> Err InvalidPactScope
      | Some (v, used) \<Rightarrow> (if used \<noteq> length bs then Err InvalidPactScope else decode_pact_value v))"


section \<open>The codec is faithful\<close>

definition direction_ok :: "direction_scope \<Rightarrow> bool" where
  "direction_ok s \<longleftrightarrow> worlds_codec.axis_ok (dir_worlds s) \<and> facets_codec.axis_ok (dir_facets s) \<and>
     bands_codec.axis_ok (dir_bands s)"

lemma exact_keys_direction: "validate_exact_keys [(VStr ''worlds'', a), (VStr ''facets'', b), (VStr ''bands'', c)] [''worlds'', ''facets'', ''bands'']"
  by (simp add: validate_exact_keys_def as_str_def)

lemma exact_keys_pact: "validate_exact_keys [(VStr ''schema_version'', a), (VStr ''lo_to_hi'', b), (VStr ''hi_to_lo'', c)] [''schema_version'', ''lo_to_hi'', ''hi_to_lo'']"
  by (simp add: validate_exact_keys_def as_str_def)

lemma direction_roundtrip:
  "direction_ok s \<Longrightarrow> validate_direction s \<Longrightarrow> decode_direction (direction_value s) = Ok s"
  by (cases s) (simp add: decode_direction_def direction_value_def exact_keys_direction as_str_def direction_ok_def
      worlds_codec.axis_roundtrip facets_codec.axis_roundtrip bands_codec.axis_roundtrip Let_def)

lemma bind_decode:
  "Option.bind x (\<lambda>v. case d v of Inl _ \<Rightarrow> None | Inr a \<Rightarrow> Some a) = Some y \<longleftrightarrow> (\<exists>v. x = Some v \<and> d v = Ok y)"
  by (cases x) (auto split: sum.splits)

lemma decoded_direction:
  "decode_direction v = Ok s \<Longrightarrow> direction_ok s \<and> validate_direction s"
  by (auto simp: decode_direction_def Let_def bind_decode direction_ok_def
      split: msg.splits if_splits option.splits
      dest: worlds_codec.decoded_axis_ok facets_codec.decoded_axis_ok bands_codec.decoded_axis_ok)

text \<open>C32: A pact scope survives its canonical encoding: every valid scope of proper ids decodes from
  its value to itself, and from the bytes of any writer whose reader reads back what was written
  and stops where it ended.\<close>

theorem pact_scope_roundtrip:
  assumes "direction_ok (lo_to_hi p)" "direction_ok (hi_to_lo p)" "validate_pact_scope p"
    and "write (pact_value p) = Some bs" "read bs = Some (pact_value p, length bs)"
  shows "decode_pact_value (pact_value p) = Ok p \<and>
    encode_pact_scope write p = Ok bs \<and> decode_pact_scope read bs = Ok p"
proof -
  have "decode_pact_value (pact_value p) = Ok p"
    using assms(1-3) by (simp add: decode_pact_value_def pact_value_def exact_keys_pact as_str_def as_u64_def
        direction_roundtrip validate_pact_scope_def Let_def)
  with assms(3-5) show ?thesis by (simp add: encode_pact_scope_def decode_pact_scope_def)
qed

definition sample_pact :: pact_scope where
  "sample_pact =
     (let s = \<lparr>dir_worlds = base_world_axis, dir_facets = AxisBottom, dir_bands = AxisSome {|RangeCore|}\<rparr>
      in \<lparr>lo_to_hi = s, hi_to_lo = s\<lparr>dir_worlds := AxisAll\<rparr>\<rparr>)"

lemma band_single_valid: "validate_axis bands_spelling (AxisSome {|b|})"
  by (simp add: validate_axis_def spelling_defs normalize_ranges_def sorted_list_of_fset.rep_eq fcard.rep_eq)

lemma sample_pact_ok:
  "direction_ok (lo_to_hi sample_pact)" "direction_ok (hi_to_lo sample_pact)" "validate_pact_scope sample_pact"
  using base_world_ok band_single_valid
  by (simp_all add: sample_pact_def Let_def direction_ok_def worlds_codec.axis_ok_def facets_codec.axis_ok_def
      bands_codec.axis_ok_def base_world_axis_def validate_pact_scope_def validate_direction_def)
    (simp_all add: validate_axis_def spelling_defs)

lemma pact_scope_roundtrip_witness:
  "decode_pact_scope (\<lambda>bs. Some (pact_value sample_pact, length bs)) [1, 2] = Ok sample_pact"
  using pact_scope_roundtrip [OF sample_pact_ok, of "\<lambda>v. Some [1, 2]" "[1, 2]"
      "\<lambda>bs. Some (pact_value sample_pact, length bs)"] by simp

lemma bands_admit:
  "admits_set bands_spelling bs \<longleftrightarrow> (\<forall>b \<in> fset bs. \<not> redundant (fset bs) b)"
proof -
  have "length (normalize_ranges (sorted_list_of_fset bs)) = card {b \<in> fset bs. \<not> redundant (fset bs) b}"
    by (simp add: length_normalize)
  moreover have "card {b \<in> fset bs. \<not> redundant (fset bs) b} = card (fset bs) \<longleftrightarrow>
      {b \<in> fset bs. \<not> redundant (fset bs) b} = fset bs"
    by (metis (no_types, lifting) card_subset_eq finite_fset mem_Collect_eq subsetI)
  ultimately show ?thesis by (auto simp: bands_spelling_def fcard.rep_eq)
qed

text \<open>The decoder fails closed: whatever value it accepts is a valid pact scope of proper ids, so
  no decoded direction names a world of the foreign range, an empty set, a reserved id, or a band
  another of its bands includes.\<close>

theorem decoded_pact_scope_valid:
  assumes "decode_pact_value v = Ok p" "d = lo_to_hi p \<or> d = hi_to_lo p"
  shows "direction_ok d \<and> validate_direction d \<and>
    (case dir_worlds d of AxisSome ws \<Rightarrow> ws \<noteq> {||} \<and> fset ws \<inter> Collect is_foreign_world_id_range = {} | _ \<Rightarrow> True) \<and>
    (case dir_bands d of AxisSome bs \<Rightarrow> bs \<noteq> {||} \<and> fset bs \<inter> Collect (redundant (fset bs)) = {} | _ \<Rightarrow> True)"
proof -
  have d: "direction_ok d \<and> validate_direction d"
    using assms by (auto simp: decode_pact_value_def Let_def bind_decode
        split: msg.splits if_splits option.splits dest: decoded_direction)
  then show ?thesis
    using bands_admit by (auto simp: validate_direction_def validate_axis_def worlds_spelling_def split: axis.splits)
qed

lemma decoded_pact_scope_valid_witness:
  "decode_pact_value (pact_value sample_pact) = Ok sample_pact \<and> validate_direction (lo_to_hi sample_pact)"
proof -
  have "decode_pact_value (pact_value sample_pact) = Ok sample_pact"
    using sample_pact_ok by (simp add: decode_pact_value_def pact_value_def exact_keys_pact as_str_def as_u64_def
        direction_roundtrip validate_pact_scope_def Let_def)
  with decoded_pact_scope_valid [OF this, of "lo_to_hi sample_pact"] show ?thesis by simp
qed

section \<open>Meeting two directions\<close>

lemma meet_keeps_worlds:
  assumes "validate_axis worlds_spelling a" "validate_axis worlds_spelling b"
  shows "validate_axis worlds_spelling (axis_meet atom_includes a b)"
proof -
  have wf: "axis_wf a" "axis_wf b" using assms by (auto simp: validate_axis_def axis_wf_def)
  show ?thesis
  proof (cases "axis_meet atom_includes a b")
    case (AxisSome s)
    then have "s \<noteq> {||}" using axis_wf_meet [OF wf, of atom_includes] by (auto simp: axis_wf_def)
    have "Some ` fset s \<subseteq> plain.axis_atoms a \<inter> plain.axis_atoms b"
      using plain.meet_atoms [of a b] unfolding AxisSome by simp
    moreover have "x \<in> fset s \<Longrightarrow> \<not> is_foreign_world_id_range x" for x
    proof -
      assume "x \<in> fset s"
      then have "Some x \<in> plain.axis_atoms a" "Some x \<in> plain.axis_atoms b" using calculation by auto
      with AxisSome assms show "\<not> is_foreign_world_id_range x"
        by (cases a; cases b) (auto simp: validate_axis_def worlds_spelling_def axis_meet_def axis_is_bottom_def)
    qed
    ultimately show ?thesis using AxisSome \<open>s \<noteq> {||}\<close> by (auto simp: validate_axis_def worlds_spelling_def)
  qed (simp_all add: validate_axis_def)
qed

lemma meet_keeps_bands:
  assumes "validate_axis bands_spelling a" "validate_axis bands_spelling b"
  shows "validate_axis bands_spelling (axis_meet range_includes a b)"
proof -
  have max: "validate_axis bands_spelling (axis_of (ffilter (\<lambda>v. \<not> fBex k (\<lambda>w. w \<noteq> v \<and> range_includes w v)) k))" for k
    by (auto simp: axis_of_def validate_axis_def bands_admit redundant_def simp del: range_includes.simps)
  have bottom: "validate_axis bands_spelling AxisBottom" by (simp add: validate_axis_def)
  show ?thesis
  proof (cases "axis_is_bottom a \<or> axis_is_bottom b")
    case True
    then show ?thesis using bottom by (simp add: axis_meet_def)
  next
    case False
    show ?thesis
    proof (cases a; cases b)
      fix x y assume ab: "a = AxisSome x" "b = AxisSome y"
      let ?k = "narrower range_includes x y |\<union>| narrower range_includes y x"
      have "axis_meet range_includes a b = axis_of (ffilter (\<lambda>v. \<not> fBex ?k (\<lambda>w. w \<noteq> v \<and> range_includes w v)) ?k)"
        using False ab by (simp add: axis_meet_def Let_def del: range_includes.simps)
      with max [of ?k] show ?thesis by (simp only:)
    qed (use assms False bottom in \<open>auto simp: axis_meet_def axis_is_bottom_def\<close>)
  qed
qed

lemma meet_keeps_facets:
  assumes "validate_axis facets_spelling a" "validate_axis facets_spelling b"
  shows "validate_axis facets_spelling (axis_meet atom_includes a b)"
proof -
  have "axis_wf a" "axis_wf b" using assms by (auto simp: validate_axis_def axis_wf_def)
  then have "axis_wf (axis_meet atom_includes a b)" by (rule axis_wf_meet)
  then show ?thesis by (cases "axis_meet atom_includes a b") (auto simp: validate_axis_def axis_wf_def facets_spelling_def)
qed

text \<open>Intersecting two valid directions gives a valid direction, the widest one within both, so a
  unilateral narrowing of a pact can always be written back as a pact direction.\<close>

theorem direction_intersect_valid:
  assumes "validate_direction s" "validate_direction t"
  shows "validate_direction (direction_intersect s t) \<and>
    (direction_narrows c (direction_intersect s t) \<longleftrightarrow> direction_narrows c s \<and> direction_narrows c t)"
proof -
  have "validate_direction (direction_intersect s t)"
    using assms by (simp add: validate_direction_def direction_intersect_def meet_keeps_worlds
        meet_keeps_facets meet_keeps_bands)
  moreover have "direction_narrows c (direction_intersect s t) \<longleftrightarrow> direction_narrows c s \<and> direction_narrows c t"
    by (auto simp: direction_narrows_def direction_intersect_def plain.narrows_meet band.narrows_meet)
  ultimately show ?thesis by blast
qed

lemma direction_intersect_valid_witness:
  "validate_direction (direction_intersect (lo_to_hi sample_pact) (hi_to_lo sample_pact))"
  using direction_intersect_valid [of "lo_to_hi sample_pact" "hi_to_lo sample_pact"] sample_pact_ok(3)
  by (simp add: validate_pact_scope_def)

end
