(* ===== verification/RepoAccess.thy ===== *)
theory RepoAccess
  imports PactScopes
begin

text \<open>
  What a Grant lets an agent touch of a repository
  (\<open>crates/oneiron-authority/src/federation/repo_scope.rs\<close>): the grammar of refs, paths and globs, the
  matching of a glob, the admission of a target under a Grant's scope and bounds, and the one value
  form of the bounds; and the repositories a push Grant names (\<open>federation/git_push.rs\<close>).

  A \<open>&str\<close> is the list of its bytes; where the code walks characters the text is cut into them.
\<close>

section \<open>Texts\<close>

fun split_on :: "char \<Rightarrow> string \<Rightarrow> string list" where
  "split_on c [] = [[]]"
| "split_on c (x # xs) =
     (if x = c then [] # split_on c xs else case split_on c xs of [] \<Rightarrow> [[x]] | y # ys \<Rightarrow> (x # y) # ys)"

definition begins :: "string \<Rightarrow> string \<Rightarrow> bool" where
  "begins p s \<longleftrightarrow> take (length p) s = p"

definition ends :: "string \<Rightarrow> string \<Rightarrow> bool" where
  "ends p s \<longleftrightarrow> begins (rev p) (rev s)"

definition strip_front :: "string \<Rightarrow> string \<Rightarrow> string option" where
  "strip_front p s = (if begins p s then Some (drop (length p) s) else None)"

definition strip_back :: "string \<Rightarrow> string \<Rightarrow> string option" where
  "strip_back p s = (if ends p s then Some (take (length s - length p) s) else None)"

fun has_infix :: "string \<Rightarrow> string \<Rightarrow> bool" where
  "has_infix p [] = (p = [])"
| "has_infix p (x # xs) = (begins p (x # xs) \<or> has_infix p xs)"

definition continues :: "char \<Rightarrow> bool" where
  "continues c \<longleftrightarrow> (of_char c :: nat) div 64 = 2"

text \<open>\<open>str::chars\<close>: each character as its bytes.\<close>

function chars :: "string \<Rightarrow> string list" where
  "chars [] = []"
| "chars (c # cs) = (c # takeWhile continues cs) # chars (dropWhile continues cs)"
  by pat_completeness auto
termination by (relation "measure length") (simp_all add: le_imp_less_Suc length_dropWhile_le)

section \<open>Refs and paths\<close>

definition ascii_control :: "char \<Rightarrow> bool" where
  "ascii_control c \<longleftrightarrow> (of_char c :: nat) < 32 \<or> (of_char c :: nat) = 127"

definition is_full_ref_name :: "string \<Rightarrow> bool" where
  "is_full_ref_name name \<longleftrightarrow>
     (case strip_front ''refs/'' name of None \<Rightarrow> False | Some tail \<Rightarrow> tail \<noteq> []) \<and>
     \<not> ends ''.'' name \<and> \<not> has_infix ''..'' name \<and> \<not> has_infix [CHR 0x40, CHR 0x7B] name \<and>
     \<not> list_ex (\<lambda>c. ascii_control c \<or> c \<in> set '' ~^:?*['' \<or> c = CHR 0x5C) name \<and>
     list_all (\<lambda>part. part \<noteq> [] \<and> \<not> begins ''.'' part \<and> \<not> ends ''.lock'' part) (split_on CHR ''/'' name)"

definition is_ref_entry :: "string \<Rightarrow> bool" where
  "is_ref_entry e =
     (case strip_back ''/*'' e of
        Some prefix \<Rightarrow> prefix = ''refs'' \<or> is_full_ref_name prefix
      | None \<Rightarrow> is_full_ref_name e)"

definition prefix_rule_admits :: "string \<Rightarrow> string \<Rightarrow> bool" where
  "prefix_rule_admits e git_ref \<longleftrightarrow>
     (case Option.bind (Option.bind (strip_back ''/*'' e) (\<lambda>prefix. strip_front prefix git_ref)) (strip_front ''/'') of
        None \<Rightarrow> False | Some tail \<Rightarrow> tail \<noteq> [])"

definition is_normal_path :: "string \<Rightarrow> bool" where
  "is_normal_path path \<longleftrightarrow>
     \<not> (CHR 0x5C \<in> set path \<or> has_control path) \<and>
     list_all (\<lambda>part. part \<noteq> [] \<and> part \<noteq> ''.'' \<and> part \<noteq> ''..'') (split_on CHR ''/'' path)"

definition is_path_glob :: "string \<Rightarrow> bool" where
  "is_path_glob glob \<longleftrightarrow>
     is_normal_path glob \<and> list_all (\<lambda>part. part = ''**'' \<or> \<not> has_infix ''**'' part) (split_on CHR ''/'' glob)"

section \<open>Globs\<close>

definition stars :: "string list \<Rightarrow> nat" where
  "stars part = length (filter (\<lambda>c. c = ''*'') part)"

lemma stars_drop: "i \<le> j \<Longrightarrow> stars (drop j part) \<le> stars (drop i part)"
proof -
  assume "i \<le> j"
  then have "drop j part = drop (j - i) (drop i part)" by simp
  moreover have "length (filter P (drop n xs)) \<le> length (filter P xs)" for P n and xs :: "string list"
    by (subst (2) append_take_drop_id [of n xs, symmetric]) (simp only: filter_append length_append le_add2)
  ultimately show ?thesis unfolding stars_def by metis
qed

lemma stars_at: "i < length part \<Longrightarrow> part ! i = ''*'' \<Longrightarrow> stars (drop i part) = Suc (stars (drop (Suc i) part))"
  by (simp add: stars_def Cons_nth_drop_Suc [symmetric])

text \<open>The loop of \<open>component_matches\<close>: the place in the part, the place in the name, and the last star with
  the place it may be stretched from.  Stretching moves that place on; a new star leaves fewer ahead.\<close>

function component_loop :: "string list \<Rightarrow> string list \<Rightarrow> nat \<Rightarrow> nat \<Rightarrow> (nat \<times> nat) option \<Rightarrow> bool" where
  "component_loop part name at on star =
     (if on < length name
      then if at < length part \<and> (part ! at = ''?'' \<or> part ! at = name ! on)
           then component_loop part name (at + 1) (on + 1) star
           else if at < length part \<and> part ! at = ''*''
           then component_loop part name (at + 1) on (Some (at, on))
           else case star of
                  Some (star_at, star_on) \<Rightarrow>
                    component_loop part name (star_at + 1) (star_on + 1) (Some (star_at, star_on + 1))
                | None \<Rightarrow> False
      else list_all (\<lambda>c. c = ''*'') (drop at part))"
  by pat_completeness auto
termination
proof (relation "measures
    [\<lambda>(part, name, at, on, star). max (stars (drop at part)) (case star of None \<Rightarrow> 0 | Some (a, _) \<Rightarrow> stars (drop (a + 1) part)),
     \<lambda>(part, name, at, on, star). case star of None \<Rightarrow> 0 | Some (_, b) \<Rightarrow> length name - b,
     \<lambda>(part, name, at, on, star). length name - on]", goal_cases)
  case (2 part name at on star)
  then show ?case using stars_drop [of at "Suc at" part] by (auto split: option.split)
next
  case (3 part name at on star)
  then show ?case using stars_at [of at part] by (auto split: option.split)
next
  case (4 part name at on star x a b)
  then show ?case by auto
qed simp

declare component_loop.simps [simp del]

definition component_matches :: "string \<Rightarrow> string \<Rightarrow> bool" where
  "component_matches part name = component_loop (chars part) (chars name) 0 0 None"

text \<open>One part of the glob: \<open>reach ! n\<close> is whether the glob so far matches the first \<open>n\<close> components.\<close>

fun running_or :: "bool \<Rightarrow> bool list \<Rightarrow> bool list" where
  "running_or seen [] = []"
| "running_or seen (r # rs) = (seen \<or> r) # running_or (seen \<or> r) rs"

definition glob_step :: "string list \<Rightarrow> string \<Rightarrow> bool list \<Rightarrow> bool list" where
  "glob_step names part reach =
     (if part = ''**'' then running_or False reach
      else False # map (\<lambda>i. reach ! i \<and> component_matches part (names ! i)) [0 ..< length names])"

definition glob_matches :: "string \<Rightarrow> string \<Rightarrow> bool" where
  "glob_matches glob path =
     (let names = split_on CHR ''/'' path;
          reach = fold (glob_step names) (split_on CHR ''/'' glob) (True # replicate (length names) False)
      in last reach)"

section \<open>Bounds and their admission\<close>

datatype bounds_error = NoRefs | NotAFullRef | NotAGlob

record repo_bounds =
  bounds_repo :: entity_id
  bounds_project :: entity_id
  bounds_refs :: "string fset"
  readable :: "string fset"
  editable :: "string fset"

datatype repo_intent = ReadIntent | EditIntent

record repo_target =
  target_repo :: entity_id
  target_ref :: string
  target_paths :: "string fset"

datatype repo_refusal = NoMembership | MembershipHeld | WrongRepo | WrongRef | PathOutsideScope | StaleLease

fun repo_verb :: "repo_intent \<Rightarrow> string" where
  "repo_verb ReadIntent = ''read''"
| "repo_verb EditIntent = ''write''"

fun public_code :: "repo_refusal \<Rightarrow> string" where
  "public_code NoMembership = ''repo_no_membership''"
| "public_code MembershipHeld = ''repo_membership_held''"
| "public_code WrongRepo = ''repo_wrong_repo''"
| "public_code WrongRef = ''repo_wrong_ref''"
| "public_code PathOutsideScope = ''repo_path_outside_scope''"
| "public_code StaleLease = ''repo_stale_lease''"

definition validate_bounds :: "repo_bounds \<Rightarrow> (bounds_error, unit) result" where
  "validate_bounds b =
     (if bounds_refs b = {||} then Err NoRefs
      else if \<not> fBall (bounds_refs b) is_ref_entry then Err NotAFullRef
      else if \<not> fBall (readable b |\<union>| editable b) is_path_glob then Err NotAGlob
      else Ok ())"

fun globs :: "repo_bounds \<Rightarrow> repo_intent \<Rightarrow> string fset" where
  "globs b ReadIntent = readable b"
| "globs b EditIntent = editable b"

definition admits_ref :: "repo_bounds \<Rightarrow> string \<Rightarrow> bool" where
  "admits_ref b git_ref \<longleftrightarrow>
     is_full_ref_name git_ref \<and> (git_ref |\<in>| bounds_refs b \<or> fBex (bounds_refs b) (\<lambda>e. prefix_rule_admits e git_ref))"

definition admits_path :: "repo_bounds \<Rightarrow> repo_intent \<Rightarrow> string \<Rightarrow> bool" where
  "admits_path b intent path \<longleftrightarrow> is_normal_path path \<and> fBex (globs b intent) (\<lambda>glob. glob_matches glob path)"

definition admits_repo_intent :: "scope \<Rightarrow> repo_bounds \<Rightarrow> repo_intent \<Rightarrow> bool" where
  "admits_repo_intent s b intent \<longleftrightarrow>
     axis_contains atom_covered_by (verbs s) (repo_verb intent) \<and>
     axis_contains atom_covered_by (audience s) (bounds_project b)"

definition admits_repo_member :: "scope \<Rightarrow> repo_bounds \<Rightarrow> bool" where
  "admits_repo_member s b = admits_repo_intent s b ReadIntent"

definition admit_repo_target :: "scope \<Rightarrow> repo_bounds \<Rightarrow> repo_target \<Rightarrow> repo_intent \<Rightarrow> (repo_refusal, unit) result" where
  "admit_repo_target s b tg intent =
     (if \<not> admits_repo_intent s b intent then Err NoMembership
      else if target_repo tg \<noteq> bounds_repo b then Err WrongRepo
      else if \<not> admits_ref b (target_ref tg) then Err WrongRef
      else if globs b intent = {||} \<or> \<not> fBall (target_paths tg) (admits_path b intent) then Err PathOutsideScope
      else Ok ())"


section \<open>The documented meaning of a glob\<close>

text \<open>\<open>*\<close> is any run of characters of a component, \<open>?\<close> one of them, every other character itself.\<close>

fun wild :: "string list \<Rightarrow> string list \<Rightarrow> bool" where
  "wild [] ns = (ns = [])"
| "wild (p # ps) [] = (p = ''*'' \<and> wild ps [])"
| "wild (p # ps) (n # ns) =
     (if p = ''*'' then wild ps (n # ns) \<or> wild (p # ps) ns else (p = ''?'' \<or> p = n) \<and> wild ps ns)"

text \<open>\<open>**\<close> is any run of whole components.\<close>

fun path_wild :: "(string \<Rightarrow> string \<Rightarrow> bool) \<Rightarrow> string list \<Rightarrow> string list \<Rightarrow> bool" where
  "path_wild m [] ns = (ns = [])"
| "path_wild m (p # ps) [] = (p = ''**'' \<and> path_wild m ps [])"
| "path_wild m (p # ps) (n # ns) =
     (if p = ''**'' then path_wild m ps (n # ns) \<or> path_wild m (p # ps) ns else m p n \<and> path_wild m ps ns)"

definition glob_spec :: "string \<Rightarrow> string \<Rightarrow> bool" where
  "glob_spec glob path = path_wild (\<lambda>p n. wild (chars p) (chars n)) (split_on CHR ''/'' glob) (split_on CHR ''/'' path)"

lemma wild_star: "wild (''*'' # ps) ns \<longleftrightarrow> (\<exists>j. wild ps (drop j ns))"
proof (induction ns)
  case (Cons n ns)
  have "(\<exists>j. wild ps (drop j (n # ns))) \<longleftrightarrow> wild ps (n # ns) \<or> (\<exists>j. wild ps (drop j ns))"
    by (metis drop0 drop_Suc_Cons not0_implies_Suc)
  with Cons show ?case by simp
qed simp

lemma wild_star_mono: "wild (''*'' # ps) (drop j ns) \<Longrightarrow> wild (''*'' # ps) ns"
  unfolding wild_star by (metis drop_drop)

lemma wild_nil: "wild ps [] \<longleftrightarrow> list_all (\<lambda>c. c = ''*'') ps"
  by (induction ps) auto

lemma wild_fixed:
  "list_all (\<lambda>c. c \<noteq> ''*'') qs \<Longrightarrow> wild (qs @ rs) ns \<Longrightarrow> length qs \<le> length ns \<and> wild rs (drop (length qs) ns)"
proof (induction qs arbitrary: ns)
  case (Cons q qs)
  then show ?case by (cases ns) auto
qed simp

lemma wild_step:
  assumes "at < length part" "on < length name" "part ! at \<noteq> ''*''"
  shows "wild (drop at part) (drop on name) \<longleftrightarrow>
    (part ! at = ''?'' \<or> part ! at = name ! on) \<and> wild (drop (Suc at) part) (drop (Suc on) name)"
proof -
  have "drop at part = part ! at # drop (Suc at) part" "drop on name = name ! on # drop (Suc on) name"
    using assms(1,2) by (simp_all add: Cons_nth_drop_Suc)
  then show ?thesis using assms(3) by simp
qed

lemma wild_at_star:
  assumes "at < length part" "part ! at = ''*''"
  shows "drop at part = ''*'' # drop (Suc at) part"
  using assms by (simp add: Cons_nth_drop_Suc [symmetric])

definition stretched :: "string list \<Rightarrow> string list \<Rightarrow> (nat \<times> nat) option \<Rightarrow> bool" where
  "stretched part name star \<longleftrightarrow>
     (case star of None \<Rightarrow> False | Some (a, b) \<Rightarrow> wild (''*'' # drop (Suc a) part) (drop (Suc b) name))"

lemma stretch_on: "stretched part name (Some (a, b)) \<longleftrightarrow>
    wild (drop (Suc a) part) (drop (Suc b) name) \<or> stretched part name (Some (a, Suc b))"
proof -
  have "(\<exists>j. wild ps (drop j ns)) \<longleftrightarrow> wild ps ns \<or> (\<exists>j. wild ps (drop j (drop 1 ns)))" for ps ns
    by (metis add.commute drop0 drop_drop not0_implies_Suc plus_1_eq_Suc)
  then show ?thesis unfolding stretched_def option.case prod.case wild_star by (metis drop_drop plus_1_eq_Suc)
qed

lemma component_sound:
  "component_loop part name at on star \<Longrightarrow> wild (drop at part) (drop on name) \<or> stretched part name star"
proof (induction part name at on star rule: component_loop.induct)
  case (1 part name at on star)
  note run = 1(4) [unfolded component_loop.simps [of part name at on star]]
  show ?case
  proof (cases "on < length name")
    case False
    then show ?thesis using run by (simp add: wild_nil)
  next
    case on: True
    consider (same) "at < length part" "part ! at = ''?'' \<or> part ! at = name ! on"
      | (star) "\<not> (at < length part \<and> (part ! at = ''?'' \<or> part ! at = name ! on))" "at < length part" "part ! at = ''*''"
      | (again) "\<not> (at < length part \<and> (part ! at = ''?'' \<or> part ! at = name ! on))" "\<not> (at < length part \<and> part ! at = ''*'')"
      by blast
    then show ?thesis
    proof cases
      case same
      then have ih: "wild (drop (Suc at) part) (drop (Suc on) name) \<or> stretched part name star"
        using 1(1) [OF on] run on by simp
      show ?thesis
      proof (cases "part ! at = ''*''")
        case True
        have "wild (drop (Suc at) part) (drop (Suc on) name) \<Longrightarrow> wild (drop at part) (drop on name)"
          unfolding wild_at_star [OF same(1) True] wild_star by (metis drop_drop plus_1_eq_Suc)
        with ih show ?thesis by blast
      next
        case False
        have "wild (drop (Suc at) part) (drop (Suc on) name) \<Longrightarrow> wild (drop at part) (drop on name)"
          using wild_step [OF same(1) on False] same(2) by simp
        with ih show ?thesis by blast
      qed
    next
      case star
      then have "wild (drop (Suc at) part) (drop on name) \<or> stretched part name (Some (at, on))"
        using 1(2) [OF on] run on by simp
      moreover have "wild (''*'' # ps) (drop 1 ns) \<Longrightarrow> wild (''*'' # ps) ns" "wild ps ns \<Longrightarrow> wild (''*'' # ps) ns" for ps ns
        using wild_star_mono [of ps 1 ns] unfolding wild_star by (metis, metis drop0)
      ultimately have "wild (''*'' # drop (Suc at) part) (drop on name)"
        unfolding stretched_def option.case prod.case by (metis drop_drop plus_1_eq_Suc)
      then show ?thesis using wild_at_star [OF star(2,3)] by simp
    next
      case again
      then obtain a b where s: "star = Some (a, b)" "component_loop part name (a + 1) (b + 1) (Some (a, b + 1))"
        using run on by (auto split: option.splits if_splits)
      then have "wild (drop (Suc a) part) (drop (Suc b) name) \<or> stretched part name (Some (a, Suc b))"
        using 1(3) [OF on again s(1)] by simp
      then show ?thesis using stretch_on s(1) by blast
    qed
  qed
qed


text \<open>Since its last star the loop has matched the part character by character.\<close>

definition in_step :: "string list \<Rightarrow> nat \<Rightarrow> nat \<Rightarrow> (nat \<times> nat) option \<Rightarrow> bool" where
  "in_step part at on star \<longleftrightarrow>
     (case star of None \<Rightarrow> True
      | Some (a, b) \<Rightarrow> \<exists>k. at = Suc a + k \<and> on = b + k \<and> at \<le> length part \<and>
          list_all (\<lambda>c. c \<noteq> ''*'') (take k (drop (Suc a) part)))"

lemma stretch_skips:
  assumes "in_step part at on star" "stretched part name star"
  shows "\<exists>j. wild (drop at part) (drop (Suc on + j) name) \<and> (on < length name \<or> drop at part = [] \<or> wild (drop at part) [])"
proof -
  obtain a b k where s: "star = Some (a, b)" "at = Suc a + k" "on = b + k" "at \<le> length part"
    "list_all (\<lambda>c. c \<noteq> ''*'') (take k (drop (Suc a) part))"
    using assms by (auto simp: in_step_def stretched_def split: option.splits)
  obtain j where j: "wild (drop (Suc a) part) (drop j (drop (Suc b) name))"
    using assms(2) by (auto simp: stretched_def s(1) wild_star)
  have "drop (Suc a) part = take k (drop (Suc a) part) @ drop at part" using s(2) by (metis add.commute append_take_drop_id drop_drop)
  moreover have k: "length (take k (drop (Suc a) part)) = k" using s(2,4) by simp
  ultimately have w: "k \<le> length (drop (Suc b + j) name)" "wild (drop at part) (drop k (drop (Suc b + j) name))"
    using wild_fixed [OF s(5)] j by (metis drop_drop add.commute)+
  have "wild (drop at part) (drop (Suc on + j) name)" using w(2) by (simp add: s(3) ac_simps)
  moreover have "on < length name \<or> wild (drop at part) []"
    using w s(3) calculation by (cases "on < length name") auto
  ultimately show ?thesis by blast
qed

lemma component_complete:
  "''*'' \<notin> set name \<Longrightarrow> in_step part at on star \<Longrightarrow>
   wild (drop at part) (drop on name) \<or> stretched part name star \<Longrightarrow> component_loop part name at on star"
proof (induction part name at on star rule: component_loop.induct)
  case (1 part name at on star)
  show ?case
  proof (cases "on < length name")
    case False
    then have "wild (drop at part) []" using 1(6) stretch_skips [OF 1(5), of name] by auto
    then show ?thesis using False by (subst component_loop.simps) (simp add: wild_nil)
  next
    case on: True
    then have lit: "name ! on \<noteq> ''*''" using 1(4) nth_mem by metis
    consider (same) "at < length part" "part ! at = ''?'' \<or> part ! at = name ! on"
      | (star) "\<not> (at < length part \<and> (part ! at = ''?'' \<or> part ! at = name ! on))" "at < length part" "part ! at = ''*''"
      | (again) "\<not> (at < length part \<and> (part ! at = ''?'' \<or> part ! at = name ! on))" "\<not> (at < length part \<and> part ! at = ''*'')"
      by blast
    then show ?thesis
    proof cases
      case same
      then have ns: "part ! at \<noteq> ''*''" using lit by auto
      have "in_step part (at + 1) (on + 1) star"
      proof (cases star)
        case (Some ab)
        obtain a b k where s: "star = Some (a, b)" "at = Suc a + k" "on = b + k"
          "list_all (\<lambda>c. c \<noteq> ''*'') (take k (drop (Suc a) part))"
          using 1(5) Some by (auto simp: in_step_def split: prod.splits)
        have "take (Suc k) (drop (Suc a) part) = take k (drop (Suc a) part) @ [part ! at]"
          using same(1) s(2) by (simp add: take_Suc_conv_app_nth)
        then have "list_all (\<lambda>c. c \<noteq> ''*'') (take (Suc k) (drop (Suc a) part))" using s(4) ns by simp
        moreover have "at + 1 = Suc a + Suc k \<and> on + 1 = b + Suc k \<and> at + 1 \<le> length part" using s(2,3) same(1) by simp
        ultimately show ?thesis unfolding in_step_def s(1) option.case prod.case by blast
      qed (simp add: in_step_def)
      moreover have "wild (drop (at + 1) part) (drop (on + 1) name) \<or> stretched part name star"
        using 1(6) wild_step [OF same(1) on ns] by auto
      ultimately have "component_loop part name (at + 1) (on + 1) star" using 1(1) [OF on _ 1(4)] same by blast
      then show ?thesis using on same by (subst component_loop.simps) simp
    next
      case star
      have "wild (drop at part) (drop on name)"
      proof (rule disjE [OF 1(6)])
        assume "stretched part name star"
        then obtain j where "wild (drop at part) (drop (Suc on + j) name)" using stretch_skips [OF 1(5)] by blast
        then have "wild (drop at part) (drop (Suc j) (drop on name))" by (simp add: ac_simps)
        then show ?thesis using wild_star_mono wild_at_star [OF star(2,3)] by metis
      qed
      then have "wild (drop (Suc at) part) (drop on name) \<or> stretched part name (Some (at, on))"
        using wild_at_star [OF star(2,3)] Cons_nth_drop_Suc [OF on, symmetric] by (simp add: stretched_def)
      moreover have "in_step part (at + 1) on (Some (at, on))" using star(2) by (simp add: in_step_def)
      ultimately have "component_loop part name (at + 1) on (Some (at, on))" using 1(2) [OF on star(1) _ 1(4)] star by simp
      then show ?thesis using on star by (subst component_loop.simps) simp
    next
      case again
      have "\<not> wild (drop at part) (drop on name)"
      proof (cases "at < length part")
        case True
        then show ?thesis using again wild_step [OF True on] by blast
      qed (use on in simp)
      then have st: "stretched part name star" using 1(6) by blast
      then obtain a b where s: "star = Some (a, b)" by (auto simp: stretched_def split: option.splits)
      have "in_step part (a + 1) (b + 1) (Some (a, b + 1))"
        using 1(5) by (auto simp: in_step_def s intro!: exI [of _ 0])
      moreover have "wild (drop (a + 1) part) (drop (b + 1) name) \<or> stretched part name (Some (a, b + 1))"
        using st unfolding s by (simp add: stretch_on [of part name a b])
      ultimately have "component_loop part name (a + 1) (b + 1) (Some (a, b + 1))" using 1(3) [OF on again s refl 1(4)] by blast
      then show ?thesis using on again s by (subst component_loop.simps) auto
    qed
  qed
qed

lemma component_wild:
  "component_matches part name \<Longrightarrow> wild (chars part) (chars name)"
  "''*'' \<notin> set (chars name) \<Longrightarrow> component_matches part name \<longleftrightarrow> wild (chars part) (chars name)"
  using component_sound [of "chars part" "chars name" 0 0 None] component_complete [of "chars name" "chars part" 0 0 None]
  by (auto simp: component_matches_def stretched_def in_step_def)


section \<open>The reach of a glob\<close>

lemma path_star: "path_wild m (''**'' # ps) ns \<longleftrightarrow> (\<exists>us vs. ns = us @ vs \<and> path_wild m ps vs)"
proof (induction ns)
  case (Cons n ns)
  have "(\<exists>us vs. n # ns = us @ vs \<and> path_wild m ps vs) \<longleftrightarrow>
      path_wild m ps (n # ns) \<or> (\<exists>us vs. ns = us @ vs \<and> path_wild m ps vs)"
    by (auto simp: Cons_eq_append_conv)
  with Cons show ?case by simp
qed simp

lemma path_append: "path_wild m (ps @ qs) ns \<longleftrightarrow> (\<exists>us vs. ns = us @ vs \<and> path_wild m ps us \<and> path_wild m qs vs)"
proof (induction ps arbitrary: ns)
  case (Cons p ps)
  show ?case
  proof (cases "p = ''**''")
    case True
    show ?thesis unfolding append_Cons True path_star Cons.IH by (metis append_assoc)
  next
    case False
    then have step: "path_wild m (p # rs) xs \<longleftrightarrow> (\<exists>n ys. xs = n # ys \<and> m p n \<and> path_wild m rs ys)" for rs xs
      by (cases xs) auto
    show ?thesis unfolding append_Cons step Cons.IH by (metis append_Cons)
  qed
qed simp

lemma path_snoc:
  "path_wild m (ps @ [p]) ns \<longleftrightarrow>
     (if p = ''**'' then \<exists>us vs. ns = us @ vs \<and> path_wild m ps us
      else ns \<noteq> [] \<and> path_wild m ps (butlast ns) \<and> m p (last ns))"
proof -
  have "path_wild m [''**''] vs" for vs by (induction vs) auto
  moreover have "p \<noteq> ''**'' \<Longrightarrow> path_wild m [p] vs \<longleftrightarrow> (\<exists>n. vs = [n] \<and> m p n)" for vs
    by (cases vs) auto
  ultimately show ?thesis unfolding path_append by (auto intro: append_butlast_last_id [symmetric])
qed

lemma path_cong: "(\<And>p n. n \<in> set ns \<Longrightarrow> m p n = m' p n) \<Longrightarrow> path_wild m ps ns = path_wild m' ps ns"
  by (induction m ps ns rule: path_wild.induct) auto

lemma path_mono: "(\<And>p n. m p n \<Longrightarrow> m' p n) \<Longrightarrow> path_wild m ps ns \<Longrightarrow> path_wild m' ps ns"
  by (induction m ps ns rule: path_wild.induct) (auto split: if_splits)

lemma running_or_length [simp]: "length (running_or seen rs) = length rs"
  by (induction rs arbitrary: seen) auto

lemma running_or_nth: "i < length rs \<Longrightarrow> running_or seen rs ! i \<longleftrightarrow> seen \<or> (\<exists>k \<le> i. rs ! k)"
proof (induction rs arbitrary: seen i)
  case (Cons r rs)
  show ?case
  proof (cases i)
    case (Suc j)
    have "(\<exists>k \<le> Suc j. (r # rs) ! k) \<longleftrightarrow> r \<or> (\<exists>k \<le> j. rs ! k)"
      by (metis Suc_le_mono le0 nth_Cons_0 nth_Cons_Suc not0_implies_Suc)
    then show ?thesis using Cons Suc by auto
  qed simp
qed simp

definition reach_of :: "string list \<Rightarrow> string list \<Rightarrow> bool list" where
  "reach_of names ps = map (\<lambda>n. path_wild component_matches ps (take n names)) [0 ..< Suc (length names)]"

lemma reach_step: "glob_step names p (reach_of names ps) = reach_of names (ps @ [p])"
proof (rule nth_equalityI)
  show "length (glob_step names p (reach_of names ps)) = length (reach_of names (ps @ [p]))"
    by (simp add: glob_step_def reach_of_def)
  fix i assume "i < length (glob_step names p (reach_of names ps))"
  then have i: "i \<le> length names" by (simp add: glob_step_def reach_of_def split: if_splits)
  have at: "k \<le> length names \<Longrightarrow> reach_of names qs ! k = path_wild component_matches qs (take k names)" for k qs
    by (simp add: reach_of_def del: upt_Suc)
  show "glob_step names p (reach_of names ps) ! i = reach_of names (ps @ [p]) ! i"
  proof (cases "p = ''**''")
    case True
    have "(\<exists>k \<le> i. reach_of names ps ! k) \<longleftrightarrow> (\<exists>k \<le> i. path_wild component_matches ps (take k names))"
      using at i by (meson le_trans)
    also have "\<dots> \<longleftrightarrow> (\<exists>us vs. take i names = us @ vs \<and> path_wild component_matches ps us)"
    proof
      assume "\<exists>k \<le> i. path_wild component_matches ps (take k names)"
      then obtain k where "k \<le> i" "path_wild component_matches ps (take k names)" by blast
      moreover from this have "take i names = take k names @ drop k (take i names)"
        by (metis append_take_drop_id min.absorb1 take_take)
      ultimately show "\<exists>us vs. take i names = us @ vs \<and> path_wild component_matches ps us" by blast
    next
      assume "\<exists>us vs. take i names = us @ vs \<and> path_wild component_matches ps us"
      then obtain us vs where u: "take i names = us @ vs" "path_wild component_matches ps us" by blast
      then have "us = take (length us) names" "length us \<le> i" using i
        by (metis append_eq_conv_conj length_append length_take le_add1 min.absorb1 min.absorb2 take_take)+
      then show "\<exists>k \<le> i. path_wild component_matches ps (take k names)" using u(2) by metis
    qed
    finally show ?thesis using True i by (simp add: glob_step_def running_or_nth at path_snoc reach_of_def del: upt_Suc)
  next
    case False
    then show ?thesis
    proof (cases i)
      case 0
      then show ?thesis using False by (simp add: glob_step_def at path_snoc)
    next
      case (Suc j)
      then have "butlast (take i names) = take j names" "last (take i names) = names ! j" "take i names \<noteq> []"
        using i by (auto simp: butlast_take take_Suc_conv_app_nth)
      then show ?thesis using False Suc i by (simp add: glob_step_def at path_snoc)
    qed
  qed
qed

lemma reach_fold: "fold (glob_step names) qs (reach_of names ps) = reach_of names (ps @ qs)"
  by (induction qs arbitrary: ps) (simp_all add: reach_step)

lemma glob_is_path_wild:
  "glob_matches glob path = path_wild component_matches (split_on CHR ''/'' glob) (split_on CHR ''/'' path)"
proof -
  define names where "names = split_on CHR ''/'' path"
  have "path_wild component_matches [] (take n names) \<longleftrightarrow> n = 0 \<or> names = []" for n by simp
  then have "True # replicate (length names) False = reach_of names []"
    by (intro nth_equalityI) (auto simp: reach_of_def nth_Cons simp del: upt_Suc split: nat.split)
  then show ?thesis unfolding glob_matches_def Let_def names_def [symmetric]
    by (simp add: reach_fold) (simp add: reach_of_def)
qed

lemma split_on_chars: "\<forall>part \<in> set (split_on c s). set part \<subseteq> set s"
proof (induction c s rule: split_on.induct)
  case (2 c x xs)
  then show ?case by (cases "split_on c xs") (simp, (simp; blast))
qed simp

lemma concat_chars [simp]: "concat (chars s) = s"
  by (induction s rule: chars.induct) simp_all

text \<open>C14: what a path glob admits.  Every match is one the grammar documents; on paths without a literal
  star the match is exactly the documented one.  A path component that begins with a literal star is refused
  by the glob that documents any run of characters.\<close>

theorem glob_matches_as_documented:
  "(glob_matches glob path \<longrightarrow> glob_spec glob path) \<and>
   (CHR ''*'' \<notin> set path \<longrightarrow> glob_matches glob path = glob_spec glob path) \<and>
   glob_spec ''*'' ''*a'' \<and> \<not> glob_matches ''*'' ''*a''"
proof (intro conjI impI)
  show "glob_spec glob path" if "glob_matches glob path"
    using that unfolding glob_is_path_wild glob_spec_def by (rule path_mono [rotated]) (rule component_wild(1))
  show "glob_matches glob path = glob_spec glob path" if none: "CHR ''*'' \<notin> set path"
  proof -
    have "''*'' \<notin> set (chars n)" if "n \<in> set (split_on CHR ''/'' path)" for n
    proof
      assume "''*'' \<in> set (chars n)"
      then have "CHR ''*'' \<in> set (concat (chars n))" by (simp only: set_concat) force
      then show False using split_on_chars that none by auto
    qed
    then show ?thesis unfolding glob_is_path_wild glob_spec_def by (intro path_cong) (simp add: component_wild(2))
  qed
  show "glob_spec ''*'' ''*a''" by (simp add: glob_spec_def continues_def)
  show "\<not> glob_matches ''*'' ''*a''"
    by (simp add: glob_is_path_wild component_matches_def component_loop.simps continues_def)
qed

lemma glob_matches_as_documented_witness:
  "glob_spec ''src/**/?.rs'' ''src/a/b/c.rs'' \<and> glob_matches ''src/*/*.rs'' ''src/a/b.rs''"
proof
  have "glob_matches ''src/**/?.rs'' ''src/a/b/c.rs''" by code_simp
  then show "glob_spec ''src/**/?.rs'' ''src/a/b/c.rs''" using glob_matches_as_documented by blast
  have "glob_spec ''src/*/*.rs'' ''src/a/b.rs''" by code_simp
  moreover have "CHR ''*'' \<notin> set ''src/a/b.rs''" by simp
  ultimately show "glob_matches ''src/*/*.rs'' ''src/a/b.rs''" using glob_matches_as_documented by metis
qed


section \<open>What a Grant admits\<close>

lemma begins_iff: "begins p s \<longleftrightarrow> (\<exists>t. s = p @ t)"
  unfolding begins_def by (metis append_eq_conv_conj append_take_drop_id)

lemma ends_iff: "ends p s \<longleftrightarrow> (\<exists>t. s = t @ p)"
  unfolding ends_def begins_iff by (metis rev_append rev_rev_ident)

lemma strip_front_Some: "strip_front p s = Some t \<longleftrightarrow> s = p @ t"
  by (auto simp: strip_front_def begins_iff)

lemma strip_back_Some: "strip_back p s = Some t \<longleftrightarrow> s = t @ p"
  by (auto simp: strip_back_def ends_iff)

lemma prefix_rule_iff:
  "prefix_rule_admits e r \<longleftrightarrow> (\<exists>p t. e = p @ ''/*'' \<and> r = p @ ''/'' @ t \<and> t \<noteq> [])"
proof -
  have "prefix_rule_admits e r \<longleftrightarrow> (\<exists>p q t. strip_back ''/*'' e = Some p \<and> strip_front p r = Some q \<and>
      strip_front ''/'' q = Some t \<and> t \<noteq> [])"
    by (auto simp: prefix_rule_admits_def split: option.splits) (auto simp: bind_eq_Some_conv)
  then show ?thesis unfolding strip_front_Some strip_back_Some by blast
qed

lemma full_ref_no_star: "is_full_ref_name e \<Longrightarrow> CHR ''*'' \<notin> set e"
  by (auto simp: is_full_ref_name_def list_ex_iff)

text \<open>which refs a Grant's bounds admit.  A full ref name it lists, or one that a rule \<open>p/*\<close> it lists
  extends by at least one character, at any depth; never a short name.  A listed name is never
  read as a rule, and the rule \<open>refs/*\<close> admits every full ref name.\<close>

theorem ref_admission_exact:
  "(admits_ref b r \<longleftrightarrow> is_full_ref_name r \<and>
      (r |\<in>| bounds_refs b \<or> (\<exists>p t. p @ ''/*'' |\<in>| bounds_refs b \<and> r = p @ ''/'' @ t \<and> t \<noteq> []))) \<and>
   \<not> (is_full_ref_name e \<and> prefix_rule_admits e r) \<and>
   (is_full_ref_name r \<longleftrightarrow> admits_ref (b\<lparr>bounds_refs := {|''refs/*''|}\<rparr>) r)"
proof (intro conjI)
  show "admits_ref b r \<longleftrightarrow> is_full_ref_name r \<and>
      (r |\<in>| bounds_refs b \<or> (\<exists>p t. p @ ''/*'' |\<in>| bounds_refs b \<and> r = p @ ''/'' @ t \<and> t \<noteq> []))"
    unfolding admits_ref_def prefix_rule_iff by blast
  show "\<not> (is_full_ref_name e \<and> prefix_rule_admits e r)"
    by (auto simp: prefix_rule_iff dest: full_ref_no_star)
  have "is_full_ref_name r \<Longrightarrow> prefix_rule_admits ''refs/*'' r"
  proof -
    assume "is_full_ref_name r"
    then obtain t where t: "strip_front ''refs/'' r = Some t" "t \<noteq> []"
      by (auto simp: is_full_ref_name_def split: option.splits)
    have "''refs/*'' = ''refs'' @ ''/*''" "r = ''refs'' @ ''/'' @ t" using t(1) by (simp_all add: strip_front_Some)
    with t(2) show ?thesis unfolding prefix_rule_iff by metis
  qed
  then show "is_full_ref_name r \<longleftrightarrow> admits_ref (b\<lparr>bounds_refs := {|''refs/*''|}\<rparr>) r"
    by (auto simp: admits_ref_def)
qed

fun check_rank :: "repo_refusal \<Rightarrow> nat" where
  "check_rank NoMembership = 0"
| "check_rank MembershipHeld = 1"
| "check_rank WrongRepo = 2"
| "check_rank WrongRef = 3"
| "check_rank PathOutsideScope = 4"
| "check_rank StaleLease = 5"

lemma check_rank_inject: "check_rank a = check_rank b \<longleftrightarrow> a = b"
  by (cases a; cases b) simp_all

instantiation repo_refusal :: linorder
begin

definition less_eq_repo_refusal :: "repo_refusal \<Rightarrow> repo_refusal \<Rightarrow> bool" where
  "less_eq_repo_refusal a b \<longleftrightarrow> check_rank a \<le> check_rank b"

definition less_repo_refusal :: "repo_refusal \<Rightarrow> repo_refusal \<Rightarrow> bool" where
  "less_repo_refusal a b \<longleftrightarrow> check_rank a < check_rank b"

instance
  by standard (auto simp: less_eq_repo_refusal_def less_repo_refusal_def check_rank_inject)

end

definition bounds_narrow :: "repo_bounds \<Rightarrow> repo_bounds \<Rightarrow> bool" where
  "bounds_narrow b c \<longleftrightarrow> bounds_repo b = bounds_repo c \<and> bounds_project b = bounds_project c \<and>
     bounds_refs b |\<subseteq>| bounds_refs c \<and> readable b |\<subseteq>| readable c \<and> editable b |\<subseteq>| editable c"

lemma narrow_intent: "scope_narrows s t \<Longrightarrow> bounds_narrow b c \<Longrightarrow> admits_repo_intent s b i \<Longrightarrow> admits_repo_intent t c i"
  unfolding admits_repo_intent_def scope_narrows_def bounds_narrow_def by (metis plain.contains_narrows)

lemma narrow_ref: "bounds_narrow b c \<Longrightarrow> admits_ref b r \<Longrightarrow> admits_ref c r"
  by (auto simp: admits_ref_def bounds_narrow_def)

lemma narrow_globs: "bounds_narrow b c \<Longrightarrow> globs b i |\<subseteq>| globs c i"
  by (cases i) (simp_all add: bounds_narrow_def)

lemma narrow_path: "bounds_narrow b c \<Longrightarrow> admits_path b i p \<Longrightarrow> admits_path c i p"
  using narrow_globs [of b c i] by (auto simp: admits_path_def)

text \<open>C11: a narrower Grant never gets further.  When a Grant's scope and bounds narrow another's, whatever it
  admits the other admits, and where both refuse the narrower one fails the same check or an
  earlier one.\<close>

theorem repo_access_attenuates:
  assumes "scope_narrows s t" "bounds_narrow b c"
  shows "case (admit_repo_target s b tg i, admit_repo_target t c tg i) of
      (Inr _, r) \<Rightarrow> r = Ok ()
    | (Inl e, Inr _) \<Rightarrow> True
    | (Inl e, Inl f) \<Rightarrow> e \<le> f"
proof -
  note same = assms(2) [unfolded bounds_narrow_def, THEN conjunct1]
  have g: "globs c i = {||} \<Longrightarrow> globs b i = {||}" using narrow_globs [OF assms(2), of i] by auto
  have p: "fBall ps (admits_path b i) \<Longrightarrow> fBall ps (admits_path c i)" for ps
    using narrow_path [OF assms(2)] by blast
  have checks: "admits_repo_intent s b i \<longrightarrow> admits_repo_intent t c i"
    "admits_ref b (target_ref tg) \<longrightarrow> admits_ref c (target_ref tg)"
    "fBall (target_paths tg) (admits_path b i) \<longrightarrow> fBall (target_paths tg) (admits_path c i)"
    using narrow_intent [OF assms] narrow_ref [OF assms(2)] p by blast+
  show ?thesis
    by (cases "admits_repo_intent s b i"; cases "admits_repo_intent t c i"; cases "admits_ref b (target_ref tg)";
        cases "admits_ref c (target_ref tg)")
      (use checks same g in \<open>auto simp: admit_repo_target_def less_eq_repo_refusal_def\<close>)
qed

definition sample_bounds :: repo_bounds where
  "sample_bounds = \<lparr>bounds_repo = replicate 16 1, bounds_project = replicate 16 2, bounds_refs = {|''refs/heads/run/*''|},
     readable = {|''**''|}, editable = {|''src/*.rs''|}\<rparr>"

definition sample_target :: repo_target where
  "sample_target = \<lparr>target_repo = replicate 16 1, target_ref = ''refs/heads/run/a'', target_paths = {|''src/a.rs''|}\<rparr>"

lemma sample_admitted: "admit_repo_target top_scope sample_bounds sample_target EditIntent = Ok ()"
proof -
  have "is_full_ref_name ''refs/heads/run/a''" "prefix_rule_admits ''refs/heads/run/*'' ''refs/heads/run/a''"
    "is_normal_path ''src/a.rs''" "glob_matches ''src/*.rs'' ''src/a.rs''" by code_simp+
  then show ?thesis
    by (simp add: admit_repo_target_def admits_repo_intent_def top_scope_def axis_contains_def admits_ref_def
        admits_path_def sample_bounds_def sample_target_def)
qed

lemma repo_access_attenuates_witness:
  "admit_repo_target top_scope sample_bounds sample_target EditIntent = Ok () \<and>
   admit_repo_target top_scope (sample_bounds\<lparr>editable := {|''src/*.rs'', ''doc/*''|}\<rparr>) sample_target EditIntent = Ok ()"
proof
  show a: "admit_repo_target top_scope sample_bounds sample_target EditIntent = Ok ()" by (rule sample_admitted)
  have "scope_narrows top_scope top_scope" by (simp add: scope_narrows_def plain.narrows_refl ceiling_narrows_refl)
  moreover have "bounds_narrow sample_bounds (sample_bounds\<lparr>editable := {|''src/*.rs'', ''doc/*''|}\<rparr>)"
    by (simp add: bounds_narrow_def sample_bounds_def)
  ultimately have "case (admit_repo_target top_scope sample_bounds sample_target EditIntent,
      admit_repo_target top_scope (sample_bounds\<lparr>editable := {|''src/*.rs'', ''doc/*''|}\<rparr>) sample_target EditIntent) of
      (Inr _, r) \<Rightarrow> r = Ok () | (Inl e, Inr _) \<Rightarrow> True | (Inl e, Inl f) \<Rightarrow> e \<le> f"
    by (rule repo_access_attenuates)
  then show "admit_repo_target top_scope (sample_bounds\<lparr>editable := {|''src/*.rs'', ''doc/*''|}\<rparr>) sample_target EditIntent = Ok ()"
    unfolding a prod.case sum.case .
qed




section \<open>The value form of the bounds\<close>

definition repo_bounds_keys :: "string list" where
  "repo_bounds_keys = [''repo'', ''project'', ''refs'', ''readable'', ''editable'']"

definition strings_value :: "string fset \<Rightarrow> msg" where
  "strings_value items = VArray (map VStr (sorted_list_of_fset items))"

definition repo_bounds_value :: "repo_bounds \<Rightarrow> msg" where
  "repo_bounds_value b =
     VMap [(VStr (repo_bounds_keys ! 0), VStr (to_hex (bounds_repo b))),
           (VStr (repo_bounds_keys ! 1), VStr (to_hex (bounds_project b))),
           (VStr (repo_bounds_keys ! 2), strings_value (bounds_refs b)),
           (VStr (repo_bounds_keys ! 3), strings_value (readable b)),
           (VStr (repo_bounds_keys ! 4), strings_value (editable b))]"

text \<open>The key check both decoders make.\<close>

definition keys_in_order :: "(msg \<times> msg) list \<Rightarrow> string list \<Rightarrow> bool" where
  "keys_in_order entries keys \<longleftrightarrow>
     \<not> (length entries \<noteq> length keys \<or>
        list_ex (\<lambda>((key, _), expected). as_str key \<noteq> Some expected) (zip entries keys))"

text \<open>The loop both decoders make over an array: each item decoded, each greater than the last.\<close>

fun take_ascending :: "(msg \<Rightarrow> ('a :: linorder) option) \<Rightarrow> msg list \<Rightarrow> 'a option \<Rightarrow> 'a fset \<Rightarrow> 'a fset option" where
  "take_ascending f [] prior taken = Some taken"
| "take_ascending f (v # vs) prior taken =
     (case f v of
        None \<Rightarrow> None
      | Some item \<Rightarrow>
          (if (case prior of None \<Rightarrow> False | Some p \<Rightarrow> p \<ge> item) then None
           else take_ascending f vs (Some item) (finsert item taken)))"

definition decode_strings :: "msg \<Rightarrow> string fset option" where
  "decode_strings v = (case v of VArray items \<Rightarrow> take_ascending as_str items None {||} | _ \<Rightarrow> None)"

definition decode_repo_bounds_value :: "msg \<Rightarrow> repo_bounds option" where
  "decode_repo_bounds_value v =
     (case v of
        VMap entries \<Rightarrow>
          (if \<not> keys_in_order entries repo_bounds_keys then None
           else Option.bind (id_from_value (snd (entries ! 0))) (\<lambda>repo.
                Option.bind (id_from_value (snd (entries ! 1))) (\<lambda>project.
                Option.bind (decode_strings (snd (entries ! 2))) (\<lambda>refs.
                Option.bind (decode_strings (snd (entries ! 3))) (\<lambda>read.
                Option.bind (decode_strings (snd (entries ! 4))) (\<lambda>edit.
                  let b = \<lparr>bounds_repo = repo, bounds_project = project, bounds_refs = refs,
                           readable = read, editable = edit\<rparr>
                  in if validate_bounds b = Ok () then Some b else None))))))
      | _ \<Rightarrow> None)"

section \<open>Push grants\<close>

datatype grant_kind = AccessKind | GitPushKind

definition parse_grant_kind :: "string option \<Rightarrow> grant_kind option" where
  "parse_grant_kind v =
     (case v of None \<Rightarrow> Some AccessKind
      | Some s \<Rightarrow> (if s = ''git_push'' then Some GitPushKind else None))"

datatype push_repo = PushRepo (push_anchor: entity_id) (push_project: entity_id)

text \<open>The derived order: the anchor, then the project.\<close>

instantiation push_repo :: linorder
begin

definition less_eq_push_repo :: "push_repo \<Rightarrow> push_repo \<Rightarrow> bool" where
  "less_eq_push_repo a b \<longleftrightarrow>
     push_anchor a < push_anchor b \<or> push_anchor a = push_anchor b \<and> push_project a \<le> push_project b"

definition less_push_repo :: "push_repo \<Rightarrow> push_repo \<Rightarrow> bool" where
  "less_push_repo a b \<longleftrightarrow>
     push_anchor a < push_anchor b \<or> push_anchor a = push_anchor b \<and> push_project a < push_project b"

instance
  by standard (auto simp: less_eq_push_repo_def less_push_repo_def push_repo.expand)

end

definition validate_push :: "push_repo fset \<Rightarrow> bool" where
  "validate_push repos \<longleftrightarrow> repos \<noteq> {||}"

definition push_projects :: "push_repo fset \<Rightarrow> entity_id fset" where
  "push_projects repos = push_project |`| repos"

definition push_keys :: "string list" where
  "push_keys = [''repo'', ''project'']"

definition push_repo_value :: "push_repo \<Rightarrow> msg" where
  "push_repo_value r =
     VMap [(VStr (push_keys ! 0), VStr (to_hex (push_anchor r))),
           (VStr (push_keys ! 1), VStr (to_hex (push_project r)))]"

definition push_bounds_value :: "push_repo fset \<Rightarrow> msg" where
  "push_bounds_value repos = VArray (map push_repo_value (sorted_list_of_fset repos))"

definition decode_push_repo :: "msg \<Rightarrow> push_repo option" where
  "decode_push_repo item =
     (case item of
        VMap entries \<Rightarrow>
          (if \<not> keys_in_order entries push_keys then None
           else Option.bind (id_from_value (snd (entries ! 0))) (\<lambda>repo.
                Option.bind (id_from_value (snd (entries ! 1))) (\<lambda>project. Some (PushRepo repo project))))
      | _ \<Rightarrow> None)"

definition decode_push_bounds_value :: "msg \<Rightarrow> push_repo fset option" where
  "decode_push_bounds_value v =
     (case v of
        VArray items \<Rightarrow>
          Option.bind (take_ascending decode_push_repo items None {||})
            (\<lambda>repos. if validate_push repos then Some repos else None)
      | _ \<Rightarrow> None)"

section \<open>One value for each bounds\<close>

lemma take_ascending_iff:
  "take_ascending f vs prior taken = Some s \<longleftrightarrow>
   (\<exists>xs. map f vs = map Some xs \<and> s = taken |\<union>| fset_of_list xs \<and>
      successively (<) (case prior of None \<Rightarrow> xs | Some p \<Rightarrow> p # xs))"
proof (induction vs arbitrary: prior taken)
  case (Cons v vs)
  show ?case
  proof (cases "f v")
    case (Some x)
    let ?below = "case prior of None \<Rightarrow> True | Some p \<Rightarrow> p < x"
    have "take_ascending f (v # vs) prior taken = Some s \<longleftrightarrow> ?below \<and> take_ascending f vs (Some x) (finsert x taken) = Some s"
      using Some by (auto split: option.splits)
    also have "\<dots> \<longleftrightarrow> ?below \<and> (\<exists>xs. map f vs = map Some xs \<and> s = finsert x taken |\<union>| fset_of_list xs \<and> successively (<) (x # xs))"
      by (simp add: Cons.IH)
    also have "\<dots> \<longleftrightarrow> (\<exists>xs. map f (v # vs) = map Some xs \<and> s = taken |\<union>| fset_of_list xs \<and>
        successively (<) (case prior of None \<Rightarrow> xs | Some p \<Rightarrow> p # xs))"
      using Some by (cases prior) (auto simp: Cons_eq_map_conv)
    finally show ?thesis .
  qed (auto simp: Cons_eq_map_conv)
qed (auto simp: successively.simps split: option.splits)

lemma ascending_unique: "successively (<) xs \<Longrightarrow> sorted_list_of_fset (fset_of_list xs) = (xs :: 'a :: linorder list)"
proof -
  assume "successively (<) xs"
  then have "sorted_wrt (<) xs" by (simp add: successively_conv_sorted_wrt transp_def)
  then show ?thesis
    by (simp add: sorted_list_of_fset.rep_eq fset_of_list.rep_eq strict_sorted_iff sorted_list_of_set.idem_if_sorted_distinct)
qed

text \<open>What the loop accepts, for a decoder with one spelling of each item, is the ascending array.\<close>

lemma take_all_iff:
  assumes "\<And>v x. f v = Some x \<longleftrightarrow> ok x \<and> v = spell x"
  shows "take_ascending f vs None {||} = Some s \<longleftrightarrow> fBall s ok \<and> vs = map spell (sorted_list_of_fset s)"
proof -
  have m: "map f vs = map Some xs \<longleftrightarrow> list_all ok xs \<and> vs = map spell xs" for xs
    by (induction xs arbitrary: vs) (auto simp: Cons_eq_map_conv assms map_eq_Cons_conv)
  have "take_ascending f vs None {||} = Some s \<longleftrightarrow>
      (\<exists>xs. list_all ok xs \<and> vs = map spell xs \<and> s = fset_of_list xs \<and> successively (<) xs)"
    by (auto simp: take_ascending_iff m)
  also have "\<dots> \<longleftrightarrow> fBall s ok \<and> vs = map spell (sorted_list_of_fset s)"
  proof
    assume "\<exists>xs. list_all ok xs \<and> vs = map spell xs \<and> s = fset_of_list xs \<and> successively (<) xs"
    then show "fBall s ok \<and> vs = map spell (sorted_list_of_fset s)"
      by (auto simp: ascending_unique list_all_iff fset_of_list.rep_eq)
  next
    assume a: "fBall s ok \<and> vs = map spell (sorted_list_of_fset s)"
    then have "list_all ok (sorted_list_of_fset s)" by (simp add: list_all_iff)
    with a show "\<exists>xs. list_all ok xs \<and> vs = map spell xs \<and> s = fset_of_list xs \<and> successively (<) xs"
      by (intro exI [of _ "sorted_list_of_fset s"]) (simp add: sorted_fset_ascending sorted_list_of_fset_simps)
  qed
  finally show ?thesis .
qed

lemma id_from_value_iff: "id_from_value v = Some i \<longleftrightarrow> id_ok i \<and> v = VStr (to_hex i)"
  using id_value_roundtrip id_from_value_ok by (auto simp: id_value_def)

lemma as_str_iff: "as_str v = Some s \<longleftrightarrow> True \<and> v = VStr s"
  by (auto simp: as_str_def split: msg.splits)

lemma decode_strings_iff: "decode_strings v = Some s \<longleftrightarrow> v = strings_value s"
  using take_all_iff [of as_str "\<lambda>_. True" VStr, OF as_str_iff]
  by (auto simp: decode_strings_def strings_value_def split: msg.splits)

lemma keys_in_order_iff: "keys_in_order entries keys \<longleftrightarrow> map fst entries = map VStr keys"
proof (induction keys arbitrary: entries)
  case (Cons k keys)
  show ?case
  proof (cases entries)
    case (Cons e es)
    then show ?thesis using Cons.IH [of es] as_str_iff
      by (cases e) (auto simp: keys_in_order_def)
  qed (simp add: keys_in_order_def)
qed (simp add: keys_in_order_def)

lemma keyed_pair: "map fst es = [a, b] \<longleftrightarrow> (\<exists>x y. es = [(a, x), (b, y)])"
  by (auto simp: map_eq_Cons_conv)

lemma decode_push_repo_iff:
  "decode_push_repo v = Some r \<longleftrightarrow> (id_ok (push_anchor r) \<and> id_ok (push_project r)) \<and> v = push_repo_value r"
  by (cases r; cases v)
    (auto simp: decode_push_repo_def push_repo_value_def keys_in_order_iff push_keys_def keyed_pair
      bind_eq_Some_conv id_from_value_iff split: if_splits)

definition real_repos :: "push_repo fset \<Rightarrow> bool" where
  "real_repos repos \<longleftrightarrow> fBall repos (\<lambda>r. id_ok (push_anchor r) \<and> id_ok (push_project r))"

text \<open>C13: a Grant's repository bounds and the repositories of a push Grant each have exactly one value:
  a value decodes to the bounds precisely when the bounds pass their checks, name real ids, and
  the value is the one they encode to.  So unsorted sets, repeated members, other keys or key
  orders, upper-case ids and bounds that fail validation all decode to nothing.\<close>

theorem bounds_have_one_value:
  "(decode_repo_bounds_value v = Some b \<longleftrightarrow>
      id_ok (bounds_repo b) \<and> id_ok (bounds_project b) \<and> validate_bounds b = Ok () \<and> v = repo_bounds_value b) \<and>
   (decode_push_bounds_value v = Some repos \<longleftrightarrow>
      real_repos repos \<and> validate_push repos \<and>
      v = push_bounds_value repos)"
proof
  have five: "map fst es = [a, c, d, e, f] \<longleftrightarrow> (\<exists>t x y z w. es = [(a, t), (c, x), (d, y), (e, z), (f, w)])" for es and a c d e f :: msg
    by (auto simp: map_eq_Cons_conv)
  show "decode_repo_bounds_value v = Some b \<longleftrightarrow>
      id_ok (bounds_repo b) \<and> id_ok (bounds_project b) \<and> validate_bounds b = Ok () \<and> v = repo_bounds_value b"
  proof
    assume "decode_repo_bounds_value v = Some b"
    then show "id_ok (bounds_repo b) \<and> id_ok (bounds_project b) \<and> validate_bounds b = Ok () \<and> v = repo_bounds_value b"
      by (cases v)
        (auto simp: decode_repo_bounds_value_def repo_bounds_value_def keys_in_order_iff repo_bounds_keys_def five
          bind_eq_Some_conv id_from_value_iff decode_strings_iff Let_def split: if_splits)
  next
    assume ok: "id_ok (bounds_repo b) \<and> id_ok (bounds_project b) \<and> validate_bounds b = Ok () \<and> v = repo_bounds_value b"
    have "decode_strings (strings_value s) = Some s" for s by (simp add: decode_strings_iff)
    moreover have "id_ok i \<Longrightarrow> id_from_value (VStr (to_hex i)) = Some i" for i by (simp add: id_from_value_iff)
    ultimately show "decode_repo_bounds_value v = Some b" using ok
      by (cases b) (simp add: decode_repo_bounds_value_def repo_bounds_value_def keys_in_order_iff repo_bounds_keys_def Let_def)
  qed
  have "decode_push_bounds_value v = Some repos \<longleftrightarrow>
      (\<exists>items. v = VArray items \<and> take_ascending decode_push_repo items None {||} = Some repos \<and> validate_push repos)"
    by (cases v) (auto simp: decode_push_bounds_value_def bind_eq_Some_conv split: if_splits)
  then show "decode_push_bounds_value v = Some repos \<longleftrightarrow>
      real_repos repos \<and> validate_push repos \<and>
      v = push_bounds_value repos"
    unfolding push_bounds_value_def real_repos_def take_all_iff [of decode_push_repo, OF decode_push_repo_iff] by blast
qed

end
