(* ===== verification/ConsultLadder.thy ===== *)
theory ConsultLadder
  imports EntityIds "HOL-Library.Product_Lexorder"
begin

text \<open>
  The consult ladder: the state machine of one consult task
  (\<open>crates/oneiron/src/consult_ladder/ladder_state.rs\<close>) and the routing, novelty guard and
  magistrate decision (\<open>consult_ladder/magistrate_decision.rs\<close>).

  Entity references are entity ids, times and counters naturals, a \<open>&str\<close> the list of its bytes as
  characters.  The graduation lookup and the hash are parameters.  A refused transition returns
  an error and no state, as in the code.
\<close>

section \<open>The ladder's vocabulary\<close>

datatype consult_purpose = Question | EntityDelta

fun purpose_str :: "consult_purpose \<Rightarrow> string" where
  "purpose_str Question = ''question''"
| "purpose_str EntityDelta = ''entity_delta''"

definition purpose_from_token :: "string \<Rightarrow> consult_purpose option" where
  "purpose_from_token s =
     (if s = ''question'' then Some Question else if s = ''entity_delta'' then Some EntityDelta else None)"

record delta_shape =
  operation_kind :: string
  target_entity_type :: byte
  normalized_paths :: "string list"

text \<open>
  \<open>str::trim\<close> and \<open>char::is_control\<close> over UTF-8 bytes: the encodings of the white-space
  characters, and of the control characters (the C0 set, DEL and the C1 set).
\<close>

definition white_space :: "string list" where
  "white_space =
     [[CHR 0x09], [CHR 0x0A], [CHR 0x0B], [CHR 0x0C], [CHR 0x0D], [CHR 0x20],
      [CHR 0xC2, CHR 0x85], [CHR 0xC2, CHR 0xA0], [CHR 0xE1, CHR 0x9A, CHR 0x80],
      [CHR 0xE2, CHR 0x80, CHR 0x80], [CHR 0xE2, CHR 0x80, CHR 0x81],
      [CHR 0xE2, CHR 0x80, CHR 0x82], [CHR 0xE2, CHR 0x80, CHR 0x83],
      [CHR 0xE2, CHR 0x80, CHR 0x84], [CHR 0xE2, CHR 0x80, CHR 0x85],
      [CHR 0xE2, CHR 0x80, CHR 0x86], [CHR 0xE2, CHR 0x80, CHR 0x87],
      [CHR 0xE2, CHR 0x80, CHR 0x88], [CHR 0xE2, CHR 0x80, CHR 0x89],
      [CHR 0xE2, CHR 0x80, CHR 0x8A], [CHR 0xE2, CHR 0x80, CHR 0xA8],
      [CHR 0xE2, CHR 0x80, CHR 0xA9], [CHR 0xE2, CHR 0x80, CHR 0xAF],
      [CHR 0xE2, CHR 0x81, CHR 0x9F], [CHR 0xE3, CHR 0x80, CHR 0x80]]"

definition is_trimmed :: "string \<Rightarrow> bool" where
  "is_trimmed s \<longleftrightarrow>
     \<not> list_ex (\<lambda>w. take (length w) s = w \<or> take (length w) (rev s) = rev w) white_space"

definition is_normalized_token :: "string \<Rightarrow> bool" where
  "is_normalized_token s \<longleftrightarrow> s \<noteq> [] \<and> is_trimmed s \<and> \<not> has_control s \<and> CHR 0x00 \<notin> set s"

fun paths_decodable :: "string list \<Rightarrow> string list \<Rightarrow> bool" where
  "paths_decodable seen [] = True"
| "paths_decodable seen (p # ps) =
     (if \<not> is_normalized_token p \<or> p \<in> set seen then False else paths_decodable (seen @ [p]) ps)"

definition is_decodable :: "delta_shape \<Rightarrow> bool" where
  "is_decodable sh \<longleftrightarrow>
     (if \<not> is_normalized_token (operation_kind sh) \<or> normalized_paths sh = [] then False
      else paths_decodable [] (normalized_paths sh))"

datatype lineage_relation = Counter | Appeal | Escalation

fun relation_str :: "lineage_relation \<Rightarrow> string" where
  "relation_str Counter = ''counter''"
| "relation_str Appeal = ''appeal''"
| "relation_str Escalation = ''escalation''"

definition relation_from_token :: "string \<Rightarrow> lineage_relation option" where
  "relation_from_token s =
     (if s = ''counter'' then Some Counter else if s = ''appeal'' then Some Appeal
      else if s = ''escalation'' then Some Escalation else None)"

record working_state =
  started_at :: nat
  decision_round :: nat

datatype interruption_kind = Contested | Critical | Pathology

record interrupted_state =
  int_kind :: interruption_kind
  consent_required :: bool
  case_ref :: entity_id
  interrupted_at :: nat

datatype disposition = Approved | Overridden | Rejected | Failed | Escalated | Countered | Abandoned

fun disposition_str :: "disposition \<Rightarrow> string" where
  "disposition_str Approved = ''approved''"
| "disposition_str Overridden = ''overridden''"
| "disposition_str Rejected = ''rejected''"
| "disposition_str Failed = ''failed''"
| "disposition_str Escalated = ''escalated''"
| "disposition_str Countered = ''countered''"
| "disposition_str Abandoned = ''abandoned''"

definition disposition_from_token :: "string \<Rightarrow> disposition option" where
  "disposition_from_token s =
     (if s = ''approved'' then Some Approved else if s = ''overridden'' then Some Overridden
      else if s = ''rejected'' then Some Rejected else if s = ''failed'' then Some Failed
      else if s = ''escalated'' then Some Escalated else if s = ''countered'' then Some Countered
      else if s = ''abandoned'' then Some Abandoned else None)"

definition defers_to_follow_on :: "disposition \<Rightarrow> bool" where
  "defers_to_follow_on d \<longleftrightarrow> d = Escalated"

record terminal_state =
  term_disposition :: disposition
  result_ref :: entity_id
  counter_task_ref :: "entity_id option"
  finished_at :: nat

definition is_well_formed :: "terminal_state \<Rightarrow> bool" where
  "is_well_formed t \<longleftrightarrow> (term_disposition t = Countered) = (counter_task_ref t \<noteq> None)"

datatype ladder = Working working_state | Interrupted interrupted_state | Terminal terminal_state

definition ladder_terminal :: "ladder \<Rightarrow> terminal_state option" where
  "ladder_terminal s = (case s of Terminal t \<Rightarrow> Some t | _ \<Rightarrow> None)"

datatype ladder_move = Interrupt interrupted_state | Resume working_state | Finish terminal_state

datatype ladder_error = TerminalImmutable | ConsentRequired | InvalidTransition | MissingResultRef

section \<open>The machine\<close>

definition transition_ladder :: "ladder \<Rightarrow> ladder_move \<Rightarrow> (ladder_error, ladder) result" where
  "transition_ladder s m =
     (if ladder_terminal s \<noteq> None then Err TerminalImmutable
      else case (s, m) of
             (Working _, Interrupt next) \<Rightarrow> Ok (Interrupted next)
           | (Interrupted cur, Interrupt next) \<Rightarrow>
               (if cur = next then Err InvalidTransition
                else if consent_required cur \<and> \<not> consent_required next then Err ConsentRequired
                else Ok (Interrupted next))
           | (Interrupted cur, Resume next) \<Rightarrow>
               (if consent_required cur then Err ConsentRequired else Ok (Working next))
           | (Terminal _, _) \<Rightarrow> Err InvalidTransition
           | (_, Finish t) \<Rightarrow> (if is_well_formed t then Ok (Terminal t) else Err InvalidTransition)
           | (Working _, Resume _) \<Rightarrow> Err InvalidTransition)"

datatype 'a human_verdict = Approve "entity_id option" | Reject "entity_id option"
  | OverrideWithDiff entity_id entity_id | Escalate 'a entity_id

fun verdict_str :: "'a human_verdict \<Rightarrow> string" where
  "verdict_str (Approve _) = ''approve''"
| "verdict_str (Reject _) = ''reject''"
| "verdict_str (OverrideWithDiff _ _) = ''override_with_diff''"
| "verdict_str (Escalate _ _) = ''escalate''"

fun terminal_for_human_verdict :: "'a human_verdict \<Rightarrow> disposition" where
  "terminal_for_human_verdict (Approve _) = Approved"
| "terminal_for_human_verdict (Reject _) = Rejected"
| "terminal_for_human_verdict (OverrideWithDiff _ _) = Overridden"
| "terminal_for_human_verdict (Escalate _ _) = Escalated"

section \<open>The novelty guard\<close>

definition fingerprint_input :: "delta_shape \<Rightarrow> string" where
  "fingerprint_input sh =
     ''oneiron.consult_ladder.delta_shape.v1'' @ [char_of (unat (target_entity_type sh))] @
     operation_kind sh @ [CHR 0x00] @
     concat (map (\<lambda>p. p @ [CHR 0x00]) (sort (normalized_paths sh)))"

definition fingerprint :: "(string \<Rightarrow> 'h) \<Rightarrow> delta_shape \<Rightarrow> 'h" where
  "fingerprint blake3 sh = blake3 (fingerprint_input sh)"

record graduation_scope =
  proposer_actor_ref :: entity_id
  owning_actor_ref :: entity_id
  scope_operation_kind :: string
  scope_target_type :: byte
  skill_or_agent_ref :: "entity_id option"
  standing_grant_ref :: entity_id

definition scope_covers :: "graduation_scope \<Rightarrow> delta_shape \<Rightarrow> bool" where
  "scope_covers g sh \<longleftrightarrow>
     scope_operation_kind g = operation_kind sh \<and> scope_target_type g = target_entity_type sh"

datatype 'h novelty_decision = AutoKnownShape entity_id | ConsultNoGrant
  | ConsultNovelShape 'h | ConsultUncertainShape

definition novelty_guard ::
    "(string \<Rightarrow> 'h) \<Rightarrow> (graduation_scope \<Rightarrow> (string, bool) result) \<Rightarrow>
     (graduation_scope \<Rightarrow> 'h \<Rightarrow> (string, bool) result) \<Rightarrow>
     graduation_scope \<Rightarrow> delta_shape \<Rightarrow> 'h novelty_decision" where
  "novelty_guard blake3 graduated approved g sh =
     (if \<not> is_decodable sh \<or> \<not> scope_covers g sh then ConsultUncertainShape
      else case graduated g of
             Inl _ \<Rightarrow> ConsultUncertainShape
           | Inr False \<Rightarrow> ConsultNoGrant
           | Inr True \<Rightarrow>
               (let f = fingerprint blake3 sh
                in case approved g f of
                     Inl _ \<Rightarrow> ConsultUncertainShape
                   | Inr True \<Rightarrow> AutoKnownShape (standing_grant_ref g)
                   | Inr False \<Rightarrow> ConsultNovelShape f))"

section \<open>Routing\<close>

datatype criticality = NormalCase | CriticalCase

datatype owner_outcome = OwnerApproved | OwnerRejected | OwnerOverridden | OwnerContested | OwnerPathological

datatype ladder_route = RouteTerminal disposition | DreamerMagistrate | HumanConsent interruption_kind

fun route_owner_agent_outcome :: "owner_outcome \<Rightarrow> criticality \<Rightarrow> ladder_route" where
  "route_owner_agent_outcome OwnerApproved c = RouteTerminal Approved"
| "route_owner_agent_outcome OwnerRejected c = RouteTerminal Rejected"
| "route_owner_agent_outcome OwnerOverridden c = RouteTerminal Overridden"
| "route_owner_agent_outcome OwnerPathological c = HumanConsent Pathology"
| "route_owner_agent_outcome OwnerContested NormalCase = DreamerMagistrate"
| "route_owner_agent_outcome OwnerContested CriticalCase = HumanConsent Critical"

section \<open>The magistrate\<close>

datatype authorship = Dreamer | OtherAgent | HumanAuthor | SystemAuthor

record policy_evidence =
  policy_ref :: entity_id
  policy_selects :: "entity_id option"

record authority_evidence =
  authoritative_actor_ref :: entity_id
  authority_state_ref :: entity_id
  authority_selects :: "entity_id option"

record temporal_evidence =
  occurred_at :: nat
  learned_at :: nat
  supersedes_ref :: "entity_id option"
  temporal_selects :: "entity_id option"

record magistrate_case =
  task_ref :: entity_id
  contested_state_ref :: entity_id
  contested_delta_ref :: entity_id
  case_severity :: criticality
  case_policy :: "policy_evidence list"
  case_authority :: "authority_evidence list"
  case_temporal :: "temporal_evidence list"
  candidate_delta_refs :: "entity_id list"
  dreamer_attempt_ref :: "entity_id option"
  case_now :: nat

datatype recusal = DreamerAuthoredState

datatype magistrate_verdict = Rule entity_id entity_id | RejectRuling entity_id
  | AdviceOnly "entity_id option" entity_id | Recused recusal | EscalatePathology entity_id

fun terminal_for_magistrate_verdict :: "magistrate_verdict \<Rightarrow> disposition option" where
  "terminal_for_magistrate_verdict (Rule _ _) = Some Approved"
| "terminal_for_magistrate_verdict (RejectRuling _) = Some Rejected"
| "terminal_for_magistrate_verdict _ = None"

datatype decision_layer = CompiledPolicyLayer | AuthorityLayer | TemporalLayer | AdviceLayer
  | RecusedLayer | PathologyLayer

record layer_ruling =
  layer :: decision_layer
  selected :: "entity_id option"
  rationale :: entity_id

definition case_pathology :: "magistrate_case \<Rightarrow> magistrate_verdict option" where
  "case_pathology c =
     (if candidate_delta_refs c = [] \<or> contested_delta_ref c \<notin> set (candidate_delta_refs c)
      then Some (EscalatePathology (contested_state_ref c))
      else if list_ex (\<lambda>s. case s of Some d \<Rightarrow> d \<notin> set (candidate_delta_refs c) | None \<Rightarrow> False)
                (map policy_selects (case_policy c) @ map authority_selects (case_authority c) @
                 map temporal_selects (case_temporal c))
           then Some (EscalatePathology (contested_state_ref c))
           else None)"

definition policy_ruling :: "magistrate_case \<Rightarrow> layer_ruling option" where
  "policy_ruling c =
     (case case_policy c of
        [] \<Rightarrow> None
      | f # fs \<Rightarrow>
          (if list_ex (\<lambda>e. policy_selects e \<noteq> policy_selects f) (f # fs) then None
           else Some \<lparr>layer = CompiledPolicyLayer, selected = policy_selects f, rationale = policy_ref f\<rparr>))"

definition authority_ruling :: "magistrate_case \<Rightarrow> layer_ruling option" where
  "authority_ruling c =
     (case case_authority c of
        [] \<Rightarrow> None
      | f # fs \<Rightarrow>
          (if list_ex (\<lambda>e. authority_selects e \<noteq> authority_selects f) (f # fs) then None
           else Some \<lparr>layer = AuthorityLayer, selected = authority_selects f,
                      rationale = authority_state_ref f\<rparr>))"

definition live_evidence :: "magistrate_case \<Rightarrow> temporal_evidence list" where
  "live_evidence c =
     (let superseded = List.map_filter supersedes_ref (case_temporal c)
      in filter (\<lambda>e. case temporal_selects e of None \<Rightarrow> True | Some d \<Rightarrow> d \<notin> set superseded)
           (case_temporal c))"

definition temporal_ruling :: "magistrate_case \<Rightarrow> layer_ruling option" where
  "temporal_ruling c =
     (let live = live_evidence c; times = map (\<lambda>e. (occurred_at e, learned_at e)) live
      in if times = [] then None
         else (case filter (\<lambda>e. (occurred_at e, learned_at e) = Max (set times)) live of
                 [] \<Rightarrow> None
               | winner # tied \<Rightarrow>
                   (if list_ex (\<lambda>e. temporal_selects e \<noteq> temporal_selects winner) tied then None
                    else Some \<lparr>layer = TemporalLayer, selected = temporal_selects winner,
                           rationale = (case supersedes_ref winner of Some r \<Rightarrow> r
                                        | None \<Rightarrow> contested_state_ref c)\<rparr>)))"

definition case_ruling :: "magistrate_case \<Rightarrow> layer_ruling option" where
  "case_ruling c =
     (case policy_ruling c of Some r \<Rightarrow> Some r
      | None \<Rightarrow> (case authority_ruling c of Some r \<Rightarrow> Some r | None \<Rightarrow> temporal_ruling c))"

definition decide_magistrate :: "magistrate_case \<Rightarrow> authorship \<Rightarrow> magistrate_verdict" where
  "decide_magistrate c a =
     (if a = Dreamer then Recused DreamerAuthoredState
      else case case_pathology c of
             Some v \<Rightarrow> v
           | None \<Rightarrow>
               (case case_ruling c of
                  None \<Rightarrow> EscalatePathology (contested_state_ref c)
                | Some r \<Rightarrow>
                    (if case_severity c = CriticalCase then AdviceOnly (selected r) (rationale r)
                     else case selected r of
                            Some d \<Rightarrow> Rule d (rationale r)
                          | None \<Rightarrow> RejectRuling (rationale r))))"

definition magistrate_decision_layer :: "magistrate_case \<Rightarrow> magistrate_verdict \<Rightarrow> decision_layer" where
  "magistrate_decision_layer c v =
     (case v of
        Recused _ \<Rightarrow> RecusedLayer
      | AdviceOnly _ _ \<Rightarrow> AdviceLayer
      | EscalatePathology _ \<Rightarrow> PathologyLayer
      | _ \<Rightarrow> (case case_ruling c of None \<Rightarrow> PathologyLayer | Some r \<Rightarrow> layer r))"


section \<open>Runs of the ladder\<close>

inductive ladder_step :: "ladder \<Rightarrow> ladder_move \<Rightarrow> ladder \<Rightarrow> bool" where
  moves: "transition_ladder s m = Ok s' \<Longrightarrow> ladder_step s m s'"

inductive ladder_run :: "ladder \<Rightarrow> ladder_move list \<Rightarrow> ladder \<Rightarrow> bool" where
  stays: "ladder_run s [] s"
| goes: "ladder_step s m s1 \<Longrightarrow> ladder_run s1 ms s2 \<Longrightarrow> ladder_run s (m # ms) s2"

inductive_simps ladder_step_iff: "ladder_step s m s'"
inductive_cases ladder_run_nil: "ladder_run s [] s'"
inductive_cases ladder_run_cons: "ladder_run s (m # ms) s'"

lemma terminal_stuck: "\<not> ladder_step (Terminal t) m s'"
  by (simp add: ladder_step_iff transition_ladder_def ladder_terminal_def)

text \<open>A settled ladder is well formed, and one that asked for a human stays asking until settled.\<close>

definition ladder_wf :: "ladder \<Rightarrow> bool" where
  "ladder_wf s \<longleftrightarrow> (case s of Terminal t \<Rightarrow> is_well_formed t | _ \<Rightarrow> True)"

definition asks_consent :: "ladder \<Rightarrow> bool" where
  "asks_consent s \<longleftrightarrow> (case s of Interrupted i \<Rightarrow> consent_required i | Terminal _ \<Rightarrow> True | _ \<Rightarrow> False)"

lemma ladder_step_wf: "ladder_step s m s' \<Longrightarrow> ladder_wf s'"
  by (cases s; cases m)
    (auto simp: ladder_step_iff transition_ladder_def ladder_terminal_def ladder_wf_def split: if_splits)

lemma ladder_step_consent: "ladder_step s m s' \<Longrightarrow> asks_consent s \<Longrightarrow> asks_consent s'"
  by (cases s; cases m)
    (auto simp: ladder_step_iff transition_ladder_def ladder_terminal_def asks_consent_def split: if_splits)

lemma ladder_run_wf: "ladder_run s ms s' \<Longrightarrow> ladder_wf s \<Longrightarrow> ladder_wf s'"
  by (induction rule: ladder_run.induct) (auto dest: ladder_step_wf)

lemma ladder_run_consent: "ladder_run s ms s' \<Longrightarrow> asks_consent s \<Longrightarrow> asks_consent s'"
  by (induction rule: ladder_run.induct) (auto dest: ladder_step_consent)

lemma ladder_run_terminal: "ladder_run s ms s' \<Longrightarrow> s = Terminal t \<Longrightarrow> ms = [] \<and> s' = s"
  by (induction rule: ladder_run.induct) (auto simp: terminal_stuck)

text \<open>C31: Consent is sticky on every run of a consult ladder: once an interruption asks for a human,
  the ladder never works again, the question is never dropped by a re-interruption, and the only
  way on is a settled disposition, which names a successor exactly when it was countered and
  never moves again.\<close>

theorem ladder_consent_is_sticky:
  assumes "ladder_run (Interrupted i) ms s" "consent_required i"
  shows "(\<exists>j. s = Interrupted j \<and> consent_required j) \<or>
    (\<exists>t. s = Terminal t \<and> is_well_formed t \<and> (\<forall>m. transition_ladder s m = Err TerminalImmutable))"
proof -
  have "asks_consent s" "ladder_wf s"
    using ladder_run_consent [OF assms(1)] ladder_run_wf [OF assms(1)] assms(2)
    by (simp_all add: asks_consent_def ladder_wf_def)
  then show ?thesis
    by (cases s) (auto simp: asks_consent_def ladder_wf_def transition_ladder_def ladder_terminal_def)
qed

definition consent_case :: interrupted_state where
  "consent_case = \<lparr>int_kind = Critical, consent_required = True, case_ref = replicate 16 1, interrupted_at = 5\<rparr>"

definition approved_at :: "nat \<Rightarrow> terminal_state" where
  "approved_at n = \<lparr>term_disposition = Approved, result_ref = replicate 16 2, counter_task_ref = None, finished_at = n\<rparr>"

lemma ladder_consent_is_sticky_witness:
  "ladder_run (Interrupted consent_case) [Interrupt (consent_case\<lparr>interrupted_at := 6\<rparr>), Finish (approved_at 7)]
     (Terminal (approved_at 7)) \<and>
   transition_ladder (Terminal (approved_at 7)) (Finish (approved_at 8)) = Err TerminalImmutable"
proof -
  let ?i = "consent_case\<lparr>interrupted_at := 6\<rparr>"
  have "ladder_step (Interrupted consent_case) (Interrupt ?i) (Interrupted ?i)"
    "ladder_step (Interrupted ?i) (Finish (approved_at 7)) (Terminal (approved_at 7))"
    by (simp_all add: ladder_step_iff transition_ladder_def ladder_terminal_def consent_case_def
        approved_at_def is_well_formed_def)
  then have r: "ladder_run (Interrupted consent_case) [Interrupt ?i, Finish (approved_at 7)] (Terminal (approved_at 7))"
    by (blast intro: ladder_run.intros)
  with ladder_consent_is_sticky [OF r] show ?thesis by (simp add: consent_case_def)
qed

section \<open>The structure a fingerprint sees\<close>

lemma normalized_no_nul: "is_normalized_token s \<Longrightarrow> CHR 0x00 \<notin> set s"
  by (simp add: is_normalized_token_def)

lemma split_at_nul:
  "CHR 0x00 \<notin> set xs \<Longrightarrow> CHR 0x00 \<notin> set ys \<Longrightarrow> xs @ CHR 0x00 # us = ys @ CHR 0x00 # vs \<Longrightarrow> xs = ys \<and> us = vs"
  by (induction xs arbitrary: ys) (auto simp: Cons_eq_append_conv split: list.splits)

lemma terminated_inject:
  "\<forall>p \<in> set ps. CHR 0x00 \<notin> set p \<Longrightarrow> \<forall>q \<in> set qs. CHR 0x00 \<notin> set q \<Longrightarrow>
   concat (map (\<lambda>p. p @ [CHR 0x00]) ps) = concat (map (\<lambda>p. p @ [CHR 0x00]) qs) \<Longrightarrow> ps = qs"
proof (induction ps arbitrary: qs)
  case (Cons p ps)
  then obtain q qs' where qs: "qs = q # qs'" by (cases qs) auto
  have "p @ CHR 0x00 # concat (map (\<lambda>p. p @ [CHR 0x00]) ps) = q @ CHR 0x00 # concat (map (\<lambda>p. p @ [CHR 0x00]) qs')"
    using Cons.prems(3) qs by simp
  with split_at_nul [of p q] Cons.prems(1,2) qs
  have "p = q" "concat (map (\<lambda>p. p @ [CHR 0x00]) ps) = concat (map (\<lambda>p. p @ [CHR 0x00]) qs')" by auto
  with Cons.IH [of qs'] Cons.prems(1,2) qs show ?case by simp
qed (auto simp: concat_eq_Nil_conv)

lemma paths_decodable_iff:
  "paths_decodable seen ps \<longleftrightarrow> (\<forall>p \<in> set ps. is_normalized_token p) \<and> distinct ps \<and> set seen \<inter> set ps = {}"
  by (induction ps arbitrary: seen) auto

text \<open>The fingerprint of a delta shape is exactly its structure: two decodable shapes are hashed
  as the same bytes exactly when they have the same operation kind, the same target class and the
  same set of paths, in whatever order the paths are listed.\<close>

theorem fingerprint_is_structure:
  assumes "is_decodable s" "is_decodable t"
  shows "fingerprint_input s = fingerprint_input t \<longleftrightarrow>
    operation_kind s = operation_kind t \<and> target_entity_type s = target_entity_type t \<and>
    set (normalized_paths s) = set (normalized_paths t)"
proof -
  have n: "CHR 0x00 \<notin> set (operation_kind u)" "\<forall>p \<in> set (sort (normalized_paths u)). CHR 0x00 \<notin> set p"
    "distinct (normalized_paths u)" if "is_decodable u" for u
    using that by (auto simp: is_decodable_def paths_decodable_iff dest: normalized_no_nul split: if_splits)
  have sorts: "sort (normalized_paths s) = sort (normalized_paths t) \<longleftrightarrow> set (normalized_paths s) = set (normalized_paths t)"
    using n(3) [OF assms(1)] n(3) [OF assms(2)]
    using sorted_distinct_set_unique [of "sort (normalized_paths s)" "sort (normalized_paths t)"]
    by (auto dest: arg_cong [where f = set])
  show ?thesis
  proof
    assume "fingerprint_input s = fingerprint_input t"
    then have "unat (target_entity_type s) = unat (target_entity_type t)"
      and k: "operation_kind s @ CHR 0x00 # concat (map (\<lambda>p. p @ [CHR 0x00]) (sort (normalized_paths s))) =
        operation_kind t @ CHR 0x00 # concat (map (\<lambda>p. p @ [CHR 0x00]) (sort (normalized_paths t)))"
      by (simp_all add: fingerprint_input_def)
    from this(1) have t: "target_entity_type s = target_entity_type t" by (rule unsigned_word_eqI)
    from split_at_nul [OF n(1) [OF assms(1)] n(1) [OF assms(2)] k]
    have o: "operation_kind s = operation_kind t"
      and c: "concat (map (\<lambda>p. p @ [CHR 0x00]) (sort (normalized_paths s))) =
        concat (map (\<lambda>p. p @ [CHR 0x00]) (sort (normalized_paths t)))" by auto
    from terminated_inject [OF n(2) [OF assms(1)] n(2) [OF assms(2)] c] sorts t o
    show "operation_kind s = operation_kind t \<and> target_entity_type s = target_entity_type t \<and>
      set (normalized_paths s) = set (normalized_paths t)" by simp
  qed (use sorts in \<open>simp add: fingerprint_input_def\<close>)
qed

definition shape_ab :: "string list \<Rightarrow> delta_shape" where
  "shape_ab ps = \<lparr>operation_kind = ''put'', target_entity_type = 10, normalized_paths = ps\<rparr>"

lemma fingerprint_is_structure_witness:
  "fingerprint_input (shape_ab [''a'', ''b'']) = fingerprint_input (shape_ab [''b'', ''a''])"
proof -
  have "is_decodable (shape_ab [''a'', ''b''])" "is_decodable (shape_ab [''b'', ''a''])"
    by (simp_all add: shape_ab_def is_decodable_def is_normalized_token_def is_trimmed_def white_space_def)
  from fingerprint_is_structure [OF this] show ?thesis by (simp add: shape_ab_def insert_commute)
qed

text \<open>The novelty guard skips the owner's consult only for what was already approved: its one
  automatic answer needs a decodable shape, inside the very bound of the scope, with a live
  standing grant, and a shape of exactly that structure approved there before; every lookup error
  asks.\<close>

theorem novelty_guard_auto_iff:
  "(novelty_guard blake3 graduated approved g sh = AutoKnownShape r \<longleftrightarrow>
     is_decodable sh \<and> scope_operation_kind g = operation_kind sh \<and> scope_target_type g = target_entity_type sh \<and>
     graduated g = Ok True \<and> approved g (blake3 (fingerprint_input sh)) = Ok True \<and> r = standing_grant_ref g)"
  by (auto simp: novelty_guard_def scope_covers_def fingerprint_def Let_def split: sum.splits bool.splits)


section \<open>What the magistrate may decide\<close>

lemma policy_ruling_unanimous:
  "policy_ruling c = Some r \<Longrightarrow> layer r = CompiledPolicyLayer \<and> selected r \<in> policy_selects ` set (case_policy c)"
  by (auto simp: policy_ruling_def split: list.splits if_splits)

lemma authority_ruling_unanimous:
  "authority_ruling c = Some r \<Longrightarrow> layer r = AuthorityLayer \<and> selected r \<in> authority_selects ` set (case_authority c)"
  by (auto simp: authority_ruling_def split: list.splits if_splits)

lemma temporal_ruling_selects:
  "temporal_ruling c = Some r \<Longrightarrow> layer r = TemporalLayer \<and> selected r \<in> temporal_selects ` set (case_temporal c)"
proof -
  assume r: "temporal_ruling c = Some r"
  then obtain w ws where f: "filter (\<lambda>e. (occurred_at e, learned_at e) =
      Max (set (map (\<lambda>e. (occurred_at e, learned_at e)) (live_evidence c)))) (live_evidence c) = w # ws"
    and w: "layer r = TemporalLayer" "selected r = temporal_selects w"
    by (auto simp: temporal_ruling_def Let_def split: list.splits if_splits)
  have "w \<in> set (filter (\<lambda>e. (occurred_at e, learned_at e) =
      Max (set (map (\<lambda>e. (occurred_at e, learned_at e)) (live_evidence c)))) (live_evidence c))"
    unfolding f by simp
  then have "w \<in> set (case_temporal c)" by (simp add: live_evidence_def Let_def)
  with w show ?thesis by simp
qed

definition selections :: "magistrate_case \<Rightarrow> entity_id option list" where
  "selections c = map policy_selects (case_policy c) @ map authority_selects (case_authority c) @
     map temporal_selects (case_temporal c)"

lemma case_ruling_selects:
  "case_ruling c = Some r \<Longrightarrow> selected r \<in> set (selections c)"
  by (auto simp: selections_def case_ruling_def split: option.splits
      dest: policy_ruling_unanimous authority_ruling_unanimous temporal_ruling_selects)

lemma no_pathology:
  assumes "case_pathology c = None" "Some d \<in> set (selections c)"
  shows "d \<in> set (candidate_delta_refs c)"
proof (rule ccontr)
  assume d: "d \<notin> set (candidate_delta_refs c)"
  let ?P = "\<lambda>s. case s of Some d \<Rightarrow> d \<notin> set (candidate_delta_refs c) | None \<Rightarrow> False"
  have "\<not> list_ex ?P (selections c)"
    using assms(1) by (simp add: case_pathology_def selections_def split: if_splits)
  moreover have "list_ex ?P (selections c)" unfolding list_ex_iff
    by (rule bexI [OF _ assms(2)]) (use d in simp)
  ultimately show False by simp
qed

text \<open>The magistrate's power is bounded: it never rules on a state the Dreamer wrote, a critical
  case never settles the task, whatever it selects is one of the case's candidate deltas, and the
  receipt's layer is the one that decided.\<close>

theorem magistrate_power_is_bounded:
  "decide_magistrate c Dreamer = Recused DreamerAuthoredState \<and>
   (terminal_for_magistrate_verdict (decide_magistrate c a) = None \<or>
      a \<noteq> Dreamer \<and> case_severity c = NormalCase \<and> case_pathology c = None \<and>
      (\<exists>r. case_ruling c = Some r \<and> magistrate_decision_layer c (decide_magistrate c a) = layer r)) \<and>
   (case decide_magistrate c a of
      Rule d _ \<Rightarrow> d \<in> set (candidate_delta_refs c)
    | AdviceOnly (Some d) _ \<Rightarrow> d \<in> set (candidate_delta_refs c)
    | _ \<Rightarrow> True)"
proof (cases "case_pathology c")
  case (Some v)
  then have "v = EscalatePathology (contested_state_ref c)" by (auto simp: case_pathology_def split: if_splits)
  with Some show ?thesis by (simp add: decide_magistrate_def)
next
  case None
  show ?thesis
  proof (cases "case_ruling c")
    case (Some r)
    have "selected r = Some d \<Longrightarrow> d \<in> set (candidate_delta_refs c)" for d
      using case_ruling_selects [OF Some] no_pathology [OF None, of d] by simp
    with None Some show ?thesis
      by (cases "case_severity c")
        (auto simp: decide_magistrate_def magistrate_decision_layer_def split: option.splits)
  qed (use None in \<open>simp add: decide_magistrate_def\<close>)
qed

text \<open>The layers are an order and never a score: when all compiled policies of a well-formed
  normal case select the same, that selection is the verdict whatever the authority and the
  temporal evidence say, and with no policy a unanimous authority decides whatever time says.\<close>

theorem magistrate_layers_in_order:
  assumes "a \<noteq> Dreamer" "case_pathology c = None" "case_severity c = NormalCase"
    and "case_policy c = p # ps" "\<forall>e \<in> set ps. policy_selects e = policy_selects p"
    and "case_pathology d = None" "case_severity d = NormalCase"
    and "case_policy d = []" "case_authority d = f # fs" "\<forall>e \<in> set fs. authority_selects e = authority_selects f"
  shows "decide_magistrate c a =
      (case policy_selects p of Some x \<Rightarrow> Rule x (policy_ref p) | None \<Rightarrow> RejectRuling (policy_ref p)) \<and>
    decide_magistrate d a =
      (case authority_selects f of Some x \<Rightarrow> Rule x (authority_state_ref f)
       | None \<Rightarrow> RejectRuling (authority_state_ref f))"
proof -
  have "policy_ruling c = Some \<lparr>layer = CompiledPolicyLayer, selected = policy_selects p, rationale = policy_ref p\<rparr>"
    using assms(4,5) by (auto simp: policy_ruling_def list_ex_iff)
  moreover have "policy_ruling d = None" using assms(8) by (simp add: policy_ruling_def)
  moreover have "authority_ruling d =
      Some \<lparr>layer = AuthorityLayer, selected = authority_selects f, rationale = authority_state_ref f\<rparr>"
    using assms(9,10) by (auto simp: authority_ruling_def list_ex_iff)
  ultimately show ?thesis using assms(1-3,6,7)
    by (simp add: decide_magistrate_def case_ruling_def split: option.split)
qed

definition ref :: "byte \<Rightarrow> entity_id" where
  "ref b = replicate 15 7 @ [b]"

definition policy_case :: "policy_evidence list \<Rightarrow> authority_evidence list \<Rightarrow> magistrate_case" where
  "policy_case ps au =
     \<lparr>task_ref = ref 6, contested_state_ref = ref 1, contested_delta_ref = ref 2, case_severity = NormalCase,
      case_policy = ps, case_authority = au,
      case_temporal = [\<lparr>occurred_at = 9, learned_at = 9, supersedes_ref = None, temporal_selects = Some (ref 3)\<rparr>],
      candidate_delta_refs = [ref 2, ref 3], dreamer_attempt_ref = None, case_now = 10\<rparr>"

definition policy_for :: "byte \<Rightarrow> policy_evidence" where
  "policy_for b = \<lparr>policy_ref = ref 4, policy_selects = Some (ref b)\<rparr>"

definition owner_for :: "byte \<Rightarrow> authority_evidence" where
  "owner_for b = \<lparr>authoritative_actor_ref = ref 5, authority_state_ref = ref 1, authority_selects = Some (ref b)\<rparr>"

lemma ref_inject: "ref a = ref b \<longleftrightarrow> a = b"
  by (simp add: ref_def)

lemmas case_eval = policy_case_def policy_for_def owner_for_def case_pathology_def ref_inject

lemma magistrate_layers_in_order_witness:
  "decide_magistrate (policy_case [policy_for 2, policy_for 2] [owner_for 3]) OtherAgent = Rule (ref 2) (ref 4) \<and>
   decide_magistrate (policy_case [] [owner_for 2]) OtherAgent = Rule (ref 2) (ref 1)"
  using magistrate_layers_in_order [of OtherAgent "policy_case [policy_for 2, policy_for 2] [owner_for 3]"
      "policy_for 2" "[policy_for 2]" "policy_case [] [owner_for 2]" "owner_for 2" "[]"]
  by (simp add: case_eval)


text \<open>A human is admitted only by a contested critical case or a pathology, and the ladder's wire
  tokens decode to exactly the variant they spell.\<close>

theorem human_entry_matrix:
  "(\<exists>k. route_owner_agent_outcome out crit = HumanConsent k) =
     (out = OwnerPathological \<or> out = OwnerContested \<and> crit = CriticalCase) \<and>
   (disposition_from_token s = Some d \<longleftrightarrow> s = disposition_str d) \<and>
   (relation_from_token s = Some r \<longleftrightarrow> s = relation_str r) \<and>
   (purpose_from_token s = Some p \<longleftrightarrow> s = purpose_str p)"
proof (intro conjI)
  show "(\<exists>k. route_owner_agent_outcome out crit = HumanConsent k) =
     (out = OwnerPathological \<or> out = OwnerContested \<and> crit = CriticalCase)"
    by (cases out; cases crit) simp_all
  show "disposition_from_token s = Some d \<longleftrightarrow> s = disposition_str d"
    by (cases d) (auto simp: disposition_from_token_def)
  show "relation_from_token s = Some r \<longleftrightarrow> s = relation_str r"
    by (cases r) (auto simp: relation_from_token_def)
  show "purpose_from_token s = Some p \<longleftrightarrow> s = purpose_str p"
    by (cases p) (auto simp: purpose_from_token_def)
qed

end
