(* ===== verification/Edges.thy ===== *)
theory Edges
  imports EntityIds
begin

text \<open>
  Edges of the graph: the kinds and their stored bytes (\<open>crates/oneiron-base/src/edge/kind.rs\<close>), the
  fixed-width value codec and the strict record parser (\<open>edge.rs\<close>), the exhaustive tables over the
  kinds (\<open>edge/kind_tables.rs\<close>) and the edge key (\<open>oneiron-store/src/index_keys.rs\<close>).

  An \<open>f32\<close> is its 32-bit pattern, as the codec stores it.  The code compares floats with constants
  in four places (finite, within the unit interval, within the signed unit interval, neutral);
  each comparison is written out on the pattern.
\<close>

section \<open>Floats as bit patterns\<close>

type_synonym f32 = "32 word"

definition f32_is_finite :: "f32 \<Rightarrow> bool" where
  "f32_is_finite w \<longleftrightarrow> unat w div 2 ^ 23 mod 2 ^ 8 \<noteq> 255"

definition f32_is_zero :: "f32 \<Rightarrow> bool" where
  "f32_is_zero w \<longleftrightarrow> w = 0 \<or> w = 0x80000000"

definition in_unit_interval :: "f32 \<Rightarrow> bool" where
  "in_unit_interval w \<longleftrightarrow> w \<le> 0x3F800000 \<or> w = 0x80000000"

definition in_signed_unit_interval :: "f32 \<Rightarrow> bool" where
  "in_signed_unit_interval w \<longleftrightarrow> unat w mod 2 ^ 31 \<le> 0x3F800000"

definition word_le_bytes :: "nat \<Rightarrow> 'a :: len word \<Rightarrow> byte list" where
  "word_le_bytes k w = to_le_bytes k (unat w)"

definition word_from_le_bytes :: "byte list \<Rightarrow> 'a :: len word" where
  "word_from_le_bytes bs = of_nat (from_be_bytes (rev bs))"

record vad =
  valence :: f32
  arousal :: f32
  dominance :: f32

datatype vad_component = Valence | Arousal | Dominance

definition neutral_vad :: vad where
  "neutral_vad = \<lparr>valence = 0, arousal = 0, dominance = 0\<rparr>"

definition is_neutral :: "vad \<Rightarrow> bool" where
  "is_neutral v \<longleftrightarrow> f32_is_zero (valence v) \<and> f32_is_zero (arousal v) \<and> f32_is_zero (dominance v)"

definition non_finite_component :: "vad \<Rightarrow> (vad_component \<times> f32) option" where
  "non_finite_component v =
     (if \<not> f32_is_finite (valence v) then Some (Valence, valence v)
      else if \<not> f32_is_finite (arousal v) then Some (Arousal, arousal v)
      else if \<not> f32_is_finite (dominance v) then Some (Dominance, dominance v)
      else None)"

definition out_of_range_component :: "vad \<Rightarrow> (vad_component \<times> f32) option" where
  "out_of_range_component v =
     (if \<not> in_signed_unit_interval (valence v) then Some (Valence, valence v)
      else if \<not> in_unit_interval (arousal v) then Some (Arousal, arousal v)
      else if \<not> in_unit_interval (dominance v) then Some (Dominance, dominance v)
      else None)"

definition invalid_component :: "vad \<Rightarrow> (vad_component \<times> f32) option" where
  "invalid_component v =
     (case non_finite_component v of Some c \<Rightarrow> Some c | None \<Rightarrow> out_of_range_component v)"

section \<open>Edge kinds\<close>

datatype edge_kind =
    AuthoredBy | ScopedTo | PartOf | Supersedes | BelongsTo | ClaimOf | ChildOf | AssignedTo
    | DerivedFrom | Mentions | About | Supports | Opposes | ParticipatesIn | Attached | EmployedBy
    | HasFacet | FacetOf | InWorld | SetIn | SameAs | MergedInto | SplitInto | BlockedBy | Blocks
    | Fulfills | DischargedBy | Parent | SpawnedBy | AddressedTo | RepliesTo | Regenerates | Calls
    | Imports | Refs

fun kind_byte :: "edge_kind \<Rightarrow> byte" where
  "kind_byte AuthoredBy = 0"
| "kind_byte ScopedTo = 1"
| "kind_byte PartOf = 2"
| "kind_byte Supersedes = 3"
| "kind_byte BelongsTo = 4"
| "kind_byte ClaimOf = 5"
| "kind_byte ChildOf = 6"
| "kind_byte AssignedTo = 7"
| "kind_byte DerivedFrom = 8"
| "kind_byte Mentions = 9"
| "kind_byte About = 10"
| "kind_byte Supports = 11"
| "kind_byte Opposes = 12"
| "kind_byte ParticipatesIn = 13"
| "kind_byte Attached = 14"
| "kind_byte EmployedBy = 15"
| "kind_byte HasFacet = 16"
| "kind_byte FacetOf = 17"
| "kind_byte InWorld = 18"
| "kind_byte SetIn = 19"
| "kind_byte SameAs = 20"
| "kind_byte MergedInto = 21"
| "kind_byte SplitInto = 22"
| "kind_byte BlockedBy = 23"
| "kind_byte Blocks = 24"
| "kind_byte Fulfills = 25"
| "kind_byte DischargedBy = 26"
| "kind_byte Parent = 27"
| "kind_byte SpawnedBy = 28"
| "kind_byte AddressedTo = 29"
| "kind_byte RepliesTo = 30"
| "kind_byte Regenerates = 31"
| "kind_byte Calls = 32"
| "kind_byte Imports = 33"
| "kind_byte Refs = 34"

fun kind_name :: "edge_kind \<Rightarrow> string" where
  "kind_name AuthoredBy = ''authored_by''"
| "kind_name ScopedTo = ''scoped_to''"
| "kind_name PartOf = ''part_of''"
| "kind_name Supersedes = ''supersedes''"
| "kind_name BelongsTo = ''belongs_to''"
| "kind_name ClaimOf = ''claim_of''"
| "kind_name ChildOf = ''child_of''"
| "kind_name AssignedTo = ''assigned_to''"
| "kind_name DerivedFrom = ''derived_from''"
| "kind_name Mentions = ''mentions''"
| "kind_name About = ''about''"
| "kind_name Supports = ''supports''"
| "kind_name Opposes = ''opposes''"
| "kind_name ParticipatesIn = ''participates_in''"
| "kind_name Attached = ''attached''"
| "kind_name EmployedBy = ''employed_by''"
| "kind_name HasFacet = ''has_facet''"
| "kind_name FacetOf = ''facet_of''"
| "kind_name InWorld = ''in_world''"
| "kind_name SetIn = ''set_in''"
| "kind_name SameAs = ''same_as''"
| "kind_name MergedInto = ''merged_into''"
| "kind_name SplitInto = ''split_into''"
| "kind_name BlockedBy = ''blocked_by''"
| "kind_name Blocks = ''blocks''"
| "kind_name Fulfills = ''fulfills''"
| "kind_name DischargedBy = ''discharged_by''"
| "kind_name Parent = ''parent''"
| "kind_name SpawnedBy = ''spawned_by''"
| "kind_name AddressedTo = ''addressed_to''"
| "kind_name RepliesTo = ''replies_to''"
| "kind_name Regenerates = ''regenerates''"
| "kind_name Calls = ''calls''"
| "kind_name Imports = ''imports''"
| "kind_name Refs = ''refs''"

definition all_edge_kinds :: "edge_kind list" where
  "all_edge_kinds =
    [AuthoredBy, ScopedTo, PartOf, Supersedes, BelongsTo, ClaimOf, ChildOf, AssignedTo,
     DerivedFrom, Mentions, About, Supports, Opposes, ParticipatesIn, Attached, EmployedBy,
     HasFacet, FacetOf, InWorld, SetIn, SameAs, MergedInto, SplitInto, BlockedBy, Blocks,
     Fulfills, DischargedBy, Parent, SpawnedBy, AddressedTo, RepliesTo, Regenerates, Calls,
     Imports, Refs]"

definition kind_from_name :: "string \<Rightarrow> edge_kind option" where
  "kind_from_name s = find (\<lambda>k. kind_name k = s) all_edge_kinds"

definition kind_from_byte :: "byte \<Rightarrow> edge_kind option" where
  "kind_from_byte b = find (\<lambda>k. kind_byte k = b) all_edge_kinds"

definition kind_from_wire :: "32 word \<Rightarrow> edge_kind option" where
  "kind_from_wire n = (if n < 256 then kind_from_byte (of_nat (unat n)) else None)"

fun default_weight :: "edge_kind \<Rightarrow> f32 option" where
  "default_weight AuthoredBy = Some 0x3F666666"
| "default_weight ScopedTo = Some 0x3F333333"
| "default_weight PartOf = Some 0x3F4CCCCD"
| "default_weight Supersedes = Some 0x3E99999A"
| "default_weight BelongsTo = Some 0x3F800000"
| "default_weight ClaimOf = Some 0x3F800000"
| "default_weight ChildOf = None"
| "default_weight AssignedTo = None"
| "default_weight DerivedFrom = Some 0x3E4CCCCD"
| "default_weight Mentions = Some 0x3F19999A"
| "default_weight About = Some 0x3F000000"
| "default_weight Supports = Some 0x3F800000"
| "default_weight Opposes = Some 0"
| "default_weight ParticipatesIn = Some 0x3F800000"
| "default_weight Attached = Some 0x3F4CCCCD"
| "default_weight EmployedBy = Some 0x3F4CCCCD"
| "default_weight HasFacet = Some 0x3F333333"
| "default_weight FacetOf = Some 0x3F333333"
| "default_weight InWorld = Some 0x3F333333"
| "default_weight SetIn = Some 0x3F333333"
| "default_weight SameAs = None"
| "default_weight MergedInto = Some 0x3E99999A"
| "default_weight SplitInto = Some 0x3E99999A"
| "default_weight BlockedBy = None"
| "default_weight Blocks = Some 0x3F800000"
| "default_weight Fulfills = None"
| "default_weight DischargedBy = None"
| "default_weight Parent = None"
| "default_weight SpawnedBy = None"
| "default_weight AddressedTo = None"
| "default_weight RepliesTo = None"
| "default_weight Regenerates = None"
| "default_weight Calls = Some 0x3F800000"
| "default_weight Imports = Some 0x3F800000"
| "default_weight Refs = Some 0x3F800000"

section \<open>Layouts and flags\<close>

datatype edge_layout = Structural | SemanticBare | SemanticProvenanced

fun layout_bytes :: "edge_layout \<Rightarrow> nat" where
  "layout_bytes Structural = 12"
| "layout_bytes SemanticBare = 24"
| "layout_bytes SemanticProvenanced = 26"

definition layout_from_len :: "nat \<Rightarrow> edge_layout option" where
  "layout_from_len n =
     (if n = 12 then Some Structural else if n = 24 then Some SemanticBare
      else if n = 26 then Some SemanticProvenanced else None)"

definition edge_layout_for_kind :: "edge_kind \<Rightarrow> bool \<Rightarrow> edge_layout" where
  "edge_layout_for_kind k has_claim =
     (if k \<in> {AuthoredBy, ScopedTo, PartOf, Supersedes, BelongsTo, ClaimOf, ChildOf, AssignedTo,
              DerivedFrom, MergedInto, SplitInto, BlockedBy, Blocks, Fulfills, DischargedBy, Parent,
              SpawnedBy, AddressedTo, RepliesTo, Regenerates, SameAs, Calls, Imports, Refs}
      then Structural else if has_claim then SemanticProvenanced else SemanticBare)"

datatype confirmation_status = StProposed | StConfirmed | StDisputed | StRetracted

fun status_byte :: "confirmation_status \<Rightarrow> byte" where
  "status_byte StProposed = 0"
| "status_byte StConfirmed = 1"
| "status_byte StDisputed = 2"
| "status_byte StRetracted = 3"

definition status_from_byte :: "byte \<Rightarrow> confirmation_status option" where
  "status_from_byte b =
     (if b = 0 then Some StProposed else if b = 1 then Some StConfirmed
      else if b = 2 then Some StDisputed else if b = 3 then Some StRetracted else None)"

datatype actor_class = HumanActor | AgentActor | SystemActor

fun actor_class_byte :: "actor_class \<Rightarrow> byte" where
  "actor_class_byte HumanActor = 0"
| "actor_class_byte AgentActor = 1"
| "actor_class_byte SystemActor = 2"

definition actor_class_from_byte :: "byte \<Rightarrow> actor_class option" where
  "actor_class_from_byte b =
     (if b = 0 then Some HumanActor else if b = 1 then Some AgentActor
      else if b = 2 then Some SystemActor else None)"

record provenance_flags =
  confirmation :: confirmation_status
  actor :: actor_class

section \<open>The value codec\<close>

datatype edge_error =
    EdgeCorrupted string
  | InvalidEdgeWeight f32
  | InvalidVad vad_component f32
  | EdgeInvariant string
  | ReservedEdgeKind string
  | EdgeInvalidClaim string

record decoded_edge =
  layout :: edge_layout
  weight :: f32
  created_at :: "64 word"
  edge_vad :: "vad option"
  provenance :: "provenance_flags option"

definition validate_edge_weight :: "f32 \<Rightarrow> (edge_error, unit) result" where
  "validate_edge_weight w = (if in_unit_interval w then Ok () else Err (InvalidEdgeWeight w))"

definition vad_bytes :: "vad \<Rightarrow> byte list" where
  "vad_bytes v = word_le_bytes 4 (valence v) @ word_le_bytes 4 (arousal v) @ word_le_bytes 4 (dominance v)"

definition encode_edge_value ::
    "edge_kind \<Rightarrow> f32 \<Rightarrow> 64 word \<Rightarrow> vad \<Rightarrow> provenance_flags option \<Rightarrow> (edge_error, byte list) result" where
  "encode_edge_value k w t v p =
     (case validate_edge_weight w of
        Inl e \<Rightarrow> Err e
      | Inr _ \<Rightarrow>
          case invalid_component v of
            Some (c, x) \<Rightarrow> Err (InvalidVad c x)
          | None \<Rightarrow>
              if p \<noteq> None \<and> edge_layout_for_kind k False = Structural
              then Err (EdgeInvariant ''structural edges do not carry provenance hot flags'')
              else if \<not> is_neutral v \<and> edge_layout_for_kind k False = Structural
              then Err (EdgeInvariant ''structural edges do not carry VAD'')
              else Ok (word_le_bytes 4 w @ word_le_bytes 8 t @
                       (if edge_layout_for_kind k (p \<noteq> None) = Structural then [] else vad_bytes v) @
                       (case p of None \<Rightarrow> []
                        | Some f \<Rightarrow> [status_byte (confirmation f), actor_class_byte (actor f)])))"

definition read_le :: "nat \<Rightarrow> byte list \<Rightarrow> nat \<Rightarrow> (edge_error, 'a :: len word) result" where
  "read_le k bs off =
     (if off + k \<le> length bs then Ok (word_from_le_bytes (take k (drop off bs)))
      else Err (EdgeCorrupted ''edge value''))"

definition read_vad :: "byte list \<Rightarrow> (edge_error, vad) result" where
  "read_vad bs =
     (case read_le 4 bs 12 of Inl e \<Rightarrow> Err e | Inr x \<Rightarrow>
      case read_le 4 bs 16 of Inl e \<Rightarrow> Err e | Inr y \<Rightarrow>
      case read_le 4 bs 20 of Inl e \<Rightarrow> Err e | Inr z \<Rightarrow>
      Ok \<lparr>valence = x, arousal = y, dominance = z\<rparr>)"

definition read_flags :: "byte list \<Rightarrow> (edge_error, provenance_flags) result" where
  "read_flags bs =
     (case status_from_byte (bs ! 24) of None \<Rightarrow> Err (EdgeCorrupted ''edge value'') | Some s \<Rightarrow>
      case actor_class_from_byte (bs ! 25) of None \<Rightarrow> Err (EdgeCorrupted ''edge value'') | Some a \<Rightarrow>
      Ok \<lparr>confirmation = s, actor = a\<rparr>)"

definition decode_edge_value :: "byte list \<Rightarrow> (edge_error, decoded_edge) result" where
  "decode_edge_value bs =
     (case layout_from_len (length bs) of None \<Rightarrow> Err (EdgeCorrupted ''edge value'') | Some l \<Rightarrow>
      case read_le 4 bs 0 of Inl e \<Rightarrow> Err e | Inr w \<Rightarrow>
      if \<not> f32_is_finite w then Err (EdgeCorrupted ''edge value'') else
      case read_le 8 bs 4 of Inl e \<Rightarrow> Err e | Inr t \<Rightarrow>
      case (if l = Structural then Ok None
            else case read_vad bs of Inl e \<Rightarrow> Err e | Inr v \<Rightarrow>
                 if non_finite_component v \<noteq> None \<or> out_of_range_component v \<noteq> None
                 then Err (EdgeCorrupted ''edge value'') else Ok (Some v)) of Inl e \<Rightarrow> Err e | Inr v \<Rightarrow>
      case (if l = SemanticProvenanced
            then case read_flags bs of Inl e \<Rightarrow> Err e | Inr f \<Rightarrow> Ok (Some f)
            else Ok None) of Inl e \<Rightarrow> Err e | Inr p \<Rightarrow>
      Ok \<lparr>layout = l, weight = w, created_at = t, edge_vad = v, provenance = p\<rparr>)"

definition decode_edge_value_for_kind :: "edge_kind \<Rightarrow> byte list \<Rightarrow> (edge_error, decoded_edge) result" where
  "decode_edge_value_for_kind k bs =
     (case decode_edge_value bs of Inl e \<Rightarrow> Err e | Inr d \<Rightarrow>
      if (if edge_layout_for_kind k False = Structural then layout d = Structural
          else layout d = SemanticBare \<or> layout d = SemanticProvenanced)
      then Ok d else Err (EdgeCorrupted ''edge value''))"

section \<open>Keys and records\<close>

record edge_record =
  edge_source :: entity_id
  edge_kind_of :: edge_kind
  edge_target :: entity_id
  edge_decoded :: decoded_edge

definition encode_edge_key :: "entity_id \<Rightarrow> edge_kind \<Rightarrow> entity_id \<Rightarrow> byte list" where
  "encode_edge_key s k t = s @ kind_byte k # t"

definition edge_record_error :: edge_error where
  "edge_record_error = EdgeCorrupted ''edge record''"

definition parse_edge_key :: "byte list \<Rightarrow> (edge_error, entity_id \<times> edge_kind \<times> entity_id) result" where
  "parse_edge_key key =
     (if length key \<noteq> 33 then Err edge_record_error else
      case from_bytes (take 16 key) of Inl _ \<Rightarrow> Err edge_record_error | Inr s \<Rightarrow>
      case kind_from_byte (key ! 16) of None \<Rightarrow> Err edge_record_error | Some k \<Rightarrow>
      case from_bytes (drop 17 key) of Inl _ \<Rightarrow> Err edge_record_error | Inr t \<Rightarrow>
      Ok (s, k, t))"

definition parse_edge_record :: "byte list \<Rightarrow> byte list \<Rightarrow> (edge_error, edge_record) result" where
  "parse_edge_record key value =
     (case parse_edge_key key of Inl e \<Rightarrow> Err e | Inr (s, k, t) \<Rightarrow>
      case decode_edge_value_for_kind k value of Inl _ \<Rightarrow> Err edge_record_error | Inr d \<Rightarrow>
      Ok \<lparr>edge_source = s, edge_kind_of = k, edge_target = t, edge_decoded = d\<rparr>)"

section \<open>Who may write a kind\<close>

definition validate_public_edge_kind :: "edge_kind \<Rightarrow> (edge_error, unit) result" where
  "validate_public_edge_kind k =
     (if k \<in> {Parent, SpawnedBy, AddressedTo, RepliesTo} then Err (ReservedEdgeKind ''conversation_dag'')
      else if k = MergedInto then Err (ReservedEdgeKind ''merged_into'')
      else if k = SplitInto then Err (ReservedEdgeKind ''split_into'')
      else if k = Blocks then Err (ReservedEdgeKind ''blocks'')
      else if k = Fulfills then Err (ReservedEdgeKind ''fulfills'')
      else if k = DischargedBy then Err (ReservedEdgeKind ''discharged_by'')
      else Ok ())"

definition validate_public_edge_creation_kind :: "edge_kind \<Rightarrow> (edge_error, unit) result" where
  "validate_public_edge_creation_kind k =
     (case validate_public_edge_kind k of Inl e \<Rightarrow> Err e | Inr _ \<Rightarrow>
      if k = SameAs then Err (ReservedEdgeKind ''same_as'')
      else if k = Regenerates then Err (ReservedEdgeKind ''regenerates'')
      else Ok ())"

definition ensure_public_memory_edge_kind :: "edge_kind \<Rightarrow> (edge_error, unit) result" where
  "ensure_public_memory_edge_kind k =
     (if k \<in> {Calls, Imports, Refs, Mentions, About, Supports, Opposes, ParticipatesIn, Attached,
              EmployedBy, HasFacet, FacetOf, InWorld, SetIn}
      then Ok () else Err (EdgeInvalidClaim ''vault.edges.put rejects structural edge kinds''))"

fun lambda_for_kind :: "edge_kind \<Rightarrow> f32 option" where
  "lambda_for_kind AuthoredBy = Some 0x3F666666"
| "lambda_for_kind ScopedTo = Some 0x3F333333"
| "lambda_for_kind PartOf = Some 0x3F4CCCCD"
| "lambda_for_kind Supersedes = Some 0x3E99999A"
| "lambda_for_kind BelongsTo = Some 0x3F800000"
| "lambda_for_kind ClaimOf = Some 0x3F800000"
| "lambda_for_kind ChildOf = None"
| "lambda_for_kind AssignedTo = None"
| "lambda_for_kind DerivedFrom = Some 0x3E4CCCCD"
| "lambda_for_kind Mentions = Some 0x3F19999A"
| "lambda_for_kind About = Some 0x3F000000"
| "lambda_for_kind Supports = Some 0x3F800000"
| "lambda_for_kind Opposes = Some 0"
| "lambda_for_kind ParticipatesIn = Some 0x3F800000"
| "lambda_for_kind Attached = Some 0x3F4CCCCD"
| "lambda_for_kind EmployedBy = Some 0x3DCCCCCD"
| "lambda_for_kind HasFacet = Some 0x3D4CCCCD"
| "lambda_for_kind FacetOf = Some 0x3D4CCCCD"
| "lambda_for_kind InWorld = Some 0x3D4CCCCD"
| "lambda_for_kind SetIn = Some 0x3D4CCCCD"
| "lambda_for_kind SameAs = None"
| "lambda_for_kind MergedInto = Some 0x3E99999A"
| "lambda_for_kind SplitInto = Some 0x3E99999A"
| "lambda_for_kind BlockedBy = None"
| "lambda_for_kind Blocks = None"
| "lambda_for_kind Fulfills = None"
| "lambda_for_kind DischargedBy = None"
| "lambda_for_kind Parent = None"
| "lambda_for_kind SpawnedBy = None"
| "lambda_for_kind AddressedTo = None"
| "lambda_for_kind RepliesTo = None"
| "lambda_for_kind Regenerates = None"
| "lambda_for_kind Calls = None"
| "lambda_for_kind Imports = None"
| "lambda_for_kind Refs = None"

section \<open>Little-endian numbers\<close>

lemma length_word_le_bytes [simp]: "length (word_le_bytes k w) = k"
  by (simp add: word_le_bytes_def to_le_bytes_def)

lemma word_le_roundtrip:
  fixes w :: "'a :: len word"
  assumes "LENGTH('a) = 8 * k"
  shows "word_from_le_bytes (word_le_bytes k w) = w"
proof -
  have "(2 :: nat) ^ LENGTH('a) = 256 ^ k" unfolding assms by (simp add: power_mult)
  then have "unat w < 256 ^ k" using unsigned_less [of w] by (metis (full_types))
  then show ?thesis
    by (simp add: word_from_le_bytes_def word_le_bytes_def to_le_bytes_def from_to_be_bytes)
qed

lemma word_le_canonical:
  assumes "LENGTH('a :: len) = 8 * k" "length bs = k"
  shows "word_le_bytes k (word_from_le_bytes bs :: 'a word) = bs"
proof -
  have "from_be_bytes (rev bs) < 256 ^ length (rev bs)" by (rule be_bytes_bound)
  also have "\<dots> = 2 ^ LENGTH('a)" using assms by (simp add: power_mult)
  finally have "unat (word_from_le_bytes bs :: 'a word) = from_be_bytes (rev bs)"
    by (simp add: word_from_le_bytes_def unsigned_of_nat take_bit_nat_eq_self)
  then show ?thesis
    using to_from_be_bytes [of "rev bs"] assms(2) by (simp add: word_le_bytes_def to_le_bytes_def)
qed

lemmas le_f32 = word_le_roundtrip [where ?'a = 32 and k = 4, simplified]
lemmas le_u64 = word_le_roundtrip [where ?'a = 64 and k = 8, simplified]
lemmas le_f32_canonical = word_le_canonical [where ?'a = 32 and k = 4, simplified]
lemmas le_u64_canonical = word_le_canonical [where ?'a = 64 and k = 8, simplified]

lemma unit_interval_finite:
  assumes "in_unit_interval w"
  shows "f32_is_finite w"
proof (cases "w = 0x80000000")
  case False
  with assms have "unat w \<le> unat (0x3F800000 :: f32)" by (simp add: in_unit_interval_def word_le_nat_alt)
  then have "unat w div 2 ^ 23 \<le> 127" using div_le_mono [of "unat w" "0x3F800000" "2 ^ 23"] by simp
  then show ?thesis by (simp add: f32_is_finite_def)
qed (simp add: f32_is_finite_def)

section \<open>Tables over the kinds\<close>

lemma kind_bytes: "kind_from_byte b = Some k \<longleftrightarrow> b = kind_byte k"
proof
  assume "kind_from_byte b = Some k"
  then show "b = kind_byte k" by (auto simp: kind_from_byte_def find_Some_iff)
next
  assume "b = kind_byte k"
  then show "kind_from_byte b = Some k" by (cases k) (simp_all add: kind_from_byte_def all_edge_kinds_def)
qed

lemma kind_names: "kind_from_name s = Some k \<longleftrightarrow> s = kind_name k"
proof
  assume "kind_from_name s = Some k"
  then show "s = kind_name k" by (auto simp: kind_from_name_def find_Some_iff)
next
  assume "s = kind_name k"
  then show "kind_from_name s = Some k" by (cases k) (simp_all add: kind_from_name_def all_edge_kinds_def)
qed

lemma status_bytes: "status_from_byte b = Some s \<longleftrightarrow> b = status_byte s"
  by (cases s) (auto simp: status_from_byte_def)

lemma actor_class_bytes: "actor_class_from_byte b = Some a \<longleftrightarrow> b = actor_class_byte a"
  by (cases a) (auto simp: actor_class_from_byte_def)

section \<open>The codec loses nothing\<close>

definition edge_fields :: "edge_kind \<Rightarrow> f32 \<Rightarrow> 64 word \<Rightarrow> vad \<Rightarrow> provenance_flags option \<Rightarrow> decoded_edge" where
  "edge_fields k w t v p =
     \<lparr>layout = edge_layout_for_kind k (p \<noteq> None), weight = w, created_at = t,
      edge_vad = (if edge_layout_for_kind k False = Structural then None else Some v), provenance = p\<rparr>"

lemma layout_cases:
  "(edge_layout_for_kind k c = Structural) = (edge_layout_for_kind k False = Structural)"
  "edge_layout_for_kind k False \<noteq> Structural \<Longrightarrow> edge_layout_for_kind k False = SemanticBare"
  "edge_layout_for_kind k False \<noteq> Structural \<Longrightarrow> edge_layout_for_kind k True = SemanticProvenanced"
  unfolding edge_layout_for_kind_def by (simp_all split: if_split_asm del: insert_iff)

lemma layout_of_len:
  "layout_from_len n = Some l \<longleftrightarrow> n = layout_bytes l"
  by (cases l) (auto simp: layout_from_len_def)

lemma read_le_field [simp]:
  fixes w :: "'a :: len word"
  assumes "LENGTH('a) = 8 * k" "length pre = off"
  shows "read_le k (pre @ word_le_bytes k w @ post) off = Ok w"
  using assms by (simp add: read_le_def word_le_roundtrip)

lemma read_vad_bytes:
  assumes "length pre = 12"
  shows "read_vad (pre @ vad_bytes v @ post) = Ok v"
proof -
  have "read_le 4 (pre @ word_le_bytes 4 (valence v) @
          (word_le_bytes 4 (arousal v) @ word_le_bytes 4 (dominance v) @ post)) 12 = Ok (valence v)"
    using assms by (intro read_le_field) simp_all
  moreover have "read_le 4 ((pre @ word_le_bytes 4 (valence v)) @ word_le_bytes 4 (arousal v) @
          (word_le_bytes 4 (dominance v) @ post)) 16 = Ok (arousal v)"
    using assms by (intro read_le_field) simp_all
  moreover have "read_le 4 ((pre @ word_le_bytes 4 (valence v) @ word_le_bytes 4 (arousal v)) @
          word_le_bytes 4 (dominance v) @ post) 20 = Ok (dominance v)"
    using assms by (intro read_le_field) simp_all
  ultimately show ?thesis by (simp add: read_vad_def vad_bytes_def)
qed

lemma encoded_edge:
  assumes "encode_edge_value k w t v p = Ok bs"
  shows "in_unit_interval w" "invalid_component v = None"
    and "edge_layout_for_kind k False = Structural \<Longrightarrow> p = None \<and> is_neutral v"
    and "bs = word_le_bytes 4 w @ word_le_bytes 8 t @
           (if edge_layout_for_kind k False = Structural then [] else vad_bytes v) @
           (case p of None \<Rightarrow> [] | Some f \<Rightarrow> [status_byte (confirmation f), actor_class_byte (actor f)])"
  using assms layout_cases(1) [of k "p \<noteq> None"]
  by (auto simp: encode_edge_value_def validate_edge_weight_def split: if_splits option.splits prod.splits)

lemma length_vad_bytes [simp]: "length (vad_bytes v) = 12"
  by (simp add: vad_bytes_def)

lemma valid_vad:
  "invalid_component v = None \<longleftrightarrow> non_finite_component v = None \<and> out_of_range_component v = None"
  by (auto simp: invalid_component_def split: option.splits)

lemma decode_encoded:
  assumes "encode_edge_value k w t v p = Ok bs"
  shows "decode_edge_value bs = Ok (edge_fields k w t v p)" "length bs = layout_bytes (layout (edge_fields k w t v p))"
proof -
  note e = encoded_edge [OF assms]
  have w: "read_le 4 (word_le_bytes 4 w @ xs) 0 = Ok w" for xs
    using read_le_field [where pre = "[]" and w = w and k = 4 and off = 0 and post = xs] by simp
  have t: "read_le 8 (word_le_bytes 4 w @ word_le_bytes 8 t @ xs) 4 = Ok t" for xs
    by (rule read_le_field) simp_all
  have v: "read_vad (word_le_bytes 4 w @ word_le_bytes 8 t @ vad_bytes v @ xs) = Ok v" for xs
    using read_vad_bytes [of "word_le_bytes 4 w @ word_le_bytes 8 t"] by simp
  have n: "((word_le_bytes 4 w @ word_le_bytes 8 t @ vad_bytes v @ [a, b]) ! 24) = a"
    "((word_le_bytes 4 w @ word_le_bytes 8 t @ vad_bytes v @ [a, b]) ! 25) = b" for a b
    by (simp_all add: nth_append)
  have f: "read_flags (word_le_bytes 4 w @ word_le_bytes 8 t @ vad_bytes v @
      [status_byte (confirmation f), actor_class_byte (actor f)]) = Ok f" for f
    unfolding read_flags_def n by (simp add: status_bytes [THEN iffD2] actor_class_bytes [THEN iffD2])
  have fin: "f32_is_finite w" using e(1) by (rule unit_interval_finite)
  show l: "length bs = layout_bytes (layout (edge_fields k w t v p))"
    using e(3,4) layout_cases(2,3) [of k] by (cases p) (auto simp: edge_fields_def)
  have t0: "read_le 8 (word_le_bytes 4 w @ word_le_bytes 8 t) 4 = Ok t" using t [of "[]"] by simp
  have v0: "read_vad (word_le_bytes 4 w @ word_le_bytes 8 t @ vad_bytes v) = Ok v" using v [of "[]"] by simp
  show "decode_edge_value bs = Ok (edge_fields k w t v p)"
  proof (cases "edge_layout_for_kind k False = Structural")
    case True
    with e(3,4) have "bs = word_le_bytes 4 w @ word_le_bytes 8 t" "p = None" by simp_all
    with True fin show ?thesis
      by (simp add: decode_edge_value_def edge_fields_def layout_from_len_def w t0)
  next
    case False
    note s = False layout_cases(2,3) [OF False]
    show ?thesis
    proof (cases p)
      case None
      with e(4) False have "bs = word_le_bytes 4 w @ word_le_bytes 8 t @ vad_bytes v" by simp
      with s None fin e(2) show ?thesis
        by (simp add: decode_edge_value_def edge_fields_def layout_from_len_def w t v0 valid_vad)
    next
      case (Some f')
      with e(4) False have "bs = word_le_bytes 4 w @ word_le_bytes 8 t @ vad_bytes v @
          [status_byte (confirmation f'), actor_class_byte (actor f')]" by simp
      with s Some fin e(2) show ?thesis
        by (simp add: decode_edge_value_def edge_fields_def layout_from_len_def w t v f valid_vad)
    qed
  qed
qed

lemma read_le_canonical:
  assumes "read_le k bs off = Ok (w :: 'a :: len word)" "LENGTH('a) = 8 * k"
  shows "word_le_bytes k w = take k (drop off bs)"
  using assms word_le_canonical [where ?'a = 'a and k = k and bs = "take k (drop off bs)"]
  by (simp add: read_le_def split: if_splits)

lemma read_vad_canonical:
  assumes "read_vad bs = Ok v"
  shows "vad_bytes v = take 12 (drop 12 bs)"
proof -
  obtain x y z where "read_le 4 bs 12 = Ok x" "read_le 4 bs 16 = Ok y" "read_le 4 bs 20 = Ok z"
    "v = \<lparr>valence = x, arousal = y, dominance = z\<rparr>"
    using assms by (auto simp: read_vad_def split: sum.splits)
  then have "vad_bytes v = take 4 (drop 12 bs) @ take 4 (drop 16 bs) @ take 4 (drop 20 bs)"
    using read_le_canonical [where ?'a = 32 and k = 4] by (simp add: vad_bytes_def)
  also have "\<dots> = take 12 (drop 12 bs)"
    using take_add [of 4 8 "drop 12 bs"] take_add [of 4 4 "drop 16 bs"] by (simp add: add.commute)
  finally show ?thesis .
qed

lemma read_flags_canonical:
  assumes "read_flags bs = Ok f" "length bs = 26"
  shows "[status_byte (confirmation f), actor_class_byte (actor f)] = drop 24 bs"
proof -
  have "drop 24 bs = [bs ! 24, bs ! 25]"
    using assms(2) by (simp add: Cons_nth_drop_Suc [symmetric])
  then show ?thesis
    using assms(1) by (auto simp: read_flags_def status_bytes actor_class_bytes split: option.splits)
qed

lemma decoded_edge:
  assumes "decode_edge_value bs = Ok d"
  shows "length bs = layout_bytes (layout d)" "f32_is_finite (weight d)"
    and "take 12 bs = word_le_bytes 4 (weight d) @ word_le_bytes 8 (created_at d)"
    and "layout d = Structural \<Longrightarrow> edge_vad d = None"
    and "layout d \<noteq> Structural \<Longrightarrow> \<exists>v. edge_vad d = Some v \<and> invalid_component v = None \<and> vad_bytes v = take 12 (drop 12 bs)"
    and "layout d \<noteq> SemanticProvenanced \<Longrightarrow> provenance d = None"
    and "layout d = SemanticProvenanced \<Longrightarrow> \<exists>f. provenance d = Some f \<and>
           [status_byte (confirmation f), actor_class_byte (actor f)] = drop 24 bs"
proof -
  obtain l w t v p where d: "layout_from_len (length bs) = Some l" "read_le 4 bs 0 = Ok w"
    "f32_is_finite w" "read_le 8 bs 4 = Ok t"
    "(if l = Structural then Ok None
            else case read_vad bs of Inl e \<Rightarrow> Err e | Inr v \<Rightarrow>
                 if non_finite_component v \<noteq> None \<or> out_of_range_component v \<noteq> None
                 then Err (EdgeCorrupted ''edge value'') else Ok (Some v)) = Ok v"
    "(if l = SemanticProvenanced
            then case read_flags bs of Inl e \<Rightarrow> Err e | Inr f \<Rightarrow> Ok (Some f)
            else Ok None) = Ok p"
    "d = \<lparr>layout = l, weight = w, created_at = t, edge_vad = v, provenance = p\<rparr>"
    using assms by (simp add: decode_edge_value_def split: option.split_asm sum.split_asm if_split_asm(1))
  show len: "length bs = layout_bytes (layout d)" using d by (simp add: layout_of_len)
  show "f32_is_finite (weight d)" using d by simp
  show "take 12 bs = word_le_bytes 4 (weight d) @ word_le_bytes 8 (created_at d)"
    using d(2,4,7) read_le_canonical [where ?'a = 32 and k = 4] read_le_canonical [where ?'a = 64 and k = 8]
      take_add [of 4 8 bs] by simp
  show "layout d = Structural \<Longrightarrow> edge_vad d = None" using d(5,7) by simp
  show "layout d \<noteq> SemanticProvenanced \<Longrightarrow> provenance d = None" using d(6,7) by simp
  show "layout d \<noteq> Structural \<Longrightarrow> \<exists>v. edge_vad d = Some v \<and> invalid_component v = None \<and> vad_bytes v = take 12 (drop 12 bs)"
    using d(5,7) read_vad_canonical by (auto simp: valid_vad simp del: not_None_eq split: sum.split_asm if_split_asm)
  show "layout d = SemanticProvenanced \<Longrightarrow> \<exists>f. provenance d = Some f \<and>
           [status_byte (confirmation f), actor_class_byte (actor f)] = drop 24 bs"
    using d(6,7) len read_flags_canonical by (auto split: sum.split_asm)
qed


text \<open>C34: The edge codec is faithful in both directions: what encodes decodes to its fields under the
  kind it was written for, in the width of its layout, and a value that decodes for a kind, of a
  weight the write path admits, is the one encoding of what it decodes to.\<close>

theorem edge_value_codec:
  "(encode_edge_value k w t v p = Ok bs \<longrightarrow>
      decode_edge_value_for_kind k bs = Ok (edge_fields k w t v p) \<and>
      length bs = layout_bytes (edge_layout_for_kind k (p \<noteq> None))) \<and>
   (decode_edge_value_for_kind k bs = Ok d \<and> in_unit_interval (weight d) \<longrightarrow>
      encode_edge_value k (weight d) (created_at d) (case edge_vad d of None \<Rightarrow> neutral_vad | Some v \<Rightarrow> v)
        (provenance d) = Ok bs)"
proof (intro conjI impI; (elim conjE)?)
  assume e: "encode_edge_value k w t v p = Ok bs"
  have "layout (edge_fields k w t v p) = edge_layout_for_kind k (p \<noteq> None)" by (simp add: edge_fields_def)
  then show "length bs = layout_bytes (edge_layout_for_kind k (p \<noteq> None))" using decode_encoded(2) [OF e] by simp
  show "decode_edge_value_for_kind k bs = Ok (edge_fields k w t v p)"
    using decode_encoded(1) [OF e] layout_cases(1) [of k "p \<noteq> None"] encoded_edge(3) [OF e] layout_cases(2,3) [of k]
    by (cases p) (auto simp: decode_edge_value_for_kind_def edge_fields_def)
next
  assume "decode_edge_value_for_kind k bs = Ok d" and w: "in_unit_interval (weight d)"
  then have d: "decode_edge_value bs = Ok d"
    and legal: "(edge_layout_for_kind k False = Structural) = (layout d = Structural)"
    by (auto simp: decode_edge_value_for_kind_def split: sum.split_asm if_split_asm)
  note c = decoded_edge [OF d]
  have bs: "bs = take 12 bs @ take 12 (drop 12 bs) @ drop 24 bs" by (simp flip: append_assoc take_add)
  show "encode_edge_value k (weight d) (created_at d) (case edge_vad d of None \<Rightarrow> neutral_vad | Some v \<Rightarrow> v)
      (provenance d) = Ok bs"
  proof (cases "layout d = Structural")
    case True
    then have "bs = take 12 bs" using c(1) by simp
    moreover have "is_neutral neutral_vad" "invalid_component neutral_vad = None"
      by (simp_all add: is_neutral_def neutral_vad_def f32_is_zero_def invalid_component_def
          non_finite_component_def out_of_range_component_def f32_is_finite_def in_unit_interval_def
          in_signed_unit_interval_def)
    ultimately show ?thesis
      using True legal c(3,4,6) w by (simp add: encode_edge_value_def validate_edge_weight_def)
  next
    case False
    then obtain v where v: "edge_vad d = Some v" "invalid_component v = None" "vad_bytes v = take 12 (drop 12 bs)"
      using c(5) by auto
    have s: "edge_layout_for_kind k b \<noteq> Structural" for b using False legal layout_cases(1) by blast
    have "drop 24 bs = (case provenance d of None \<Rightarrow> []
        | Some f \<Rightarrow> [status_byte (confirmation f), actor_class_byte (actor f)])"
      using False c(1,6,7) by (cases "layout d") auto
    with bs v w s c(3) show ?thesis
      by (simp add: encode_edge_value_def validate_edge_weight_def)
  qed
qed

lemma to_digits_numeral:
  "to_digits b (numeral m) n = to_digits b (pred_numeral m) (n div b) @ [n mod b]"
  by (simp add: numeral_eq_Suc)

lemma edge_value_codec_witness:
  "encode_edge_value Mentions 0x3F000000 7 \<lparr>valence = 0xBF800000, arousal = 0, dominance = 0x3F800000\<rparr>
     (Some \<lparr>confirmation = StDisputed, actor = SystemActor\<rparr>) =
   Ok [0, 0, 0, 63, 7, 0, 0, 0, 0, 0, 0, 0, 0, 0, 128, 191, 0, 0, 0, 0, 0, 0, 128, 63, 2, 2] \<and>
   decode_edge_value_for_kind Mentions
     [0, 0, 0, 63, 7, 0, 0, 0, 0, 0, 0, 0, 0, 0, 128, 191, 0, 0, 0, 0, 0, 0, 128, 63, 2, 2] =
   Ok \<lparr>layout = SemanticProvenanced, weight = 0x3F000000, created_at = 7,
     edge_vad = Some \<lparr>valence = 0xBF800000, arousal = 0, dominance = 0x3F800000\<rparr>,
     provenance = Some \<lparr>confirmation = StDisputed, actor = SystemActor\<rparr>\<rparr>"
proof -
  have e: "encode_edge_value Mentions 0x3F000000 7 \<lparr>valence = 0xBF800000, arousal = 0, dominance = 0x3F800000\<rparr>
     (Some \<lparr>confirmation = StDisputed, actor = SystemActor\<rparr>) =
   Ok [0, 0, 0, 63, 7, 0, 0, 0, 0, 0, 0, 0, 0, 0, 128, 191, 0, 0, 0, 0, 0, 0, 128, 63, 2, 2]"
    by (simp add: encode_edge_value_def validate_edge_weight_def invalid_component_def
        non_finite_component_def out_of_range_component_def f32_is_finite_def in_unit_interval_def
        in_signed_unit_interval_def edge_layout_for_kind_def vad_bytes_def word_le_bytes_def
        to_le_bytes_def to_be_bytes_def to_digits_numeral)
  with edge_value_codec [THEN conjunct1, rule_format, OF e] show ?thesis
    by (simp add: edge_fields_def edge_layout_for_kind_def)
qed

section \<open>Strict records\<close>

lemma parse_edge_key_iff:
  "parse_edge_key key = Ok (s, k, t) \<longleftrightarrow>
     key = encode_edge_key s k t \<and> length s = 16 \<and> length t = 16 \<and>
     \<not> is_reserved_entity_id_bytes s \<and> \<not> is_reserved_entity_id_bytes t"
proof
  assume "parse_edge_key key = Ok (s, k, t)"
  then have p: "length key = 33" "s = take 16 key" "t = drop 17 key" "kind_byte k = key ! 16"
    "\<not> is_reserved_entity_id_bytes s" "\<not> is_reserved_entity_id_bytes t"
    by (auto simp: parse_edge_key_def from_bytes_def kind_bytes split: if_splits option.splits)
  then have "key = take 16 key @ key ! 16 # drop 17 key"
    using id_take_nth_drop [of 16 key] by simp
  with p show "key = encode_edge_key s k t \<and> length s = 16 \<and> length t = 16 \<and>
     \<not> is_reserved_entity_id_bytes s \<and> \<not> is_reserved_entity_id_bytes t"
    by (auto simp: encode_edge_key_def)
next
  assume "key = encode_edge_key s k t \<and> length s = 16 \<and> length t = 16 \<and>
     \<not> is_reserved_entity_id_bytes s \<and> \<not> is_reserved_entity_id_bytes t"
  then show "parse_edge_key key = Ok (s, k, t)"
    by (simp add: parse_edge_key_def encode_edge_key_def from_bytes_def nth_append kind_bytes [THEN iffD2])
qed

text \<open>The strict reader fails closed and loses nothing: the rows it accepts are exactly a key
  built from two ids that are not reserved and a value that decodes for the key's kind, and every
  other row is refused with the one error of a corrupted record.\<close>

theorem strict_edge_record:
  "(parse_edge_record key value = Ok r \<longleftrightarrow>
      key = encode_edge_key (edge_source r) (edge_kind_of r) (edge_target r) \<and>
      length (edge_source r) = 16 \<and> length (edge_target r) = 16 \<and>
      \<not> is_reserved_entity_id_bytes (edge_source r) \<and> \<not> is_reserved_entity_id_bytes (edge_target r) \<and>
      decode_edge_value_for_kind (edge_kind_of r) value = Ok (edge_decoded r)) \<and>
   (parse_edge_record key value = Err e \<longleftrightarrow>
      e = edge_record_error \<and> (\<nexists>q. parse_edge_record key value = Ok q))"
proof
  have err: "parse_edge_key key = Err e \<Longrightarrow> e = edge_record_error" for e
    by (auto simp: parse_edge_key_def split: if_splits sum.splits option.splits)
  show "parse_edge_record key value = Ok r \<longleftrightarrow>
      key = encode_edge_key (edge_source r) (edge_kind_of r) (edge_target r) \<and>
      length (edge_source r) = 16 \<and> length (edge_target r) = 16 \<and>
      \<not> is_reserved_entity_id_bytes (edge_source r) \<and> \<not> is_reserved_entity_id_bytes (edge_target r) \<and>
      decode_edge_value_for_kind (edge_kind_of r) value = Ok (edge_decoded r)"
  proof -
    have "parse_edge_record key value = Ok r \<longleftrightarrow>
        parse_edge_key key = Ok (edge_source r, edge_kind_of r, edge_target r) \<and>
        decode_edge_value_for_kind (edge_kind_of r) value = Ok (edge_decoded r)"
      by (cases r) (auto simp: parse_edge_record_def split: sum.splits prod.splits)
    then show ?thesis unfolding parse_edge_key_iff by blast
  qed
  show "parse_edge_record key value = Err e \<longleftrightarrow>
      e = edge_record_error \<and> (\<nexists>q. parse_edge_record key value = Ok q)"
    using err by (auto simp: parse_edge_record_def split: sum.splits prod.splits)
qed

section \<open>The tables agree\<close>

text \<open>The tables over the kinds agree: stored bytes, names and wire numbers decode exactly the
  kind they stand for; guest code may write only kinds the public builders create, and exactly the
  semantic kinds and the three code relations; a kind without a stored prior is never
  traversed, and the traversal budget of a traversed kind is its prior, except for the five
  world-model kinds.\<close>

theorem edge_tables_agree:
  "(kind_from_byte b = Some k \<longleftrightarrow> b = kind_byte k) \<and>
   (kind_from_name s = Some k \<longleftrightarrow> s = kind_name k) \<and>
   (kind_from_wire n = Some k \<longleftrightarrow> unat n = unat (kind_byte k)) \<and>
   {k. ensure_public_memory_edge_kind k = Ok ()} \<subseteq> {k. validate_public_edge_creation_kind k = Ok ()} \<and>
   {k. validate_public_edge_creation_kind k = Ok ()} \<subseteq> {k. validate_public_edge_kind k = Ok ()} \<and>
   {k. ensure_public_memory_edge_kind k = Ok ()} =
     {k. edge_layout_for_kind k False \<noteq> Structural} \<union> {Calls, Imports, Refs} \<and>
   {k. default_weight k = None} \<subseteq> {k. lambda_for_kind k = None} \<and>
   {k. lambda_for_kind k \<noteq> None \<and> lambda_for_kind k \<noteq> default_weight k} =
     {EmployedBy, HasFacet, FacetOf, InWorld, SetIn}"
proof (intro conjI)
  show "kind_from_wire n = Some k \<longleftrightarrow> unat n = unat (kind_byte k)"
  proof (cases "n < 256")
    case True
    then have "unat n < 256" by (simp add: word_less_nat_alt)
    then have "unat (of_nat (unat n) :: byte) = unat n"
      by (simp only: unsigned_of_nat) (simp add: take_bit_nat_eq_self)
    with True show ?thesis by (metis kind_bytes kind_from_wire_def unsigned_word_eqI)
  next
    case False
    then have "\<not> unat n < 256" by (simp add: word_less_nat_alt)
    moreover have "unat (kind_byte k) < 256" using unsigned_less [of "kind_byte k"] by simp
    ultimately show ?thesis using False by (auto simp: kind_from_wire_def)
  qed
  show "{k. ensure_public_memory_edge_kind k = Ok ()} \<subseteq> {k. validate_public_edge_creation_kind k = Ok ()}"
    by (auto simp: ensure_public_memory_edge_kind_def validate_public_edge_creation_kind_def
        validate_public_edge_kind_def split: if_splits)
  show "{k. validate_public_edge_creation_kind k = Ok ()} \<subseteq> {k. validate_public_edge_kind k = Ok ()}"
    by (rule subsetI, rename_tac x, case_tac x)
      (simp_all add: validate_public_edge_creation_kind_def validate_public_edge_kind_def)
  show "{k. ensure_public_memory_edge_kind k = Ok ()} =
     {k. edge_layout_for_kind k False \<noteq> Structural} \<union> {Calls, Imports, Refs}"
    by (rule set_eqI, rename_tac x, case_tac x)
      (simp_all add: ensure_public_memory_edge_kind_def edge_layout_for_kind_def)
  show "{k. default_weight k = None} \<subseteq> {k. lambda_for_kind k = None}"
    by (rule subsetI, rename_tac x, case_tac x) simp_all
  show "{k. lambda_for_kind k \<noteq> None \<and> lambda_for_kind k \<noteq> default_weight k} =
     {EmployedBy, HasFacet, FacetOf, InWorld, SetIn}"
    by (rule set_eqI, rename_tac x, case_tac x) simp_all
qed (simp_all add: kind_bytes kind_names)

end
