(* ===== verification/OrderedMaps.thy ===== *)
theory OrderedMaps
  imports Prelude
begin

text \<open>
  The ordered containers of the code.  A \<open>BTreeMap\<close> is the list of its entries in key order and a
  \<open>BTreeSet\<close> the list of its members in order, so that what the code enumerates is a computation.
  The lemmas relate them to maps and sets, which is how the component proofs use them.

  The locale \<open>keyed_store\<close> is what a client of a keyed store relies on: an invariant every
  operation keeps, and what a lookup answers after it.  Its client lemma is that a program of
  store operations is a program on maps, so any two stores that start with one view keep one.
\<close>

section \<open>Entries in key order\<close>

type_synonym ('k, 'v) omap = "('k \<times> 'v) list"

definition ordered :: "('k :: linorder, 'v) omap \<Rightarrow> bool" where
  "ordered m \<longleftrightarrow> sorted_wrt (\<lambda>x y. fst x < fst y) m"

definition om_insert :: "'k :: linorder \<Rightarrow> 'v \<Rightarrow> ('k, 'v) omap \<Rightarrow> ('k, 'v) omap" where
  "om_insert k v m = filter (\<lambda>e. fst e < k) m @ (k, v) # filter (\<lambda>e. k < fst e) m"

definition om_remove :: "'k \<Rightarrow> ('k, 'v) omap \<Rightarrow> ('k, 'v) omap" where
  "om_remove k m = filter (\<lambda>e. fst e \<noteq> k) m"

definition os_insert :: "'a :: linorder \<Rightarrow> 'a list \<Rightarrow> 'a list" where
  "os_insert x s = filter (\<lambda>y. y < x) s @ x # filter (\<lambda>y. x < y) s"

definition os_remove :: "'a \<Rightarrow> 'a list \<Rightarrow> 'a list" where
  "os_remove x s = filter (\<lambda>y. y \<noteq> x) s"

lemma ordered_Nil [simp]: "ordered []" by (simp add: ordered_def)

lemma ordered_Cons [simp]: "ordered (e # m) \<longleftrightarrow> (\<forall>x \<in> set m. fst e < fst x) \<and> ordered m"
  by (simp add: ordered_def)

lemma ordered_append:
  "ordered (m @ n) \<longleftrightarrow> ordered m \<and> ordered n \<and> (\<forall>x \<in> set m. \<forall>y \<in> set n. fst x < fst y)"
  by (simp add: ordered_def sorted_wrt_append)

lemma ordered_filter [simp]: "ordered m \<Longrightarrow> ordered (filter P m)"
  by (simp add: ordered_def sorted_wrt_filter)

lemma ordered_distinct: "ordered m \<Longrightarrow> distinct (map fst m)"
  by (induction m) auto

lemma ordered_insert [simp]: "ordered m \<Longrightarrow> ordered (om_insert k v m)"
  by (auto simp: om_insert_def ordered_append)

lemma ordered_remove [simp]: "ordered m \<Longrightarrow> ordered (om_remove k m)"
  by (simp add: om_remove_def)

lemma map_of_filter_key: "map_of (filter (\<lambda>e. P (fst e)) m) j = (if P j then map_of m j else None)"
  by (induction m) auto

lemma map_of_below: "map_of (filter (\<lambda>e. fst e < k) m) j = (if j < k then map_of m j else None)"
  by (rule map_of_filter_key)

lemma map_of_above: "map_of (filter (\<lambda>e. k < fst e) m) j = (if k < j then map_of m j else None)"
  by (rule map_of_filter_key)

lemma map_of_insert [simp]: "map_of (om_insert k v m) = (map_of m)(k \<mapsto> v)"
proof
  fix j
  consider "j < k" | "j = k" | "k < j" using linorder_less_linear by blast
  then show "map_of (om_insert k v m) j = ((map_of m)(k \<mapsto> v)) j"
    by cases (cases "map_of m j"; simp add: om_insert_def map_add_def map_of_below map_of_above less_imp_neq not_less_iff_gr_or_eq)+
qed

lemma map_of_remove [simp]: "map_of (om_remove k m) = (map_of m)(k := None)"
  by (rule ext) (simp add: om_remove_def map_of_filter_key [of "\<lambda>j. j \<noteq> k"])

lemma map_of_map_values: "map_of (map (\<lambda>(k, v). (k, f k v)) m) j = map_option (f j) (map_of m j)"
  by (induction m) auto

lemma ordered_map_values [simp]: "ordered (map (\<lambda>(k, v). (k, f k v)) m) = ordered m"
  by (induction m) auto

lemma ordered_eqI:
  assumes "ordered m" "ordered n" "map_of m = map_of n"
  shows "m = n"
proof -
  have s: "set m = set n"
    using assms ordered_distinct map_of_eq_Some_iff by (metis subrelI subset_antisym)
  have "sorted (map fst l) \<and> distinct (map fst l)" if "ordered l" for l :: "('a, 'b) omap"
    using that by (induction l) (auto simp: less_imp_le)
  then show ?thesis
    using assms s by (intro map_sorted_distinct_set_unique [of fst]) (auto simp: distinct_map)
qed

lemma ordered_map_of: "ordered m \<Longrightarrow> map_of m k = Some v \<longleftrightarrow> (k, v) \<in> set m"
  by (simp add: ordered_distinct)

lemma dom_ordered: "dom (map_of m) = fst ` set m"
  by (rule dom_map_of_conv_image_fst)

section \<open>Ordered sets\<close>

lemma set_os_insert [simp]: "set (os_insert x s) = insert x (set s)"
  by (auto simp: os_insert_def)

lemma set_os_remove [simp]: "set (os_remove x s) = set s - {x}"
  by (auto simp: os_remove_def)

lemma sorted_os_insert [simp]: "sorted_wrt (<) s \<Longrightarrow> sorted_wrt (<) (os_insert x s)"
  by (auto simp: os_insert_def sorted_wrt_append sorted_wrt_filter)

lemma sorted_os_remove [simp]: "sorted_wrt (<) s \<Longrightarrow> sorted_wrt (<) (os_remove x s)"
  by (simp add: os_remove_def sorted_wrt_filter)

section \<open>A keyed store\<close>

datatype ('k, 'v) store_op = StPut 'k 'v | StDelete 'k | StClear

fun store_spec :: "('k, 'v) store_op \<Rightarrow> ('k \<Rightarrow> 'v option) \<Rightarrow> ('k \<Rightarrow> 'v option)" where
  "store_spec (StPut k v) m = m(k \<mapsto> v)"
| "store_spec (StDelete k) m = m(k := None)"
| "store_spec StClear m = Map.empty"

locale keyed_store =
  fixes inv :: "'s \<Rightarrow> bool"
    and view :: "'s \<Rightarrow> 'k \<Rightarrow> 'v option"
    and put :: "'k \<Rightarrow> 'v \<Rightarrow> 's \<Rightarrow> 's"
    and delete :: "'k \<Rightarrow> 's \<Rightarrow> 's"
    and clear :: "'s \<Rightarrow> 's"
  assumes put_ok: "inv s \<Longrightarrow> inv (put k v s) \<and> view (put k v s) = (view s)(k \<mapsto> v)"
    and delete_ok: "inv s \<Longrightarrow> inv (delete k s) \<and> view (delete k s) = (view s)(k := None)"
    and clear_ok: "inv s \<Longrightarrow> inv (clear s) \<and> view (clear s) = Map.empty"
begin

fun step :: "('k, 'v) store_op \<Rightarrow> 's \<Rightarrow> 's" where
  "step (StPut k v) s = put k v s"
| "step (StDelete k) s = delete k s"
| "step StClear s = clear s"

lemma step_refines: "inv s \<Longrightarrow> inv (step a s) \<and> view (step a s) = store_spec a (view s)"
  by (cases a) (simp_all add: put_ok delete_ok clear_ok)

lemma run_refines:
  "inv s \<Longrightarrow> inv (fold step ops s) \<and> view (fold step ops s) = fold store_spec ops (view s)"
  by (induction ops arbitrary: s) (simp_all add: step_refines)

end

interpretation sorted_rows: keyed_store ordered map_of om_insert om_remove "\<lambda>_. []"
  by unfold_locales auto

end
