(* ===== verification/RoomJournal.thy ===== *)
theory RoomJournal
  imports Edges OrderedMaps
begin

text \<open>
  The typed journal of an off-record room (\<open>crates/oneiron-store/src/session_overlay/journal.rs\<close>) and
  the batch operations it records (\<open>batch_op.rs\<close>): what an entry is, the bytes it spends of the
  room's budget, the closure of a turn and the operation a promotion replays for an entry.

  A \<open>usize\<close> is a natural number, with the saturating addition all theories share and a checked
  addition of its own.  The compiled size of an entry less its run token, which \<open>size_of\<close> gives the code, is a parameter.  Of a claim
  candidate, which the journal refuses, the code only measures how long it prints; its other
  fields, and the write envelope of a gap decay, are never read here.
\<close>

section \<open>Errors and machine sizes\<close>

datatype room_error =
    RoomInvariant string
  | OverlayFull nat nat
  | LeaseClosed "64 word"
  | RoomOverflow string
  | RoomCorrupt string
  | TurnNotInJournal string
  | TalkOnly string

definition checked_add :: "string \<Rightarrow> nat \<Rightarrow> nat \<Rightarrow> (room_error, nat) result" where
  "checked_add what a b = (if a + b \<le> usize_max then Ok (a + b) else Err (RoomOverflow what))"

section \<open>Operations\<close>

record time_range =
  range_start :: "64 word"
  range_end :: "64 word"

record run_token =
  token_attempt :: "byte list"
  token_owner :: string
  token_generation :: "32 word"

datatype input_kind = TextInput | ImageInput | AudioInput

record put_fields =
  put_id :: entity_id
  put_type :: byte
  put_occurred :: time_range
  put_learned_at :: "64 word"
  put_version :: "64 word option"
  put_data :: "byte list"
  put_allow_maintenance :: bool
  put_allow_reserved :: bool
  put_hub_imported :: bool

datatype batch_op =
    OpPut put_fields
  | OpClaimCandidate entity_id nat nat
  | OpReconcileHints entity_id "entity_id list"
  | OpVector entity_id "f32 list" "byte list option" "(string \<times> string) option"
  | OpEdge entity_id edge_kind entity_id f32 vad
  | OpPublicEdge entity_id edge_kind entity_id f32 "64 word" vad
  | OpEdgeAt entity_id edge_kind entity_id f32 "64 word" vad "provenance_flags option"
  | OpSetEdgeWeight entity_id edge_kind entity_id f32
  | OpSetEdgeVad entity_id edge_kind entity_id vad
  | OpText entity_id "(string \<times> string) list"
  | OpMediaVector string entity_id input_kind "byte list option" "f32 list" "(string \<times> string) option"
  | OpPhonetic entity_id "string list"
  | OpDelete entity_id
  | OpDeleteEdge entity_id edge_kind entity_id
  | OpGapDecay "entity_id list" "64 word"

section \<open>Entries\<close>

datatype journal_role =
    TurnPut | MessagePartOf | SummaryDerivedFrom | AttributionEdge | ConversationShell | TurnOwnedArtifact

record journal_scope =
  scope_conversation :: entity_id
  scope_turn :: entity_id

record journal_entry =
  entry_scope :: journal_scope
  entry_role :: journal_role
  entry_learned_at :: "64 word"
  entry_occurred :: time_range
  entry_op :: batch_op
  entry_source_run :: "run_token option"

record published_entry =
  seq :: "64 word"
  entry :: journal_entry

fun payload_bytes :: "batch_op \<Rightarrow> nat" where
  "payload_bytes (OpPut p) = length (put_data p)"
| "payload_bytes (OpClaimCandidate _ c e) = sat_add c e"
| "payload_bytes (OpReconcileHints _ keep) = length keep * 16"
| "payload_bytes (OpVector _ v tok _) =
     sat_add (length v * 4) (case tok of None \<Rightarrow> 0 | Some t \<Rightarrow> length t)"
| "payload_bytes (OpText _ fs) = sum_list (map (\<lambda>(n, v). sat_add (length n) (length v)) fs)"
| "payload_bytes (OpPhonetic _ codes) = sum_list (map length codes)"
| "payload_bytes (OpMediaVector space _ _ h v _) =
     sat_add (sat_add (length v * 4) (length space)) (case h of None \<Rightarrow> 0 | Some b \<Rightarrow> length b)"
| "payload_bytes (OpGapDecay ids _) = length ids * 16"
| "payload_bytes _ = 0"

fun spends_none :: "batch_op \<Rightarrow> bool" where
  "spends_none (OpEdge _ k _ _ _) = (k = FacetOf)"
| "spends_none (OpMediaVector _ _ _ _ _ _) = True"
| "spends_none _ = False"

definition entry_bytes :: "nat \<Rightarrow> journal_entry \<Rightarrow> nat" where
  "entry_bytes hdr e = (if spends_none (entry_op e) then 0 else sat_add hdr (payload_bytes (entry_op e)))"

section \<open>Promotion\<close>

fun replayed_subject :: "batch_op \<Rightarrow> entity_id option" where
  "replayed_subject (OpPut p) = Some (put_id p)"
| "replayed_subject (OpText i _) = Some i"
| "replayed_subject (OpVector i _ _ _) = Some i"
| "replayed_subject (OpMediaVector _ i _ _ _ _) = Some i"
| "replayed_subject (OpEdge s _ _ _ _) = Some s"
| "replayed_subject (OpPublicEdge s _ _ _ _ _) = Some s"
| "replayed_subject (OpEdgeAt s _ _ _ _ _ _) = Some s"
| "replayed_subject _ = None"

definition in_closure :: "entity_id \<Rightarrow> entity_id \<Rightarrow> journal_entry \<Rightarrow> bool" where
  "in_closure turn conversation e =
     (if entry_role e = ConversationShell then scope_conversation (entry_scope e) = conversation
      else scope_turn (entry_scope e) = turn)"

fun replay_op :: "journal_entry \<Rightarrow> (room_error, batch_op) result" where
  "replay_op e =
     (case entry_op e of
        OpPut p \<Rightarrow> Ok (OpPut (p\<lparr>put_occurred := entry_occurred e, put_learned_at := entry_learned_at e\<rparr>))
      | OpEdge s k t w v \<Rightarrow> Ok (OpPublicEdge s k t w (entry_learned_at e) v)
      | OpText i fs \<Rightarrow> Ok (OpText i fs)
      | OpVector i v tok p \<Rightarrow> Ok (OpVector i v tok p)
      | OpMediaVector sp i k h v p \<Rightarrow> Ok (OpMediaVector sp i k h v p)
      | _ \<Rightarrow> Err (RoomInvariant ''promotion replay found a journal op the session write path cannot stage''))"

definition stageable :: "batch_op \<Rightarrow> bool" where
  "stageable op =
     (case op of OpPut _ \<Rightarrow> True | OpEdge _ _ _ _ _ \<Rightarrow> True | OpText _ _ \<Rightarrow> True | OpVector _ _ _ _ \<Rightarrow> True
      | OpMediaVector _ _ _ _ _ _ \<Rightarrow> True | OpDelete _ \<Rightarrow> True | _ \<Rightarrow> False)"

definition long_interval_secs :: "64 word" where
  "long_interval_secs = 14 * 86400"

definition encode_temporal_key :: "64 word \<Rightarrow> entity_id \<Rightarrow> byte list" where
  "encode_temporal_key ts i = to_be_bytes 8 (unat ts) @ i"

definition encode_type_key :: "byte \<Rightarrow> entity_id \<Rightarrow> byte list" where
  "encode_type_key b i = b # i"

end
