(* ===== verification/Overlay.thy ===== *)
theory Overlay
  imports RoomJournal
begin

text \<open>
  The in-memory write overlay of an off-record room: its keyspaces and their mutations
  (\<open>crates/oneiron-store/src/session_overlay/keyspace.rs\<close>), the views a snapshot gives of them
  (\<open>session_overlay/snapshot.rs\<close>) and the keyed reads and writes of a composed accessor
  (\<open>overlay_db/accessors.rs\<close>).

  A room never writes the durable database: it holds, per keyspace, the rows it put, tombstones
  over durable rows, and whether it cleared the keyspace.  The durable database is heed's, under
  no directory of the repository; what is used of it is that it is an ordered map (and, for the one
  keyspace with duplicates, an ordered map of values), which is the argument \<open>base\<close>.  Copies and
  scrubbing of memory do not appear in the model.
\<close>

section \<open>Keyspaces\<close>

datatype keyspace =
    KsEntities | KsTypeIndex | KsShortIds | KsShortIdsReverse | KsVaultMeta | KsVectors
  | KsHnswNeighbors | KsHnswMeta | KsTextPostings | KsTextMeta | KsTextForward
  | KsTextBm25FieldStats | KsTextDocFieldLengths | KsEdgesOut | KsEdgesIn | KsPprCache
  | KsPprCacheDeps | KsTemporalOccurredStart | KsTemporalOccurredEnd | KsTemporalLearned
  | KsTemporalLongIntervals | KsPhoneticIndex | KsPhoneticForward | KsSyncState | KsSyncQueue
  | KsAttemptRecords | KsAttemptReady | KsAttemptDedupe

fun slot :: "keyspace \<Rightarrow> nat" where
  "slot KsEntities = 0"
| "slot KsTypeIndex = 1"
| "slot KsShortIds = 2"
| "slot KsShortIdsReverse = 3"
| "slot KsVaultMeta = 4"
| "slot KsVectors = 5"
| "slot KsHnswNeighbors = 6"
| "slot KsHnswMeta = 7"
| "slot KsTextPostings = 8"
| "slot KsTextMeta = 9"
| "slot KsTextForward = 10"
| "slot KsTextBm25FieldStats = 11"
| "slot KsTextDocFieldLengths = 12"
| "slot KsEdgesOut = 13"
| "slot KsEdgesIn = 14"
| "slot KsPprCache = 15"
| "slot KsPprCacheDeps = 16"
| "slot KsTemporalOccurredStart = 17"
| "slot KsTemporalOccurredEnd = 18"
| "slot KsTemporalLearned = 19"
| "slot KsTemporalLongIntervals = 20"
| "slot KsPhoneticIndex = 21"
| "slot KsPhoneticForward = 22"
| "slot KsSyncState = 23"
| "slot KsSyncQueue = 24"
| "slot KsAttemptRecords = 25"
| "slot KsAttemptReady = 26"
| "slot KsAttemptDedupe = 27"

definition is_dupsort :: "keyspace \<Rightarrow> bool" where
  "is_dupsort k \<longleftrightarrow> k = KsTextPostings"

definition all_keyspaces :: "keyspace list" where
  "all_keyspaces =
     [KsEntities, KsTypeIndex, KsShortIds, KsShortIdsReverse, KsVaultMeta, KsVectors, KsHnswNeighbors,
      KsHnswMeta, KsTextPostings, KsTextMeta, KsTextForward, KsTextBm25FieldStats, KsTextDocFieldLengths,
      KsEdgesOut, KsEdgesIn, KsPprCache, KsPprCacheDeps, KsTemporalOccurredStart, KsTemporalOccurredEnd,
      KsTemporalLearned, KsTemporalLongIntervals, KsPhoneticIndex, KsPhoneticForward, KsSyncState,
      KsSyncQueue, KsAttemptRecords, KsAttemptReady, KsAttemptDedupe]"

type_synonym bytes = "byte list"

datatype overlay_value = Present bytes | Tombstone

record dup_delta =
  delete_base :: bool
  present :: "(bytes, bytes) omap"
  deleted :: "bytes list"

definition no_delta :: dup_delta where
  "no_delta = \<lparr>delete_base = False, present = [], deleted = []\<rparr>"

datatype keyspace_state =
    Single bool "(bytes, overlay_value) omap"
  | DupSort bool "(bytes, dup_delta) omap"

definition ks_empty :: "keyspace \<Rightarrow> keyspace_state" where
  "ks_empty k = (if is_dupsort k then DupSort False [] else Single False [])"

definition ks_cleared :: "keyspace \<Rightarrow> keyspace_state" where
  "ks_cleared k = (if is_dupsort k then DupSort True [] else Single True [])"

definition dup_identity :: "bytes \<Rightarrow> bytes" where
  "dup_identity v = take 16 v"

definition starts_with :: "bytes \<Rightarrow> bytes \<Rightarrow> bool" where
  "starts_with key prefix \<longleftrightarrow> take (length prefix) key = prefix"

definition ascii :: "string \<Rightarrow> bytes" where
  "ascii s = map (\<lambda>c. of_nat (of_char c)) s"

definition unbudgeted_row :: "keyspace \<Rightarrow> bytes \<Rightarrow> bool" where
  "unbudgeted_row k key =
     (case k of
        KsVaultMeta \<Rightarrow> list_ex (\<lambda>p. starts_with key (ascii p))
          [''scope:record:v2:'', ''provenance:row_birth:v1:'', ''provenance:birth_by_trigger:v1:'',
           ''session_short_id:v0:ordinal'']
      | KsEdgesOut \<Rightarrow> length key > 16 \<and> key ! 16 = kind_byte FacetOf
      | KsEdgesIn \<Rightarrow> length key > 16 \<and> key ! 16 = kind_byte FacetOf
      | _ \<Rightarrow> False)"

fun value_len :: "overlay_value \<Rightarrow> nat" where
  "value_len (Present v) = length v"
| "value_len Tombstone = 0"

fun ks_byte_size :: "keyspace \<Rightarrow> bytes list option \<Rightarrow> keyspace_state \<Rightarrow> nat" where
  "ks_byte_size k marked (Single _ rows) =
     sum_list (map (\<lambda>(key, v). length key + value_len v)
       (filter (\<lambda>(key, v). \<not> unbudgeted_row k key \<and>
          \<not> (case marked of None \<Rightarrow> False | Some m \<Rightarrow> key \<in> set m)) rows))"
| "ks_byte_size k marked (DupSort _ rows) =
     sum_list (map (\<lambda>(key, d). length key + sum_list (map (length \<circ> fst) (present d)) +
       sum_list (map (length \<circ> snd) (present d)) + sum_list (map length (deleted d))) rows)"

record overlay_state =
  keyspaces :: "keyspace \<Rightarrow> keyspace_state"
  journal :: "published_entry list"
  next_seq :: "64 word"
  bytes_used :: nat
  bookkeeping :: "(nat, bytes list) omap"

definition empty_state :: overlay_state where
  "empty_state = \<lparr>keyspaces = ks_empty, journal = [], next_seq = 0, bytes_used = 0, bookkeeping = []\<rparr>"

definition recalculate_bytes :: "nat \<Rightarrow> overlay_state \<Rightarrow> overlay_state" where
  "recalculate_bytes hdr s =
     s\<lparr>bytes_used := fold (\<lambda>n acc. sat_add acc n)
        (map (\<lambda>k. ks_byte_size k (map_of (bookkeeping s) (slot k)) (keyspaces s k)) all_keyspaces @
         map (\<lambda>e. entry_bytes hdr (entry e)) (journal s)) 0\<rparr>"

section \<open>Mutations\<close>

datatype mutation =
    Put keyspace bytes bytes
  | Delete keyspace bytes bool
  | DeleteDuplicate keyspace bytes bytes bool
  | Clear keyspace
  | Bookkeeping keyspace bytes

fun mutation_keyspace :: "mutation \<Rightarrow> keyspace" where
  "mutation_keyspace (Put k _ _) = k"
| "mutation_keyspace (Delete k _ _) = k"
| "mutation_keyspace (DeleteDuplicate k _ _ _) = k"
| "mutation_keyspace (Clear k) = k"
| "mutation_keyspace (Bookkeeping k _) = k"

definition dup_delta_at :: "(bytes, dup_delta) omap \<Rightarrow> bytes \<Rightarrow> dup_delta" where
  "dup_delta_at rows key = (case map_of rows key of None \<Rightarrow> no_delta | Some d \<Rightarrow> d)"

definition put_duplicate :: "bytes \<Rightarrow> dup_delta \<Rightarrow> dup_delta" where
  "put_duplicate v d =
     d\<lparr>deleted := os_remove v (deleted d), present := om_insert (dup_identity v) v (present d)\<rparr>"

definition delete_duplicate_row ::
    "bool \<Rightarrow> bytes \<Rightarrow> bytes \<Rightarrow> bool \<Rightarrow> (bytes, dup_delta) omap \<Rightarrow> (bytes, dup_delta) omap" where
  "delete_duplicate_row clear_base key v base_backed rows =
     (let d = dup_delta_at rows key;
          effective = base_backed \<and> \<not> clear_base \<and> \<not> delete_base d;
          d1 = (if map_of (present d) (dup_identity v) = Some v
                then d\<lparr>present := om_remove (dup_identity v) (present d)\<rparr> else d);
          d2 = (if effective then d1\<lparr>deleted := os_insert v (deleted d1)\<rparr> else d1)
      in if present d2 = [] \<and> deleted d2 = [] \<and> \<not> delete_base d2
         then om_remove key rows else om_insert key d2 rows)"

fun apply_row :: "mutation \<Rightarrow> keyspace_state \<Rightarrow> (room_error, keyspace_state) result" where
  "apply_row (Put k key v) (Single c rows) = Ok (Single c (om_insert key (Present v) rows))"
| "apply_row (Delete k key base_backed) (Single c rows) =
     (let effective = base_backed \<and> \<not> c in
      if \<not> effective \<and> (case map_of rows key of Some (Present _) \<Rightarrow> True | _ \<Rightarrow> False)
      then Ok (Single c (om_remove key rows))
      else Ok (Single c (om_insert key Tombstone rows)))"
| "apply_row (Put k key v) (DupSort c rows) =
     Ok (DupSort c (om_insert key (put_duplicate v (dup_delta_at rows key)) rows))"
| "apply_row (Delete k key base_backed) (DupSort c rows) =
     Ok (DupSort c (om_insert key (no_delta\<lparr>delete_base := True\<rparr>) rows))"
| "apply_row (DeleteDuplicate k key v base_backed) (DupSort c rows) =
     Ok (DupSort c (delete_duplicate_row c key v base_backed rows))"
| "apply_row (DeleteDuplicate k key v base_backed) (Single c rows) =
     Err (RoomInvariant ''delete_one_duplicate used on a non-DUP_SORT overlay keyspace'')"
| "apply_row (Clear k) ks = Ok ks"
| "apply_row (Bookkeeping k key) ks = Ok ks"

definition unmark :: "mutation \<Rightarrow> (nat, bytes list) omap \<Rightarrow> (nat, bytes list) omap" where
  "unmark m marks =
     (case m of
        Clear k \<Rightarrow> om_remove (slot k) marks
      | Delete k key _ \<Rightarrow>
          (case map_of marks (slot k) of
             None \<Rightarrow> marks
           | Some s \<Rightarrow>
               if key \<notin> set s then marks
               else if os_remove key s = [] then om_remove (slot k) marks
               else om_insert (slot k) (os_remove key s) marks)
      | _ \<Rightarrow> marks)"

definition apply_mutation :: "mutation \<Rightarrow> overlay_state \<Rightarrow> (room_error, overlay_state) result" where
  "apply_mutation m s =
     (let k = mutation_keyspace m;
          s1 = s\<lparr>bookkeeping := unmark m (bookkeeping s)\<rparr>
      in case m of
           Clear _ \<Rightarrow> Ok (s1\<lparr>keyspaces := (keyspaces s1)(k := ks_cleared k)\<rparr>)
         | Bookkeeping _ key \<Rightarrow>
             if is_dupsort k
             then Err (RoomInvariant ''a bookkeeping mark names a DUP_SORT overlay keyspace'')
             else Ok (s1\<lparr>bookkeeping := om_insert (slot k)
                    (os_insert key (case map_of (bookkeeping s1) (slot k) of None \<Rightarrow> [] | Some q \<Rightarrow> q))
                    (bookkeeping s1)\<rparr>)
         | _ \<Rightarrow>
             (case apply_row m (keyspaces s1 k) of
                Inl e \<Rightarrow> Err e
              | Inr ks \<Rightarrow> Ok (s1\<lparr>keyspaces := (keyspaces s1)(k := ks)\<rparr>)))"

definition project_mutation :: "nat \<Rightarrow> mutation \<Rightarrow> overlay_state \<Rightarrow> (room_error, overlay_state) result" where
  "project_mutation hdr m s =
     (case apply_mutation m s of Inl e \<Rightarrow> Err e | Inr t \<Rightarrow> Ok (recalculate_bytes hdr t))"

definition drop_overlay_row :: "keyspace \<Rightarrow> bytes \<Rightarrow> overlay_state \<Rightarrow> overlay_state" where
  "drop_overlay_row k key s =
     (case keyspaces s k of
        Single c rows \<Rightarrow>
          (case map_of rows key of
             Some (Present _) \<Rightarrow> s\<lparr>keyspaces := (keyspaces s)(k := Single c (om_remove key rows))\<rparr>
           | _ \<Rightarrow> s)
      | DupSort _ _ \<Rightarrow> s)"

definition retire_snapshot_row :: "overlay_state \<Rightarrow> keyspace \<Rightarrow> bytes \<Rightarrow> overlay_state \<Rightarrow> overlay_state" where
  "retire_snapshot_row snap k key s =
     (case (keyspaces snap k, keyspaces s k) of
        (Single _ before, Single c now) \<Rightarrow>
          if map_of before key = map_of now key \<and> map_of now key \<noteq> None
          then s\<lparr>keyspaces := (keyspaces s)(k := Single c (om_remove key now))\<rparr> else s
      | _ \<Rightarrow> s)"

section \<open>What a snapshot answers\<close>

datatype lookup = Passthrough | Masked | Found bytes

fun lookup_single :: "keyspace_state \<Rightarrow> bytes \<Rightarrow> lookup" where
  "lookup_single (Single c rows) key =
     (case map_of rows key of
        Some (Present v) \<Rightarrow> Found v
      | Some Tombstone \<Rightarrow> Masked
      | None \<Rightarrow> if c then Masked else Passthrough)"
| "lookup_single (DupSort _ _) key = Passthrough"

fun staged_value :: "keyspace_state \<Rightarrow> bytes \<Rightarrow> bytes option" where
  "staged_value (Single _ rows) key = (case map_of rows key of Some (Present v) \<Rightarrow> Some v | _ \<Rightarrow> None)"
| "staged_value (DupSort _ _) key = None"

fun row_value :: "overlay_value \<Rightarrow> bytes option" where
  "row_value (Present v) = Some v"
| "row_value Tombstone = None"

fun staged_rows :: "keyspace_state \<Rightarrow> bool \<times> (bytes \<times> bytes option) list" where
  "staged_rows (Single c rows) = (c, map (\<lambda>(k, v). (k, row_value v)) rows)"
| "staged_rows (DupSort c _) = (c, [])"

fun live_row_count :: "(bytes \<Rightarrow> bool) \<Rightarrow> keyspace_state \<Rightarrow> nat" where
  "live_row_count include (Single _ rows) =
     length (filter (\<lambda>(k, v). include k \<and> v \<noteq> Tombstone) rows)"
| "live_row_count include (DupSort _ rows) =
     sum_list (map (\<lambda>(k, d). length (present d)) (filter (\<lambda>(k, d). include k) rows))"

definition stages_anything :: "overlay_state \<Rightarrow> bool" where
  "stages_anything s \<longleftrightarrow> list_ex (\<lambda>k. case keyspaces s k of
     Single c rows \<Rightarrow> c \<or> rows \<noteq> [] | DupSort c rows \<Rightarrow> c \<or> rows \<noteq> []) all_keyspaces"

section \<open>Keyed access through a room\<close>

definition room_get :: "(bytes, bytes) omap \<Rightarrow> keyspace_state \<Rightarrow> bytes \<Rightarrow> bytes option" where
  "room_get base ks key =
     (case lookup_single ks key of Passthrough \<Rightarrow> map_of base key | Masked \<Rightarrow> None | Found v \<Rightarrow> Some v)"

definition room_get_unhidden :: "(bytes, bytes) omap \<Rightarrow> keyspace_state \<Rightarrow> bytes \<Rightarrow> bytes option" where
  "room_get_unhidden base ks key =
     (if lookup_single ks key = Masked then map_of base key else room_get base ks key)"

definition hidden_keys :: "(bytes, bytes) omap \<Rightarrow> keyspace_state \<Rightarrow> bytes list" where
  "hidden_keys base ks =
     (if fst (staged_rows ks) then []
      else map fst (filter (\<lambda>(k, v). v = None \<and> map_of base k \<noteq> None) (snd (staged_rows ks))))"

definition room_delete :: "(bytes, bytes) omap \<Rightarrow> keyspace \<Rightarrow> bytes \<Rightarrow> overlay_state \<Rightarrow>
    (room_error, bool \<times> overlay_state) result" where
  "room_delete base k key s =
     (let existed = room_get base (keyspaces s k) key \<noteq> None in
      if existed
      then case apply_mutation (Delete k key (map_of base key \<noteq> None)) s of
             Inl e \<Rightarrow> Err e | Inr t \<Rightarrow> Ok (True, t)
      else Ok (False, s))"

definition applied :: "overlay_state \<Rightarrow> (room_error, overlay_state) result \<Rightarrow> overlay_state" where
  "applied s r = (case r of Inl _ \<Rightarrow> s | Inr t \<Rightarrow> t)"

definition room_put :: "keyspace \<Rightarrow> bytes \<Rightarrow> bytes \<Rightarrow> overlay_state \<Rightarrow> (room_error, overlay_state) result" where
  "room_put k key v s = apply_mutation (Put k key v) s"

definition room_clear :: "keyspace \<Rightarrow> overlay_state \<Rightarrow> (room_error, overlay_state) result" where
  "room_clear k s = apply_mutation (Clear k) s"

definition hide_base_row :: "keyspace \<Rightarrow> bytes \<Rightarrow> overlay_state \<Rightarrow> (room_error, overlay_state) result" where
  "hide_base_row k key s = apply_mutation (Delete k key True) s"

fun room_step :: "(bytes, bytes) omap \<Rightarrow> keyspace \<Rightarrow> (bytes, bytes) store_op \<Rightarrow> overlay_state \<Rightarrow> overlay_state" where
  "room_step base k (StPut key v) s = applied s (room_put k key v s)"
| "room_step base k (StDelete key) s = (case room_delete base k key s of Inl _ \<Rightarrow> s | Inr (_, t) \<Rightarrow> t)"
| "room_step base k StClear s = applied s (room_clear k s)"

section \<open>Well-formed overlays\<close>

definition delta_wf :: "dup_delta \<Rightarrow> bool" where
  "delta_wf d \<longleftrightarrow> ordered (present d) \<and> sorted_wrt (<) (deleted d) \<and>
     (\<forall>(i, v) \<in> set (present d). i = dup_identity v \<and> v \<notin> set (deleted d))"

fun ks_wf :: "keyspace \<Rightarrow> keyspace_state \<Rightarrow> bool" where
  "ks_wf k (Single _ rows) \<longleftrightarrow> \<not> is_dupsort k \<and> ordered rows"
| "ks_wf k (DupSort _ rows) \<longleftrightarrow> is_dupsort k \<and> ordered rows \<and> (\<forall>(key, d) \<in> set rows. delta_wf d)"

definition marks_wf :: "(nat, bytes list) omap \<Rightarrow> bool" where
  "marks_wf marks \<longleftrightarrow> ordered marks \<and> (\<forall>(n, q) \<in> set marks. q \<noteq> [] \<and> sorted_wrt (<) q)"

definition state_wf :: "overlay_state \<Rightarrow> bool" where
  "state_wf s \<longleftrightarrow> (\<forall>k. ks_wf k (keyspaces s k)) \<and> marks_wf (bookkeeping s)"

lemma empty_state_wf: "state_wf empty_state"
  by (simp add: state_wf_def marks_wf_def empty_state_def ks_empty_def)

lemma in_om_insert: "e \<in> set (om_insert k v m) \<Longrightarrow> e = (k, v) \<or> e \<in> set m"
  by (auto simp: om_insert_def)

lemma in_om_remove: "e \<in> set (om_remove k m) \<Longrightarrow> e \<in> set m"
  by (auto simp: om_remove_def)

lemma wf_delta_at: "\<forall>(key, d) \<in> set rows. delta_wf d \<Longrightarrow> delta_wf (dup_delta_at rows key)"
  by (auto simp: dup_delta_at_def no_delta_def delta_wf_def split: option.split dest!: map_of_SomeD)

lemma wf_put_duplicate: "delta_wf d \<Longrightarrow> delta_wf (put_duplicate v d)"
  by (auto simp: delta_wf_def put_duplicate_def dest!: in_om_insert)

lemma wf_cases_rows:
  assumes "\<forall>(key, d) \<in> set rows. P d" "P d"
  shows "\<forall>(key, d) \<in> set (om_insert key d rows). P d" "\<forall>(key, d) \<in> set (om_remove key rows). P d"
  using assms by (auto dest!: in_om_insert in_om_remove)

lemma wf_delete_duplicate:
  assumes "ordered rows" "\<forall>(key, d) \<in> set rows. delta_wf d"
  shows "ordered (delete_duplicate_row c key v b rows) \<and>
    (\<forall>(key, d) \<in> set (delete_duplicate_row c key v b rows). delta_wf d)"
proof -
  let ?d = "dup_delta_at rows key"
  let ?d1 = "if map_of (present ?d) (dup_identity v) = Some v
      then ?d\<lparr>present := om_remove (dup_identity v) (present ?d)\<rparr> else ?d"
  have d: "delta_wf ?d" using assms(2) by (rule wf_delta_at)
  then have d1: "delta_wf ?d1" by (auto simp: delta_wf_def dest!: in_om_remove)
  have v: "v \<notin> snd ` set (present ?d1)"
  proof
    assume "v \<in> snd ` set (present ?d1)"
    then obtain i where i: "(i, v) \<in> set (present ?d1)" by auto
    then have "i = dup_identity v" using d1 by (auto simp: delta_wf_def)
    moreover have "map_of (present ?d1) i = Some v" using i d1 by (simp add: delta_wf_def ordered_map_of)
    ultimately show False by (simp split: if_splits)
  qed
  have d2: "delta_wf (?d1\<lparr>deleted := os_insert v (deleted ?d1)\<rparr>)"
    using d1 v unfolding delta_wf_def by (force split: if_splits)
  show ?thesis
    using assms(1) wf_cases_rows [OF assms(2) d1] wf_cases_rows [OF assms(2) d2]
    by (simp add: delete_duplicate_row_def Let_def)
qed

lemma apply_row_wf:
  assumes "ks_wf k ks" "apply_row m ks = Ok ks'" "mutation_keyspace m = k"
  shows "ks_wf k ks'"
  using assms
proof (induction m ks rule: apply_row.induct)
  case (3 k' key v c rows)
  then have r: "is_dupsort k'" "ordered rows" "\<forall>(key, d) \<in> set rows. delta_wf d" by simp_all
  from 3 have "ks' = DupSort c (om_insert key (put_duplicate v (dup_delta_at rows key)) rows)" "k = k'" by simp_all
  with r wf_cases_rows(1) [OF r(3) wf_put_duplicate [OF wf_delta_at [OF r(3)]]] show ?case by simp
next
  case (4 k' key b c rows)
  have "delta_wf (no_delta\<lparr>delete_base := True\<rparr>)" by (simp add: delta_wf_def no_delta_def)
  moreover from 4 have "is_dupsort k'" "ordered rows" "\<forall>(key, d) \<in> set rows. delta_wf d"
    "ks' = DupSort c (om_insert key (no_delta\<lparr>delete_base := True\<rparr>) rows)" "k = k'" by simp_all
  ultimately show ?case using wf_cases_rows(1) [of rows delta_wf] by simp
next
  case (5 k' key v b c rows)
  then show ?case using wf_delete_duplicate by auto
qed (auto simp: Let_def split: if_splits)

lemma unmark_wf: "marks_wf marks \<Longrightarrow> marks_wf (unmark m marks)"
  by (auto simp: marks_wf_def unmark_def split: mutation.split option.split
      dest!: in_om_insert in_om_remove map_of_SomeD)

lemma mark_wf:
  assumes "marks_wf marks"
  shows "marks_wf (om_insert i (os_insert key (case map_of marks i of None \<Rightarrow> [] | Some q \<Rightarrow> q)) marks)"
proof -
  have "os_insert key q \<noteq> []" for q by (simp add: os_insert_def)
  then show ?thesis
    using assms by (auto simp: marks_wf_def split: option.split dest!: in_om_insert map_of_SomeD)
qed

lemma apply_mutation_wf:
  assumes "state_wf s" "apply_mutation m s = Ok t"
  shows "state_wf t"
proof -
  have u: "marks_wf (unmark m (bookkeeping s))"
    using assms(1) by (intro unmark_wf) (simp add: state_wf_def)
  have k: "ks_wf k (keyspaces s k)" for k using assms(1) by (simp add: state_wf_def)
  have upd: "state_wf (s\<lparr>bookkeeping := unmark m (bookkeeping s), keyspaces := (keyspaces s)(j := ks)\<rparr>)"
    if "ks_wf j ks" for j ks
    using that u k by (simp add: state_wf_def)
  show ?thesis
  proof (cases m)
    case (Bookkeeping j key)
    with assms(2) show ?thesis
      using u k mark_wf [OF u] by (auto simp: apply_mutation_def Let_def state_wf_def split: if_splits)
  next
    case (Clear j)
    have "ks_wf j (ks_cleared j)" by (simp add: ks_cleared_def)
    then have "state_wf (s\<lparr>bookkeeping := unmark m (bookkeeping s), keyspaces := (keyspaces s)(j := ks_cleared j)\<rparr>)"
      by (rule upd)
    with Clear assms(2) show ?thesis by (simp add: apply_mutation_def Let_def)
  qed (use assms(2) upd apply_row_wf [OF k] in \<open>fastforce simp: apply_mutation_def Let_def split: sum.splits\<close>)+
qed

section \<open>A room is a keyed store\<close>

lemma single_of_wf: "ks_wf k ks \<Longrightarrow> \<not> is_dupsort k \<Longrightarrow> \<exists>c rows. ks = Single c rows \<and> ordered rows"
  by (cases ks) auto

lemma room_get_simps:
  "room_get base (Single c rows) key =
     (case map_of rows key of Some (Present v) \<Rightarrow> Some v | Some Tombstone \<Rightarrow> None
      | None \<Rightarrow> if c then None else map_of base key)"
  by (auto simp: room_get_def split: option.split overlay_value.split)

lemma room_get_put: "room_get base (Single c (om_insert key (Present v) rows)) = (room_get base (Single c rows))(key \<mapsto> v)"
  by (rule ext) (simp add: room_get_simps)

lemma room_get_cleared: "room_get base (ks_cleared k) = Map.empty" if "\<not> is_dupsort k"
  using that by (auto simp: room_get_simps ks_cleared_def)

lemma room_get_delete:
  assumes "apply_row (Delete k key (map_of base key \<noteq> None)) (Single c rows) = Ok ks"
  shows "room_get base ks = (room_get base (Single c rows))(key := None)"
proof
  fix j
  show "room_get base ks j = ((room_get base (Single c rows))(key := None)) j"
    using assms by (auto simp: room_get_simps Let_def split: if_splits option.splits overlay_value.splits)
qed

lemma apply_single:
  assumes "state_wf s" "\<not> is_dupsort k"
  shows "\<exists>ks. apply_row (Delete k key b) (keyspaces s k) = Ok ks \<and>
      apply_mutation (Delete k key b) s =
        Ok (s\<lparr>bookkeeping := unmark (Delete k key b) (bookkeeping s), keyspaces := (keyspaces s)(k := ks)\<rparr>)"
    and "\<exists>c rows. keyspaces s k = Single c rows \<and> apply_mutation (Put k key v) s =
        Ok (s\<lparr>keyspaces := (keyspaces s)(k := Single c (om_insert key (Present v) rows))\<rparr>)"
proof -
  obtain c rows where r: "keyspaces s k = Single c rows"
    using assms single_of_wf [of k "keyspaces s k"] by (auto simp: state_wf_def)
  then show "\<exists>ks. apply_row (Delete k key b) (keyspaces s k) = Ok ks \<and>
      apply_mutation (Delete k key b) s =
        Ok (s\<lparr>bookkeeping := unmark (Delete k key b) (bookkeeping s), keyspaces := (keyspaces s)(k := ks)\<rparr>)"
    by (auto simp: apply_mutation_def Let_def)
  show "\<exists>c rows. keyspaces s k = Single c rows \<and> apply_mutation (Put k key v) s =
        Ok (s\<lparr>keyspaces := (keyspaces s)(k := Single c (om_insert key (Present v) rows))\<rparr>)"
    using r by (simp add: apply_mutation_def Let_def unmark_def)
qed

definition room_inv :: "keyspace \<Rightarrow> overlay_state \<Rightarrow> bool" where
  "room_inv k s \<longleftrightarrow> state_wf s \<and> \<not> is_dupsort k"

lemma room_step_put:
  assumes "room_inv k s"
  shows "room_inv k (room_step base k (StPut key v) s) \<and>
    room_get base (keyspaces (room_step base k (StPut key v) s) k) = (room_get base (keyspaces s k))(key \<mapsto> v)"
proof -
  obtain c rows where "keyspaces s k = Single c rows" "apply_mutation (Put k key v) s =
      Ok (s\<lparr>keyspaces := (keyspaces s)(k := Single c (om_insert key (Present v) rows))\<rparr>)"
    using apply_single(2) assms unfolding room_inv_def by blast
  moreover from this have "state_wf (s\<lparr>keyspaces := (keyspaces s)(k := Single c (om_insert key (Present v) rows))\<rparr>)"
    using apply_mutation_wf assms unfolding room_inv_def by blast
  ultimately show ?thesis using assms by (simp add: room_inv_def room_put_def applied_def room_get_put)
qed

lemma room_step_delete:
  assumes "room_inv k s"
  shows "room_inv k (room_step base k (StDelete key) s) \<and>
    room_get base (keyspaces (room_step base k (StDelete key) s) k) = (room_get base (keyspaces s k))(key := None)"
proof (cases "room_get base (keyspaces s k) key = None")
  case True
  then have "(room_get base (keyspaces s k))(key := None) = room_get base (keyspaces s k)" by auto
  with True assms show ?thesis by (simp add: room_delete_def)
next
  case False
  let ?m = "Delete k key (map_of base key \<noteq> None)"
  obtain c rows where r: "keyspaces s k = Single c rows"
    using assms single_of_wf [of k "keyspaces s k"] by (auto simp: room_inv_def state_wf_def)
  obtain ks where ks: "apply_row ?m (keyspaces s k) = Ok ks" "apply_mutation ?m s =
        Ok (s\<lparr>bookkeeping := unmark ?m (bookkeeping s), keyspaces := (keyspaces s)(k := ks)\<rparr>)"
    using apply_single(1) assms unfolding room_inv_def by blast
  then have "state_wf (s\<lparr>bookkeeping := unmark ?m (bookkeeping s), keyspaces := (keyspaces s)(k := ks)\<rparr>)"
    using apply_mutation_wf assms unfolding room_inv_def by blast
  with ks False assms room_get_delete [OF ks(1) [unfolded r]] show ?thesis
    by (simp add: room_inv_def room_delete_def r)
qed

lemma room_step_clear:
  assumes "room_inv k s"
  shows "room_inv k (room_step base k StClear s) \<and>
    room_get base (keyspaces (room_step base k StClear s) k) = Map.empty"
proof -
  have c: "apply_mutation (Clear k) s =
      Ok (s\<lparr>bookkeeping := unmark (Clear k) (bookkeeping s), keyspaces := (keyspaces s)(k := ks_cleared k)\<rparr>)"
    by (simp add: apply_mutation_def Let_def)
  then have "state_wf (s\<lparr>bookkeeping := unmark (Clear k) (bookkeeping s), keyspaces := (keyspaces s)(k := ks_cleared k)\<rparr>)"
    using apply_mutation_wf assms unfolding room_inv_def by blast
  with c assms show ?thesis by (simp add: room_inv_def room_clear_def applied_def room_get_cleared)
qed

interpretation room: keyed_store "room_inv k" "\<lambda>s. room_get base (keyspaces s k)"
    "\<lambda>key v. room_step base k (StPut key v)" "\<lambda>key. room_step base k (StDelete key)" "room_step base k StClear"
  for base k
  by unfold_locales (rule room_step_put room_step_delete room_step_clear, assumption)+

lemma room_step_eq: "room.step base k a = room_step base k a"
  by (cases a) auto

lemma room_step_frame: "j \<noteq> k \<Longrightarrow> keyspaces (room_step base k a s) j = keyspaces s j"
  by (cases a) (auto simp: room_put_def room_clear_def room_delete_def applied_def apply_mutation_def Let_def
      split: sum.splits if_splits)

lemma room_run_frame: "j \<noteq> k \<Longrightarrow> keyspaces (fold (room_step base k) ops s) j = keyspaces s j"
  by (induction ops arbitrary: s) (simp_all add: room_step_frame)

text \<open>C1: A room refines a private copy of the database: whatever sequence of puts, deletes and clears
  runs through its composed accessor, its reads answer what the same sequence would make of a copy
  of the durable rows it was opened over, it stays well formed, and no other keyspace moves.\<close>

theorem room_refines_private_copy:
  assumes "\<not> is_dupsort k" "ordered base"
  shows "room_get base (keyspaces (fold (room_step base k) ops empty_state) k) =
      map_of (fold sorted_rows.step ops base) \<and>
    state_wf (fold (room_step base k) ops empty_state) \<and>
    (j = k \<or> keyspaces (fold (room_step base k) ops empty_state) j = ks_empty j)"
proof -
  have e: "room_inv k empty_state" using assms(1) empty_state_wf by (simp add: room_inv_def)
  have "room_get base (keyspaces empty_state k) = map_of base"
    using assms(1) by (auto simp: empty_state_def ks_empty_def room_get_simps)
  then have "room_inv k (fold (room_step base k) ops empty_state) \<and>
      room_get base (keyspaces (fold (room_step base k) ops empty_state) k) = fold store_spec ops (map_of base)"
    using room.run_refines [of k empty_state base ops] e by (simp add: room_step_eq [abs_def])
  moreover have "map_of (fold sorted_rows.step ops base) = fold store_spec ops (map_of base)"
    using sorted_rows.run_refines [of base ops] assms(2) by simp
  moreover have "j \<noteq> k \<Longrightarrow> keyspaces (fold (room_step base k) ops empty_state) j = ks_empty j"
    by (simp add: room_run_frame) (simp add: empty_state_def)
  ultimately show ?thesis unfolding room_inv_def by fastforce
qed

lemma room_refines_private_copy_witness:
  "room_get [([1], [10]), ([2], [20])]
     (keyspaces (fold (room_step [([1], [10]), ([2], [20])] KsEntities)
        [StPut [3] [30], StDelete [1], StPut [2] [21], StDelete [3]] empty_state) KsEntities) =
   map_of [([2], [21])]"
proof -
  have "fold sorted_rows.step [StPut [3] [30], StDelete [1], StPut [2] [21], StDelete [3]]
      [([1], [10]), ([2], [20 :: byte])] = [([2 :: byte], [21])]"
    by (simp add: om_insert_def om_remove_def)
  with room_refines_private_copy [of KsEntities "[([1], [10]), ([2], [20])]"
      "[StPut [3] [30], StDelete [1], StPut [2] [21], StDelete [3]]" KsEntities]
  show ?thesis by (simp add: is_dupsort_def)
qed

section \<open>Errors of a mutation\<close>

text \<open>C35: A mutation of a well-formed overlay keeps it well formed, and the only refusals are the two
  shape errors: a duplicate delete in a keyspace without duplicates and a bookkeeping mark in the
  keyspace with them.\<close>

theorem mutation_keeps_overlay:
  assumes "state_wf s"
  shows "(case apply_mutation m s of
      Inr t \<Rightarrow> state_wf t
    | Inl e \<Rightarrow> (\<exists>k key v b. m = DeleteDuplicate k key v b \<and> \<not> is_dupsort k) \<or>
        (\<exists>k key. m = Bookkeeping k key \<and> is_dupsort k))"
proof (cases "apply_mutation m s")
  case (Inl e)
  have k: "ks_wf k (keyspaces s k)" for k using assms by (simp add: state_wf_def)
  have row: "apply_row m ks = Err e' \<Longrightarrow> ks_wf k ks \<Longrightarrow> (\<exists>j key v b. m = DeleteDuplicate j key v b) \<and> \<not> is_dupsort k"
    for k ks e' by (induction m ks rule: apply_row.induct) (auto simp: Let_def split: if_splits)
  show ?thesis
    using Inl row [OF _ k [of "mutation_keyspace m"]]
    by (cases m) (auto simp: apply_mutation_def Let_def split: sum.splits if_splits)
qed (use assms apply_mutation_wf in auto)

lemma mutation_keeps_overlay_witness:
  "apply_mutation (DeleteDuplicate KsEntities [1] [2] True) empty_state =
     Err (RoomInvariant ''delete_one_duplicate used on a non-DUP_SORT overlay keyspace'') \<and>
   state_wf (applied empty_state (apply_mutation (Put KsTextPostings [1] [2]) empty_state))"
proof -
  have "apply_mutation (Put KsTextPostings [1] [2]) empty_state =
      Ok (applied empty_state (apply_mutation (Put KsTextPostings [1] [2]) empty_state))"
    by (simp add: apply_mutation_def empty_state_def ks_empty_def is_dupsort_def applied_def)
  then show ?thesis
    using mutation_keeps_overlay [OF empty_state_wf, of "Put KsTextPostings [1] [2]"]
    by (simp add: apply_mutation_def empty_state_def ks_empty_def is_dupsort_def)
qed

end
