(* ===== verification/OverlayMerge.thy ===== *)
theory OverlayMerge
  imports Overlay "HOL-Library.Product_Lexorder"
begin

text \<open>
  Reading a room's keyspace in order: the merge plan of a snapshot
  (\<open>crates/oneiron-store/src/session_overlay/snapshot.rs\<close>), the iterator that merges durable rows
  with it (\<open>overlay_db/merge.rs\<close>) and the scans of a composed accessor
  (\<open>overlay_db/accessors.rs\<close>, \<open>iters.rs\<close>).

  A durable cursor is heed's: the list of the results it still yields.  The code relies on the
  documented order of its rows (by key, and within a key by value), which are the hypotheses on
  \<open>base\<close> below.  The iterator is modelled field by field; its loop is a recursion with the measure
  the code's progress gives it.  \<open>merge_rows\<close> is the source's own reference merge.
\<close>

section \<open>Plans\<close>

type_synonym row = "bytes \<times> bytes"

datatype merge_row =
    SingleRow bytes "bytes option"
  | DuplicateRow bytes bytes "bytes list" "bytes option"

record merge_plan =
  plan_clear_base :: bool
  plan_deleted_keys :: "bytes list"
  plan_rows :: "merge_row list"

definition by_identity :: "dup_delta \<Rightarrow> (bytes, bytes list) omap" where
  "by_identity d =
     fold (\<lambda>i m. case map_of m i of None \<Rightarrow> om_insert i [] m | Some _ \<Rightarrow> m) (map fst (present d))
       (fold (\<lambda>v m. om_insert (dup_identity v)
                (os_insert v (case map_of m (dup_identity v) of None \<Rightarrow> [] | Some q \<Rightarrow> q)) m)
          (deleted d) [])"

fun merge_plan_of :: "(bytes \<Rightarrow> bool) \<Rightarrow> keyspace_state \<Rightarrow> merge_plan" where
  "merge_plan_of include (Single c rows) =
     \<lparr>plan_clear_base = c, plan_deleted_keys = [],
      plan_rows = map (\<lambda>(k, v). SingleRow k (row_value v)) (filter (\<lambda>(k, v). include k) rows)\<rparr>"
| "merge_plan_of include (DupSort c rows) =
     (let picked = filter (\<lambda>(k, d). include k) rows in
      \<lparr>plan_clear_base = c,
       plan_deleted_keys = map fst (filter (\<lambda>(k, d). delete_base d) picked),
       plan_rows = concat (map (\<lambda>(k, d).
         map (\<lambda>(i, del). DuplicateRow k i del (map_of (present d) i)) (by_identity d)) picked)\<rparr>)"

section \<open>The reference merge\<close>

definition put_identity :: "bytes \<Rightarrow> (bytes, bytes) omap \<Rightarrow> (bytes, bytes) omap" where
  "put_identity v m = om_insert (dup_identity v) v m"

definition merged_values :: "dup_delta \<Rightarrow> (bytes, bytes) omap \<Rightarrow> (bytes, bytes) omap" where
  "merged_values d values =
     (let v0 = (if delete_base d then [] else values);
          v1 = fold (\<lambda>x m. if map_of m (dup_identity x) = Some x then om_remove (dup_identity x) m else m)
                 (deleted d) v0
      in fold (\<lambda>(i, v) m. om_insert i v m) (present d) v1)"

definition key_values :: "(bytes, (bytes, bytes) omap) omap \<Rightarrow> bytes \<Rightarrow> (bytes, bytes) omap" where
  "key_values m key = (case map_of m key of None \<Rightarrow> [] | Some q \<Rightarrow> q)"

fun merge_rows :: "keyspace_state \<Rightarrow> row list \<Rightarrow> row list" where
  "merge_rows (Single c rows) base =
     fold (\<lambda>(k, v) m. case v of Present x \<Rightarrow> om_insert k x m | Tombstone \<Rightarrow> om_remove k m) rows
       (if c then [] else fold (\<lambda>(k, v) m. om_insert k v m) base [])"
| "merge_rows (DupSort c rows) base =
     concat (map (\<lambda>(k, values). map (\<lambda>(i, v). (k, v)) values)
       (fold (\<lambda>(k, d) m.
           let values = merged_values d (key_values m k)
           in if values = [] then om_remove k m else om_insert k values m) rows
         (if c then [] else fold (\<lambda>(k, v) m. om_insert k (put_identity v (key_values m k)) m) base [])))"

section \<open>The merging iterator\<close>

datatype direction = Forward | Reverse

datatype order3 = Less | Equal | Greater

definition compare :: "'a :: linorder \<Rightarrow> 'a \<Rightarrow> order3" where
  "compare x y = (if x < y then Less else if x = y then Equal else Greater)"

fun reverse_order :: "order3 \<Rightarrow> order3" where
  "reverse_order Less = Greater"
| "reverse_order Equal = Equal"
| "reverse_order Greater = Less"

record 'e merged =
  base_cursor :: "('e + row) list option"
  base_next :: "('e + row) option"
  base_done :: bool
  pending :: "merge_row list"
  deleted_keys :: "bytes list"
  going :: direction

definition merged_new :: "('e + row) list option \<Rightarrow> merge_plan \<Rightarrow> direction \<Rightarrow> 'e merged" where
  "merged_new base plan dir =
     \<lparr>base_cursor = (if plan_clear_base plan then None else base), base_next = None,
      base_done = plan_clear_base plan,
      pending = (if dir = Reverse then rev (plan_rows plan) else plan_rows plan),
      deleted_keys = plan_deleted_keys plan, going = dir\<rparr>"

definition fill_base :: "'e merged \<Rightarrow> 'e merged" where
  "fill_base s =
     (if base_next s = None \<and> \<not> base_done s
      then case base_cursor s of
             Some (x # xs) \<Rightarrow> s\<lparr>base_cursor := Some xs, base_next := Some x\<rparr>
           | _ \<Rightarrow> s\<lparr>base_done := True\<rparr>
      else s)"

fun base_precedes_overlay :: "direction \<Rightarrow> bytes \<Rightarrow> bytes \<Rightarrow> merge_row \<Rightarrow> order3" where
  "base_precedes_overlay dir key value r =
     (let ordering = (case r of
            SingleRow k _ \<Rightarrow> compare key k
          | DuplicateRow k i _ _ \<Rightarrow> compare (key, dup_identity value) (k, i))
      in case dir of Forward \<Rightarrow> ordering | Reverse \<Rightarrow> reverse_order ordering)"

fun emitted :: "merge_row \<Rightarrow> row option" where
  "emitted (SingleRow k v) = map_option (Pair k) v"
| "emitted (DuplicateRow k i del v) = map_option (Pair k) v"

datatype 'e turn = Done | Again "'e merged" | Yield "'e + row" "'e merged"

definition yield_overlay :: "'e merged \<Rightarrow> 'e turn" where
  "yield_overlay s =
     (case pending s of
        [] \<Rightarrow> Again s
      | r # rs \<Rightarrow>
          (case emitted r of None \<Rightarrow> Again (s\<lparr>pending := rs\<rparr>) | Some kv \<Rightarrow> Yield (Ok kv) (s\<lparr>pending := rs\<rparr>)))"

definition merged_turn :: "'e merged \<Rightarrow> 'e turn" where
  "merged_turn s0 =
     (let s = fill_base s0; drop = s\<lparr>base_next := None\<rparr>
      in case base_next s of
           Some (Inl e) \<Rightarrow> Yield (Inl e) drop
         | None \<Rightarrow> (if pending s = [] then Done else yield_overlay s)
         | Some (Inr (key, value)) \<Rightarrow>
             (case pending s of
                [] \<Rightarrow> if key \<in> set (deleted_keys s) then Again drop else Yield (Ok (key, value)) drop
              | r # rs \<Rightarrow>
                  (case base_precedes_overlay (going s) key value r of
                     Less \<Rightarrow> if key \<in> set (deleted_keys s) then Again drop else Yield (Ok (key, value)) drop
                   | Greater \<Rightarrow> yield_overlay s
                   | Equal \<Rightarrow>
                       (case r of
                          SingleRow _ _ \<Rightarrow> yield_overlay drop
                        | DuplicateRow _ _ del pres \<Rightarrow>
                            if key \<in> set (deleted_keys s) \<or> pres \<noteq> None \<or> value \<in> set del
                            then Again drop else Yield (Ok (key, value)) drop))))"

definition merged_size :: "'e merged \<Rightarrow> nat" where
  "merged_size s =
     2 * (case base_cursor s of None \<Rightarrow> 0 | Some xs \<Rightarrow> length xs) +
     (if base_next s = None then 0 else 1) + length (pending s)"

lemma fill_base_size: "merged_size (fill_base s) \<le> merged_size s"
  by (auto simp: fill_base_def merged_size_def split: option.split list.split)

lemma merged_turn_size:
  "merged_turn s = Again t \<or> merged_turn s = Yield x t \<Longrightarrow> merged_size t < merged_size s"
proof -
  assume m: "merged_turn s = Again t \<or> merged_turn s = Yield x t"
  let ?f = "fill_base s"
  have y: "merged_size u < merged_size v"
    if "yield_overlay v = Again u \<or> yield_overlay v = Yield x u" "pending v \<noteq> []" for u v :: "'a merged"
    using that by (auto simp: yield_overlay_def merged_size_def split: list.splits option.splits)
  have d: "merged_size (?f\<lparr>base_next := None\<rparr>) < merged_size ?f" if "base_next ?f \<noteq> None"
    using that by (simp add: merged_size_def)
  have "merged_size t < merged_size ?f"
  proof (cases "base_next ?f")
    case None
    with m y show ?thesis by (auto simp: merged_turn_def Let_def split: if_splits)
  next
    case (Some b)
    then have d': "merged_size (?f\<lparr>base_next := None\<rparr>) < merged_size ?f" using d by simp
    have yd: "merged_size u < merged_size ?f"
      if "yield_overlay (?f\<lparr>base_next := None\<rparr>) = Again u \<or> yield_overlay (?f\<lparr>base_next := None\<rparr>) = Yield x u"
        "pending ?f \<noteq> []" for u
      using y [OF that(1)] that(2) d' by simp
    show ?thesis
    proof (cases b)
      case (Inl e)
      with m Some d' show ?thesis by (auto simp: merged_turn_def Let_def)
    next
      case (Inr kv)
      obtain key v where kv: "kv = (key, v)" by (cases kv)
      show ?thesis
      proof (cases "pending ?f")
        case Nil
        with m Some Inr kv d' show ?thesis by (auto simp: merged_turn_def Let_def split: if_splits)
      next
        case (Cons r rs)
        with m Some Inr kv d' y [of ?f] yd show ?thesis
          by (auto simp: merged_turn_def Let_def simp del: base_precedes_overlay.simps
              split: if_splits order3.splits merge_row.splits)
      qed
    qed
  qed
  with fill_base_size [of s] show ?thesis by simp
qed

function merged_next :: "'e merged \<Rightarrow> ('e + row) option \<times> 'e merged" where
  "merged_next s =
     (case merged_turn s of
        Done \<Rightarrow> (None, fill_base s)
      | Yield x t \<Rightarrow> (Some x, t)
      | Again t \<Rightarrow> merged_next t)"
  by auto
termination by (relation "measure merged_size") (auto simp: merged_turn_size)

declare merged_next.simps [simp del]

lemma merged_next_size: "merged_next s = (Some x, t) \<Longrightarrow> merged_size t < merged_size s"
proof (induction s rule: merged_next.induct)
  case (1 s)
  show ?case
  proof (cases "merged_turn s")
    case (Again u)
    with 1 have "merged_size t < merged_size u" by (simp add: merged_next.simps [of s])
    with merged_turn_size [of s u] Again show ?thesis by simp
  next
    case (Yield y u)
    with 1(2) merged_turn_size [of s u] show ?thesis by (simp add: merged_next.simps [of s])
  qed (use 1(2) in \<open>simp add: merged_next.simps [of s]\<close>)
qed

function merged_all :: "'e merged \<Rightarrow> ('e + row) list" where
  "merged_all s = (case merged_next s of (None, _) \<Rightarrow> [] | (Some x, t) \<Rightarrow> x # merged_all t)"
  by auto
termination by (relation "measure merged_size") (auto simp: merged_next_size dest: sym)

declare merged_all.simps [simp del]

section \<open>The iterator is a merge of two lists\<close>

definition shown :: "merge_row \<Rightarrow> ('e + row) list" where
  "shown r = (case emitted r of None \<Rightarrow> [] | Some kv \<Rightarrow> [Inr kv])"

fun merge_lists :: "direction \<Rightarrow> bytes list \<Rightarrow> ('e + row) list \<Rightarrow> merge_row list \<Rightarrow> ('e + row) list" where
  "merge_lists d dk [] [] = []"
| "merge_lists d dk [] (r # R) = shown r @ merge_lists d dk [] R"
| "merge_lists d dk (Inl e # B) R = Inl e # merge_lists d dk B R"
| "merge_lists d dk (Inr (k, v) # B) [] =
     (if k \<in> set dk then [] else [Inr (k, v)]) @ merge_lists d dk B []"
| "merge_lists d dk (Inr (k, v) # B) (r # R) =
     (case base_precedes_overlay d k v r of
        Less \<Rightarrow> (if k \<in> set dk then [] else [Inr (k, v)]) @ merge_lists d dk B (r # R)
      | Greater \<Rightarrow> shown r @ merge_lists d dk (Inr (k, v) # B) R
      | Equal \<Rightarrow>
          (case r of
             SingleRow _ _ \<Rightarrow> shown r @ merge_lists d dk B R
           | DuplicateRow _ _ del pres \<Rightarrow>
               (if k \<in> set dk \<or> pres \<noteq> None \<or> v \<in> set del then [] else [Inr (k, v)]) @
               merge_lists d dk B (r # R)))"

definition remaining :: "'e merged \<Rightarrow> ('e + row) list" where
  "remaining s = (case base_next s of None \<Rightarrow> [] | Some x \<Rightarrow> [x]) @
     (if base_done s then [] else case base_cursor s of None \<Rightarrow> [] | Some xs \<Rightarrow> xs)"

definition rest :: "'e merged \<Rightarrow> ('e + row) list" where
  "rest s = merge_lists (going s) (deleted_keys s) (remaining s) (pending s)"

lemma rest_fill: "rest (fill_base s) = rest s"
  by (auto simp: rest_def remaining_def fill_base_def split: option.split list.split)

lemma filled_empty: "base_next (fill_base s) = None \<Longrightarrow> remaining (fill_base s) = []"
  by (auto simp: remaining_def fill_base_def split: option.splits list.splits if_splits)

lemma remaining_next: "base_next s = Some b \<Longrightarrow> remaining s = b # remaining (s\<lparr>base_next := None\<rparr>)"
  by (simp add: remaining_def)

definition turn_leaves :: "'e turn \<Rightarrow> ('e + row) list \<Rightarrow> bool" where
  "turn_leaves tn out = (case tn of Done \<Rightarrow> out = [] | Again u \<Rightarrow> out = rest u | Yield x u \<Rightarrow> out = x # rest u)"

lemma turn_leaves_simps [simp]:
  "turn_leaves Done out = (out = [])" "turn_leaves (Again u) out = (out = rest u)"
  "turn_leaves (Yield x u) out = (out = x # rest u)"
  by (simp_all add: turn_leaves_def)

lemma yield_leaves:
  "pending s = r # rs \<Longrightarrow> turn_leaves (yield_overlay s) (shown r @ rest (s\<lparr>pending := rs\<rparr>))"
  by (simp add: yield_overlay_def shown_def split: option.split)

lemma rest_drop:
  "rest (s\<lparr>pending := rs\<rparr>) = merge_lists (going s) (deleted_keys s) (remaining s) rs"
  by (simp add: rest_def remaining_def)

lemma turn_leaves_rest: "turn_leaves (merged_turn s) (rest (fill_base s))"
proof (cases "base_next (fill_base s)")
  case None
  then have r: "remaining (fill_base s) = []" by (rule filled_empty)
  show ?thesis
  proof (cases "pending (fill_base s)")
    case Nil
    with None r show ?thesis by (simp add: merged_turn_def rest_def)
  next
    case (Cons p ps)
    with r have "rest (fill_base s) = shown p @ rest (fill_base s\<lparr>pending := ps\<rparr>)"
      by (simp add: rest_drop) (simp add: rest_def)
    with None Cons yield_leaves [OF Cons] show ?thesis by (simp add: merged_turn_def)
  qed
next
  case (Some b)
  define f where "f = fill_base s"
  define d where "d = f\<lparr>base_next := None\<rparr>"
  note rem = remaining_next [OF Some, folded f_def, folded d_def]
  have same: "pending d = pending f" "going d = going f" "deleted_keys d = deleted_keys f" by (simp_all add: d_def)
  have t: "merged_turn s = (case b of Inl e \<Rightarrow> Yield (Inl e) d
      | Inr (key, value) \<Rightarrow>
             (case pending f of
                [] \<Rightarrow> if key \<in> set (deleted_keys f) then Again d else Yield (Ok (key, value)) d
              | r # rs \<Rightarrow>
                  (case base_precedes_overlay (going f) key value r of
                     Less \<Rightarrow> if key \<in> set (deleted_keys f) then Again d else Yield (Ok (key, value)) d
                   | Greater \<Rightarrow> yield_overlay f
                   | Equal \<Rightarrow>
                       (case r of
                          SingleRow _ _ \<Rightarrow> yield_overlay d
                        | DuplicateRow _ _ del pres \<Rightarrow>
                            if key \<in> set (deleted_keys f) \<or> pres \<noteq> None \<or> value \<in> set del
                            then Again d else Yield (Ok (key, value)) d))))"
    using Some unfolding merged_turn_def Let_def f_def d_def by simp
  have rf: "rest f = merge_lists (going f) (deleted_keys f) (b # remaining d) (pending f)" using rem by (simp add: rest_def)
  have rd: "rest d = merge_lists (going f) (deleted_keys f) (remaining d) (pending f)" using same by (simp add: rest_def)
  have "turn_leaves (merged_turn s) (rest f)"
  proof (cases b)
    case (Inl e)
    then show ?thesis unfolding t rf by (simp add: rd)
  next
    case (Inr kv)
    obtain k v where b: "b = Inr (k, v)" using Inr by (cases kv) simp
    show ?thesis
    proof (cases "pending f")
      case Nil
      then show ?thesis unfolding t rf b by (simp add: rd)
    next
      case (Cons p ps)
      show ?thesis
      proof (cases "base_precedes_overlay (going f) k v p")
        case Less
        with Cons show ?thesis unfolding t rf b by (simp add: rd del: base_precedes_overlay.simps)
      next
        case Greater
        then have "rest f = shown p @ rest (f\<lparr>pending := ps\<rparr>)"
          unfolding rf rest_drop rem b Cons by (simp del: base_precedes_overlay.simps)
        with Cons Greater yield_leaves [OF Cons] show ?thesis
          unfolding t b by (simp del: base_precedes_overlay.simps)
      next
        case Equal
        show ?thesis
        proof (cases p)
          case (SingleRow pk pv)
          have "rest f = shown p @ rest (d\<lparr>pending := ps\<rparr>)"
            using Equal unfolding rf rest_drop b Cons same
            by (simp add: SingleRow del: base_precedes_overlay.simps)
          with Cons Equal SingleRow yield_leaves [of d p ps] show ?thesis
            unfolding t b by (simp add: same del: base_precedes_overlay.simps)
        next
          case (DuplicateRow pk pi del pres)
          with Cons Equal show ?thesis unfolding t rf b by (simp add: rd del: base_precedes_overlay.simps)
        qed
      qed
    qed
  qed
  then show ?thesis by (simp add: f_def)
qed

lemma merged_next_rest:
  "rest s = (case merged_next s of (None, _) \<Rightarrow> [] | (Some x, t) \<Rightarrow> x # rest t)"
proof (induction s rule: merged_next.induct)
  case (1 s)
  show ?case
    using 1 turn_leaves_rest [of s] rest_fill [of s]
    by (cases "merged_turn s") (simp_all add: merged_next.simps [of s])
qed

lemma merged_all_rest: "merged_all s = rest s"
proof (induction s rule: merged_all.induct)
  case (1 s)
  show ?case
  proof (cases "merged_next s")
    case (Pair o' t)
    then show ?thesis using 1 merged_next_rest [of s] by (cases o') (simp_all add: merged_all.simps [of s])
  qed
qed

lemma merged_new_rest:
  "merged_all (merged_new (Some base) plan d) =
     merge_lists d (plan_deleted_keys plan) (if plan_clear_base plan then [] else base)
       (if d = Reverse then rev (plan_rows plan) else plan_rows plan)"
  by (simp add: merged_all_rest rest_def merged_new_def remaining_def)

section \<open>What a merge of ordered rows holds\<close>

fun comes_before :: "direction \<Rightarrow> 'a :: linorder \<Rightarrow> 'a \<Rightarrow> bool" where
  "comes_before Forward p q = (p < q)"
| "comes_before Reverse p q = (q < p)"

lemma comes_before_trans: "comes_before d p q \<Longrightarrow> comes_before d q r \<Longrightarrow> comes_before d p r"
  by (cases d) auto

lemma comes_before_irrefl [simp]: "\<not> comes_before d p p"
  by (cases d) auto

lemma comes_before_asym: "comes_before d p q \<Longrightarrow> \<not> comes_before d q p"
  by (cases d) auto

fun is_duplicate_row :: "merge_row \<Rightarrow> bool" where
  "is_duplicate_row (SingleRow _ _) = False"
| "is_duplicate_row (DuplicateRow _ _ _ _) = True"

fun row_pos :: "merge_row \<Rightarrow> bytes \<times> bytes" where
  "row_pos (SingleRow k _) = (k, [])"
| "row_pos (DuplicateRow k i _ _) = (k, i)"

definition base_pos :: "bool \<Rightarrow> row \<Rightarrow> bytes \<times> bytes" where
  "base_pos dup kv = (fst kv, if dup then dup_identity (snd kv) else [])"

lemma precedes_order:
  "base_precedes_overlay d k v r =
     (if comes_before d (base_pos (is_duplicate_row r) (k, v)) (row_pos r) then Less
      else if base_pos (is_duplicate_row r) (k, v) = row_pos r then Equal else Greater)"
  by (cases d; cases r) (auto simp: compare_def base_pos_def less_prod_def)

declare base_precedes_overlay.simps [simp del]

fun masks :: "merge_row \<Rightarrow> bytes \<Rightarrow> bool" where
  "masks (SingleRow _ _) v = True"
| "masks (DuplicateRow _ _ del pres) v = (pres \<noteq> None \<or> v \<in> set del)"

definition masked :: "bool \<Rightarrow> bytes list \<Rightarrow> merge_row list \<Rightarrow> row \<Rightarrow> bool" where
  "masked dup dk R kv \<longleftrightarrow>
     fst kv \<in> set dk \<or> (\<exists>r \<in> set R. row_pos r = base_pos dup kv \<and> masks r (snd kv))"

fun merge_pure :: "direction \<Rightarrow> bytes list \<Rightarrow> row list \<Rightarrow> merge_row list \<Rightarrow> row list" where
  "merge_pure d dk [] [] = []"
| "merge_pure d dk [] (r # R) = (case emitted r of None \<Rightarrow> [] | Some kv \<Rightarrow> [kv]) @ merge_pure d dk [] R"
| "merge_pure d dk ((k, v) # B) [] = (if k \<in> set dk then [] else [(k, v)]) @ merge_pure d dk B []"
| "merge_pure d dk ((k, v) # B) (r # R) =
     (case base_precedes_overlay d k v r of
        Less \<Rightarrow> (if k \<in> set dk then [] else [(k, v)]) @ merge_pure d dk B (r # R)
      | Greater \<Rightarrow> (case emitted r of None \<Rightarrow> [] | Some kv \<Rightarrow> [kv]) @ merge_pure d dk ((k, v) # B) R
      | Equal \<Rightarrow>
          (if is_duplicate_row r
           then (if k \<in> set dk \<or> masks r v then [] else [(k, v)]) @ merge_pure d dk B (r # R)
           else (case emitted r of None \<Rightarrow> [] | Some kv \<Rightarrow> [kv]) @ merge_pure d dk B R))"

lemma merge_lists_pure: "merge_lists d dk (map Inr B) R = map Inr (merge_pure d dk B R)"
proof (induction d dk B R rule: merge_pure.induct)
  case (4 d dk k v B r R)
  show ?case
  proof (cases "base_precedes_overlay d k v r")
    case Equal
    with 4 show ?thesis
      by (cases r) (simp_all add: shown_def split: option.split)
  qed (use 4 in \<open>simp_all add: shown_def split: option.split\<close>)
qed (simp_all add: shown_def split: option.split)

definition mergeable :: "bool \<Rightarrow> direction \<Rightarrow> row list \<Rightarrow> merge_row list \<Rightarrow> bool" where
  "mergeable dup d B R \<longleftrightarrow>
     sorted_wrt (\<lambda>x y. comes_before d (base_pos dup x) (base_pos dup y)) B \<and>
     sorted_wrt (\<lambda>x y. comes_before d (row_pos x) (row_pos y)) R \<and>
     (\<forall>r \<in> set R. is_duplicate_row r = dup \<and> (\<forall>kv. emitted r = Some kv \<longrightarrow> base_pos dup kv = row_pos r))"

lemma mergeable_Cons:
  "mergeable dup d (b # B) R \<longleftrightarrow> mergeable dup d B R \<and> (\<forall>x \<in> set B. comes_before d (base_pos dup b) (base_pos dup x))"
  "mergeable dup d B (r # R) \<longleftrightarrow> mergeable dup d B R \<and> (\<forall>x \<in> set R. comes_before d (row_pos r) (row_pos x)) \<and>
     is_duplicate_row r = dup \<and> (\<forall>kv. emitted r = Some kv \<longrightarrow> base_pos dup kv = row_pos r)"
  by (auto simp: mergeable_def)

lemma masked_Cons:
  "masked dup dk (r # R) kv \<longleftrightarrow> row_pos r = base_pos dup kv \<and> masks r (snd kv) \<or> masked dup dk R kv"
  by (auto simp: masked_def)

lemma merge_pure_set:
  "mergeable dup d B R \<Longrightarrow>
   set (merge_pure d dk B R) = {kv \<in> set B. \<not> masked dup dk R kv} \<union> {kv. \<exists>r \<in> set R. emitted r = Some kv}"
proof (induction d dk B R rule: merge_pure.induct)
  case (2 d dk r R)
  then show ?case by (auto simp: mergeable_Cons split: option.splits)
next
  case (3 d dk k v B)
  then show ?case by (auto simp: mergeable_Cons masked_def)
next
  case (4 d dk k v B r R)
  have dup: "is_duplicate_row r = dup" and m: "mergeable dup d B R" "mergeable dup d B (r # R)" "mergeable dup d ((k, v) # B) R"
    and R: "\<forall>x \<in> set R. comes_before d (row_pos r) (row_pos x)"
    and B: "\<forall>x \<in> set B. comes_before d (base_pos dup (k, v)) (base_pos dup x)"
    using 4(5) by (auto simp: mergeable_Cons)
  consider (less) "comes_before d (base_pos dup (k, v)) (row_pos r)"
    | (eq) "base_pos dup (k, v) = row_pos r"
    | (greater) "comes_before d (row_pos r) (base_pos dup (k, v))"
    by (cases d) (auto dest: linorder_neqE)
  then show ?case
  proof cases
    case less
    then have p: "base_precedes_overlay d k v r = Less" by (simp add: precedes_order dup)
    have "\<forall>x \<in> set (r # R). row_pos x \<noteq> base_pos dup (k, v)"
      using less R comes_before_trans comes_before_irrefl by (metis set_ConsD)
    then have "masked dup dk (r # R) (k, v) \<longleftrightarrow> k \<in> set dk" by (auto simp: masked_def)
    with 4(1) [OF p m(2)] p show ?thesis by (auto)
  next
    case greater
    then have p: "base_precedes_overlay d k v r = Greater"
      using comes_before_asym [OF greater] by (auto simp: precedes_order dup)
    have "masked dup dk (r # R) x = masked dup dk R x" if "x \<in> set ((k, v) # B)" for x
      using that greater B by (auto simp: masked_Cons dest: comes_before_asym)
    with 4(4) [OF p m(3)] p show ?thesis
      by (auto split: option.splits)
  next
    case eq
    then have p: "base_precedes_overlay d k v r = Equal" by (simp add: precedes_order dup)
    have rB: "\<forall>x \<in> set B. row_pos r \<noteq> base_pos dup x" using eq B comes_before_irrefl by metis
    have Rk: "\<forall>x \<in> set R. row_pos x \<noteq> base_pos dup (k, v)" using eq R comes_before_irrefl by metis
    show ?thesis
    proof (cases "is_duplicate_row r")
      case True
      have "masked dup dk (r # R) (k, v) \<longleftrightarrow> k \<in> set dk \<or> masks r v"
        using eq Rk by (auto simp: masked_def)
      with 4(2) [OF p True m(2)] p True show ?thesis by (auto)
    next
      case False
      then have "masks r v" by (cases r) auto
      then have "masked dup dk (r # R) (k, v)" using eq by (simp add: masked_Cons)
      moreover have "masked dup dk (r # R) x = masked dup dk R x" if "x \<in> set B" for x
        using that rB by (auto simp: masked_Cons)
      ultimately show ?thesis using 4(3) [OF p False m(1)] p False
        by (auto split: option.splits)
    qed
  qed
qed simp


lemma merge_pure_pos:
  assumes "mergeable dup d B R" "x \<in> set (merge_pure d dk B R)"
  shows "x \<in> set B \<or> (\<exists>r \<in> set R. emitted r = Some x \<and> base_pos dup x = row_pos r)"
  using assms merge_pure_set [OF assms(1), of dk] by (auto simp: mergeable_def simp del: split_paired_All)

lemma merge_pure_sorted:
  "mergeable dup d B R \<Longrightarrow> sorted_wrt (\<lambda>x y. comes_before d (base_pos dup x) (base_pos dup y)) (merge_pure d dk B R)"
proof (induction d dk B R rule: merge_pure.induct)
  case (2 d dk r R)
  have "comes_before d (base_pos dup kv) (base_pos dup x)"
    if "emitted r = Some kv" "x \<in> set (merge_pure d dk [] R)" for kv x
    using 2(2) that merge_pure_pos [of dup d "[]" R x dk] by (fastforce simp: mergeable_Cons)
  with 2 show ?case by (auto simp: mergeable_Cons split: option.splits)
next
  case (3 d dk k v B)
  have "comes_before d (base_pos dup (k, v)) (base_pos dup x)" if "x \<in> set (merge_pure d dk B [])" for x
    using 3(2) that merge_pure_pos [of dup d B "[]" x dk] by (auto simp: mergeable_Cons)
  with 3 show ?case by (auto simp: mergeable_Cons)
next
  case (4 d dk k v B r R)
  have dup: "is_duplicate_row r = dup" and m: "mergeable dup d B R" "mergeable dup d B (r # R)" "mergeable dup d ((k, v) # B) R"
    and R: "\<forall>x \<in> set R. comes_before d (row_pos r) (row_pos x)"
    and B: "\<forall>x \<in> set B. comes_before d (base_pos dup (k, v)) (base_pos dup x)"
    and e: "\<And>kv. emitted r = Some kv \<Longrightarrow> base_pos dup kv = row_pos r"
    using 4(5) by (auto simp: mergeable_Cons)
  consider (less) "comes_before d (base_pos dup (k, v)) (row_pos r)"
    | (eq) "base_pos dup (k, v) = row_pos r"
    | (greater) "comes_before d (row_pos r) (base_pos dup (k, v))"
    by (cases d) (auto dest: linorder_neqE)
  then show ?case
  proof cases
    case less
    then have p: "base_precedes_overlay d k v r = Less" by (simp add: precedes_order dup)
    have "comes_before d (base_pos dup (k, v)) (base_pos dup x)" if "x \<in> set (merge_pure d dk B (r # R))" for x
      using merge_pure_pos [OF m(2) that] B R less comes_before_trans e by (metis set_ConsD)
    with 4(1) [OF p m(2)] p show ?thesis by auto
  next
    case greater
    then have p: "base_precedes_overlay d k v r = Greater"
      using comes_before_asym [OF greater] by (auto simp: precedes_order dup)
    have "comes_before d (row_pos r) (base_pos dup x)" if "x \<in> set (merge_pure d dk ((k, v) # B) R)" for x
      using merge_pure_pos [OF m(3) that] B R greater comes_before_trans by (metis set_ConsD)
    with 4(4) [OF p m(3)] p e show ?thesis by (auto split: option.splits)
  next
    case eq
    then have p: "base_precedes_overlay d k v r = Equal" by (simp add: precedes_order dup)
    show ?thesis
    proof (cases "is_duplicate_row r")
      case True
      have "comes_before d (row_pos r) (base_pos dup x)"
        if "x \<in> set (merge_pure d dk B (r # R))" "\<not> masks r v" for x
      proof -
        have "emitted r = None" using that(2) True by (cases r) auto
        with merge_pure_pos [OF m(2) that(1)] B R eq show ?thesis by auto
      qed
      with 4(2) [OF p True m(2)] p True eq show ?thesis by auto
    next
      case False
      have "comes_before d (row_pos r) (base_pos dup x)" if "x \<in> set (merge_pure d dk B R)" for x
        using merge_pure_pos [OF m(1) that] B R eq by auto
      with 4(3) [OF p False m(1)] p False e show ?thesis by (auto split: option.splits)
    qed
  qed
qed simp

lemma sorted_comes_unique:
  assumes "sorted_wrt (\<lambda>x y. comes_before d (f x) (f y)) xs" "sorted_wrt (\<lambda>x y. comes_before d (f x) (f y)) ys" "set xs = set ys"
  shows "xs = ys"
  using assms
proof (induction xs arbitrary: ys)
  case (Cons x xs)
  then obtain y ys' where y: "ys = y # ys'" by (cases ys) auto
  have "x = y"
  proof (rule ccontr)
    assume "x \<noteq> y"
    then have "comes_before d (f y) (f x)" "comes_before d (f x) (f y)" using Cons.prems y by (auto simp: set_eq_iff)
    then show False using comes_before_asym by blast
  qed
  moreover have "x \<notin> set xs" "x \<notin> set ys'" using Cons.prems y \<open>x = y\<close> comes_before_irrefl by fastforce+
  then have "set xs = set ys'" using Cons.prems(3) y \<open>x = y\<close> by auto
  then have "xs = ys'" using Cons.IH [of ys'] Cons.prems y by auto
  ultimately show ?case by (simp add: y)
qed simp

lemma mergeable_rev:
  "mergeable dup Forward B R \<Longrightarrow> mergeable dup Reverse (rev B) (rev R)"
  by (simp add: mergeable_def sorted_wrt_rev)

lemma merge_pure_reverse:
  assumes "mergeable dup Forward B R"
  shows "merge_pure Reverse dk (rev B) (rev R) = rev (merge_pure Forward dk B R)"
proof (rule sorted_comes_unique [where d = Reverse and f = "base_pos dup"])
  show "sorted_wrt (\<lambda>x y. comes_before Reverse (base_pos dup x) (base_pos dup y)) (merge_pure Reverse dk (rev B) (rev R))"
    by (rule merge_pure_sorted [OF mergeable_rev [OF assms]])
  show "sorted_wrt (\<lambda>x y. comes_before Reverse (base_pos dup x) (base_pos dup y)) (rev (merge_pure Forward dk B R))"
    using merge_pure_sorted [OF assms, of dk] by (simp add: sorted_wrt_rev)
  show "set (merge_pure Reverse dk (rev B) (rev R)) = set (rev (merge_pure Forward dk B R))"
    using merge_pure_set [OF assms, of dk] merge_pure_set [OF mergeable_rev [OF assms], of dk]
    by (simp add: masked_def)
qed

section \<open>Plans of a single-valued keyspace\<close>

definition base_ordered :: "keyspace_state \<Rightarrow> row list \<Rightarrow> bool" where
  "base_ordered ks base \<longleftrightarrow>
     sorted_wrt (\<lambda>x y. base_pos (case ks of Single _ _ \<Rightarrow> False | DupSort _ _ \<Rightarrow> True) x <
       base_pos (case ks of Single _ _ \<Rightarrow> False | DupSort _ _ \<Rightarrow> True) y) base"

lemma base_ordered_single: "base_ordered (Single c rows) base = ordered base"
  by (simp add: base_ordered_def ordered_def base_pos_def less_prod_def)

lemma fold_rows:
  assumes "distinct (map fst rows)"
  shows "ordered m \<Longrightarrow> ordered (fold (\<lambda>(k, v) m. case v of Present x \<Rightarrow> om_insert k x m | Tombstone \<Rightarrow> om_remove k m) rows m) \<and>
    map_of (fold (\<lambda>(k, v) m. case v of Present x \<Rightarrow> om_insert k x m | Tombstone \<Rightarrow> om_remove k m) rows m) j =
    (case map_of rows j of None \<Rightarrow> map_of m j | Some v \<Rightarrow> row_value v)"
  using assms
proof (induction rows arbitrary: m)
  case (Cons e rows)
  obtain k v where e: "e = (k, v)" by (cases e)
  have n: "map_of rows k = None" using Cons.prems(2) e by (simp add: map_of_eq_None_iff)
  show ?case
    using Cons.IH [of "case v of Present x \<Rightarrow> om_insert k x m | Tombstone \<Rightarrow> om_remove k m"] Cons.prems e n
    by (cases v) (auto split: option.split)
qed simp

lemma fold_inserts:
  assumes "distinct (map fst base)" "ordered m"
  shows "ordered (fold (\<lambda>(k, v) m. om_insert k v m) base m) \<and>
    map_of (fold (\<lambda>(k, v) m. om_insert k v m) base m) j =
    (case map_of base j of None \<Rightarrow> map_of m j | Some v \<Rightarrow> Some v)"
  using assms
proof (induction base arbitrary: m)
  case (Cons e base)
  obtain k v where e: "e = (k, v)" by (cases e)
  have n: "map_of base k = None" using Cons.prems(1) e by (simp add: map_of_eq_None_iff)
  show ?case using Cons.IH [of "om_insert k v m"] Cons.prems e n by (auto split: option.split)
qed simp

lemma merge_rows_single:
  assumes "ordered rows" "ordered base"
  shows "ordered (merge_rows (Single c rows) base) \<and> map_of (merge_rows (Single c rows) base) = room_get base (Single c rows)"
proof -
  let ?m = "if c then [] else fold (\<lambda>(k, v) m. om_insert k v m) base []"
  have m: "ordered ?m \<and> map_of ?m j = (if c then None else map_of base j)" for j
    using fold_inserts [of base "[]" j] ordered_distinct [OF assms(2)] by (auto split: option.split)
  have "map_of (merge_rows (Single c rows) base) j = room_get base (Single c rows) j" for j
    using fold_rows [OF ordered_distinct [OF assms(1)], of ?m j] m
    by (auto simp: room_get_simps split: option.split overlay_value.split)
  then show ?thesis using fold_rows [OF ordered_distinct [OF assms(1)], of ?m] m by auto
qed

lemma row_value_Some: "row_value w = Some v \<longleftrightarrow> w = Present v"
  by (cases w) auto

lemma single_mergeable:
  assumes "ordered rows" "ordered base"
  shows "mergeable False Forward base (map (\<lambda>(k, v). SingleRow k (row_value v)) rows)"
  using assms
  by (auto simp: mergeable_def ordered_def base_pos_def less_prod_def sorted_wrt_map case_prod_beta)

lemma single_scan:
  assumes "ordered rows" "ordered base"
  shows "merge_pure Forward [] (if c then [] else filter (include \<circ> fst) base)
      (plan_rows (merge_plan_of include (Single c rows))) =
    filter (include \<circ> fst) (merge_rows (Single c rows) base)"
proof -
  let ?B = "if c then [] else filter (include \<circ> fst) base"
  let ?rows = "filter (\<lambda>(k, v). include k) rows"
  let ?R = "map (\<lambda>(k, v). SingleRow k (row_value v)) ?rows"
  have o: "ordered ?B" "ordered ?rows" using assms by simp_all
  have m: "mergeable False Forward ?B ?R" by (rule single_mergeable [OF o(2,1)])
  note ref = merge_rows_single [OF assms, of c]
  have "set (merge_pure Forward [] ?B ?R) = set (filter (include \<circ> fst) (merge_rows (Single c rows) base))"
  proof (rule set_eqI)
    fix kv :: row
    obtain k v where kv: "kv = (k, v)" by (cases kv)
    have "masked False [] ?R (k, v) \<longleftrightarrow> include k \<and> map_of rows k \<noteq> None"
      by (auto simp: masked_def base_pos_def map_of_eq_None_iff image_iff split: prod.splits) force
    moreover have "(\<exists>r \<in> set ?R. emitted r = Some (k, v)) \<longleftrightarrow> include k \<and> map_of rows k = Some (Present v)"
      using ordered_map_of [OF assms(1)] by (auto simp: image_iff row_value_Some)
    moreover have "(k, v) \<in> set ?B \<longleftrightarrow> \<not> c \<and> include k \<and> map_of base k = Some v"
      using ordered_map_of [OF assms(2)] by auto
    ultimately have "kv \<in> set (merge_pure Forward [] ?B ?R) \<longleftrightarrow> include k \<and> room_get base (Single c rows) k = Some v"
      unfolding merge_pure_set [OF m] kv
      by (auto simp: room_get_simps split: option.splits overlay_value.splits)
    then show "kv \<in> set (merge_pure Forward [] ?B ?R) \<longleftrightarrow> kv \<in> set (filter (include \<circ> fst) (merge_rows (Single c rows) base))"
      using ref ordered_map_of [of "merge_rows (Single c rows) base"] kv by (simp del: merge_rows.simps) metis
  qed
  moreover have "sorted_wrt (\<lambda>x y. comes_before Forward (base_pos False x) (base_pos False y))
      (filter (include \<circ> fst) (merge_rows (Single c rows) base))"
    using ref by (simp add: ordered_def base_pos_def less_prod_def sorted_wrt_filter del: merge_rows.simps)
  ultimately have "merge_pure Forward [] ?B ?R = filter (include \<circ> fst) (merge_rows (Single c rows) base)"
    using merge_pure_sorted [OF m, of "[]"] by (intro sorted_comes_unique [of Forward "base_pos False"])
  then show ?thesis by simp
qed

section \<open>Plans of the keyspace with duplicates\<close>

abbreviation held :: "('k, 'v list) omap \<Rightarrow> 'k \<Rightarrow> 'v set" where
  "held m i \<equiv> (case map_of m i of None \<Rightarrow> {} | Some q \<Rightarrow> set q)"

lemma by_identity_deleted:
  assumes "ordered m"
  defines "F \<equiv> \<lambda>vs m. fold (\<lambda>v m. om_insert (dup_identity v)
      (os_insert v (case map_of m (dup_identity v) of None \<Rightarrow> [] | Some q \<Rightarrow> q)) m) vs m"
  shows "ordered (F vs m) \<and> dom (map_of (F vs m)) = dom (map_of m) \<union> dup_identity ` set vs \<and>
    held (F vs m) i = held m i \<union> {v \<in> set vs. dup_identity v = i}"
  using assms(1) unfolding F_def
proof (induction vs arbitrary: m)
  case (Cons v vs)
  let ?m = "om_insert (dup_identity v) (os_insert v (case map_of m (dup_identity v) of None \<Rightarrow> [] | Some q \<Rightarrow> q)) m"
  have "held ?m i = held m i \<union> (if dup_identity v = i then {v} else {})" by (auto split: option.split)
  with Cons.IH [of ?m] Cons.prems show ?case by auto
qed simp

lemma by_identity_present:
  assumes "ordered m"
  defines "G \<equiv> \<lambda>is m. fold (\<lambda>i m. case map_of m i of None \<Rightarrow> om_insert i [] m | Some _ \<Rightarrow> m) is m"
  shows "ordered (G is m) \<and> dom (map_of (G is m)) = dom (map_of m) \<union> set is \<and> held (G is m) i = held m i"
  using assms(1) unfolding G_def
proof (induction "is" arbitrary: m)
  case (Cons j js)
  let ?m = "case map_of m j of None \<Rightarrow> om_insert j [] m | Some _ \<Rightarrow> m"
  have "ordered ?m \<and> dom (map_of ?m) = insert j (dom (map_of m)) \<and> held ?m i = held m i"
    using Cons.prems by (cases "map_of m j") auto
  with Cons.IH [of ?m] show ?case by simp
qed simp

lemma by_identity_holds:
  "ordered (by_identity d)"
  "dom (map_of (by_identity d)) = dup_identity ` set (deleted d) \<union> dom (map_of (present d))"
  "held (by_identity d) i = {v \<in> set (deleted d). dup_identity v = i}"
  using by_identity_deleted [of "[]" "deleted d" i]
    by_identity_present [of "fold (\<lambda>v m. om_insert (dup_identity v)
      (os_insert v (case map_of m (dup_identity v) of None \<Rightarrow> [] | Some q \<Rightarrow> q)) m) (deleted d) []" "map fst (present d)" i]
  by (simp_all add: by_identity_def dom_ordered)

lemma nested_sorted:
  assumes "ordered m" "\<And>k x. (k, x) \<in> set m \<Longrightarrow> sorted_wrt (\<lambda>a b. pos a < pos b) (g k x) \<and> (\<forall>a \<in> set (g k x). fst (pos a) = k)"
  shows "sorted_wrt (\<lambda>a b. pos a < (pos b :: bytes \<times> bytes)) (concat (map (\<lambda>(k, x). g k x) m))"
  using assms
proof (induction m)
  case (Cons e m)
  obtain k x where e: "e = (k, x)" by (cases e)
  have "pos a < pos b" if "a \<in> set (g k x)" "(l, y) \<in> set m" "b \<in> set (g l y)" for a b l y
  proof -
    have "fst (pos a) = k" "fst (pos b) = l" using Cons.prems(2) that e by auto
    moreover have "k < l" using Cons.prems(1) that(2) e by auto
    ultimately show ?thesis by (simp add: less_prod_def)
  qed
  then show ?case using Cons.IH Cons.prems e by (fastforce simp: sorted_wrt_append)
qed simp

definition delta_at :: "(bytes, dup_delta) omap \<Rightarrow> bytes \<Rightarrow> dup_delta" where
  "delta_at rows k = (case map_of rows k of None \<Rightarrow> no_delta | Some d \<Rightarrow> d)"

definition hides :: "dup_delta \<Rightarrow> bytes \<Rightarrow> bool" where
  "hides d v \<longleftrightarrow> delete_base d \<or> v \<in> set (deleted d) \<or> dup_identity v \<in> dom (map_of (present d))"

definition duplicate_rows :: "bytes \<Rightarrow> dup_delta \<Rightarrow> merge_row list" where
  "duplicate_rows k d = map (\<lambda>(i, del). DuplicateRow k i del (map_of (present d) i)) (by_identity d)"

lemma duplicate_rows_facts:
  assumes "delta_wf d"
  shows "sorted_wrt (\<lambda>a b. row_pos a < row_pos b) (duplicate_rows k d)"
    and "r \<in> set (duplicate_rows k d) \<Longrightarrow> fst (row_pos r) = k \<and> is_duplicate_row r \<and>
      (\<forall>kv. emitted r = Some kv \<longrightarrow> base_pos True kv = row_pos r)"
    and "(\<exists>r \<in> set (duplicate_rows k d). row_pos r = (k, dup_identity v) \<and> masks r v) \<longleftrightarrow>
      v \<in> set (deleted d) \<or> dup_identity v \<in> dom (map_of (present d))"
    and "(\<exists>r \<in> set (duplicate_rows k d). emitted r = Some (k', v)) \<longleftrightarrow>
      k' = k \<and> map_of (present d) (dup_identity v) = Some v"
proof -
  have wf: "ordered (present d)" "\<And>i v. map_of (present d) i = Some v \<Longrightarrow> i = dup_identity v"
    using assms by (auto simp: delta_wf_def dest!: map_of_SomeD)
  note b = by_identity_holds [of d]
  show "sorted_wrt (\<lambda>a b. row_pos a < row_pos b) (duplicate_rows k d)"
    using b(1) by (simp add: duplicate_rows_def sorted_wrt_map case_prod_beta ordered_def less_prod_def)
  show "r \<in> set (duplicate_rows k d) \<Longrightarrow> fst (row_pos r) = k \<and> is_duplicate_row r \<and>
      (\<forall>kv. emitted r = Some kv \<longrightarrow> base_pos True kv = row_pos r)"
    using wf(2) by (auto simp: duplicate_rows_def base_pos_def)
  have mem: "r \<in> set (duplicate_rows k d) \<longleftrightarrow>
      (\<exists>i q. map_of (by_identity d) i = Some q \<and> r = DuplicateRow k i q (map_of (present d) i))" for r
    using ordered_map_of [OF b(1)] by (auto simp: duplicate_rows_def)
  have ex: "(\<exists>r \<in> set (duplicate_rows k d). P r) \<longleftrightarrow>
      (\<exists>i q. map_of (by_identity d) i = Some q \<and> P (DuplicateRow k i q (map_of (present d) i)))" for P
    unfolding Bex_def mem by fast
  let ?i = "dup_identity v"
  have "(\<exists>r \<in> set (duplicate_rows k d). row_pos r = (k, ?i) \<and> masks r v) \<longleftrightarrow>
      (\<exists>q. map_of (by_identity d) ?i = Some q \<and> (?i \<in> dom (map_of (present d)) \<or> v \<in> set q))"
    unfolding ex by auto
  also have "\<dots> \<longleftrightarrow> ?i \<in> dom (map_of (by_identity d)) \<and> (?i \<in> dom (map_of (present d)) \<or> v \<in> held (by_identity d) ?i)"
    by (auto split: option.splits)
  also have "\<dots> \<longleftrightarrow> v \<in> set (deleted d) \<or> ?i \<in> dom (map_of (present d))" using b(2) b(3) [of ?i] by auto
  finally show "(\<exists>r \<in> set (duplicate_rows k d). row_pos r = (k, ?i) \<and> masks r v) \<longleftrightarrow>
      v \<in> set (deleted d) \<or> ?i \<in> dom (map_of (present d))" .
  have "(\<exists>r \<in> set (duplicate_rows k d). emitted r = Some (k', v)) \<longleftrightarrow>
      k' = k \<and> (\<exists>i. i \<in> dom (map_of (by_identity d)) \<and> map_of (present d) i = Some v)"
    unfolding ex by auto
  also have "\<dots> \<longleftrightarrow> k' = k \<and> map_of (present d) ?i = Some v" using b(2) wf(2) by auto
  finally show "(\<exists>r \<in> set (duplicate_rows k d). emitted r = Some (k', v)) \<longleftrightarrow>
      k' = k \<and> map_of (present d) ?i = Some v" .
qed


definition composed :: "row list \<Rightarrow> bool \<Rightarrow> (bytes, dup_delta) omap \<Rightarrow> row \<Rightarrow> bool" where
  "composed base c rows kv \<longleftrightarrow>
     map_of (present (delta_at rows (fst kv))) (dup_identity (snd kv)) = Some (snd kv) \<or>
     \<not> c \<and> kv \<in> set base \<and> \<not> hides (delta_at rows (fst kv)) (snd kv)"

lemma hides_no_delta [simp]: "\<not> hides no_delta v" "present no_delta = []"
  by (simp_all add: hides_def no_delta_def)

lemma dup_plan_rows:
  "plan_rows (merge_plan_of include (DupSort c rows)) =
     concat (map (\<lambda>(k, d). duplicate_rows k d) (filter (\<lambda>(k, d). include k) rows))"
  by (simp add: duplicate_rows_def Let_def)

lemma dup_plan_member:
  assumes "ordered rows"
  shows "(\<exists>r \<in> set (plan_rows (merge_plan_of include (DupSort c rows))). P r) \<longleftrightarrow>
    (\<exists>k. include k \<and> k \<in> dom (map_of rows) \<and> (\<exists>r \<in> set (duplicate_rows k (delta_at rows k)). P r))"
proof -
  have "(\<exists>r \<in> set (plan_rows (merge_plan_of include (DupSort c rows))). P r) \<longleftrightarrow>
      (\<exists>k d. (k, d) \<in> set rows \<and> include k \<and> (\<exists>r \<in> set (duplicate_rows k d). P r))"
    unfolding dup_plan_rows by auto
  also have "\<dots> \<longleftrightarrow> (\<exists>k d. map_of rows k = Some d \<and> include k \<and> (\<exists>r \<in> set (duplicate_rows k d). P r))"
    using ordered_map_of [OF assms] by simp
  also have "\<dots> \<longleftrightarrow> (\<exists>k. include k \<and> k \<in> dom (map_of rows) \<and> (\<exists>r \<in> set (duplicate_rows k (delta_at rows k)). P r))"
  proof -
    have "(\<exists>d. map_of rows k = Some d \<and> include k \<and> (\<exists>r \<in> set (duplicate_rows k d). P r)) \<longleftrightarrow>
        include k \<and> k \<in> dom (map_of rows) \<and> (\<exists>r \<in> set (duplicate_rows k (delta_at rows k)). P r)"
      for k by (cases "map_of rows k") (auto simp: delta_at_def)
    then show ?thesis by (rule ex_cong1)
  qed
  finally show ?thesis .
qed

lemma wf_delta_of:
  assumes "\<forall>(k, d) \<in> set rows. delta_wf d" "map_of rows k = Some d"
  shows "delta_wf d"
  using assms by (auto dest: map_of_SomeD)

lemma dup_mergeable:
  assumes "ordered rows" "\<forall>(k, d) \<in> set rows. delta_wf d" "base_ordered (DupSort c rows) base"
  shows "mergeable True Forward (filter P base) (plan_rows (merge_plan_of include (DupSort c rows)))"
proof -
  have "sorted_wrt (\<lambda>a b. row_pos a < row_pos b) (plan_rows (merge_plan_of include (DupSort c rows)))"
    unfolding dup_plan_rows
    by (rule nested_sorted) (use assms(1,2) duplicate_rows_facts(1,2) in \<open>auto\<close>)
  moreover have "\<forall>r \<in> set (plan_rows (merge_plan_of include (DupSort c rows))).
      is_duplicate_row r \<and> (\<forall>kv. emitted r = Some kv \<longrightarrow> base_pos True kv = row_pos r)"
    unfolding dup_plan_rows using assms(2) duplicate_rows_facts(2) by fastforce
  ultimately show ?thesis
    using assms(3) by (simp add: mergeable_def base_ordered_def sorted_wrt_filter)
qed

lemma dup_scan_set:
  assumes "ordered rows" "\<forall>(k, d) \<in> set rows. delta_wf d" "base_ordered (DupSort c rows) base"
  shows "set (merge_pure Forward (plan_deleted_keys (merge_plan_of include (DupSort c rows)))
      (if c then [] else filter (include \<circ> fst) base) (plan_rows (merge_plan_of include (DupSort c rows)))) =
    {kv. include (fst kv) \<and> composed base c rows kv}"
proof (rule set_eqI)
  fix kv :: row
  obtain k v where kv: "kv = (k, v)" by (cases kv)
  let ?plan = "merge_plan_of include (DupSort c rows)"
  let ?B = "if c then [] else filter (include \<circ> fst) base"
  have m: "mergeable True Forward ?B (plan_rows ?plan)"
    using dup_mergeable [OF assms, of "include \<circ> fst" "include"] dup_mergeable [OF assms, of "\<lambda>_. False" "include"] by auto
  have del: "k \<in> set (plan_deleted_keys ?plan) \<longleftrightarrow> include k \<and> delete_base (delta_at rows k)"
  proof -
    have "k \<in> set (plan_deleted_keys ?plan) \<longleftrightarrow> (\<exists>d. (k, d) \<in> set rows \<and> include k \<and> delete_base d)"
      by (force simp: Let_def)
    also have "\<dots> \<longleftrightarrow> (\<exists>d. map_of rows k = Some d \<and> include k \<and> delete_base d)"
      using ordered_map_of [OF assms(1)] by simp
    also have "\<dots> \<longleftrightarrow> include k \<and> delete_base (delta_at rows k)"
      by (cases "map_of rows k") (simp_all add: delta_at_def no_delta_def conj_commute)
    finally show ?thesis .
  qed
  have wf: "k \<in> dom (map_of rows) \<Longrightarrow> delta_wf (delta_at rows k)" for k
    using wf_delta_of [OF assms(2)] by (auto simp: delta_at_def)
  have pos: "r \<in> set (duplicate_rows l (delta_at rows l)) \<Longrightarrow> l \<in> dom (map_of rows) \<Longrightarrow> fst (row_pos r) = l" for r l
    using duplicate_rows_facts(2) [OF wf] by blast
  have "masked True (plan_deleted_keys ?plan) (plan_rows ?plan) (k, v) \<longleftrightarrow> include k \<and> hides (delta_at rows k) v"
  proof (cases "k \<in> dom (map_of rows)")
    case True
    have "(\<exists>r \<in> set (plan_rows ?plan). row_pos r = (k, dup_identity v) \<and> masks r v) \<longleftrightarrow>
        include k \<and> (\<exists>r \<in> set (duplicate_rows k (delta_at rows k)). row_pos r = (k, dup_identity v) \<and> masks r v)"
      unfolding dup_plan_member [OF assms(1)] using True pos by (metis fst_conv)
    with duplicate_rows_facts(3) [OF wf [OF True], of k v] del show ?thesis
      by (auto simp: masked_def base_pos_def hides_def simp del: merge_plan_of.simps)
  next
    case False
    then have "delta_at rows k = no_delta" by (simp add: delta_at_def domIff)
    moreover have "\<not> (\<exists>r \<in> set (plan_rows ?plan). row_pos r = (k, dup_identity v) \<and> masks r v)"
      unfolding dup_plan_member [OF assms(1)] using False pos by (metis fst_conv)
    ultimately show ?thesis using del
      by (auto simp: masked_def base_pos_def no_delta_def simp del: merge_plan_of.simps) (auto simp: hides_def)
  qed
  moreover have "(\<exists>r \<in> set (plan_rows ?plan). emitted r = Some (k, v)) \<longleftrightarrow>
      include k \<and> map_of (present (delta_at rows k)) (dup_identity v) = Some v"
  proof -
    have "(\<exists>r \<in> set (plan_rows ?plan). emitted r = Some (k, v)) \<longleftrightarrow>
        include k \<and> k \<in> dom (map_of rows) \<and> map_of (present (delta_at rows k)) (dup_identity v) = Some v"
    proof -
      have "(\<exists>r \<in> set (duplicate_rows l (delta_at rows l)). emitted r = Some (k, v)) \<longleftrightarrow>
          k = l \<and> map_of (present (delta_at rows l)) (dup_identity v) = Some v" if "l \<in> dom (map_of rows)" for l
        by (rule duplicate_rows_facts(4) [OF wf [OF that]])
      then show ?thesis unfolding dup_plan_member [OF assms(1)] by metis
    qed
    moreover have "map_of (present (delta_at rows k)) (dup_identity v) = Some v \<Longrightarrow> k \<in> dom (map_of rows)"
      by (auto simp: delta_at_def no_delta_def split: option.splits)
    ultimately show ?thesis by blast
  qed
  moreover have "(k, v) \<in> set ?B \<longleftrightarrow> \<not> c \<and> include k \<and> (k, v) \<in> set base" by auto
  ultimately show "kv \<in> set (merge_pure Forward (plan_deleted_keys ?plan) ?B (plan_rows ?plan)) \<longleftrightarrow>
      kv \<in> {kv. include (fst kv) \<and> composed base c rows kv}"
    unfolding merge_pure_set [OF m] kv composed_def by (simp del: merge_plan_of.simps) blast
qed

section \<open>The reference merge with duplicates\<close>

definition identified :: "(bytes, bytes) omap \<Rightarrow> bool" where
  "identified q \<longleftrightarrow> ordered q \<and> (\<forall>(i, v) \<in> set q. i = dup_identity v)"

definition nest_wf :: "(bytes, (bytes, bytes) omap) omap \<Rightarrow> bool" where
  "nest_wf m \<longleftrightarrow> ordered m \<and> (\<forall>(k, q) \<in> set m. identified q)"

lemma identified_Nil [simp]: "identified []"
  by (simp add: identified_def)

lemma identified_insert: "identified q \<Longrightarrow> i = dup_identity v \<Longrightarrow> identified (om_insert i v q)"
  by (auto simp: identified_def dest!: in_om_insert)

lemma identified_key_values: "nest_wf m \<Longrightarrow> identified (key_values m k)"
  by (auto simp: nest_wf_def key_values_def split: option.split dest!: map_of_SomeD)

lemma identified_put: "identified q \<Longrightarrow> identified (put_identity v q)"
  by (auto simp: identified_def put_identity_def dest!: in_om_insert)

lemma nest_wf_insert: "nest_wf m \<Longrightarrow> identified q \<Longrightarrow> nest_wf (om_insert k q m)"
  by (auto simp: nest_wf_def dest!: in_om_insert)

lemma nest_wf_remove: "nest_wf m \<Longrightarrow> nest_wf (om_remove k m)"
  by (auto simp: nest_wf_def dest!: in_om_remove)

lemma key_values_upd [simp]:
  "key_values (om_insert k q m) j = (if j = k then q else key_values m j)"
  "key_values (om_remove k m) j = (if j = k then [] else key_values m j)"
  by (simp_all add: key_values_def)

lemma base_fold:
  assumes "sorted_wrt (\<lambda>x y. base_pos True x < base_pos True y) base" "nest_wf m"
  defines "F \<equiv> \<lambda>base m. fold (\<lambda>(k, v) m. om_insert k (put_identity v (key_values m k)) m) base m"
  shows "nest_wf (F base m) \<and>
    (map_of (key_values (F base m) k) i = Some v \<longleftrightarrow>
      (k, v) \<in> set base \<and> dup_identity v = i \<or>
      (\<nexists>w. (k, w) \<in> set base \<and> dup_identity w = i) \<and> map_of (key_values m k) i = Some v)"
  using assms(1,2) unfolding F_def
proof (induction base arbitrary: m)
  case (Cons e base)
  obtain l x where e: "e = (l, x)" by (cases e)
  have n: "\<nexists>w. (l, w) \<in> set base \<and> dup_identity w = dup_identity x"
    using Cons.prems(1) e by (auto simp: base_pos_def)
  have "nest_wf (om_insert l (put_identity x (key_values m l)) m)"
    using Cons.prems(2) by (intro nest_wf_insert identified_put identified_key_values)
  with Cons.IH [of "om_insert l (put_identity x (key_values m l)) m"] Cons.prems(1) n e show ?case
    by (auto simp: put_identity_def)
qed simp

lemma deletes_fold:
  assumes "identified m"
  defines "D \<equiv> \<lambda>vs m. fold (\<lambda>x m. if map_of m (dup_identity x) = Some x then om_remove (dup_identity x) m else m) vs m"
  shows "identified (D vs m) \<and> (map_of (D vs m) i = Some v \<longleftrightarrow> map_of m i = Some v \<and> v \<notin> set vs)"
  using assms(1) unfolding D_def
proof (induction vs arbitrary: m)
  case (Cons x vs)
  let ?m = "if map_of m (dup_identity x) = Some x then om_remove (dup_identity x) m else m"
  have "identified ?m" using Cons.prems by (auto simp: identified_def dest!: in_om_remove)
  moreover have "map_of m i = Some v \<Longrightarrow> i = dup_identity v"
    using Cons.prems by (auto simp: identified_def dest!: map_of_SomeD)
  ultimately show ?case using Cons.IH [of ?m] by auto
qed simp

lemma merged_values_holds:
  assumes "identified q" "delta_wf d"
  shows "identified (merged_values d q) \<and>
    (map_of (merged_values d q) i = Some v \<longleftrightarrow>
      map_of (present d) i = Some v \<or>
      i \<notin> dom (map_of (present d)) \<and> \<not> delete_base d \<and> map_of q i = Some v \<and> v \<notin> set (deleted d))"
proof -
  let ?q = "if delete_base d then [] else q"
  define D where "D = fold (\<lambda>x m. if map_of m (dup_identity x) = Some x then om_remove (dup_identity x) m else m) (deleted d) ?q"
  have "identified ?q" using assms(1) by (auto simp: identified_def)
  then have D: "identified D" "map_of D i = Some v \<longleftrightarrow> map_of ?q i = Some v \<and> v \<notin> set (deleted d)"
    using deletes_fold [of ?q] by (simp_all add: D_def)
  have p: "ordered (present d)" "\<And>i v. (i, v) \<in> set (present d) \<Longrightarrow> i = dup_identity v"
    using assms(2) by (auto simp: delta_wf_def)
  note f = fold_inserts [OF ordered_distinct [OF p(1)], of D]
  have m: "merged_values d q = fold (\<lambda>(i, v) m. om_insert i v m) (present d) D"
    by (simp add: merged_values_def D_def Let_def)
  have "identified (fold (\<lambda>(i, v) m. om_insert i v m) xs D)" if "\<forall>(i, v) \<in> set xs. i = dup_identity v" for xs
    using that D(1)
  proof (induction xs arbitrary: D)
    case (Cons x xs)
    then show ?case using identified_insert [of D "fst x" "snd x"] by (auto simp: case_prod_beta)
  qed simp
  then have "identified (merged_values d q)" unfolding m using p(2) by auto
  moreover have "map_of (merged_values d q) i = Some v \<longleftrightarrow>
      map_of (present d) i = Some v \<or>
      i \<notin> dom (map_of (present d)) \<and> \<not> delete_base d \<and> map_of q i = Some v \<and> v \<notin> set (deleted d)"
    using f D unfolding m by (auto simp: identified_def split: option.split)
  ultimately show ?thesis by blast
qed

lemma identified_lookup: "identified q \<Longrightarrow> (\<exists>i. map_of q i = Some v) \<longleftrightarrow> map_of q (dup_identity v) = Some v"
  unfolding identified_def using map_of_SomeD by fastforce

lemma nested_entries:
  assumes "nest_wf m"
  shows "(k, v) \<in> set (concat (map (\<lambda>(k, values). map (\<lambda>(i, v). (k, v)) values) m)) \<longleftrightarrow>
    map_of (key_values m k) (dup_identity v) = Some v"
proof -
  have "(k, v) \<in> set (concat (map (\<lambda>(k, values). map (\<lambda>(i, v). (k, v)) values) m)) \<longleftrightarrow>
      (\<exists>q i. map_of m k = Some q \<and> map_of q i = Some v)"
    using assms ordered_map_of [of m] ordered_map_of unfolding nest_wf_def identified_def by fastforce
  also have "\<dots> \<longleftrightarrow> (\<exists>i. map_of (key_values m k) i = Some v)"
    by (auto simp: key_values_def split: option.splits)
  finally show ?thesis by (simp add: identified_lookup [OF identified_key_values [OF assms]])
qed

lemma rows_fold:
  assumes "nest_wf m" "distinct (map fst rows)" "\<forall>(k, d) \<in> set rows. delta_wf d"
  defines "F \<equiv> \<lambda>rows m. fold (\<lambda>(k, d) m. let values = merged_values d (key_values m k)
      in if values = [] then om_remove k m else om_insert k values m) rows m"
  shows "nest_wf (F rows m) \<and>
    key_values (F rows m) k = (case map_of rows k of None \<Rightarrow> key_values m k | Some d \<Rightarrow> merged_values d (key_values m k))"
  using assms(1-3) unfolding F_def
proof (induction rows arbitrary: m)
  case (Cons e rows)
  obtain l d where e: "e = (l, d)" by (cases e)
  let ?v = "merged_values d (key_values m l)"
  let ?m = "if ?v = [] then om_remove l m else om_insert l ?v m"
  have "identified ?v"
    using merged_values_holds [OF identified_key_values [OF Cons.prems(1)]] Cons.prems(3) e by auto
  then have "nest_wf ?m" using Cons.prems(1) nest_wf_insert nest_wf_remove by auto
  moreover have "key_values ?m k = (if k = l then ?v else key_values m k)" by auto
  moreover have "map_of rows l = None" using Cons.prems(2) e by (simp add: map_of_eq_None_iff)
  ultimately show ?case using Cons.IH [of ?m] Cons.prems e by (auto simp: Let_def split: option.split)
qed simp

lemma merge_rows_dup:
  assumes "ordered rows" "\<forall>(k, d) \<in> set rows. delta_wf d" "base_ordered (DupSort c rows) base"
  shows "sorted_wrt (\<lambda>x y. base_pos True x < base_pos True y) (merge_rows (DupSort c rows) base)"
    and "set (merge_rows (DupSort c rows) base) = {kv. composed base c rows kv}"
proof -
  let ?B = "if c then [] else fold (\<lambda>(k, v) m. om_insert k (put_identity v (key_values m k)) m) base []"
  let ?F = "fold (\<lambda>(k, d) m. let values = merged_values d (key_values m k)
      in if values = [] then om_remove k m else om_insert k values m) rows ?B"
  have base: "sorted_wrt (\<lambda>x y. base_pos True x < base_pos True y) base"
    using assms(3) by (simp add: base_ordered_def)
  have n: "nest_wf []" by (simp add: nest_wf_def)
  have kv: "key_values [] k = []" for k by (simp add: key_values_def)
  have B: "nest_wf ?B" "map_of (key_values ?B k) i = Some v \<longleftrightarrow> \<not> c \<and> (k, v) \<in> set base \<and> dup_identity v = i" for k i v
    using base_fold [OF base n] n by (auto simp: kv)
  have F: "nest_wf ?F" "key_values ?F k =
      (case map_of rows k of None \<Rightarrow> key_values ?B k | Some d \<Rightarrow> merged_values d (key_values ?B k))" for k
    using rows_fold [OF B(1) ordered_distinct [OF assms(1)] assms(2)] by blast+
  have out: "merge_rows (DupSort c rows) base = concat (map (\<lambda>(k, values). map (\<lambda>(i, v). (k, v)) values) ?F)"
    by simp
  have o: "ordered ?F" "\<And>k q. (k, q) \<in> set ?F \<Longrightarrow> identified q" using F(1) by (auto simp: nest_wf_def)
  show "sorted_wrt (\<lambda>x y. base_pos True x < base_pos True y) (merge_rows (DupSort c rows) base)"
    unfolding out
  proof (rule nested_sorted [OF o(1)])
    fix k q
    assume "(k, q) \<in> set ?F"
    then have "identified q" by (rule o(2))
    then have q: "ordered q" "\<And>x. x \<in> set q \<Longrightarrow> fst x = dup_identity (snd x)"
      by (auto simp: identified_def)
    then have "sorted_wrt (\<lambda>x y. dup_identity (snd x) < dup_identity (snd y)) q"
      unfolding ordered_def by (metis (no_types, lifting) sorted_wrt_mono_rel)
    then have "sorted_wrt (\<lambda>x y. base_pos True x < base_pos True y) (map (\<lambda>(i, v). (k, v)) q)"
      by (simp add: sorted_wrt_map case_prod_beta base_pos_def less_prod_def)
    then show "sorted_wrt (\<lambda>x y. base_pos True x < base_pos True y) (map (\<lambda>(i, v). (k, v)) q) \<and>
        (\<forall>a \<in> set (map (\<lambda>(i, v). (k, v)) q). fst (base_pos True a) = k)"
      by (auto simp: base_pos_def)
  qed
  have "(k, v) \<in> set (merge_rows (DupSort c rows) base) \<longleftrightarrow> composed base c rows (k, v)" for k v
  proof -
    have "(k, v) \<in> set (merge_rows (DupSort c rows) base) \<longleftrightarrow>
        map_of (key_values ?F k) (dup_identity v) = Some v"
      unfolding out by (rule nested_entries [OF F(1)])
    also have "\<dots> \<longleftrightarrow> composed base c rows (k, v)"
    proof (cases "map_of rows k")
      case None
      then show ?thesis unfolding F(2) by (simp add: B(2) composed_def delta_at_def)
    next
      case (Some d)
      have d: "delta_wf d" using assms(2) Some by (rule wf_delta_of)
      show ?thesis
        unfolding F(2) Some option.case
        using merged_values_holds [OF identified_key_values [OF B(1)] d] B(2) Some
        by (auto simp: composed_def delta_at_def hides_def)
    qed
    finally show ?thesis .
  qed
  then have "kv \<in> set (merge_rows (DupSort c rows) base) \<longleftrightarrow> kv \<in> {kv. composed base c rows kv}" for kv
    by (cases kv) (simp only: mem_Collect_eq)
  then show "set (merge_rows (DupSort c rows) base) = {kv. composed base c rows kv}" by (rule set_eqI)
qed


section \<open>Scans of a composed accessor\<close>

datatype 'a bound = Included 'a | Excluded 'a | Unbounded

definition key_in_range :: "bytes \<Rightarrow> bytes bound \<times> bytes bound \<Rightarrow> bool" where
  "key_in_range key r =
     ((case fst r of Included s \<Rightarrow> s \<le> key | Excluded s \<Rightarrow> s < key | Unbounded \<Rightarrow> True) \<and>
      (case snd r of Included e \<Rightarrow> key \<le> e | Excluded e \<Rightarrow> key < e | Unbounded \<Rightarrow> True))"

text \<open>The cursor of an accessor is what heed's iterator of the same bounds yields.\<close>

definition room_iter :: "('e + row) list \<Rightarrow> keyspace_state \<Rightarrow> 'e merged" where
  "room_iter cursor ks = merged_new (Some cursor) (merge_plan_of (\<lambda>_. True) ks) Forward"

definition room_range :: "bytes bound \<times> bytes bound \<Rightarrow> ('e + row) list \<Rightarrow> keyspace_state \<Rightarrow> 'e merged" where
  "room_range r cursor ks = merged_new (Some cursor) (merge_plan_of (\<lambda>key. key_in_range key r) ks) Forward"

definition room_rev_range :: "bytes bound \<times> bytes bound \<Rightarrow> ('e + row) list \<Rightarrow> keyspace_state \<Rightarrow> 'e merged" where
  "room_rev_range r cursor ks = merged_new (Some cursor) (merge_plan_of (\<lambda>key. key_in_range key r) ks) Reverse"

definition room_prefix_iter :: "bytes \<Rightarrow> ('e + row) list \<Rightarrow> keyspace_state \<Rightarrow> 'e merged" where
  "room_prefix_iter prefix cursor ks = merged_new (Some cursor) (merge_plan_of (\<lambda>key. starts_with key prefix) ks) Forward"

fun between_keys :: "bool \<Rightarrow> bytes option \<Rightarrow> ('e + row) list \<Rightarrow> ('e + row) list" where
  "between_keys move prev [] = []"
| "between_keys move prev (Inl e # rows) = Inl e # between_keys move prev rows"
| "between_keys move prev (Inr (key, value) # rows) =
     (if move \<and> prev = Some key then between_keys move prev rows
      else Inr (key, value) # between_keys move (Some key) rows)"

datatype 'e scan_error = BaseError 'e | CorruptedPostings | RowCountOverflow

fun count_rows :: "64 word \<Rightarrow> ('e + row) list \<Rightarrow> ('e scan_error, 64 word) result" where
  "count_rows seen [] = Ok seen"
| "count_rows seen (Inl e # rows) = Err (BaseError e)"
| "count_rows seen (Inr _ # rows) = (if seen = - 1 then Err RowCountOverflow else count_rows (seen + 1) rows)"

definition room_len :: "('e + row) list \<Rightarrow> keyspace_state \<Rightarrow> ('e scan_error, 64 word) result" where
  "room_len cursor ks = count_rows 0 (merged_all (room_iter cursor ks))"

definition room_first :: "('e + row) list \<Rightarrow> keyspace_state \<Rightarrow> ('e scan_error, row option) result" where
  "room_first cursor ks =
     (case fst (merged_next (room_iter cursor ks)) of
        None \<Rightarrow> Ok None | Some (Inl e) \<Rightarrow> Err (BaseError e) | Some (Inr kv) \<Rightarrow> Ok (Some kv))"

definition room_is_empty :: "('e + row) list \<Rightarrow> keyspace_state \<Rightarrow> ('e scan_error, bool) result" where
  "room_is_empty cursor ks =
     (case fst (merged_next (room_iter cursor ks)) of
        None \<Rightarrow> Ok True | Some (Inl e) \<Rightarrow> Err (BaseError e) | Some (Inr kv) \<Rightarrow> Ok False)"

text \<open>The values of one key with duplicates are checked as they are read.\<close>

fun prefetched :: "bytes option \<Rightarrow> ('e + row) list \<Rightarrow> ('e scan_error + row) list" where
  "prefetched seen [] = []"
| "prefetched seen (Inl e # rows) = Inl (BaseError e) # prefetched seen rows"
| "prefetched seen (Inr (key, value) # rows) =
     (if (case seen of None \<Rightarrow> False | Some previous \<Rightarrow> dup_identity value \<le> previous)
      then Inl CorruptedPostings # prefetched seen rows
      else Inr (key, value) # prefetched (Some (dup_identity value)) rows)"

definition room_get_duplicates ::
    "bytes \<Rightarrow> ('e + row) list option \<Rightarrow> keyspace_state \<Rightarrow> ('e scan_error, ('e scan_error + row) list option) result" where
  "room_get_duplicates key cursor ks =
     (case merged_next (merged_new cursor (merge_plan_of (\<lambda>candidate. candidate = key) ks) Forward) of
        (None, _) \<Rightarrow> Ok None
      | (Some (Inl e), _) \<Rightarrow> Err (BaseError e)
      | (Some (Inr first), inner) \<Rightarrow> Ok (Some (prefetched None (Inr first # merged_all inner))))"

section \<open>Scans are the reference merge\<close>

lemma plan_clear_base: "plan_clear_base (merge_plan_of include ks) = (case ks of Single c _ \<Rightarrow> c | DupSort c _ \<Rightarrow> c)"
  by (cases ks) (simp_all add: Let_def)

definition plan_base :: "(bytes \<Rightarrow> bool) \<Rightarrow> keyspace_state \<Rightarrow> row list \<Rightarrow> row list" where
  "plan_base include ks base =
     (if plan_clear_base (merge_plan_of include ks) then [] else filter (include \<circ> fst) base)"

definition dup_of :: "keyspace_state \<Rightarrow> bool" where
  "dup_of ks = (case ks of Single _ _ \<Rightarrow> False | DupSort _ _ \<Rightarrow> True)"

lemma plan_mergeable:
  assumes "ks_wf k ks" "base_ordered ks base"
  shows "mergeable (dup_of ks) Forward (plan_base include ks base) (plan_rows (merge_plan_of include ks))"
proof (cases ks)
  case (Single c rows)
  then have o: "ordered (filter (\<lambda>(k, v). include k) rows)" "ordered (plan_base include ks base)"
    using assms by (auto simp: base_ordered_single plan_base_def)
  show ?thesis using single_mergeable [OF o] by (simp add: Single dup_of_def)
next
  case (DupSort c rows)
  then have r: "ordered rows" "\<forall>(k, d) \<in> set rows. delta_wf d" using assms(1) by simp_all
  have "\<exists>P. plan_base include ks base = filter P base" by (auto simp: plan_base_def intro: exI [of _ "\<lambda>_. False"])
  then show ?thesis
    using dup_mergeable [OF r assms(2) [unfolded DupSort]] by (auto simp: DupSort dup_of_def)
qed

lemma merge_rows_ordered:
  assumes "ks_wf k ks" "base_ordered ks base"
  shows "sorted_wrt (\<lambda>x y. comes_before Forward (base_pos (dup_of ks) x) (base_pos (dup_of ks) y)) (merge_rows ks base)"
proof (cases ks)
  case (Single c rows)
  with assms merge_rows_single [of rows base c] show ?thesis
    by (simp add: base_ordered_single dup_of_def base_pos_def less_prod_def ordered_def del: merge_rows.simps)
next
  case (DupSort c rows)
  with assms merge_rows_dup(1) [of rows c base] show ?thesis by (simp add: dup_of_def del: merge_rows.simps)
qed

lemma scan_is_reference:
  assumes "ks_wf k ks" "base_ordered ks base"
  shows "merge_pure Forward (plan_deleted_keys (merge_plan_of include ks)) (plan_base include ks base)
      (plan_rows (merge_plan_of include ks)) = filter (include \<circ> fst) (merge_rows ks base)"
proof (cases ks)
  case (Single c rows)
  with assms single_scan [of rows base c "include"] show ?thesis
    by (simp add: plan_base_def base_ordered_single)
next
  case (DupSort c rows)
  then have r: "ordered rows" "\<forall>(k, d) \<in> set rows. delta_wf d" using assms(1) by simp_all
  note b = assms(2) [unfolded DupSort]
  have p: "plan_base include ks base = (if c then [] else filter (include \<circ> fst) base)"
    by (simp add: plan_base_def plan_clear_base DupSort)
  show ?thesis
  proof (rule sorted_comes_unique [of Forward "base_pos True"])
    show "sorted_wrt (\<lambda>x y. comes_before Forward (base_pos True x) (base_pos True y)) (merge_pure Forward
        (plan_deleted_keys (merge_plan_of include ks)) (plan_base include ks base) (plan_rows (merge_plan_of include ks)))"
      using merge_pure_sorted [OF plan_mergeable [OF assms]] by (simp add: dup_of_def DupSort)
    show "sorted_wrt (\<lambda>x y. comes_before Forward (base_pos True x) (base_pos True y)) (filter (include \<circ> fst) (merge_rows ks base))"
      using merge_rows_ordered [OF assms] by (simp add: dup_of_def DupSort sorted_wrt_filter del: merge_rows.simps)
    show "set (merge_pure Forward (plan_deleted_keys (merge_plan_of include ks)) (plan_base include ks base)
        (plan_rows (merge_plan_of include ks))) = set (filter (include \<circ> fst) (merge_rows ks base))"
      unfolding p unfolding DupSort dup_scan_set [OF r b] set_filter merge_rows_dup(2) [OF r b] by auto
  qed
qed

lemma merged_scan:
  assumes "ks_wf k ks" "base_ordered ks base"
  shows "merged_all (merged_new (Some (map Inr (filter (include \<circ> fst) base))) (merge_plan_of include ks) Forward) =
      map Inr (filter (include \<circ> fst) (merge_rows ks base))"
    and "merged_all (merged_new (Some (map Inr (rev (filter (include \<circ> fst) base)))) (merge_plan_of include ks) Reverse) =
      map Inr (rev (filter (include \<circ> fst) (merge_rows ks base)))"
proof -
  let ?p = "merge_plan_of include ks"
  have b: "(if plan_clear_base ?p then [] else map Inr (filter (include \<circ> fst) base)) = map Inr (plan_base include ks base)"
    "(if plan_clear_base ?p then [] else map Inr (rev (filter (include \<circ> fst) base))) = map Inr (rev (plan_base include ks base))"
    by (simp_all add: plan_base_def)
  show "merged_all (merged_new (Some (map Inr (filter (include \<circ> fst) base))) ?p Forward) =
      map Inr (filter (include \<circ> fst) (merge_rows ks base))"
    unfolding merged_new_rest b merge_lists_pure using scan_is_reference [OF assms, of "include"] by simp
  show "merged_all (merged_new (Some (map Inr (rev (filter (include \<circ> fst) base)))) ?p Reverse) =
      map Inr (rev (filter (include \<circ> fst) (merge_rows ks base)))"
    unfolding merged_new_rest b merge_lists_pure
    using scan_is_reference [OF assms, of "include"] merge_pure_reverse [OF plan_mergeable [OF assms]] by simp
qed

text \<open>C2: The streaming merge is the reference merge: over a well-formed room and durable rows in cursor
  order, the whole scan, every range in either direction and every prefix yield exactly the rows of the
  eager reference merge that fall in it, in order, each once and without an error.\<close>

theorem merged_scan_is_reference:
  assumes "ks_wf k ks" "base_ordered ks base"
  defines "within \<equiv> \<lambda>P. filter (P \<circ> fst)"
  shows "merged_all (room_iter (map Inr base) ks) = map Inr (merge_rows ks base) \<and>
    merged_all (room_range r (map Inr (within (\<lambda>k. key_in_range k r) base)) ks) =
      map Inr (within (\<lambda>k. key_in_range k r) (merge_rows ks base)) \<and>
    merged_all (room_rev_range r (map Inr (rev (within (\<lambda>k. key_in_range k r) base))) ks) =
      map Inr (rev (within (\<lambda>k. key_in_range k r) (merge_rows ks base))) \<and>
    merged_all (room_prefix_iter p (map Inr (within (\<lambda>k. starts_with k p) base)) ks) =
      map Inr (within (\<lambda>k. starts_with k p) (merge_rows ks base))"
  using merged_scan(1) [OF assms(1,2), of "\<lambda>_. True"] merged_scan [OF assms(1,2), of "\<lambda>k. key_in_range k r"]
    merged_scan(1) [OF assms(1,2), of "\<lambda>k. starts_with k p"]
  by (simp add: within_def room_iter_def room_range_def room_rev_range_def room_prefix_iter_def comp_def
      del: merge_rows.simps merge_plan_of.simps)

lemma merged_scan_is_reference_witness:
  "merged_all (room_iter (map Inr [([1], [10]), ([2], [20])])
      (Single False [([1], Tombstone), ([3], Present [30])]) :: unit merged) =
    map Inr (merge_rows (Single False [([1], Tombstone), ([3], Present [30])]) [([1], [10]), ([2], [20])])"
  by (rule merged_scan_is_reference [of KsEntities, THEN conjunct1])
    (simp_all add: is_dupsort_def base_ordered_single)


section \<open>Keyed reads agree with scans\<close>

definition heed_duplicates :: "row list \<Rightarrow> bytes \<Rightarrow> ('e + row) list option" where
  "heed_duplicates base key =
     (let q = filter (\<lambda>kv. fst kv = key) base in if q = [] then None else Some (map Inr q))"

lemma prefetched_ordered:
  "sorted_wrt (\<lambda>x y. dup_identity (snd x) < dup_identity (snd y)) q \<Longrightarrow>
   (\<And>p x. seen = Some p \<Longrightarrow> x \<in> set q \<Longrightarrow> p < dup_identity (snd x)) \<Longrightarrow>
   prefetched seen (map Inr q) = map Inr q"
proof (induction q arbitrary: seen)
  case (Cons x q)
  obtain k v where x: "x = (k, v)" by (cases x)
  have "\<not> (case seen of None \<Rightarrow> False | Some p \<Rightarrow> dup_identity v \<le> p)"
    using Cons.prems(2) [of _ x] x by (auto simp: not_le split: option.split)
  moreover have "prefetched (Some (dup_identity v)) (map Inr q :: ('a + row) list) = map Inr q"
    by (rule Cons.IH) (use Cons.prems(1) x in auto)
  ultimately show ?case using x by simp
qed simp

lemma prefetched_corrupt:
  "Inl CorruptedPostings \<in> set (prefetched seen (map Inr q)) \<longleftrightarrow>
     \<not> sorted_wrt (<) ((case seen of None \<Rightarrow> [] | Some p \<Rightarrow> [p]) @ map (dup_identity \<circ> snd) q)"
proof (induction q arbitrary: seen)
  case (Cons x q)
  obtain k v where x: "x = (k, v)" by (cases x)
  show ?case
    using Cons.IH [of "Some (dup_identity v)"] x
    by (cases seen) (auto simp: not_le intro: less_trans)
qed (simp split: option.split)

lemma duplicates_of_key:
  assumes "ks_wf k ks" "base_ordered ks base" "is_dupsort k"
  shows "room_get_duplicates key (heed_duplicates base key) ks =
    (let q = filter (\<lambda>kv. fst kv = key) (merge_rows ks base) in Ok (if q = [] then None else Some (map Inr q)))"
proof -
  let ?plan = "merge_plan_of (\<lambda>candidate. candidate = key) ks"
  let ?q = "filter (\<lambda>kv. fst kv = key) (merge_rows ks base)"
  let ?m = "merged_new (heed_duplicates base key) ?plan Forward :: 'a merged"
  have d: "dup_of ks" using assms(1,3) by (cases ks) (auto simp: dup_of_def)
  have "merged_all ?m = merged_all (merged_new (Some (map Inr (filter ((\<lambda>candidate. candidate = key) \<circ> fst) base))) ?plan Forward)"
    by (simp add: heed_duplicates_def Let_def comp_def merged_all_rest rest_def merged_new_def remaining_def)
  also have "\<dots> = map Inr ?q"
    using merged_scan(1) [OF assms(1,2), of "\<lambda>candidate. candidate = key"] by (simp add: comp_def)
  finally have all: "merged_all ?m = map Inr ?q" .
  have "sorted_wrt (\<lambda>x y. base_pos True x < base_pos True y) ?q"
    using merge_rows_ordered [OF assms(1,2)] d by (simp add: sorted_wrt_filter)
  then have "sorted_wrt (\<lambda>x y. dup_identity (snd x) < dup_identity (snd y)) ?q"
    by (rule sorted_wrt_mono_rel [rotated]) (auto simp: base_pos_def less_prod_def)
  then have p: "prefetched None (map Inr ?q) = (map Inr ?q :: ('a scan_error + row) list)"
    by (rule prefetched_ordered) simp
  show ?thesis
  proof (cases "merged_next ?m")
    case (Pair out t)
    with all have "map Inr ?q = (case out of None \<Rightarrow> [] | Some x \<Rightarrow> x # merged_all t)"
      by (simp add: merged_all.simps [of ?m] split: option.splits)
    with Pair p show ?thesis
      by (cases out; cases "?q") (auto simp: room_get_duplicates_def Let_def simp del: merge_rows.simps merge_plan_of.simps)
  qed
qed

text \<open>Keyed reads agree with scans: in a keyspace with one value per key the rows of a scan are exactly
  what the point reads answer, in the keyspace with duplicates the values read at a key are exactly
  the scan's rows of that key, and the corruption error is raised exactly on rows whose identities
  are not in strictly increasing order, so never over durable rows in their documented order.\<close>

theorem reads_agree_with_scans:
  assumes "ks_wf k ks" "base_ordered ks base"
  shows "(if is_dupsort k
     then room_get_duplicates key (heed_duplicates base key) ks =
       (let q = filter (\<lambda>kv. fst kv = key) (merge_rows ks base) in Ok (if q = [] then None else Some (map Inr q)))
     else map_of (merge_rows ks base) key = room_get base ks key) \<and>
    (Inl CorruptedPostings \<in> set (prefetched None (map Inr rows)) \<longleftrightarrow>
      \<not> sorted_wrt (<) (map (dup_identity \<circ> snd) rows))"
proof (cases "is_dupsort k")
  case True
  then show ?thesis using duplicates_of_key [OF assms, of key] prefetched_corrupt [of None rows] by simp
next
  case False
  then obtain c r where r: "ks = Single c r" "ordered r" using single_of_wf [OF assms(1)] by auto
  with assms(2) have "map_of (merge_rows ks base) = room_get base ks"
    using merge_rows_single [of r base c] by (simp add: base_ordered_single del: merge_rows.simps)
  with False show ?thesis using prefetched_corrupt [of None rows] by simp
qed

lemma reads_agree_with_scans_witness:
  "map_of (merge_rows (Single False [([1], Tombstone), ([3], Present [30])]) [([1], [10]), ([2], [20])]) [3] = Some [30] \<and>
   Inl CorruptedPostings \<in> set (prefetched None (map Inr [([7], [2]), ([7], [1 :: byte])] :: (unit + row) list))"
  using reads_agree_with_scans [of KsEntities "Single False [([1], Tombstone), ([3], Present [30])]"
      "[([1], [10]), ([2], [20])]" "[3]" "[([7], [2]), ([7], [1])]"]
  by (simp add: is_dupsort_def base_ordered_single room_get_simps dup_identity_def del: merge_rows.simps)

end
