(* ===== verification/Postings.thy ===== *)
theory Postings
  imports OverlayMerge
begin

text \<open>
  The keyspace with duplicates through a composed accessor
  (\<open>crates/oneiron-store/src/overlay_db/accessors.rs\<close>): the posting lists of the text index, many
  values under one key, told apart by the identity their first sixteen bytes are.

  The accessor is a set of rows to its client as long as the client keeps to one value of an
  identity per key, which is how postings are written: \<open>postings_refine_a_set\<close> is that refinement,
  and \<open>replaced_posting_returns\<close> shows what happens without it.
\<close>

section \<open>Operations of the accessor\<close>

definition room_get_posting :: "row list \<Rightarrow> bytes \<Rightarrow> keyspace_state \<Rightarrow> (room_error scan_error, bytes option) result" where
  "room_get_posting base key ks =
     (case room_get_duplicates key (heed_duplicates base key) ks of
        Inl e \<Rightarrow> Err e
      | Inr None \<Rightarrow> Ok None
      | Inr (Some []) \<Rightarrow> Ok None
      | Inr (Some (Inl e # _)) \<Rightarrow> Err e
      | Inr (Some (Inr (_, value) # _)) \<Rightarrow> Ok (Some value))"

fun exact_count :: "bytes \<Rightarrow> nat \<Rightarrow> ('e scan_error + row) list \<Rightarrow> ('e scan_error, nat) result" where
  "exact_count data n [] = Ok n"
| "exact_count data n (Inl e # rows) = Err e"
| "exact_count data n (Inr (_, value) # rows) = exact_count data (if value = data then n + 1 else n) rows"

definition room_delete_posting ::
    "row list \<Rightarrow> bytes \<Rightarrow> bytes \<Rightarrow> overlay_state \<Rightarrow> (room_error scan_error, bool \<times> overlay_state) result" where
  "room_delete_posting base key data s =
     (case (case room_get_duplicates key (heed_duplicates base key) (keyspaces s KsTextPostings) of
              Inl e \<Rightarrow> Err e
            | Inr None \<Rightarrow> Ok 0
            | Inr (Some values) \<Rightarrow> exact_count data 0 values) of
        Inl e \<Rightarrow> Err e
      | Inr n \<Rightarrow>
          if n \<noteq> 0
          then (case apply_mutation (DeleteDuplicate KsTextPostings key data
                    (list_ex (\<lambda>kv. fst kv = key \<and> snd kv = data) base)) s of
                  Inl e \<Rightarrow> Err (BaseError e)
                | Inr t \<Rightarrow> Ok (True, t))
          else Ok (False, s))"

definition room_delete_postings ::
    "row list \<Rightarrow> bytes \<Rightarrow> overlay_state \<Rightarrow> (room_error scan_error, bool \<times> overlay_state) result" where
  "room_delete_postings base key s =
     (case room_get_posting base key (keyspaces s KsTextPostings) of
        Inl e \<Rightarrow> Err e
      | Inr None \<Rightarrow> Ok (False, s)
      | Inr (Some _) \<Rightarrow>
          (case apply_mutation (Delete KsTextPostings key (list_ex (\<lambda>kv. fst kv = key) base)) s of
             Inl e \<Rightarrow> Err (BaseError e)
           | Inr t \<Rightarrow> Ok (True, t)))"

section \<open>Composed rows after a write\<close>

lemma composed_put:
  "composed base c (om_insert key (put_duplicate v (dup_delta_at rows key)) rows) kv \<longleftrightarrow>
     kv = (key, v) \<or>
     composed base c rows kv \<and> \<not> (fst kv = key \<and> dup_identity (snd kv) = dup_identity v)"
  by (cases kv) (auto simp: composed_def delta_at_def dup_delta_at_def put_duplicate_def hides_def)

lemma composed_delete:
  "composed base c (om_insert key (no_delta\<lparr>delete_base := True\<rparr>) rows) kv \<longleftrightarrow>
     composed base c rows kv \<and> fst kv \<noteq> key"
  by (cases kv) (auto simp: composed_def delta_at_def hides_def no_delta_def)

definition unshadowed :: "row list \<Rightarrow> bool \<Rightarrow> (bytes, dup_delta) omap \<Rightarrow> bool" where
  "unshadowed base c rows \<longleftrightarrow>
     (\<forall>key x w. (key, x) \<in> set base \<and> \<not> c \<and> \<not> delete_base (delta_at rows key) \<and>
        map_of (present (delta_at rows key)) (dup_identity x) = Some w \<longrightarrow>
        x = w \<or> x \<in> set (deleted (delta_at rows key)))"

definition removed_delta :: "bool \<Rightarrow> bytes \<Rightarrow> bool \<Rightarrow> dup_delta \<Rightarrow> dup_delta" where
  "removed_delta c v base_backed d =
     (let d1 = (if map_of (present d) (dup_identity v) = Some v
                then d\<lparr>present := om_remove (dup_identity v) (present d)\<rparr> else d)
      in if base_backed \<and> \<not> c \<and> \<not> delete_base d then d1\<lparr>deleted := os_insert v (deleted d1)\<rparr> else d1)"

lemma delta_at_removed:
  "delta_at (delete_duplicate_row c key v b rows) j =
     (if j = key \<and> \<not> (present (removed_delta c v b (delta_at rows key)) = [] \<and>
          deleted (removed_delta c v b (delta_at rows key)) = [] \<and>
          \<not> delete_base (removed_delta c v b (delta_at rows key)))
      then removed_delta c v b (delta_at rows key) else if j = key then no_delta else delta_at rows j)"
  by (simp add: delta_at_def dup_delta_at_def delete_duplicate_row_def removed_delta_def Let_def)

lemma empty_delta: "present d = [] \<Longrightarrow> deleted d = [] \<Longrightarrow> \<not> delete_base d \<Longrightarrow> d = no_delta"
  by (simp add: no_delta_def)

lemma delta_at_removed_eq:
  "delta_at (delete_duplicate_row c key v b rows) j =
     (if j = key then removed_delta c v b (delta_at rows key) else delta_at rows j)"
  using empty_delta [of "removed_delta c v b (delta_at rows key)"] by (auto simp: delta_at_removed)

lemma removed_facts:
  "delete_base (removed_delta c v b d) = delete_base d"
  "map_of (present (removed_delta c v b d)) i =
     (if map_of (present d) (dup_identity v) = Some v \<and> i = dup_identity v then None else map_of (present d) i)"
  "set (deleted (removed_delta c v b d)) = set (deleted d) \<union> (if b \<and> \<not> c \<and> \<not> delete_base d then {v} else {})"
  by (auto simp: removed_delta_def Let_def)

lemma composed_remove:
  assumes "unshadowed base c rows" "b \<longleftrightarrow> (key, v) \<in> set base"
  shows "composed base c (delete_duplicate_row c key v b rows) kv \<longleftrightarrow> composed base c rows kv \<and> kv \<noteq> (key, v)"
proof (cases kv)
  case (Pair k x)
  show ?thesis
  proof (cases "k = key")
    case True
    have "(key, x) \<in> set base \<Longrightarrow> \<not> c \<Longrightarrow> \<not> delete_base (delta_at rows key) \<Longrightarrow>
        map_of (present (delta_at rows key)) (dup_identity x) = Some w \<Longrightarrow> x = w \<or> x \<in> set (deleted (delta_at rows key))" for w
      using assms(1) by (auto simp: unshadowed_def)
    with True Pair assms(2) show ?thesis
      by (auto simp: composed_def delta_at_removed_eq hides_def removed_facts domIff split: if_splits)
  qed (simp add: Pair composed_def delta_at_removed_eq)
qed

lemma unshadowed_remove:
  assumes "unshadowed base c rows"
  shows "unshadowed base c (delete_duplicate_row c key v b rows)"
  using assms unfolding unshadowed_def delta_at_removed_eq by (auto simp: removed_facts split: if_splits)

lemma unshadowed_put:
  assumes "unshadowed base c rows"
    "\<And>x. composed base c rows (key, x) \<Longrightarrow> dup_identity x = dup_identity v \<Longrightarrow> x = v"
  shows "unshadowed base c (om_insert key (put_duplicate v (dup_delta_at rows key)) rows)"
proof -
  have "x = v \<or> x \<in> set (deleted (delta_at rows key))"
    if "(key, x) \<in> set base" "\<not> c" "\<not> delete_base (delta_at rows key)" "dup_identity x = dup_identity v" for x
  proof (rule ccontr)
    assume n: "\<not> ?thesis"
    have "\<not> composed base c rows (key, x)" using assms(2) that(4) n by blast
    with that n obtain w where w: "map_of (present (delta_at rows key)) (dup_identity x) = Some w" "w \<noteq> x"
      by (auto simp: composed_def hides_def)
    with assms(1) that n show False unfolding unshadowed_def by blast
  qed
  moreover have "dup_delta_at rows key = delta_at rows key" by (simp add: dup_delta_at_def delta_at_def)
  moreover have "delta_at (om_insert key d rows) j = (if j = key then d else delta_at rows j)" for j d
    by (simp add: delta_at_def)
  ultimately show ?thesis
    using assms(1) unfolding unshadowed_def
    by (fastforce simp: put_duplicate_def split: if_splits)
qed

lemma unshadowed_delete:
  assumes "unshadowed base c rows"
  shows "unshadowed base c (om_insert key (no_delta\<lparr>delete_base := True\<rparr>) rows)"
proof -
  have "delta_at (om_insert key d rows) j = (if j = key then d else delta_at rows j)" for j d
    by (simp add: delta_at_def)
  then show ?thesis using assms unfolding unshadowed_def by (auto simp: no_delta_def)
qed


section \<open>The accessor is a set of rows\<close>

datatype posting_op = PostPut bytes bytes | PostRemove bytes bytes | PostDelete bytes | PostClear

fun posting_step :: "row list \<Rightarrow> posting_op \<Rightarrow> overlay_state \<Rightarrow> overlay_state" where
  "posting_step base (PostPut key v) s = applied s (room_put KsTextPostings key v s)"
| "posting_step base (PostRemove key v) s = (case room_delete_posting base key v s of Inl _ \<Rightarrow> s | Inr (_, t) \<Rightarrow> t)"
| "posting_step base (PostDelete key) s = (case room_delete_postings base key s of Inl _ \<Rightarrow> s | Inr (_, t) \<Rightarrow> t)"
| "posting_step base PostClear s = applied s (room_clear KsTextPostings s)"

fun posting_spec :: "posting_op \<Rightarrow> row set \<Rightarrow> row set" where
  "posting_spec (PostPut key v) S = insert (key, v) S"
| "posting_spec (PostRemove key v) S = S - {(key, v)}"
| "posting_spec (PostDelete key) S = {kv \<in> S. fst kv \<noteq> key}"
| "posting_spec PostClear S = {}"

fun one_per_identity :: "posting_op \<Rightarrow> row set \<Rightarrow> bool" where
  "one_per_identity (PostPut key v) S \<longleftrightarrow> (\<forall>kv \<in> S. fst kv = key \<and> dup_identity (snd kv) = dup_identity v \<longrightarrow> snd kv = v)"
| "one_per_identity _ S \<longleftrightarrow> True"

fun disciplined :: "posting_op list \<Rightarrow> row set \<Rightarrow> bool" where
  "disciplined [] S = True"
| "disciplined (a # ops) S = (one_per_identity a S \<and> disciplined ops (posting_spec a S))"

definition posting_inv :: "row list \<Rightarrow> overlay_state \<Rightarrow> bool" where
  "posting_inv base s \<longleftrightarrow> state_wf s \<and> base_ordered (keyspaces s KsTextPostings) base \<and>
     (case keyspaces s KsTextPostings of Single _ _ \<Rightarrow> False | DupSort c rows \<Rightarrow> unshadowed base c rows)"

definition posting_view :: "row list \<Rightarrow> overlay_state \<Rightarrow> row set" where
  "posting_view base s = set (merge_rows (keyspaces s KsTextPostings) base)"

lemma posting_invE:
  assumes "posting_inv base s"
  obtains c rows where "keyspaces s KsTextPostings = DupSort c rows" "ordered rows" "\<forall>(k, d) \<in> set rows. delta_wf d"
    "unshadowed base c rows" "posting_view base s = {kv. composed base c rows kv}"
proof -
  from assms obtain c rows where r: "keyspaces s KsTextPostings = DupSort c rows" "unshadowed base c rows"
    by (auto simp: posting_inv_def split: keyspace_state.splits)
  moreover have "ks_wf KsTextPostings (keyspaces s KsTextPostings)" using assms by (simp add: posting_inv_def state_wf_def)
  ultimately have w: "ordered rows" "\<forall>(k, d) \<in> set rows. delta_wf d" by simp_all
  have "posting_view base s = {kv. composed base c rows kv}"
    using merge_rows_dup(2) [OF w] assms r(1) by (simp add: posting_view_def posting_inv_def del: merge_rows.simps)
  then show ?thesis by (rule that [OF r(1) w r(2)])
qed

lemma posting_move:
  assumes "posting_inv base s" "apply_mutation m s = Ok t" "keyspaces t KsTextPostings = DupSort c rows"
    "unshadowed base c rows"
  shows "posting_inv base t \<and> posting_view base t = {kv. composed base c rows kv}"
proof -
  have w: "state_wf t" using apply_mutation_wf [OF _ assms(2)] assms(1) by (simp add: posting_inv_def)
  moreover have "base_ordered (keyspaces t KsTextPostings) base"
    using assms(1,3) by (auto simp: posting_inv_def base_ordered_def split: keyspace_state.splits)
  ultimately have inv: "posting_inv base t" using assms(3,4) by (simp add: posting_inv_def)
  then obtain c' rows' where "keyspaces t KsTextPostings = DupSort c' rows'" "posting_view base t = {kv. composed base c' rows' kv}"
    by (rule posting_invE)
  with inv assms(3) show ?thesis by simp
qed

lemma posting_reads:
  assumes "posting_inv base s"
  shows "room_get_duplicates key (heed_duplicates base key) (keyspaces s KsTextPostings) =
    (let q = filter (\<lambda>kv. fst kv = key) (merge_rows (keyspaces s KsTextPostings) base)
     in Ok (if q = [] then None else Some (map Inr q)))"
  by (rule duplicates_of_key) (use assms in \<open>auto simp: posting_inv_def state_wf_def is_dupsort_def\<close>)

lemma exact_count_rows: "exact_count data n (map Inr q) = Ok (n + length (filter (\<lambda>kv. snd kv = data) q))"
  by (induction q arbitrary: n) (auto split: prod.splits)

lemma posting_dup_mutation:
  assumes "keyspaces s KsTextPostings = DupSort c rows" "mutation_keyspace m = KsTextPostings"
    "apply_row m (DupSort c rows) = Ok ks" "\<forall>k key. m \<noteq> Clear k \<and> m \<noteq> Bookkeeping k key"
  shows "\<exists>t. apply_mutation m s = Ok t \<and> keyspaces t KsTextPostings = ks"
  using assms by (cases m) (auto simp: apply_mutation_def Let_def)

lemma posting_step_refines:
  assumes "posting_inv base s" "one_per_identity a (posting_view base s)"
  shows "posting_inv base (posting_step base a s) \<and>
    posting_view base (posting_step base a s) = posting_spec a (posting_view base s)"
proof -
  obtain c rows where r: "keyspaces s KsTextPostings = DupSort c rows" "ordered rows" "\<forall>(k, d) \<in> set rows. delta_wf d"
    "unshadowed base c rows" "posting_view base s = {kv. composed base c rows kv}"
    using assms(1) by (rule posting_invE)
  note move = posting_move [OF assms(1)]
  have read: "(k, v) \<in> posting_view base s \<longleftrightarrow> composed base c rows (k, v)" for k v using r(5) by simp
  show ?thesis
  proof (cases a)
    case (PostPut key v)
    obtain t where t: "apply_mutation (Put KsTextPostings key v) s = Ok t"
      "keyspaces t KsTextPostings = DupSort c (om_insert key (put_duplicate v (dup_delta_at rows key)) rows)"
      using posting_dup_mutation [OF r(1), of "Put KsTextPostings key v"] by auto
    have d: "composed base c rows (key, x) \<Longrightarrow> dup_identity x = dup_identity v \<Longrightarrow> x = v" for x
      using assms(2) PostPut read [of key x] by fastforce
    have "posting_inv base t \<and> posting_view base t =
        {kv. composed base c (om_insert key (put_duplicate v (dup_delta_at rows key)) rows) kv}"
      using move [OF t unshadowed_put [OF r(4) d]] by blast
    moreover have "{kv. composed base c (om_insert key (put_duplicate v (dup_delta_at rows key)) rows) kv} =
        insert (key, v) {kv. composed base c rows kv}"
      using d by (auto simp: composed_put)
    ultimately show ?thesis using t r(5) PostPut by (simp add: room_put_def applied_def)
  next
    case (PostRemove key v)
    let ?q = "filter (\<lambda>kv. fst kv = key) (merge_rows (keyspaces s KsTextPostings) base)"
    let ?b = "list_ex (\<lambda>kv. fst kv = key \<and> snd kv = v) base"
    let ?n = "length (filter (\<lambda>kv. snd kv = v) ?q)"
    have n: "?n \<noteq> 0 \<longleftrightarrow> (key, v) \<in> posting_view base s"
      by (auto simp: posting_view_def filter_empty_conv simp del: merge_rows.simps) force
    have count: "(case room_get_duplicates key (heed_duplicates base key) (keyspaces s KsTextPostings) of
        Inl e \<Rightarrow> Err e | Inr None \<Rightarrow> Ok 0 | Inr (Some values) \<Rightarrow> exact_count v 0 values) =
        (Ok ?n :: (room_error scan_error, nat) result)"
      unfolding posting_reads [OF assms(1)] by (auto simp: Let_def exact_count_rows filter_empty_conv simp del: merge_rows.simps)
    obtain t where t: "apply_mutation (DeleteDuplicate KsTextPostings key v ?b) s = Ok t"
      "keyspaces t KsTextPostings = DupSort c (delete_duplicate_row c key v ?b rows)"
      using posting_dup_mutation [OF r(1), of "DeleteDuplicate KsTextPostings key v ?b"] by auto
    have b: "?b \<longleftrightarrow> (key, v) \<in> set base" by (force simp: list_ex_iff)
    have "posting_inv base t \<and> posting_view base t = {kv. composed base c (delete_duplicate_row c key v ?b rows) kv}"
      by (rule move [OF t unshadowed_remove [OF r(4)]])
    moreover have "{kv. composed base c (delete_duplicate_row c key v ?b rows) kv} = {kv. composed base c rows kv} - {(key, v)}"
      using composed_remove [OF r(4) b] by auto
    moreover have "posting_step base a s = (if ?n \<noteq> 0 then t else s)"
      using t(1) by (simp add: PostRemove room_delete_posting_def count del: merge_rows.simps)
    ultimately show ?thesis using n r(5) assms(1) PostRemove by (auto simp del: merge_rows.simps)
  next
    case (PostDelete key)
    let ?q = "filter (\<lambda>kv. fst kv = key) (merge_rows (keyspaces s KsTextPostings) base)"
    let ?b = "list_ex (\<lambda>kv. fst kv = key) base"
    have q: "?q = [] \<longleftrightarrow> posting_spec a (posting_view base s) = posting_view base s"
      by (auto simp: posting_view_def PostDelete filter_empty_conv)
    have get: "room_get_posting base key (keyspaces s KsTextPostings) =
        Ok (case ?q of [] \<Rightarrow> None | kv # _ \<Rightarrow> Some (snd kv))"
      unfolding room_get_posting_def posting_reads [OF assms(1)]
      by (cases ?q) (auto simp: Let_def simp del: merge_rows.simps)
    obtain t where t: "apply_mutation (Delete KsTextPostings key ?b) s = Ok t"
      "keyspaces t KsTextPostings = DupSort c (om_insert key (no_delta\<lparr>delete_base := True\<rparr>) rows)"
      using posting_dup_mutation [OF r(1), of "Delete KsTextPostings key ?b"] by auto
    have "posting_inv base t \<and> posting_view base t =
        {kv. composed base c (om_insert key (no_delta\<lparr>delete_base := True\<rparr>) rows) kv}"
      by (rule move [OF t unshadowed_delete [OF r(4)]])
    moreover have "posting_step base a s = (if ?q = [] then s else t)"
      using t(1) by (cases ?q) (simp_all add: PostDelete room_delete_postings_def get del: merge_rows.simps)
    ultimately show ?thesis
      using q r(5) assms(1) PostDelete by (auto simp: composed_delete simp del: merge_rows.simps)
  next
    case PostClear
    obtain t where t: "apply_mutation (Clear KsTextPostings) s = Ok t" "keyspaces t KsTextPostings = DupSort True []"
      by (auto simp: apply_mutation_def ks_cleared_def is_dupsort_def)
    moreover have "unshadowed base True []" by (simp add: unshadowed_def)
    moreover have "\<not> composed base True [] kv" for kv by (simp add: composed_def delta_at_def)
    ultimately show ?thesis using move [OF t] PostClear by (simp add: room_clear_def applied_def)
  qed
qed

text \<open>C33: The posting lists of a room refine a private set of rows: over durable rows in cursor order, any
  sequence of puts, removals of one value, deletions of a key and clears that keeps to one value of
  an identity per key leaves the accessor showing exactly what the same operations make of the set
  of durable rows.\<close>

theorem postings_refine_a_set:
  assumes "base_ordered (ks_empty KsTextPostings) base" "disciplined ops (set base)"
  shows "set (merge_rows (keyspaces (fold (posting_step base) ops empty_state) KsTextPostings) base) =
      fold posting_spec ops (set base)"
proof -
  have run: "posting_inv base (fold (posting_step base) ops s) \<and>
      posting_view base (fold (posting_step base) ops s) = fold posting_spec ops (posting_view base s)"
    if "posting_inv base s" "disciplined ops (posting_view base s)" for s
    using that
  proof (induction ops arbitrary: s)
    case (Cons a ops)
    then show ?case using posting_step_refines [of base s a] by simp
  qed simp
  have e: "keyspaces empty_state KsTextPostings = DupSort False []"
    by (simp add: empty_state_def ks_empty_def is_dupsort_def)
  have inv: "posting_inv base empty_state"
    using assms(1) empty_state_wf e
    by (simp add: posting_inv_def ks_empty_def is_dupsort_def unshadowed_def delta_at_def)
  obtain c rows where "keyspaces empty_state KsTextPostings = DupSort c rows"
    "posting_view base empty_state = {kv. composed base c rows kv}"
    using inv by (rule posting_invE)
  with e have "posting_view base empty_state = set base" by (auto simp: composed_def delta_at_def)
  with run [OF inv] assms(2) show ?thesis by (simp add: posting_view_def del: merge_rows.simps)
qed

lemma postings_refine_a_set_witness:
  "set (merge_rows (keyspaces (fold (posting_step [([7], [1]), ([7], [2])])
      [PostRemove [7] [1], PostPut [7] [3], PostDelete [8]] empty_state) KsTextPostings) [([7], [1]), ([7], [2])]) =
    {([7], [2]), ([7], [3])}"
proof -
  have "fold posting_spec [PostRemove [7] [1], PostPut [7] [3], PostDelete [8]] {([7], [1]), ([7], [2])} =
      {([7], [2]), ([7], [3])}" by auto
  with postings_refine_a_set [of "[([7], [1]), ([7], [2])]" "[PostRemove [7] [1], PostPut [7] [3], PostDelete [8]]"]
  show ?thesis
    by (simp add: base_ordered_def ks_empty_def is_dupsort_def base_pos_def dup_identity_def less_prod_def
        del: merge_rows.simps)
qed

text \<open>Without that discipline a row comes back: a put replaces, in the room's view, the durable value
  of its identity, and removing the put value shows the durable one again.\<close>

lemma replaced_posting_returns:
  fixes old new :: bytes
  defines "old \<equiv> replicate 16 1 @ [1]" and "new \<equiv> replicate 16 1 @ [2]"
  shows "merge_rows (keyspaces (fold (posting_step [([7], old)]) [PostPut [7] new] empty_state) KsTextPostings) [([7], old)] =
      [([7], new)] \<and>
    merge_rows (keyspaces (fold (posting_step [([7], old)]) [PostPut [7] new, PostRemove [7] new] empty_state)
      KsTextPostings) [([7], old)] = [([7], old)]"
  unfolding old_def new_def by code_simp

end
