(* ===== verification/Promotion.thy ===== *)
theory Promotion
  imports Overlay
begin

text \<open>
  Saving a turn of an off-record room: cutting the closure of a turn out of the typed journal
  (\<open>plan_promotion\<close>, \<open>plan_append_where\<close> and \<open>cut\<close> of \<open>session_overlay/snapshot.rs\<close>), and retiring
  it from the room once the durable write has committed (\<open>overlay/retire.rs\<close>), with the room's short
  ids, which both sides read (\<open>session_overlay/short_id.rs\<close>).

  A short id is text; it is kept as its bytes, as the rows keep it.  \<open>xxh32\<close>, the hash of a body, is
  an argument.  The lease a plan retains and the charge on its copies are the subject of the
  lifecycle theory and of the host.
\<close>

section \<open>Session short ids\<close>

definition session_alias :: "64 word \<Rightarrow> bytes" where
  "session_alias n = ascii (''s'' @ decimal (unat n))"

definition short_id_ordinal_key :: bytes where
  "short_id_ordinal_key = ascii ''session_short_id:v0:ordinal''"

definition session_content_hash :: "(bytes \<Rightarrow> 32 word) \<Rightarrow> bytes \<Rightarrow> byte" where
  "session_content_hash xxh32 data = ucast (xxh32 data mod 256)"

definition forward_key :: "bytes \<Rightarrow> byte \<Rightarrow> bytes" where
  "forward_key short_id hash = short_id @ [hash]"

definition parse_short_id_value :: "bytes \<Rightarrow> (room_error, bytes \<times> byte) result" where
  "parse_short_id_value value =
     (if value = [] then Err (RoomCorrupt ''session short id value'')
      else if \<not> utf8_valid (butlast value) then Err (RoomCorrupt ''session short id value'')
      else Ok (butlast value, last value))"

definition short_id_rows :: "entity_id \<Rightarrow> bytes \<Rightarrow> byte \<Rightarrow> mutation list" where
  "short_id_rows i short_id hash =
     [Put KsShortIds (forward_key short_id hash) i, Put KsShortIdsReverse i (forward_key short_id hash)]"

section \<open>Plans\<close>

record promote_plan =
  plan_ops :: "batch_op list"
  plan_replayed :: "entity_id list"
  plan_aliases :: "(entity_id \<times> bytes) list"
  plan_learned_at :: "64 word list"
  plan_cut_from :: "64 word list"
  plan_source_runs :: "run_token option list"
  plan_turn :: entity_id
  plan_conversation :: entity_id
  plan_appends :: bool

fun collect_ok :: "('a \<Rightarrow> ('e, 'b) result) \<Rightarrow> 'a list \<Rightarrow> ('e, 'b list) result" where
  "collect_ok f [] = Ok []"
| "collect_ok f (x # xs) =
     (case f x of Inl e \<Rightarrow> Err e
      | Inr y \<Rightarrow> (case collect_ok f xs of Inl e \<Rightarrow> Err e | Inr ys \<Rightarrow> Ok (y # ys)))"

definition put_ids :: "batch_op list \<Rightarrow> entity_id list" where
  "put_ids ops = concat (map (\<lambda>op. case op of OpPut p \<Rightarrow> [put_id p] | _ \<Rightarrow> []) ops)"

definition alias_of :: "overlay_state \<Rightarrow> entity_id \<Rightarrow> (room_error, (entity_id \<times> bytes) list) result" where
  "alias_of s i =
     (case lookup_single (keyspaces s KsShortIdsReverse) i of
        Found value \<Rightarrow>
          (case parse_short_id_value value of Inl e \<Rightarrow> Err e | Inr (short_id, _) \<Rightarrow> Ok [(i, short_id)])
      | _ \<Rightarrow> Ok [])"

definition closure_entries ::
    "entity_id \<Rightarrow> entity_id \<Rightarrow> (journal_entry \<Rightarrow> bool) \<Rightarrow> overlay_state \<Rightarrow> published_entry list" where
  "closure_entries turn conversation keep s =
     filter (\<lambda>e. in_closure turn conversation (entry e) \<and> keep (entry e)) (journal s)"

definition cut ::
    "entity_id \<Rightarrow> entity_id \<Rightarrow> bool \<Rightarrow> (journal_entry \<Rightarrow> bool) \<Rightarrow> overlay_state \<Rightarrow> (room_error, promote_plan) result" where
  "cut turn conversation appends keep s =
     (let es = closure_entries turn conversation keep s;
          ids = put_ids (map (entry_op \<circ> entry) es)
      in case collect_ok (replay_op \<circ> entry) es of
           Inl e \<Rightarrow> Err e
         | Inr ops \<Rightarrow>
             (case collect_ok (alias_of s) ids of
                Inl e \<Rightarrow> Err e
              | Inr as \<Rightarrow> Ok \<lparr>plan_ops = ops, plan_replayed = ids, plan_aliases = concat as,
                    plan_learned_at = fold (\<lambda>e. os_insert (entry_learned_at (entry e))) es [],
                    plan_cut_from = map seq es, plan_source_runs = map (entry_source_run \<circ> entry) es,
                    plan_turn = turn, plan_conversation = conversation, plan_appends = appends\<rparr>))"

definition materializes :: "entity_id \<Rightarrow> journal_entry \<Rightarrow> bool" where
  "materializes turn e \<longleftrightarrow>
     entry_role e = TurnPut \<and> scope_turn (entry_scope e) = turn \<and>
     (case entry_op e of OpPut p \<Rightarrow> put_id p = turn | _ \<Rightarrow> False)"

definition plan_promotion_where ::
    "entity_id \<Rightarrow> (journal_entry \<Rightarrow> bool) \<Rightarrow> overlay_state \<Rightarrow> (room_error, promote_plan) result" where
  "plan_promotion_where turn keep s =
     (case List.find (materializes turn \<circ> entry) (journal s) of
        None \<Rightarrow> Err (TurnNotInJournal (to_hex turn))
      | Some e \<Rightarrow> cut turn (scope_conversation (entry_scope (entry e))) False keep s)"

definition plan_promotion :: "entity_id \<Rightarrow> overlay_state \<Rightarrow> (room_error, promote_plan) result" where
  "plan_promotion turn s = plan_promotion_where turn (\<lambda>_. True) s"

definition plan_append_where ::
    "entity_id \<Rightarrow> (journal_entry \<Rightarrow> bool) \<Rightarrow> overlay_state \<Rightarrow> (room_error, promote_plan) result" where
  "plan_append_where turn keep s =
     (case List.find (\<lambda>e. scope_turn (entry_scope (entry e)) = turn) (journal s) of
        None \<Rightarrow> Err (TurnNotInJournal (to_hex turn))
      | Some e \<Rightarrow> cut turn (scope_conversation (entry_scope (entry e))) True keep s)"

definition transcript_put_count :: "overlay_state \<Rightarrow> nat" where
  "transcript_put_count s =
     length (filter (\<lambda>e. entry_role (entry e) \<in> {TurnPut, MessagePartOf, SummaryDerivedFrom} \<and>
       (case entry_op (entry e) of OpPut _ \<Rightarrow> True | _ \<Rightarrow> False)) (journal s))"

section \<open>Retirement\<close>

fun retired_rows :: "batch_op \<Rightarrow> (keyspace \<times> bytes) list" where
  "retired_rows (OpPut p) =
     (let i = put_id p; s = range_start (put_occurred p); e = range_end (put_occurred p) in
      [(KsEntities, i), (KsTypeIndex, encode_type_key (put_type p) i),
       (KsTemporalOccurredStart, encode_temporal_key s i)] @
      (if s \<noteq> e then [(KsTemporalOccurredEnd, encode_temporal_key e i)] else []) @
      [(KsTemporalLearned, encode_temporal_key (put_learned_at p) i)] @
      (if unat e - unat s > unat long_interval_secs
       then [(KsTemporalLongIntervals, encode_temporal_key e i)] else []))"
| "retired_rows (OpPublicEdge s k t _ _ _) =
     [(KsEdgesOut, encode_edge_key s k t), (KsEdgesIn, encode_edge_key t k s)]"
| "retired_rows _ = []"

definition drop_rows :: "(keyspace \<times> bytes) list \<Rightarrow> overlay_state \<Rightarrow> overlay_state" where
  "drop_rows rows s = fold (\<lambda>(k, key). drop_overlay_row k key) rows s"

definition kept_op :: "(entity_id \<Rightarrow> bool) \<Rightarrow> batch_op \<Rightarrow> bool" where
  "kept_op kept op = (case replayed_subject op of None \<Rightarrow> False | Some i \<Rightarrow> kept i)"

definition retire_alias :: "entity_id \<Rightarrow> overlay_state \<Rightarrow> overlay_state" where
  "retire_alias i s =
     (case staged_value (keyspaces s KsShortIdsReverse) i of
        None \<Rightarrow> s
      | Some key \<Rightarrow> drop_overlay_row KsShortIdsReverse i (drop_overlay_row KsShortIds key s))"

definition retire_closure ::
    "nat \<Rightarrow> promote_plan \<Rightarrow> (entity_id \<Rightarrow> bool) \<Rightarrow> overlay_state \<Rightarrow> overlay_state" where
  "retire_closure hdr plan kept s =
     (let picked = filter (\<lambda>(op, n). kept_op kept op) (zip (plan_ops plan) (plan_cut_from plan));
          s1 = fold (\<lambda>(op, n). drop_rows (retired_rows op)) picked s;
          s2 = fold retire_alias (filter kept (plan_replayed plan)) s1
      in recalculate_bytes hdr
           (s2\<lparr>journal := filter (\<lambda>e. seq e \<notin> set (map snd picked)) (journal s2)\<rparr>))"


section \<open>Aliases\<close>

lemma decimal_digits: "decimal n \<noteq> [] \<and> list_all (in_range CHR ''0'' CHR ''9'') (decimal n)"
proof (induction n rule: decimal.induct)
  case (1 n)
  have "in_range CHR ''0'' CHR ''9'' (char_of (48 + d))" if "d < 10" for d :: nat
    using that by (simp add: in_range_def)
  then show ?case using 1 by (simp add: decimal.simps [of n])
qed

lemma unat_of_char: "unat (of_nat (of_char c) :: byte) = of_char c"
  by (simp add: unsigned_of_nat take_bit_nat_eq_self)

lemma ascii_small: "list_all (\<lambda>c. of_char c < (128 :: nat)) cs \<Longrightarrow> utf8_valid (ascii cs)"
proof (induction cs)
  case (Cons c cs)
  then have "unat (of_nat (of_char c) :: byte) \<le> 127" by (simp add: unat_of_char)
  then have "(of_nat (of_char c) :: byte) \<le> 127" by (simp add: word_le_nat_alt)
  with Cons show ?case by (simp add: ascii_def)
qed (simp add: ascii_def)

lemma ascii_inj: "ascii cs = ascii ds \<Longrightarrow> cs = ds"
proof -
  have "inj (\<lambda>c. of_nat (of_char c) :: byte)"
    by (rule injI) (metis of_char_eq_iff unat_of_char)
  then show "ascii cs = ascii ds \<Longrightarrow> cs = ds" unfolding ascii_def by (simp add: inj_map_eq_map)
qed

lemma session_alias_inj: "session_alias m = session_alias n \<Longrightarrow> m = n"
proof -
  assume "session_alias m = session_alias n"
  then have "decimal (unat m) = decimal (unat n)" using ascii_inj by (fastforce simp: session_alias_def)
  then show "m = n" by (metis undecimal_decimal word_unat_eq_iff)
qed

lemma session_alias_text: "utf8_valid (session_alias n)"
proof -
  have "list_all (\<lambda>c. of_char c < (128 :: nat)) (''s'' @ decimal (unat n))"
    using decimal_digits [of "unat n"] by (auto simp: list_all_iff in_range_def)
  then show ?thesis unfolding session_alias_def by (rule ascii_small)
qed

text \<open>A room's short id is no name of a durable record: distinct ordinals have distinct ids, an id and the
  hash beside it are read back from the row that keeps them, and no room id is a presentation id, so
  none resolves at a door of the durable store.\<close>

theorem session_alias_is_a_room_name:
  "(session_alias m = session_alias n \<longleftrightarrow> m = n) \<and>
   parse_short_id_value (forward_key (session_alias n) h) = Ok (session_alias n, h) \<and>
   parse_presentation_id (''s'' @ decimal (unat n)) = Err InvalidKey"
proof -
  obtain d ds where d: "decimal (unat n) = d # ds" "in_range CHR ''0'' CHR ''9'' d"
    using decimal_digits [of "unat n"] by (cases "decimal (unat n)") auto
  then have "\<not> in_range CHR ''a'' CHR ''z'' d" by (auto simp: in_range_def)
  with d(1) have "parse_presentation_id (''s'' @ decimal (unat n)) = Err InvalidKey"
    by (simp add: parse_presentation_id_def in_range_def)
  then show ?thesis
    using session_alias_inj session_alias_text by (auto simp: parse_short_id_value_def forward_key_def)
qed


section \<open>What a plan holds\<close>

lemma collect_ok_Ok: "collect_ok f xs = Ok ys \<longleftrightarrow> list_all2 (\<lambda>x y. f x = Ok y) xs ys"
proof (induction xs arbitrary: ys)
  case (Cons x xs)
  show ?case by (cases "f x"; cases "collect_ok f xs"; cases ys) (simp_all add: Cons.IH [symmetric])
qed auto

lemma collect_ok_Err: "(\<exists>e. collect_ok f xs = Err e) \<longleftrightarrow> (\<exists>x \<in> set xs. \<exists>e. f x = Err e)"
  by (induction xs) (auto split: sum.splits)

lemma collect_ok_total: "(\<And>x. x \<in> set xs \<Longrightarrow> \<exists>y. f x = Ok y) \<Longrightarrow> \<exists>ys. collect_ok f xs = Ok ys"
  by (cases "collect_ok f xs") (metis collect_ok_Err sum.distinct(1), blast)

lemma learned_sorted:
  "sorted_wrt (<) acc \<Longrightarrow>
   sorted_wrt (<) (fold (\<lambda>e. os_insert (f e)) es acc) \<and> set (fold (\<lambda>e. os_insert (f e)) es acc) = f ` set es \<union> set acc"
  by (induction es arbitrary: acc) auto

lemma cut_facts:
  assumes "cut turn conversation appends keep s = Ok plan"
  defines "es \<equiv> closure_entries turn conversation keep s"
  shows "plan_cut_from plan = map seq es" "list_all2 (\<lambda>e op. replay_op (entry e) = Ok op) es (plan_ops plan)"
    "plan_replayed plan = put_ids (map (entry_op \<circ> entry) es)" "plan_conversation plan = conversation"
    "plan_turn plan = turn" "plan_appends plan = appends"
    "plan_source_runs plan = map (entry_source_run \<circ> entry) es"
    "sorted_wrt (<) (plan_learned_at plan)" "set (plan_learned_at plan) = (entry_learned_at \<circ> entry) ` set es"
  using assms(1) learned_sorted [of "[]" "entry_learned_at \<circ> entry" es]
  by (auto simp: cut_def Let_def es_def [symmetric] collect_ok_Ok split: sum.splits)

definition retimed :: "journal_entry \<Rightarrow> batch_op \<Rightarrow> bool" where
  "retimed e op \<longleftrightarrow>
     (case op of
        OpPut p \<Rightarrow> put_learned_at p = entry_learned_at e \<and> put_occurred p = entry_occurred e
      | OpPublicEdge _ _ _ _ t _ \<Rightarrow> t = entry_learned_at e
      | _ \<Rightarrow> op = entry_op e)"

lemma replay_retimed: "replay_op e = Ok op \<Longrightarrow> retimed e op"
  by (auto simp: retimed_def split: batch_op.splits)


text \<open>When a promotion is refused: exactly when the journal holds no put of the turn itself, when a kept
  entry of its closure is an operation the session write path never replays, or when the room's
  short id of a replayed record does not read back.\<close>

theorem promotion_refusals:
  "(\<exists>err. plan_promotion_where turn keep s = Err err) \<longleftrightarrow>
     (case List.find (materializes turn \<circ> entry) (journal s) of
        None \<Rightarrow> True
      | Some e \<Rightarrow>
          (let es = filter (\<lambda>e'. in_closure turn (scope_conversation (entry_scope (entry e))) (entry e') \<and> keep (entry e')) (journal s)
           in (\<exists>e' \<in> set es. \<exists>err. replay_op (entry e') = Err err) \<or>
              (\<exists>i \<in> set (put_ids (map (entry_op \<circ> entry) es)).
                 \<exists>value err. staged_value (keyspaces s KsShortIdsReverse) i = Some value \<and>
                   parse_short_id_value value = Err err)))"
proof (cases "List.find (materializes turn \<circ> entry) (journal s)")
  case (Some e)
  let ?c = "scope_conversation (entry_scope (entry e))"
  let ?es = "closure_entries turn ?c keep s"
  have al: "(\<exists>err. alias_of s i = Err err) \<longleftrightarrow>
      (\<exists>value err. staged_value (keyspaces s KsShortIdsReverse) i = Some value \<and> parse_short_id_value value = Err err)" for i
    by (cases "keyspaces s KsShortIdsReverse") (auto simp: alias_of_def split: lookup.splits sum.splits option.splits overlay_value.splits)
  have "(\<exists>err. cut turn ?c False keep s = Err err) \<longleftrightarrow>
      (\<exists>err. collect_ok (replay_op \<circ> entry) ?es = Err err) \<or>
      (\<exists>err. collect_ok (alias_of s) (put_ids (map (entry_op \<circ> entry) ?es)) = Err err)"
    by (auto simp: cut_def Let_def split: sum.splits)
  also have "\<dots> \<longleftrightarrow> (\<exists>e' \<in> set ?es. \<exists>err. replay_op (entry e') = Err err) \<or>
      (\<exists>i \<in> set (put_ids (map (entry_op \<circ> entry) ?es)). \<exists>err. alias_of s i = Err err)"
    unfolding collect_ok_Err by simp
  finally show ?thesis
    using Some by (simp add: plan_promotion_where_def al closure_entries_def Let_def)
qed (simp add: plan_promotion_where_def)

section \<open>What a retirement takes away\<close>

definition row_at :: "overlay_state \<Rightarrow> keyspace \<Rightarrow> bytes \<Rightarrow> overlay_value option" where
  "row_at s k key = (case keyspaces s k of Single _ rows \<Rightarrow> map_of rows key | DupSort _ _ \<Rightarrow> None)"

definition cleared :: "overlay_state \<Rightarrow> keyspace \<Rightarrow> bool" where
  "cleared s k = (case keyspaces s k of Single c _ \<Rightarrow> c | DupSort c _ \<Rightarrow> c)"

text \<open>Dropping the rows at a set of keys, and nothing else.\<close>

definition takes :: "(keyspace \<times> bytes) set \<Rightarrow> overlay_state \<Rightarrow> overlay_state \<Rightarrow> bool" where
  "takes D s t \<longleftrightarrow> state_wf t \<and>
     (\<forall>k key. row_at t k key = (if (k, key) \<in> D \<and> (\<exists>v. row_at s k key = Some (Present v)) then None else row_at s k key)) \<and>
     (\<forall>k. cleared t k = cleared s k) \<and>
     (\<forall>k. is_dupsort k \<longrightarrow> keyspaces t k = keyspaces s k) \<and>
     journal t = journal s \<and> next_seq t = next_seq s \<and> bookkeeping t = bookkeeping s"

lemma takes_none: "state_wf s \<Longrightarrow> takes {} s s"
  by (simp add: takes_def)

lemma takes_trans: "takes D s t \<Longrightarrow> takes E t u \<Longrightarrow> takes (D \<union> E) s u"
  unfolding takes_def by auto

lemma takes_drop:
  assumes "state_wf s"
  shows "takes {(k, key)} s (drop_overlay_row k key s)"
proof (cases "\<exists>v c rows. keyspaces s k = Single c rows \<and> map_of rows key = Some (Present v)")
  case True
  then obtain v c rows where r: "keyspaces s k = Single c rows" "map_of rows key = Some (Present v)" by blast
  have w: "ks_wf j (keyspaces s j)" for j using assms by (simp add: state_wf_def)
  then have "\<not> is_dupsort k" "ordered rows" using r(1) w [of k] by simp_all
  with r assms show ?thesis
    by (auto simp: takes_def drop_overlay_row_def state_wf_def row_at_def cleared_def)
next
  case False
  then have "drop_overlay_row k key s = s"
    by (auto simp: drop_overlay_row_def split: keyspace_state.splits option.splits overlay_value.splits)
  with assms False show ?thesis by (auto simp: takes_def row_at_def split: keyspace_state.splits)
qed

lemma takes_rows: "state_wf s \<Longrightarrow> takes (set rows) s (drop_rows rows s)"
proof (induction rows arbitrary: s)
  case (Cons r rows)
  obtain k key where r: "r = (k, key)" by (cases r)
  have "takes {(k, key)} s (drop_overlay_row k key s)" using takes_drop Cons.prems by blast
  moreover from this have "takes (set rows) (drop_overlay_row k key s) (drop_rows rows (drop_overlay_row k key s))"
    using Cons.IH by (simp add: takes_def)
  ultimately show ?case using takes_trans r by (fastforce simp: drop_rows_def)
qed (simp add: takes_none drop_rows_def)

lemma takes_ops:
  "state_wf s \<Longrightarrow>
   takes (\<Union>(op, n) \<in> set picked. set (retired_rows op)) s (fold (\<lambda>(op, n). drop_rows (retired_rows op)) picked s)"
proof (induction picked arbitrary: s)
  case (Cons p picked)
  obtain op n where p: "p = (op, n)" by (cases p)
  have "takes (set (retired_rows op)) s (drop_rows (retired_rows op) s)" using takes_rows Cons.prems by blast
  moreover from this have "takes (\<Union>(op, n) \<in> set picked. set (retired_rows op)) (drop_rows (retired_rows op) s)
      (fold (\<lambda>(op, n). drop_rows (retired_rows op)) picked (drop_rows (retired_rows op) s))"
    using Cons.IH by (simp add: takes_def)
  ultimately show ?case using takes_trans p by fastforce
qed (simp add: takes_none)

definition alias_rows :: "overlay_state \<Rightarrow> entity_id \<Rightarrow> (keyspace \<times> bytes) set" where
  "alias_rows s i = (case row_at s KsShortIdsReverse i of
     Some (Present key) \<Rightarrow> {(KsShortIds, key), (KsShortIdsReverse, i)} | _ \<Rightarrow> {})"

lemma staged_row_at: "staged_value (keyspaces s k) key = Some v \<longleftrightarrow> row_at s k key = Some (Present v)"
  by (cases "keyspaces s k") (auto simp: row_at_def split: option.splits overlay_value.splits)

lemma takes_alias:
  assumes "state_wf s"
  shows "takes (alias_rows s i) s (retire_alias i s)"
proof (cases "staged_value (keyspaces s KsShortIdsReverse) i")
  case None
  then have "alias_rows s i = {}"
    using staged_row_at [of s KsShortIdsReverse i]
    by (auto simp: alias_rows_def split: option.split overlay_value.split)
  with None takes_none [OF assms] show ?thesis by (simp add: retire_alias_def)
next
  case (Some key)
  then have r: "alias_rows s i = {(KsShortIds, key)} \<union> {(KsShortIdsReverse, i)}"
    by (auto simp: alias_rows_def staged_row_at)
  have "takes {(KsShortIds, key)} s (drop_overlay_row KsShortIds key s)" by (rule takes_drop [OF assms])
  then show ?thesis
    unfolding r using Some takes_drop takes_trans by (fastforce simp: retire_alias_def takes_def)
qed


lemma alias_rows_after:
  assumes "takes (alias_rows s i) s t" "j \<noteq> i"
  shows "alias_rows t j = alias_rows s j"
proof -
  have "(KsShortIdsReverse, j) \<notin> alias_rows s i"
    using assms(2) by (auto simp: alias_rows_def split: option.splits overlay_value.splits)
  then have "row_at t KsShortIdsReverse j = row_at s KsShortIdsReverse j"
    using assms(1) by (simp add: takes_def)
  then show ?thesis by (simp add: alias_rows_def)
qed

lemma takes_aliases: "state_wf s \<Longrightarrow> takes (\<Union>i \<in> set ids. alias_rows s i) s (fold retire_alias ids s)"
proof (induction ids arbitrary: s)
  case (Cons i ids)
  let ?t = "retire_alias i s"
  have t: "takes (alias_rows s i) s ?t" by (rule takes_alias [OF Cons.prems])
  then have "takes (\<Union>j \<in> set ids. alias_rows ?t j) ?t (fold retire_alias ids ?t)"
    using Cons.IH by (simp add: takes_def)
  with t have u: "takes (alias_rows s i \<union> (\<Union>j \<in> set ids. alias_rows ?t j)) s (fold retire_alias ids ?t)"
    by (rule takes_trans)
  have "alias_rows ?t i \<subseteq> alias_rows s i"
  proof -
    have "row_at ?t KsShortIdsReverse i = row_at s KsShortIdsReverse i \<or> row_at ?t KsShortIdsReverse i = None"
      using t by (simp add: takes_def)
    then show ?thesis by (auto simp: alias_rows_def)
  qed
  then have "x \<in> alias_rows ?t j \<Longrightarrow> x \<in> alias_rows s i \<or> x \<in> alias_rows s j"
    "x \<in> alias_rows s j \<Longrightarrow> x \<in> alias_rows s i \<or> x \<in> alias_rows ?t j" for x j
    using alias_rows_after [OF t, of j] by (cases "j = i"; blast)+
  then have "alias_rows s i \<union> (\<Union>j \<in> set ids. alias_rows ?t j) = (\<Union>j \<in> set (i # ids). alias_rows s j)"
    unfolding list.set UN_insert by blast
  with u show ?case by simp
qed (simp add: takes_none)

lemma retired_rows_keyspace: "(k, key) \<in> set (retired_rows op) \<Longrightarrow> k \<noteq> KsShortIdsReverse \<and> k \<noteq> KsShortIds \<and> \<not> is_dupsort k"
  by (cases op rule: retired_rows.cases) (auto simp: Let_def is_dupsort_def split: if_splits)

definition retired_of :: "promote_plan \<Rightarrow> (entity_id \<Rightarrow> bool) \<Rightarrow> overlay_state \<Rightarrow> (keyspace \<times> bytes) set" where
  "retired_of plan kept s =
     (\<Union>op \<in> {op. \<exists>n. (op, n) \<in> set (zip (plan_ops plan) (plan_cut_from plan)) \<and> kept_op kept op}. set (retired_rows op)) \<union>
     (\<Union>i \<in> {i \<in> set (plan_replayed plan). kept i}. alias_rows s i)"

lemma recalculate_rows [simp]:
  "keyspaces (recalculate_bytes hdr s) = keyspaces s" "journal (recalculate_bytes hdr s) = journal s"
  "next_seq (recalculate_bytes hdr s) = next_seq s" "bookkeeping (recalculate_bytes hdr s) = bookkeeping s"
  by (simp_all add: recalculate_bytes_def)

lemma retire_closure_takes:
  assumes "state_wf s"
  shows "\<exists>u. takes (retired_of plan kept s) s u \<and>
    retire_closure hdr plan kept s = recalculate_bytes hdr
      (u\<lparr>journal := filter (\<lambda>e. \<forall>op n. (op, n) \<in> set (zip (plan_ops plan) (plan_cut_from plan)) \<and> kept_op kept op \<longrightarrow> seq e \<noteq> n)
        (journal s)\<rparr>)"
proof -
  define picked where "picked = filter (\<lambda>(op, n). kept_op kept op) (zip (plan_ops plan) (plan_cut_from plan))"
  define s1 where "s1 = fold (\<lambda>(op, n). drop_rows (retired_rows op)) picked s"
  define s2 where "s2 = fold retire_alias (filter kept (plan_replayed plan)) s1"
  let ?D = "\<Union>(op, n) \<in> set picked. set (retired_rows op)"
  have t1: "takes ?D s s1" unfolding s1_def by (rule takes_ops [OF assms])
  then have "takes (\<Union>i \<in> set (filter kept (plan_replayed plan)). alias_rows s1 i) s1 s2"
    unfolding s2_def by (intro takes_aliases) (simp add: takes_def)
  with t1 have t2: "takes (?D \<union> (\<Union>i \<in> set (filter kept (plan_replayed plan)). alias_rows s1 i)) s s2" by (rule takes_trans)
  have "alias_rows s1 i = alias_rows s i" for i
  proof -
    have "(KsShortIdsReverse, i) \<notin> ?D" using retired_rows_keyspace by blast
    then have "row_at s1 KsShortIdsReverse i = row_at s KsShortIdsReverse i" using t1 by (simp add: takes_def)
    then show ?thesis by (simp add: alias_rows_def)
  qed
  then have "takes (retired_of plan kept s) s s2"
    using t2 unfolding retired_of_def picked_def by (auto simp: case_prod_beta elim!: back_subst [of "\<lambda>D. takes D s s2"])
  moreover have "journal s2 = journal s" using t2 by (simp add: takes_def)
  moreover have "retire_closure hdr plan kept s = recalculate_bytes hdr
      (s2\<lparr>journal := filter (\<lambda>e. seq e \<notin> set (map snd picked)) (journal s2)\<rparr>)"
    by (simp add: retire_closure_def Let_def picked_def s1_def s2_def)
  moreover have "filter (\<lambda>e. seq e \<notin> set (map snd picked)) (journal s) =
      filter (\<lambda>e. \<forall>op n. (op, n) \<in> set (zip (plan_ops plan) (plan_cut_from plan)) \<and> kept_op kept op \<longrightarrow> seq e \<noteq> n)
        (journal s)"
    by (rule filter_cong) (force simp: picked_def)+
  ultimately have "takes (retired_of plan kept s) s s2 \<and> retire_closure hdr plan kept s = recalculate_bytes hdr
      (s2\<lparr>journal := filter (\<lambda>e. \<forall>op n. (op, n) \<in> set (zip (plan_ops plan) (plan_cut_from plan)) \<and> kept_op kept op \<longrightarrow> seq e \<noteq> n)
        (journal s)\<rparr>)" by (simp only: simp_thms)
  then show ?thesis by (rule exI)
qed



section \<open>A turn saved\<close>

definition sample_turn :: entity_id where
  "sample_turn = replicate 16 7"

definition sample_put :: put_fields where
  "sample_put = \<lparr>put_id = sample_turn, put_type = 1, put_occurred = \<lparr>range_start = 3, range_end = 3\<rparr>, put_learned_at = 5,
     put_version = None, put_data = [9], put_allow_maintenance = False, put_allow_reserved = False, put_hub_imported = False\<rparr>"

definition sample_entry :: journal_entry where
  "sample_entry = \<lparr>entry_scope = \<lparr>scope_conversation = sample_turn, scope_turn = sample_turn\<rparr>, entry_role = TurnPut,
     entry_learned_at = 5, entry_occurred = \<lparr>range_start = 3, range_end = 3\<rparr>, entry_op = OpPut sample_put,
     entry_source_run = None\<rparr>"

definition sample_room :: overlay_state where
  "sample_room = empty_state\<lparr>keyspaces := (ks_empty)(KsEntities := Single False [(sample_turn, Present [9])]),
     journal := [\<lparr>seq = 0, entry = sample_entry\<rparr>], next_seq := 1\<rparr>"

definition sample_plan :: promote_plan where
  "sample_plan = \<lparr>plan_ops = [OpPut sample_put], plan_replayed = [sample_turn], plan_aliases = [], plan_learned_at = [5],
     plan_cut_from = [0], plan_source_runs = [None], plan_turn = sample_turn, plan_conversation = sample_turn,
     plan_appends = False\<rparr>"

lemma sample_plan_cut: "plan_promotion_where sample_turn (\<lambda>_. True) sample_room = Ok sample_plan"
  by (simp add: plan_promotion_where_def cut_def closure_entries_def sample_room_def materializes_def sample_entry_def
      sample_put_def sample_plan_def in_closure_def put_ids_def alias_of_def empty_state_def ks_empty_def is_dupsort_def
      os_insert_def)


lemma sample_room_wf: "state_wf sample_room"
  by (auto simp: state_wf_def sample_room_def empty_state_def ks_empty_def is_dupsort_def marks_wf_def)


end
