(* ===== verification/RoomLife.thy ===== *)
theory RoomLife
  imports Promotion
begin

text \<open>
  The life of a room's overlay (\<open>session_overlay/overlay/lifecycle.rs\<close>), the write segment one
  thread holds of it (\<open>overlay/segment.rs\<close>, \<open>segment/base_retirement.rs\<close>), the staging of rows into
  that segment against the room's budget (\<open>overlay/rows.rs\<close>), the routes of session writes
  (\<open>route.rs\<close>) and the room's short-id allocation (\<open>short_id.rs\<close>).

  The thread-local segment of the calling thread is an argument, \<open>OtherSegment\<close> standing for a
  segment of another overlay.  A call that waits on a condition variable is its test, made under
  the lock: \<open>Blocks\<close> while the thread sleeps, \<open>Returns\<close> when it goes on.  What an overlay is charged
  for the memory it retains never refuses a call and is left out, as are poisoned locks.  A lease
  is a number the overlay counts; \<open>nat\<close> is bounded by the checked additions.
\<close>

section \<open>Lifecycle\<close>

datatype life_state = Live | Sealing | Sealed | Closing | Gone

record lifecycle =
  life :: life_state
  generation :: "64 word"
  mode_generation :: "64 word"
  leases :: nat
  segment_active :: bool

record session_overlay = lifecycle +
  published :: overlay_state
  budget_bytes :: nat

record checkpoint =
  cp_preview :: overlay_state
  cp_mutations :: nat
  cp_journal :: nat
  cp_journal_bytes :: nat

record txn_segment =
  seg_generation :: "64 word"
  seg_nonce :: "64 word"
  preview :: overlay_state
  seg_mutations :: "mutation list"
  seg_journal :: "journal_entry list"
  journal_bytes :: nat
  net_budget :: "checkpoint option"

datatype installed = NoSegment | OwnSegment txn_segment | OtherSegment

datatype 'a blocking = Blocks | Returns 'a

definition new_room :: "64 word \<Rightarrow> nat \<Rightarrow> session_overlay" where
  "new_room gen budget = \<lparr>life = Live, generation = gen, mode_generation = 0, leases = 0, segment_active = False,
     published = empty_state, budget_bytes = budget\<rparr>"

definition next_mode_generation :: "64 word \<Rightarrow> (room_error, 64 word) result" where
  "next_mode_generation m =
     (if m = - 1 then Err (RoomOverflow ''session overlay mode generation'') else Ok (m + 1))"

definition sealed_mode_is :: "64 word \<Rightarrow> session_overlay \<Rightarrow> bool" where
  "sealed_mode_is m o' \<longleftrightarrow> life o' = Sealed \<and> mode_generation o' = m"

definition publish_mode :: "session_overlay \<Rightarrow> (room_error, unit) result \<times> session_overlay" where
  "publish_mode o' =
     (case next_mode_generation (mode_generation o') of
        Inl e \<Rightarrow> (Err e, o') | Inr m \<Rightarrow> (Ok (), o'\<lparr>mode_generation := m\<rparr>))"

fun holds_own :: "installed \<Rightarrow> bool" where
  "holds_own (OwnSegment _) = True"
| "holds_own _ = False"

text \<open>A seal or close that goes on answers \<open>Ok True\<close>: its second half runs once what it waits for is over.\<close>

definition seal_begin :: "installed \<Rightarrow> session_overlay \<Rightarrow> (room_error, bool) result \<times> session_overlay" where
  "seal_begin seg o' =
     (if holds_own seg
      then (Err (RoomInvariant ''session overlay seal called while this thread holds an active txn segment''), o')
      else case life o' of
             Live \<Rightarrow> (Ok True, o'\<lparr>life := Sealing\<rparr>)
           | Sealed \<Rightarrow> (Ok False, o')
           | _ \<Rightarrow> (Err (LeaseClosed (generation o')), o'))"

definition seal_finish :: "session_overlay \<Rightarrow> ((room_error, unit) result \<times> session_overlay) blocking" where
  "seal_finish o' = (if segment_active o' then Blocks else Returns (publish_mode (o'\<lparr>life := Sealed\<rparr>)))"

definition rearm :: "session_overlay \<Rightarrow> (room_error, unit) result \<times> session_overlay" where
  "rearm o' =
     (if life o' \<noteq> Sealed then (Err (LeaseClosed (generation o')), o') else publish_mode (o'\<lparr>life := Live\<rparr>))"

definition close_begin :: "installed \<Rightarrow> session_overlay \<Rightarrow> (room_error, unit) result \<times> session_overlay" where
  "close_begin seg o' =
     (if holds_own seg
      then (Err (RoomInvariant ''session overlay close called while this thread holds an active txn segment''), o')
      else if life o' = Live \<or> life o' = Sealed then publish_mode (o'\<lparr>life := Closing\<rparr>)
      else (Err (LeaseClosed (generation o')), o'))"

definition membership_only :: "overlay_state \<Rightarrow> overlay_state" where
  "membership_only s =
     (case keyspaces s KsEntities of
        Single _ rows \<Rightarrow> empty_state\<lparr>keyspaces := ks_empty(KsEntities :=
            Single False (map (\<lambda>(i, v). (i, Present [])) (filter (\<lambda>(i, v). v \<noteq> Tombstone) rows)))\<rparr>
      | DupSort _ _ \<Rightarrow> empty_state)"

definition close_finish ::
    "keyspace option \<Rightarrow> session_overlay \<Rightarrow> ((room_error, (bytes \<times> bytes) list) result \<times> session_overlay) blocking" where
  "close_finish visit o' =
     (if leases o' \<noteq> 0 then Blocks
      else if generation o' = - 1 then Returns (Err (RoomOverflow ''session overlay generation''), o')
      else Returns
        (Ok (case visit of
               None \<Rightarrow> []
             | Some k \<Rightarrow> (case keyspaces (published o') k of
                   Single _ rows \<Rightarrow> concat (map (\<lambda>(key, v). case v of Present x \<Rightarrow> [(key, x)] | Tombstone \<Rightarrow> []) rows)
                 | DupSort _ _ \<Rightarrow> [])),
         o'\<lparr>generation := generation o' + 1, life := Gone, published := membership_only (published o')\<rparr>))"

definition release_closed_state :: "session_overlay \<Rightarrow> session_overlay" where
  "release_closed_state o' = (if life o' \<noteq> Gone then o' else o'\<lparr>published := empty_state\<rparr>)"

section \<open>Leases\<close>

definition lease :: "session_overlay \<Rightarrow> (room_error, session_overlay) result" where
  "lease o' =
     (case checked_add ''session overlay lease count'' (leases o') 1 of
        Inl e \<Rightarrow> Err e | Inr n \<Rightarrow> Ok (o'\<lparr>leases := n\<rparr>))"

definition drop_lease :: "session_overlay \<Rightarrow> session_overlay" where
  "drop_lease o' = o'\<lparr>leases := leases o' - 1\<rparr>"

definition acquire_read_lease :: "session_overlay \<Rightarrow> (room_error, session_overlay) result" where
  "acquire_read_lease o' =
     (if life o' = Live \<or> life o' = Sealed then lease o' else Err (LeaseClosed (generation o')))"

definition acquire_existing_lease :: "64 word \<Rightarrow> session_overlay \<Rightarrow> (room_error, session_overlay) result" where
  "acquire_existing_lease gen o' =
     (if life o' = Gone \<or> generation o' \<noteq> gen then Err (LeaseClosed gen) else lease o')"

definition take_permit :: "session_overlay \<Rightarrow> (room_error, session_overlay) result" where
  "take_permit o' = (case lease o' of Inl e \<Rightarrow> Err e | Inr p \<Rightarrow> Ok (p\<lparr>segment_active := True\<rparr>))"

definition acquire_segment_lease :: "session_overlay \<Rightarrow> (room_error, session_overlay) result blocking" where
  "acquire_segment_lease o' =
     (if segment_active o' \<and> life o' = Live then Blocks
      else if life o' \<noteq> Live then Returns (Err (LeaseClosed (generation o')))
      else Returns (take_permit o'))"

definition acquire_base_retirement_lease :: "64 word \<Rightarrow> session_overlay \<Rightarrow> (room_error, session_overlay) result blocking" where
  "acquire_base_retirement_lease m o' =
     (if \<not> sealed_mode_is m o' then Returns (Err (LeaseClosed m))
      else if segment_active o' then Blocks
      else Returns (take_permit o'))"

definition synchronize_publication :: "installed \<Rightarrow> session_overlay \<Rightarrow> unit blocking" where
  "synchronize_publication seg o' =
     (if holds_own seg then Returns () else if segment_active o' \<and> life o' \<noteq> Gone then Blocks else Returns ())"

section \<open>Segments\<close>

definition open_segment :: "64 word \<Rightarrow> session_overlay \<Rightarrow> txn_segment" where
  "open_segment nonce o' = \<lparr>seg_generation = generation o', seg_nonce = nonce, preview = published o', seg_mutations = [],
     seg_journal = [], journal_bytes = 0, net_budget = None\<rparr>"

definition install_segment ::
    "64 word option \<Rightarrow> 64 word \<Rightarrow> installed \<Rightarrow> session_overlay \<Rightarrow> (room_error, txn_segment \<times> session_overlay) result blocking" where
  "install_segment base_mode nonce seg o' =
     (if seg \<noteq> NoSegment
      then Returns (Err (RoomInvariant ''a session txn segment is already installed on this thread''))
      else case (case base_mode of Some m \<Rightarrow> acquire_base_retirement_lease m o' | None \<Rightarrow> acquire_segment_lease o') of
             Blocks \<Rightarrow> Blocks
           | Returns (Inl e) \<Rightarrow> Returns (Err e)
           | Returns (Inr p) \<Rightarrow> Returns (Ok (open_segment nonce p, p)))"

definition release_segment_writer :: "session_overlay \<Rightarrow> session_overlay" where
  "release_segment_writer o' = o'\<lparr>segment_active := False\<rparr>"

fun apply_all :: "nat \<Rightarrow> mutation list \<Rightarrow> overlay_state \<Rightarrow> (room_error, overlay_state) result" where
  "apply_all hdr [] s = Ok s"
| "apply_all hdr (m # ms) s = (case project_mutation hdr m s of Inl e \<Rightarrow> Err e | Inr t \<Rightarrow> apply_all hdr ms t)"

definition publish_entry :: "nat \<Rightarrow> journal_entry \<Rightarrow> overlay_state \<Rightarrow> overlay_state" where
  "publish_entry hdr e s = recalculate_bytes hdr
     (s\<lparr>next_seq := next_seq s + 1, journal := journal s @ [\<lparr>seq = next_seq s, entry = e\<rparr>]\<rparr>)"

definition apply_preflighted ::
    "nat \<Rightarrow> mutation list \<Rightarrow> journal_entry list \<Rightarrow> overlay_state \<Rightarrow> (room_error, overlay_state) result" where
  "apply_preflighted hdr ms js s =
     (case apply_all hdr ms s of Inl e \<Rightarrow> Err e | Inr t \<Rightarrow> Ok (fold (publish_entry hdr) js t))"

definition apply_segment :: "nat \<Rightarrow> txn_segment \<Rightarrow> session_overlay \<Rightarrow> (room_error, unit) result \<times> session_overlay" where
  "apply_segment hdr seg o' =
     (if life o' = Gone \<or> generation o' \<noteq> seg_generation seg then (Err (LeaseClosed (seg_generation seg)), o')
      else case apply_preflighted hdr (seg_mutations seg) (seg_journal seg) (published o') of
             Inl e \<Rightarrow> (Err e, o')
           | Inr t \<Rightarrow> (Ok (), o'\<lparr>published := t\<rparr>))"

text \<open>A commit takes the thread's segment whatever it answers; the segment's lease drops with it and the
  guard releases the writer afterwards.\<close>

definition commit_segment :: "nat \<Rightarrow> installed \<Rightarrow> session_overlay \<Rightarrow> (room_error, unit) result \<times> session_overlay" where
  "commit_segment hdr seg o' =
     (case seg of
        NoSegment \<Rightarrow> (Err (RoomInvariant ''session txn segment disappeared before commit''), o')
      | OtherSegment \<Rightarrow> (Err (RoomInvariant ''another session txn segment replaced the installed segment''), o')
      | OwnSegment s \<Rightarrow>
          if net_budget s \<noteq> None
          then (Err (RoomInvariant ''a room net-budget operation must finish before commit''), drop_lease o')
          else (case apply_segment hdr s o' of (r, p) \<Rightarrow> (r, drop_lease p)))"

definition abort_segment :: "installed \<Rightarrow> session_overlay \<Rightarrow> installed \<times> session_overlay" where
  "abort_segment seg o' = (case seg of OwnSegment _ \<Rightarrow> (NoSegment, drop_lease o') | _ \<Rightarrow> (seg, o'))"

definition commit_retirement ::
    "nat \<Rightarrow> 64 word \<Rightarrow> bytes list \<Rightarrow> installed \<Rightarrow> session_overlay \<Rightarrow> (room_error, unit) result \<times> session_overlay" where
  "commit_retirement hdr m keys seg o' =
     (case seg of
        NoSegment \<Rightarrow> (Err (RoomInvariant ''session txn segment disappeared before retirement''), o')
      | OtherSegment \<Rightarrow> (Err (RoomInvariant ''another session txn segment replaced the retirement segment''), o')
      | OwnSegment s \<Rightarrow>
          (Ok (), drop_lease
             (if generation o' = seg_generation s \<and> sealed_mode_is m o'
              then o'\<lparr>published := recalculate_bytes hdr
                (fold (retire_snapshot_row (preview s) KsVaultMeta) keys (published o'))\<rparr>
              else o')))"


section \<open>Staging against the budget\<close>

type_synonym staging = "(room_error, unit) result \<times> installed"

definition on_segment :: "installed \<Rightarrow> (txn_segment \<Rightarrow> (room_error, unit) result \<times> txn_segment) \<Rightarrow> staging" where
  "on_segment seg f =
     (case seg of
        NoSegment \<Rightarrow> (Err (RoomInvariant ''session overlay write requires an active txn segment''), seg)
      | OtherSegment \<Rightarrow> (Err (RoomInvariant ''the active txn segment belongs to another session overlay''), seg)
      | OwnSegment s \<Rightarrow> (case f s of (r, t) \<Rightarrow> (r, OwnSegment t)))"

definition ensure_budget :: "nat \<Rightarrow> nat \<Rightarrow> nat \<Rightarrow> (room_error, unit) result" where
  "ensure_budget budget current incoming =
     (case checked_add ''overlay attempted byte count'' current incoming of
        Inl e \<Rightarrow> Err e
      | Inr attempted \<Rightarrow> if attempted > budget then Err (OverlayFull budget attempted) else Ok ())"

definition ensure_mutation_budget :: "nat \<Rightarrow> nat \<Rightarrow> nat \<Rightarrow> nat \<Rightarrow> (room_error, unit) result" where
  "ensure_mutation_budget budget current before after =
     (if after \<le> before then Ok () else ensure_budget budget current (after - before))"

definition reject_unbudgetable :: "nat \<Rightarrow> bytes \<Rightarrow> bytes \<Rightarrow> (room_error, unit) result" where
  "reject_unbudgetable budget key value =
     (case checked_add ''overlay payload byte count'' (length key) (length value) of
        Inl e \<Rightarrow> Err e
      | Inr n \<Rightarrow> if n > budget then Err (OverlayFull budget n) else Ok ())"

definition staged_bytes :: "txn_segment \<Rightarrow> (room_error, nat) result" where
  "staged_bytes s = checked_add ''overlay staged byte count'' (bytes_used (preview s)) (journal_bytes s)"

definition holds_bookkeeping_row :: "installed \<Rightarrow> keyspace \<Rightarrow> bytes \<Rightarrow> bool" where
  "holds_bookkeeping_row seg k key =
     (case seg of
        OwnSegment s \<Rightarrow> (case map_of (bookkeeping (preview s)) (slot k) of None \<Rightarrow> False | Some q \<Rightarrow> key \<in> set q)
      | _ \<Rightarrow> False)"

definition preflight_mutations :: "nat \<Rightarrow> nat \<Rightarrow> mutation list \<Rightarrow> txn_segment \<Rightarrow> (room_error, unit) result" where
  "preflight_mutations hdr budget ms s =
     (case staged_bytes s of
        Inl e \<Rightarrow> Err e
      | Inr current \<Rightarrow>
          (case apply_all hdr ms (preview s) of
             Inl e \<Rightarrow> Err e
           | Inr projected \<Rightarrow>
               if net_budget s = None
               then ensure_mutation_budget budget current (bytes_used (preview s)) (bytes_used projected)
               else Ok ()))"

definition stage_mutation :: "nat \<Rightarrow> mutation \<Rightarrow> txn_segment \<Rightarrow> (room_error, unit) result \<times> txn_segment" where
  "stage_mutation hdr m s =
     (case apply_preflighted hdr [m] [] (preview s) of
        Inl e \<Rightarrow> (Err e, s)
      | Inr t \<Rightarrow> (Ok (), s\<lparr>preview := t, seg_mutations := seg_mutations s @ [m]\<rparr>))"

definition preflight_and_stage :: "nat \<Rightarrow> nat \<Rightarrow> mutation \<Rightarrow> installed \<Rightarrow> staging" where
  "preflight_and_stage hdr budget m seg =
     on_segment seg (\<lambda>s. case preflight_mutations hdr budget [m] s of
        Inl e \<Rightarrow> (Err e, s) | Inr _ \<Rightarrow> stage_mutation hdr m s)"

definition admit_payload :: "nat \<Rightarrow> installed \<Rightarrow> keyspace \<Rightarrow> bytes \<Rightarrow> bytes \<Rightarrow> (room_error, unit) result" where
  "admit_payload budget seg k key value =
     (if \<not> unbudgeted_row k key \<and> \<not> holds_bookkeeping_row seg k key then reject_unbudgetable budget key value else Ok ())"

definition overlay_put :: "nat \<Rightarrow> nat \<Rightarrow> keyspace \<Rightarrow> bytes \<Rightarrow> bytes \<Rightarrow> installed \<Rightarrow> staging" where
  "overlay_put hdr budget k key value seg =
     (case admit_payload budget seg k key value of
        Inl e \<Rightarrow> (Err e, seg) | Inr _ \<Rightarrow> preflight_and_stage hdr budget (Put k key value) seg)"

definition mark_bookkeeping_row :: "nat \<Rightarrow> keyspace \<Rightarrow> bytes \<Rightarrow> installed \<Rightarrow> staging" where
  "mark_bookkeeping_row hdr k key seg = on_segment seg (stage_mutation hdr (Bookkeeping k key))"

definition delete_with_base_backing :: "nat \<Rightarrow> nat \<Rightarrow> keyspace \<Rightarrow> bytes \<Rightarrow> bool \<Rightarrow> installed \<Rightarrow> staging" where
  "delete_with_base_backing hdr budget k key backed seg = preflight_and_stage hdr budget (Delete k key backed) seg"

definition overlay_delete :: "nat \<Rightarrow> nat \<Rightarrow> keyspace \<Rightarrow> bytes \<Rightarrow> installed \<Rightarrow> staging" where
  "overlay_delete hdr budget k key seg = delete_with_base_backing hdr budget k key True seg"

definition overlay_delete_duplicate :: "nat \<Rightarrow> nat \<Rightarrow> keyspace \<Rightarrow> bytes \<Rightarrow> bytes \<Rightarrow> bool \<Rightarrow> installed \<Rightarrow> staging" where
  "overlay_delete_duplicate hdr budget k key value backed seg =
     (case reject_unbudgetable budget key value of
        Inl e \<Rightarrow> (Err e, seg) | Inr _ \<Rightarrow> preflight_and_stage hdr budget (DeleteDuplicate k key value backed) seg)"

definition overlay_clear :: "nat \<Rightarrow> nat \<Rightarrow> keyspace \<Rightarrow> installed \<Rightarrow> staging" where
  "overlay_clear hdr budget k seg = preflight_and_stage hdr budget (Clear k) seg"

fun admit_group :: "nat \<Rightarrow> installed \<Rightarrow> mutation list \<Rightarrow> (room_error, unit) result" where
  "admit_group budget seg [] = Ok ()"
| "admit_group budget seg (m # ms) =
     (case (case m of Put k key value \<Rightarrow> admit_payload budget seg k key value | _ \<Rightarrow> Ok ()) of
        Inl e \<Rightarrow> Err e | Inr _ \<Rightarrow> admit_group budget seg ms)"

fun stage_all :: "nat \<Rightarrow> mutation list \<Rightarrow> txn_segment \<Rightarrow> (room_error, unit) result \<times> txn_segment" where
  "stage_all hdr [] s = (Ok (), s)"
| "stage_all hdr (m # ms) s = (case stage_mutation hdr m s of (Inl e, t) \<Rightarrow> (Err e, t) | (Inr _, t) \<Rightarrow> stage_all hdr ms t)"

definition stage_mutation_group :: "nat \<Rightarrow> nat \<Rightarrow> mutation list \<Rightarrow> installed \<Rightarrow> staging" where
  "stage_mutation_group hdr budget ms seg =
     (case admit_group budget seg ms of
        Inl e \<Rightarrow> (Err e, seg)
      | Inr _ \<Rightarrow> on_segment seg (\<lambda>s. case preflight_mutations hdr budget ms s of
          Inl e \<Rightarrow> (Err e, s) | Inr _ \<Rightarrow> stage_all hdr ms s))"

text \<open>The last addition, of the journal bytes, comes after the entry is kept.\<close>

definition stage_journal_entry :: "nat \<Rightarrow> nat \<Rightarrow> journal_entry \<Rightarrow> installed \<Rightarrow> staging" where
  "stage_journal_entry hdr budget e seg =
     (if \<not> stageable (entry_op e)
      then (Err (RoomInvariant ''session journal cannot stage an unsupported batch op''), seg)
      else on_segment seg (\<lambda>s.
        case staged_bytes s of
          Inl err \<Rightarrow> (Err err, s)
        | Inr current \<Rightarrow>
            (case (if net_budget s = None then ensure_budget budget current (entry_bytes hdr e) else Ok ()) of
               Inl err \<Rightarrow> (Err err, s)
             | Inr _ \<Rightarrow>
                 (let kept = s\<lparr>seg_journal := seg_journal s @ [e]\<rparr> in
                  case checked_add ''overlay staged journal byte count'' (journal_bytes s) (entry_bytes hdr e) of
                    Inl err \<Rightarrow> (Err err, kept)
                  | Inr n \<Rightarrow> (Ok (), kept\<lparr>journal_bytes := n\<rparr>)))))"

section \<open>One operation against its net growth\<close>

definition net_begin :: "installed \<Rightarrow> (room_error, txn_segment) result" where
  "net_begin seg =
     (case seg of
        OwnSegment s \<Rightarrow>
          if net_budget s \<noteq> None then Err (RoomInvariant ''a room net-budget operation is already active'')
          else Ok (s\<lparr>net_budget := Some \<lparr>cp_preview = preview s, cp_mutations = length (seg_mutations s),
                 cp_journal = length (seg_journal s), cp_journal_bytes = journal_bytes s\<rparr>\<rparr>)
      | _ \<Rightarrow> Err (RoomInvariant ''room net-budget staging requires its active txn segment''))"

definition net_finish :: "nat \<Rightarrow> 64 word \<Rightarrow> installed \<Rightarrow> (room_error, txn_segment) result" where
  "net_finish budget nonce seg =
     (case seg of
        OwnSegment s \<Rightarrow>
          if seg_nonce s \<noteq> nonce then Err (RoomInvariant ''room net-budget staging lost its txn segment'')
          else (case net_budget s of
             None \<Rightarrow> Err (RoomInvariant ''room net-budget staging lost its checkpoint'')
           | Some cp \<Rightarrow>
               (case checked_add ''overlay staged byte count'' (bytes_used (cp_preview cp)) (cp_journal_bytes cp) of
                  Inl e \<Rightarrow> Err e
                | Inr before \<Rightarrow>
                    (case staged_bytes s of
                       Inl e \<Rightarrow> Err e
                     | Inr after \<Rightarrow>
                         (case ensure_mutation_budget budget before before after of
                            Inl e \<Rightarrow> Err e | Inr _ \<Rightarrow> Ok (s\<lparr>net_budget := None\<rparr>)))))
      | _ \<Rightarrow> Err (RoomInvariant ''room net-budget staging lost its txn segment''))"

definition net_rollback :: "64 word \<Rightarrow> installed \<Rightarrow> installed" where
  "net_rollback nonce seg =
     (case seg of
        OwnSegment s \<Rightarrow>
          if seg_nonce s \<noteq> nonce then seg
          else (case net_budget s of
             None \<Rightarrow> seg
           | Some cp \<Rightarrow> OwnSegment (s\<lparr>preview := cp_preview cp, seg_mutations := take (cp_mutations cp) (seg_mutations s),
                 seg_journal := take (cp_journal cp) (seg_journal s), journal_bytes := cp_journal_bytes cp,
                 net_budget := None\<rparr>))
      | _ \<Rightarrow> seg)"

definition with_net_budget ::
    "nat \<Rightarrow> (installed \<Rightarrow> (room_error, 'a) result \<times> installed) \<Rightarrow> installed \<Rightarrow> (room_error, 'a) result \<times> installed" where
  "with_net_budget budget stage seg =
     (case net_begin seg of
        Inl e \<Rightarrow> (Err e, seg)
      | Inr s \<Rightarrow>
          (case stage (OwnSegment s) of
             (Inl e, seg') \<Rightarrow> (Err e, net_rollback (seg_nonce s) seg')
           | (Inr x, seg') \<Rightarrow>
               (case net_finish budget (seg_nonce s) seg' of
                  Inl e \<Rightarrow> (Err e, net_rollback (seg_nonce s) seg')
                | Inr t \<Rightarrow> (Ok x, OwnSegment t))))"

section \<open>Views\<close>

record overlay_view =
  view_state :: overlay_state
  view_generation :: "64 word"
  view_segment :: "64 word option"

definition take_snapshot :: "installed \<Rightarrow> session_overlay \<Rightarrow> (room_error, overlay_view \<times> session_overlay) result" where
  "take_snapshot seg o' =
     (case seg of
        OwnSegment s \<Rightarrow>
          (case acquire_existing_lease (seg_generation s) o' of
             Inl e \<Rightarrow> Err e
           | Inr p \<Rightarrow> Ok (\<lparr>view_state = preview s, view_generation = seg_generation s, view_segment = Some (seg_nonce s)\<rparr>, p))
      | _ \<Rightarrow>
          (case acquire_read_lease o' of
             Inl e \<Rightarrow> Err e
           | Inr p \<Rightarrow> Ok (\<lparr>view_state = published p, view_generation = generation p, view_segment = None\<rparr>, p)))"

text \<open>A preview that has not moved is the captured allocation; equality of states stands for it.  A view
  that moved takes a lease of its own.\<close>

definition read_view :: "installed \<Rightarrow> overlay_view \<Rightarrow> session_overlay \<Rightarrow> (room_error, overlay_view \<times> session_overlay) result" where
  "read_view seg v o' =
     (case (view_segment v, seg) of
        (Some nonce, OwnSegment s) \<Rightarrow>
          if seg_nonce s = nonce \<and> preview s \<noteq> view_state v
          then (case acquire_existing_lease (seg_generation s) o' of
                  Inl e \<Rightarrow> Err e
                | Inr p \<Rightarrow> Ok (\<lparr>view_state = preview s, view_generation = seg_generation s, view_segment = Some nonce\<rparr>, p))
          else Ok (v, o')
      | _ \<Rightarrow> Ok (v, o'))"

definition contains_entity :: "session_overlay \<Rightarrow> entity_id \<Rightarrow> (room_error, bool) result" where
  "contains_entity o' i =
     (case keyspaces (published o') KsEntities of
        Single _ rows \<Rightarrow> Ok (case map_of rows i of Some (Present _) \<Rightarrow> True | _ \<Rightarrow> False)
      | DupSort _ _ \<Rightarrow> Err (RoomInvariant ''entities overlay keyspace unexpectedly uses DUP_SORT''))"

definition has_entities :: "session_overlay \<Rightarrow> (room_error, bool) result" where
  "has_entities o' =
     (case keyspaces (published o') KsEntities of
        Single _ rows \<Rightarrow> Ok (list_ex (\<lambda>(i, v). v \<noteq> Tombstone) rows)
      | DupSort _ _ \<Rightarrow> Err (RoomInvariant ''entities overlay keyspace unexpectedly uses DUP_SORT''))"

section \<open>Routes\<close>

datatype route_target = RouteOverlay | RouteBase | RouteDiscard

record write_route =
  target :: route_target
  route_mode :: "64 word"

definition mint_route :: "session_overlay \<Rightarrow> route_target \<Rightarrow> write_route" where
  "mint_route o' t = \<lparr>target = t, route_mode = mode_generation o'\<rparr>"

definition target_requires_recording :: "route_target \<Rightarrow> string \<Rightarrow> (room_error, unit) result" where
  "target_requires_recording t session = (if t = RouteDiscard then Err (TalkOnly session) else Ok ())"

definition revalidate :: "session_overlay \<Rightarrow> write_route \<Rightarrow> (room_error, unit) result" where
  "revalidate o' r = (if mode_generation o' = route_mode r then Ok () else Err (LeaseClosed (route_mode r)))"

definition require_recording :: "session_overlay \<Rightarrow> write_route \<Rightarrow> string \<Rightarrow> (room_error, unit) result" where
  "require_recording o' r session =
     (case revalidate o' r of Inl e \<Rightarrow> Err e | Inr _ \<Rightarrow> target_requires_recording (target r) session)"

definition install_base_row_retirement ::
    "write_route \<Rightarrow> 64 word \<Rightarrow> installed \<Rightarrow> session_overlay \<Rightarrow> (room_error, txn_segment \<times> session_overlay) result blocking" where
  "install_base_row_retirement r nonce seg o' =
     (if target r \<noteq> RouteBase then Returns (Err (RoomInvariant ''overlay row retirement requires a base write route''))
      else install_segment (Some (route_mode r)) nonce seg o')"

section \<open>Allocating a short id\<close>

definition alloc_session_short_id ::
    "nat \<Rightarrow> (bytes \<Rightarrow> 32 word) \<Rightarrow> entity_id \<Rightarrow> bytes \<Rightarrow> installed \<Rightarrow> session_overlay \<Rightarrow>
     (room_error, bytes \<times> byte) result \<times> installed" where
  "alloc_session_short_id hdr xxh32 i data seg o' =
     (let hash = session_content_hash xxh32 data in
      case take_snapshot seg o' of
        Inl e \<Rightarrow> (Err e, seg)
      | Inr (view, _) \<Rightarrow>
          (case lookup_single (keyspaces (view_state view) KsShortIdsReverse) i of
             Found existing \<Rightarrow>
               (case parse_short_id_value existing of
                  Inl e \<Rightarrow> (Err e, seg)
                | Inr (short_id, old) \<Rightarrow>
                    (case stage_mutation_group hdr (budget_bytes o')
                        ((if old \<noteq> hash then [Delete KsShortIds (forward_key short_id old) False] else []) @
                          short_id_rows i short_id hash) seg of
                       (Inl e, seg') \<Rightarrow> (Err e, seg')
                     | (Inr _, seg') \<Rightarrow> (Ok (short_id, hash), seg')))
           | _ \<Rightarrow>
               (let last = (case lookup_single (keyspaces (view_state view) KsVaultMeta) short_id_ordinal_key of
                     Found value \<Rightarrow> (if length value = 8 then Ok (of_nat (from_be_bytes value))
                                     else Err (RoomCorrupt ''session short id ordinal''))
                   | _ \<Rightarrow> Ok (0 :: 64 word))
                in case last of
                     Inl e \<Rightarrow> (Err e, seg)
                   | Inr n \<Rightarrow>
                       if n = - 1 then (Err (RoomOverflow ''session short id counter''), seg)
                       else (case stage_mutation_group hdr (budget_bytes o')
                           (short_id_rows i (session_alias (n + 1)) hash @
                             [Put KsVaultMeta short_id_ordinal_key (to_be_bytes 8 (unat (n + 1)))]) seg of
                          (Inl e, seg') \<Rightarrow> (Err e, seg')
                        | (Inr _, seg') \<Rightarrow> (Ok (session_alias (n + 1), hash), seg')))))"


section \<open>Counting bytes\<close>

definition counted :: "nat \<Rightarrow> overlay_state \<Rightarrow> bool" where
  "counted hdr s \<longleftrightarrow> recalculate_bytes hdr s = s"

lemma sat_fold: "acc \<le> usize_max \<Longrightarrow> fold (\<lambda>n acc. sat_add acc n) ns acc = min (acc + sum_list ns) usize_max"
  by (induction ns arbitrary: acc) (auto simp: sat_add_def min_def)

definition row_bytes :: "overlay_state \<Rightarrow> nat" where
  "row_bytes s = sum_list (map (\<lambda>k. ks_byte_size k (map_of (bookkeeping s) (slot k)) (keyspaces s k)) all_keyspaces)"

definition entries_bytes :: "nat \<Rightarrow> journal_entry list \<Rightarrow> nat" where
  "entries_bytes hdr es = sum_list (map (entry_bytes hdr) es)"

lemma recalculated: "bytes_used (recalculate_bytes hdr s) = min (row_bytes s + entries_bytes hdr (map entry (journal s))) usize_max"
  by (simp add: recalculate_bytes_def sat_fold row_bytes_def entries_bytes_def comp_def)

lemma row_bytes_recalculate [simp]: "row_bytes (recalculate_bytes hdr s) = row_bytes s"
  by (simp add: row_bytes_def)

lemma counted_bytes:
  "counted hdr s \<Longrightarrow> bytes_used s = min (row_bytes s + entries_bytes hdr (map entry (journal s))) usize_max"
  unfolding counted_def by (metis recalculated)

lemma counted_recalculate [simp]: "counted hdr (recalculate_bytes hdr s)"
  by (simp add: counted_def recalculate_bytes_def)

lemma counted_empty: "counted hdr empty_state"
  by (simp add: counted_def recalculate_bytes_def empty_state_def sat_fold)
    (simp add: ks_empty_def all_keyspaces_def is_dupsort_def)

lemma counted_project: "project_mutation hdr m s = Ok t \<Longrightarrow> counted hdr t"
  by (auto simp: project_mutation_def split: sum.splits)

lemma recalculate_wf [simp]: "state_wf (recalculate_bytes hdr s) = state_wf s"
  by (simp add: state_wf_def)

lemma project_wf: "state_wf s \<Longrightarrow> project_mutation hdr m s = Ok t \<Longrightarrow> state_wf t"
  by (auto simp: project_mutation_def apply_mutation_wf split: sum.splits)

lemma project_journal: "project_mutation hdr m s = Ok t \<Longrightarrow> journal t = journal s \<and> next_seq t = next_seq s"
  by (auto simp: project_mutation_def apply_mutation_def Let_def split: sum.splits mutation.splits if_splits)

lemma apply_all_append:
  "apply_all hdr (ms @ ns) s = (case apply_all hdr ms s of Inl e \<Rightarrow> Err e | Inr t \<Rightarrow> apply_all hdr ns t)"
  by (induction ms arbitrary: s) (auto split: sum.split)

lemma apply_all_facts:
  "apply_all hdr ms s = Ok t \<Longrightarrow>
   (counted hdr s \<longrightarrow> counted hdr t) \<and> (state_wf s \<longrightarrow> state_wf t) \<and> journal t = journal s \<and> next_seq t = next_seq s"
proof (induction ms arbitrary: s)
  case (Cons m ms)
  then obtain u where u: "project_mutation hdr m s = Ok u" "apply_all hdr ms u = Ok t" by (auto split: sum.splits)
  with Cons.IH [OF u(2)] counted_project [OF u(1)] project_wf [OF _ u(1)] project_journal [OF u(1)] show ?case by auto
qed simp

lemma preflighted_single: "apply_preflighted hdr [m] [] s = project_mutation hdr m s"
  by (simp add: apply_preflighted_def split: sum.split)

lemma filter_sum_le: "(\<And>x. x \<in> set xs \<Longrightarrow> P x \<Longrightarrow> Q x) \<Longrightarrow> sum_list (map f (filter P xs)) \<le> (sum_list (map f (filter Q xs)) :: nat)"
  by (induction xs) (auto intro: le_SucI trans_le_add2)

lemma marked_bytes:
  assumes "set (case a of None \<Rightarrow> [] | Some m \<Rightarrow> m) \<subseteq> set (case b of None \<Rightarrow> [] | Some m \<Rightarrow> m)"
  shows "ks_byte_size k b ks \<le> ks_byte_size k a ks"
  using assms by (cases ks) (auto intro!: filter_sum_le split: option.splits)

lemma bookkeeping_saves:
  assumes "counted hdr s" "project_mutation hdr (Bookkeeping k key) s = Ok t"
  shows "bytes_used t \<le> bytes_used s"
proof -
  have t: "t = recalculate_bytes hdr (s\<lparr>bookkeeping := om_insert (slot k)
      (os_insert key (case map_of (bookkeeping s) (slot k) of None \<Rightarrow> [] | Some q \<Rightarrow> q)) (bookkeeping s)\<rparr>)"
    using assms(2) by (auto simp: project_mutation_def apply_mutation_def unmark_def Let_def split: if_splits)
  have "row_bytes t \<le> row_bytes s"
    unfolding row_bytes_def
  proof (rule sum_list_mono)
    fix j
    show "ks_byte_size j (map_of (bookkeeping t) (slot j)) (keyspaces t j) \<le>
        ks_byte_size j (map_of (bookkeeping s) (slot j)) (keyspaces s j)"
      unfolding t recalculate_rows by simp (rule conjI impI marked_bytes, auto split: option.splits)+
  qed
  then show ?thesis using counted_bytes [OF assms(1)] unfolding t recalculated by (simp add: min_def)
qed

section \<open>Programs that stage\<close>

datatype staging_op =
    SPut keyspace bytes bytes
  | SMark keyspace bytes
  | SDelete keyspace bytes bool
  | SDeleteDuplicate keyspace bytes bytes bool
  | SClear keyspace
  | SGroup "mutation list"
  | SJournal journal_entry

fun stage_op :: "nat \<Rightarrow> nat \<Rightarrow> staging_op \<Rightarrow> installed \<Rightarrow> staging" where
  "stage_op hdr budget (SPut k key v) seg = overlay_put hdr budget k key v seg"
| "stage_op hdr budget (SMark k key) seg = mark_bookkeeping_row hdr k key seg"
| "stage_op hdr budget (SDelete k key b) seg = delete_with_base_backing hdr budget k key b seg"
| "stage_op hdr budget (SDeleteDuplicate k key v b) seg = overlay_delete_duplicate hdr budget k key v b seg"
| "stage_op hdr budget (SClear k) seg = overlay_clear hdr budget k seg"
| "stage_op hdr budget (SGroup ms) seg = stage_mutation_group hdr budget ms seg"
| "stage_op hdr budget (SJournal e) seg = stage_journal_entry hdr budget e seg"

fun stage_ops :: "nat \<Rightarrow> nat \<Rightarrow> staging_op list \<Rightarrow> installed \<Rightarrow> staging" where
  "stage_ops hdr budget [] seg = (Ok (), seg)"
| "stage_ops hdr budget (a # as) seg =
     (case stage_op hdr budget a seg of (Inl e, seg') \<Rightarrow> (Err e, seg') | (Inr _, seg') \<Rightarrow> stage_ops hdr budget as seg')"

datatype stage_prog = Single_op staging_op | Net "staging_op list"

fun run_stage :: "nat \<Rightarrow> nat \<Rightarrow> stage_prog \<Rightarrow> installed \<Rightarrow> installed" where
  "run_stage hdr budget (Single_op a) seg = snd (stage_op hdr budget a seg)"
| "run_stage hdr budget (Net as) seg = snd (with_net_budget budget (stage_ops hdr budget as) seg)"

text \<open>What one staging call does to a segment: it appends, its preview follows, and outside a net
  operation it stays within the budget.\<close>

definition staged_total :: "txn_segment \<Rightarrow> nat" where
  "staged_total s = bytes_used (preview s) + journal_bytes s"

definition extends :: "nat \<Rightarrow> nat \<Rightarrow> (room_error, unit) result \<Rightarrow> txn_segment \<Rightarrow> txn_segment \<Rightarrow> bool" where
  "extends hdr budget r s t \<longleftrightarrow>
     seg_generation t = seg_generation s \<and> seg_nonce t = seg_nonce s \<and> net_budget t = net_budget s \<and>
     (\<exists>ms js. seg_mutations t = seg_mutations s @ ms \<and> seg_journal t = seg_journal s @ js \<and>
        apply_all hdr ms (preview s) = Ok (preview t) \<and>
        (r = Ok () \<or> net_budget s = None \<and> staged_total s \<le> budget \<longrightarrow>
           journal_bytes t = journal_bytes s + entries_bytes hdr js)) \<and>
     (net_budget s = None \<and> staged_total s \<le> budget \<longrightarrow> staged_total t \<le> budget)"

lemma extends_refl: "extends hdr budget r s s"
  by (auto simp: extends_def entries_bytes_def intro: exI [of _ "[]"])

lemma ensured:
  "ensure_budget budget current incoming = Ok () \<Longrightarrow> current + incoming \<le> budget"
  "ensure_mutation_budget budget current before after = Ok () \<Longrightarrow> after \<le> before \<or> current + (after - before) \<le> budget"
  by (auto simp: ensure_mutation_budget_def ensure_budget_def checked_add_def split: if_splits)

lemma stage_mutation_Ok:
  "project_mutation hdr m (preview s) = Ok p \<Longrightarrow>
   stage_mutation hdr m s = (Ok (), s\<lparr>preview := p, seg_mutations := seg_mutations s @ [m]\<rparr>)"
  by (simp add: stage_mutation_def preflighted_single)

lemma stage_all_Ok:
  "apply_all hdr ms (preview s) = Ok p \<Longrightarrow>
   stage_all hdr ms s = (Ok (), s\<lparr>preview := p, seg_mutations := seg_mutations s @ ms\<rparr>)"
proof (induction ms arbitrary: s)
  case (Cons m ms)
  then obtain u where u: "project_mutation hdr m (preview s) = Ok u" "apply_all hdr ms u = Ok p" by (auto split: sum.splits)
  with Cons.IH [of "s\<lparr>preview := u, seg_mutations := seg_mutations s @ [m]\<rparr>"] show ?case
    by (simp add: stage_mutation_Ok [OF u(1)])
qed simp

lemma preflight_Ok:
  assumes "preflight_mutations hdr budget ms s = Ok ()"
  shows "\<exists>p. apply_all hdr ms (preview s) = Ok p \<and>
    (net_budget s = None \<longrightarrow> bytes_used p \<le> bytes_used (preview s) \<or> bytes_used p + journal_bytes s \<le> budget)"
proof -
  from assms obtain p where p: "apply_all hdr ms (preview s) = Ok p" by (auto simp: preflight_mutations_def split: sum.splits)
  have e: "ensure_mutation_budget budget (bytes_used (preview s) + journal_bytes s) (bytes_used (preview s)) (bytes_used p) = Ok ()"
    if "net_budget s = None"
    using assms that unfolding preflight_mutations_def staged_bytes_def checked_add_def
    by (simp add: p split: if_splits)
  have "bytes_used p \<le> bytes_used (preview s) \<or> bytes_used p + journal_bytes s \<le> budget" if "net_budget s = None"
    using ensured(2) [OF e [OF that]] by linarith
  with p show ?thesis by (intro exI conjI impI)
qed

lemma preflighted_extends:
  assumes "preflight_mutations hdr budget ms s = Ok ()"
  shows "\<exists>t. stage_all hdr ms s = (Ok (), t) \<and> extends hdr budget (Ok ()) s t"
proof -
  obtain p where p: "apply_all hdr ms (preview s) = Ok p"
    "net_budget s = None \<longrightarrow> bytes_used p \<le> bytes_used (preview s) \<or> bytes_used p + journal_bytes s \<le> budget"
    using preflight_Ok [OF assms] by (elim exE conjE) (rule that)
  then show ?thesis
    unfolding stage_all_Ok [OF p(1)] by (auto simp: extends_def staged_total_def entries_bytes_def)
qed

lemma staged_extends:
  assumes "seg = OwnSegment s"
  shows "\<exists>t. snd (preflight_and_stage hdr budget m seg) = OwnSegment t \<and>
    extends hdr budget (fst (preflight_and_stage hdr budget m seg)) s t"
proof (cases "preflight_mutations hdr budget [m] s")
  case (Inl e)
  then show ?thesis using extends_refl by (simp add: assms preflight_and_stage_def on_segment_def)
next
  case (Inr u)
  obtain t where t: "stage_all hdr [m] s = (Ok (), t)" "extends hdr budget (Ok ()) s t"
    using preflighted_extends [of hdr budget "[m]" s] Inr by auto
  then have "stage_mutation hdr m s = (Ok (), t)" by (auto split: prod.splits sum.splits)
  with Inr t(2) show ?thesis by (simp add: assms preflight_and_stage_def on_segment_def)
qed

lemma stage_op_extends:
  assumes "counted hdr (preview s)" "budget \<le> usize_max"
  shows "\<exists>t. snd (stage_op hdr budget a (OwnSegment s)) = OwnSegment t \<and>
    extends hdr budget (fst (stage_op hdr budget a (OwnSegment s))) s t"
proof (cases a)
  case (SMark k key)
  show ?thesis
  proof (cases "project_mutation hdr (Bookkeeping k key) (preview s)")
    case (Inl e)
    with SMark show ?thesis
      using extends_refl by (simp add: mark_bookkeeping_row_def on_segment_def stage_mutation_def preflighted_single)
  next
    case (Inr p)
    with bookkeeping_saves [OF assms(1) Inr] SMark show ?thesis
      by (auto simp: mark_bookkeeping_row_def on_segment_def stage_mutation_Ok [OF Inr] extends_def entries_bytes_def staged_total_def)
  qed
next
  case (SGroup ms)
  show ?thesis
  proof (cases "preflight_mutations hdr budget ms s")
    case (Inl e)
    with SGroup show ?thesis
      using extends_refl by (simp add: stage_mutation_group_def on_segment_def split: sum.split)
  next
    case (Inr u)
    with preflighted_extends [of hdr budget ms s] SGroup show ?thesis
      using extends_refl by (auto simp: stage_mutation_group_def on_segment_def split: sum.split)
  qed
next
  case (SJournal e)
  have "extends hdr budget r s (s\<lparr>seg_journal := seg_journal s @ [e]\<rparr>)"
    if "r \<noteq> Ok ()" "net_budget s \<noteq> None \<or> budget < staged_total s" for r
    using that by (auto simp: extends_def)
  moreover have "net_budget s \<noteq> None" if "usize_max < journal_bytes s + entry_bytes hdr e"
      "net_budget s = None \<longrightarrow> staged_total s + entry_bytes hdr e \<le> budget"
    using that assms(2) by (auto simp: staged_total_def)
  ultimately show ?thesis
    using SJournal extends_refl ensured(1) [of budget "staged_total s" "entry_bytes hdr e"]
    by (auto simp: stage_journal_entry_def on_segment_def staged_bytes_def Let_def staged_total_def checked_add_def
        extends_def entries_bytes_def split: sum.splits if_splits)
qed (use staged_extends extends_refl in
  \<open>auto simp: overlay_put_def delete_with_base_backing_def overlay_delete_duplicate_def overlay_clear_def split: sum.split\<close>)


lemma extends_counted: "extends hdr budget r s t \<Longrightarrow> counted hdr (preview s) \<Longrightarrow> counted hdr (preview t)"
  unfolding extends_def using apply_all_facts by blast

lemma extends_trans:
  assumes "extends hdr budget (Ok ()) s u" "extends hdr budget r u t"
  shows "extends hdr budget r s t"
proof -
  obtain ms js where u: "seg_mutations u = seg_mutations s @ ms" "seg_journal u = seg_journal s @ js"
    "apply_all hdr ms (preview s) = Ok (preview u)" "journal_bytes u = journal_bytes s + entries_bytes hdr js"
    using assms(1) unfolding extends_def by blast
  obtain ns ks where t: "seg_mutations t = seg_mutations u @ ns" "seg_journal t = seg_journal u @ ks"
    "apply_all hdr ns (preview u) = Ok (preview t)"
    "r = Ok () \<or> net_budget u = None \<and> staged_total u \<le> budget \<longrightarrow> journal_bytes t = journal_bytes u + entries_bytes hdr ks"
    using assms(2) unfolding extends_def by blast
  have "seg_mutations t = seg_mutations s @ (ms @ ns) \<and> seg_journal t = seg_journal s @ (js @ ks) \<and>
      apply_all hdr (ms @ ns) (preview s) = Ok (preview t) \<and>
      (r = Ok () \<or> net_budget s = None \<and> staged_total s \<le> budget \<longrightarrow>
         journal_bytes t = journal_bytes s + entries_bytes hdr (js @ ks))"
    using u t assms(1) by (auto simp: apply_all_append entries_bytes_def extends_def)
  then show ?thesis using assms unfolding extends_def by auto
qed

lemma stage_ops_extends:
  assumes "budget \<le> usize_max" "counted hdr (preview s)"
  shows "\<exists>t. snd (stage_ops hdr budget as (OwnSegment s)) = OwnSegment t \<and>
    extends hdr budget (fst (stage_ops hdr budget as (OwnSegment s))) s t"
  using assms(2)
proof (induction as arbitrary: s)
  case (Cons a as)
  obtain u where u: "snd (stage_op hdr budget a (OwnSegment s)) = OwnSegment u"
    "extends hdr budget (fst (stage_op hdr budget a (OwnSegment s))) s u"
    using stage_op_extends [OF Cons.prems assms(1)] by blast
  show ?case
  proof (cases "fst (stage_op hdr budget a (OwnSegment s))")
    case (Inl e)
    with u show ?thesis by (cases "stage_op hdr budget a (OwnSegment s)") auto
  next
    case (Inr x)
    then have e: "extends hdr budget (Ok ()) s u" using u(2) by simp
    then have c: "counted hdr (preview u)" using Cons.prems extends_counted by blast
    have "stage_ops hdr budget (a # as) (OwnSegment s) = stage_ops hdr budget as (OwnSegment u)"
      using u(1) Inr by (cases "stage_op hdr budget a (OwnSegment s)") auto
    with Cons.IH [OF c] extends_trans [OF e] show ?thesis by auto
  qed
qed (auto simp: extends_refl)

definition grows :: "nat \<Rightarrow> nat \<Rightarrow> txn_segment \<Rightarrow> txn_segment \<Rightarrow> bool" where
  "grows hdr budget s t \<longleftrightarrow> extends hdr budget (Ok ()) s t \<and> net_budget t = None \<and> staged_total t \<le> budget"

lemma net_grows:
  assumes "budget \<le> usize_max" "counted hdr (preview s)" "net_budget s = None" "staged_total s \<le> budget"
  shows "\<exists>t. snd (with_net_budget budget (stage_ops hdr budget as) (OwnSegment s)) = OwnSegment t \<and> grows hdr budget s t"
proof -
  define cp where "cp = \<lparr>cp_preview = preview s, cp_mutations = length (seg_mutations s),
      cp_journal = length (seg_journal s), cp_journal_bytes = journal_bytes s\<rparr>"
  define s1 where "s1 = s\<lparr>net_budget := Some cp\<rparr>"
  have beg: "net_begin (OwnSegment s) = Ok s1" by (simp add: net_begin_def assms(3) s1_def cp_def)
  obtain r seg where st: "stage_ops hdr budget as (OwnSegment s1) = (r, seg)" by (cases "stage_ops hdr budget as (OwnSegment s1)")
  have "counted hdr (preview s1)" using assms(2) by (simp add: s1_def)
  from stage_ops_extends [OF assms(1) this, of as] obtain t where t: "seg = OwnSegment t" "extends hdr budget r s1 t"
    by (auto simp: st)
  have undone: "net_rollback (seg_nonce s) (OwnSegment t) = OwnSegment s"
    using t(2) assms(3) by (auto simp: net_rollback_def extends_def s1_def cp_def intro!: txn_segment.equality)
  have refl: "grows hdr budget s s" using assms(3,4) by (simp add: grows_def extends_refl)
  have n: "seg_nonce s1 = seg_nonce s" by (simp add: s1_def)
  show ?thesis
  proof (cases r)
    case (Inl e)
    then show ?thesis using refl by (simp add: with_net_budget_def beg st t(1) n undone)
  next
    case (Inr x)
    show ?thesis
    proof (cases "net_finish budget (seg_nonce s) (OwnSegment t)")
      case (Inl e)
      with Inr show ?thesis using refl by (simp add: with_net_budget_def beg st t(1) n undone)
    next
      case fin: (Inr u)
      have cp: "net_budget t = Some cp" "seg_nonce t = seg_nonce s" using t(2) by (simp_all add: extends_def s1_def)
      have b: "bytes_used (preview s) + journal_bytes s \<le> usize_max" using assms(1,4) by (simp add: staged_total_def)
      have e: "u = t\<lparr>net_budget := None\<rparr>"
        "ensure_mutation_budget budget (staged_total s) (staged_total s) (staged_total t) = Ok ()"
        using fin b
        by (auto simp: net_finish_def cp cp_def [THEN arg_cong [where f = cp_preview]] staged_bytes_def checked_add_def staged_total_def
            split: if_splits sum.splits)
          (simp_all add: cp_def split: if_splits sum.splits)
      then have le: "staged_total t \<le> budget" using ensured(2) [OF e(2)] assms(4) by linarith
      have "extends hdr budget (Ok ()) s u"
        using t(2) Inr le assms(3) unfolding extends_def e(1) s1_def staged_total_def by auto
      with le show ?thesis using Inr by (simp add: with_net_budget_def beg st t(1) n fin grows_def e(1) staged_total_def)
    qed
  qed
qed

lemma run_grows:
  assumes "budget \<le> usize_max" "counted hdr (preview s)" "net_budget s = None" "staged_total s \<le> budget"
  shows "\<exists>t. run_stage hdr budget p (OwnSegment s) = OwnSegment t \<and> grows hdr budget s t"
proof (cases p)
  case (Net as)
  then show ?thesis using net_grows [OF assms] by simp
next
  case (Single_op a)
  obtain t where t: "snd (stage_op hdr budget a (OwnSegment s)) = OwnSegment t"
    "extends hdr budget (fst (stage_op hdr budget a (OwnSegment s))) s t"
    using stage_op_extends [OF assms(2,1)] by blast
  then have "grows hdr budget s t" using assms(3,4) unfolding grows_def extends_def by auto
  with t(1) Single_op show ?thesis by simp
qed

section \<open>A segment of a room\<close>

definition seg_ok :: "nat \<Rightarrow> nat \<Rightarrow> overlay_state \<Rightarrow> txn_segment \<Rightarrow> bool" where
  "seg_ok hdr budget st s \<longleftrightarrow> net_budget s = None \<and> apply_all hdr (seg_mutations s) st = Ok (preview s) \<and>
     journal_bytes s = entries_bytes hdr (seg_journal s) \<and> staged_total s \<le> budget \<and> counted hdr (preview s)"

lemma open_segment_ok:
  "counted hdr (published o') \<Longrightarrow> bytes_used (published o') \<le> budget \<Longrightarrow>
   seg_ok hdr budget (published o') (open_segment n o')"
  by (simp add: seg_ok_def open_segment_def staged_total_def entries_bytes_def)

lemma seg_ok_run:
  assumes "seg_ok hdr budget st s" "budget \<le> usize_max"
  shows "\<exists>t. run_stage hdr budget p (OwnSegment s) = OwnSegment t \<and> seg_ok hdr budget st t \<and>
    seg_generation t = seg_generation s"
proof -
  obtain t where t: "run_stage hdr budget p (OwnSegment s) = OwnSegment t" "grows hdr budget s t"
    using run_grows [OF assms(2)] assms(1) unfolding seg_ok_def by blast
  then obtain ms js where e: "seg_mutations t = seg_mutations s @ ms" "seg_journal t = seg_journal s @ js"
    "apply_all hdr ms (preview s) = Ok (preview t)" "journal_bytes t = journal_bytes s + entries_bytes hdr js"
    unfolding grows_def extends_def by blast
  have "seg_ok hdr budget st t"
    using assms(1) e t(2) extends_counted [of hdr budget "Ok ()" s t]
    by (auto simp: seg_ok_def grows_def apply_all_append entries_bytes_def)
  with t show ?thesis by (auto simp: grows_def extends_def)
qed

lemma seg_ok_runs:
  assumes "seg_ok hdr budget st s" "budget \<le> usize_max"
  shows "\<exists>t. fold (run_stage hdr budget) ps (OwnSegment s) = OwnSegment t \<and> seg_ok hdr budget st t \<and>
    seg_generation t = seg_generation s"
  using assms(1)
proof (induction ps arbitrary: s)
  case (Cons p ps)
  obtain u where u: "run_stage hdr budget p (OwnSegment s) = OwnSegment u" "seg_ok hdr budget st u"
    "seg_generation u = seg_generation s"
    using seg_ok_run [OF Cons.prems assms(2)] by blast
  with Cons.IH [OF u(2)] show ?case by auto
qed simp

lemma published_entries:
  "counted hdr s \<Longrightarrow> counted hdr (fold (publish_entry hdr) es s) \<and>
   row_bytes (fold (publish_entry hdr) es s) = row_bytes s \<and>
   keyspaces (fold (publish_entry hdr) es s) = keyspaces s \<and> bookkeeping (fold (publish_entry hdr) es s) = bookkeeping s \<and>
   map entry (journal (fold (publish_entry hdr) es s)) = map entry (journal s) @ es \<and>
   map seq (journal (fold (publish_entry hdr) es s)) =
     map seq (journal s) @ map (\<lambda>i. next_seq s + of_nat i) [0 ..< length es]"
proof (induction es arbitrary: s)
  case (Cons e es)
  have c: "counted hdr (publish_entry hdr e s)" by (simp add: publish_entry_def)
  have "map (\<lambda>i. next_seq s + 1 + of_nat i) [0 ..< length es] = map (\<lambda>i. next_seq s + of_nat i) [Suc 0 ..< Suc (length es)]"
    by (subst map_Suc_upt [symmetric]) (simp add: comp_def add.assoc)
  with Cons.IH [OF c] show ?case
    by (simp add: publish_entry_def row_bytes_def upt_conv_Cons del: upt_Suc)
qed simp


section \<open>A write of a room\<close>

lemma installed_txn:
  assumes "install_segment None n NoSegment o' = Returns (Ok (s, p))"
  shows "life o' = Live" "\<not> segment_active o'" "p = o'\<lparr>leases := leases o' + 1, segment_active := True\<rparr>"
    "s = open_segment n p"
  using assms
  by (auto simp: install_segment_def acquire_segment_lease_def take_permit_def lease_def checked_add_def
      split: if_splits sum.splits)

lemma publish_bytes:
  assumes "counted hdr s" "bytes_used s + entries_bytes hdr es \<le> budget"
  shows "bytes_used (fold (publish_entry hdr) es s) \<le> budget"
proof -
  note f = published_entries [OF assms(1), of es]
  have "bytes_used (fold (publish_entry hdr) es s) =
      min (row_bytes s + entries_bytes hdr (map entry (journal s)) + entries_bytes hdr es) usize_max"
    using counted_bytes [of hdr "fold (publish_entry hdr) es s"] f by (simp add: entries_bytes_def)
  also have "\<dots> \<le> bytes_used s + entries_bytes hdr es" using counted_bytes [OF assms(1)] by simp
  finally show ?thesis using assms(2) by simp
qed

text \<open>C4: A write of a room stays in its budget and publishes what it previewed: whatever a writer stages,
  single calls and net operations, refused or not, the rows and journal of its segment never pass the
  budget, and its commit publishes exactly the previewed rows with the staged entries under the next
  journal identities, still within the budget, with its lease given back.\<close>

theorem room_write_stays_in_budget:
  assumes "install_segment None n NoSegment o' = Returns (Ok (s0, p))"
    "counted hdr (published o')" "bytes_used (published o') \<le> budget_bytes o'" "budget_bytes o' \<le> usize_max"
  shows "\<exists>s t. fold (run_stage hdr (budget_bytes o')) ps (OwnSegment s0) = OwnSegment s \<and>
    bytes_used (preview s) + entries_bytes hdr (seg_journal s) \<le> budget_bytes o' \<and>
    commit_segment hdr (OwnSegment s) p = (Ok (), o'\<lparr>segment_active := True, published := t\<rparr>) \<and>
    keyspaces t = keyspaces (preview s) \<and> bookkeeping t = bookkeeping (preview s) \<and>
    map entry (journal t) = map entry (journal (published o')) @ seg_journal s \<and>
    map seq (journal t) = map seq (journal (published o')) @
      map (\<lambda>i. next_seq (published o') + of_nat i) [0 ..< length (seg_journal s)] \<and>
    bytes_used t \<le> budget_bytes o'"
proof -
  note i = installed_txn [OF assms(1)]
  have pub: "published p = published o'" by (simp add: i(3))
  then have "seg_ok hdr (budget_bytes o') (published o') s0"
    using open_segment_ok [of hdr p "budget_bytes o'" n] assms(2,3) by (simp add: i(4))
  then obtain s where s: "fold (run_stage hdr (budget_bytes o')) ps (OwnSegment s0) = OwnSegment s"
    "seg_ok hdr (budget_bytes o') (published o') s" "seg_generation s = seg_generation s0"
    using seg_ok_runs assms(4) by blast
  let ?t = "fold (publish_entry hdr) (seg_journal s) (preview s)"
  have ok: "net_budget s = None" "apply_all hdr (seg_mutations s) (published o') = Ok (preview s)"
    "bytes_used (preview s) + entries_bytes hdr (seg_journal s) \<le> budget_bytes o'" "counted hdr (preview s)"
    using s(2) by (simp_all add: seg_ok_def staged_total_def)
  have g: "seg_generation s = generation o'" using s(3) by (simp add: i(4) open_segment_def) (simp add: i(3))
  have c: "commit_segment hdr (OwnSegment s) p = (Ok (), o'\<lparr>segment_active := True, published := ?t\<rparr>)"
    using ok i(1) g by (simp add: commit_segment_def apply_segment_def apply_preflighted_def drop_lease_def i(3))
  note f = published_entries [OF ok(4), of "seg_journal s"]
  note j = apply_all_facts [OF ok(2)]
  have "bytes_used ?t \<le> budget_bytes o'" by (rule publish_bytes [OF ok(4,3)])
  with s(1) ok(3) c f j show ?thesis by (intro exI [of _ s] exI [of _ ?t]) simp
qed

lemma room_write_stays_in_budget_witness:
  "\<exists>s. fold (run_stage 0 40) [Single_op (SPut KsEntities [1] [2]), Net [SPut KsEntities [3] (replicate 50 0)]]
      (OwnSegment (open_segment 1 (new_room 1 40))) = OwnSegment s \<and> bytes_used (preview s) \<le> 40"
proof -
  have "install_segment None 1 NoSegment (new_room 1 40) =
      Returns (Ok (open_segment 1 (new_room 1 40), (new_room 1 40)\<lparr>leases := 1, segment_active := True\<rparr>))"
    by (simp add: install_segment_def acquire_segment_lease_def take_permit_def lease_def checked_add_def new_room_def
        usize_max_def open_segment_def)
  from room_write_stays_in_budget [OF this, of 0 "[Single_op (SPut KsEntities [1] [2]), Net [SPut KsEntities [3] (replicate 50 0)]]"]
  show ?thesis
    using counted_empty [of 0] by (auto simp: new_room_def usize_max_def empty_state_def)
qed

section \<open>Short ids\<close>

text \<open>The last ordinal a view's room minted an alias at.\<close>

definition ordinal_of :: "overlay_state \<Rightarrow> 64 word" where
  "ordinal_of s = (case lookup_single (keyspaces s KsVaultMeta) short_id_ordinal_key of
     Found value \<Rightarrow> of_nat (from_be_bytes value) | _ \<Rightarrow> 0)"

definition alias_row :: "overlay_state \<Rightarrow> entity_id \<Rightarrow> bytes option" where
  "alias_row s i = (case lookup_single (keyspaces s KsShortIdsReverse) i of Found v \<Rightarrow> Some v | _ \<Rightarrow> None)"

lemma lookup_after_put:
  assumes "state_wf s" "\<not> is_dupsort k" "project_mutation hdr (Put k key v) s = Ok t"
  shows "lookup_single (keyspaces t j) x = (if j = k \<and> x = key then Found v else lookup_single (keyspaces s j) x)"
proof -
  obtain c rows where "keyspaces s k = Single c rows" "apply_mutation (Put k key v) s =
        Ok (s\<lparr>keyspaces := (keyspaces s)(k := Single c (om_insert key (Present v) rows))\<rparr>)"
    using apply_single(2) [OF assms(1,2)] by blast
  with assms(3) show ?thesis by (auto simp: project_mutation_def)
qed

lemma group_Ok:
  assumes "stage_mutation_group hdr budget ms (OwnSegment s) = (Ok (), seg)"
  shows "\<exists>p. apply_all hdr ms (preview s) = Ok p \<and>
    seg = OwnSegment (s\<lparr>preview := p, seg_mutations := seg_mutations s @ ms\<rparr>)"
proof -
  have pre: "preflight_mutations hdr budget ms s = Ok ()"
    using assms by (auto simp: stage_mutation_group_def on_segment_def split: sum.splits prod.splits)
  then obtain p where p: "apply_all hdr ms (preview s) = Ok p" using preflight_Ok by blast
  with assms pre show ?thesis
    by (auto simp: stage_mutation_group_def on_segment_def stage_all_Ok split: sum.splits)
qed

lemma apply_all_Cons:
  "apply_all hdr (m # ms) s = Ok t \<Longrightarrow> \<exists>u. project_mutation hdr m s = Ok u \<and> apply_all hdr ms u = Ok t"
  by (auto split: sum.splits)


lemma next_word: "n \<noteq> - 1 \<Longrightarrow> unat (n + 1) = unat n + 1" for n :: "'a :: len word"
  by (metis Suc_eq_plus1 add.commute eq_neg_iff_add_eq_0 unatSuc)

lemma ordinal_bytes: "length (to_be_bytes 8 (unat (n :: 64 word))) = 8 \<and> of_nat (from_be_bytes (to_be_bytes 8 (unat n))) = n"
proof -
  have "unat n < 256 ^ 8" using unsigned_less [of n, where 'a = nat] by simp
  then show ?thesis using from_to_be_bytes [of "unat n" 8] by (simp add: to_be_bytes_def)
qed

lemma short_id_rows_staged:
  assumes "apply_all hdr (short_id_rows i sid h) s = Ok t" "state_wf s"
  shows "state_wf t \<and> lookup_single (keyspaces t j) x =
    (if j = KsShortIdsReverse \<and> x = i then Found (forward_key sid h)
     else if j = KsShortIds \<and> x = forward_key sid h then Found i else lookup_single (keyspaces s j) x)"
proof -
  obtain u where u: "project_mutation hdr (Put KsShortIds (forward_key sid h) i) s = Ok u"
    "project_mutation hdr (Put KsShortIdsReverse i (forward_key sid h)) u = Ok t"
    using assms(1) by (auto simp: short_id_rows_def split: sum.splits)
  have w: "state_wf u" "state_wf t" using project_wf assms(2) u by blast+
  show ?thesis
    using lookup_after_put [OF w(1) _ u(2), of j x] lookup_after_put [OF assms(2) _ u(1), of j x] w
    by (auto simp: is_dupsort_def)
qed

lemma project_frame: "project_mutation hdr m s = Ok t \<Longrightarrow> j \<noteq> mutation_keyspace m \<Longrightarrow> keyspaces t j = keyspaces s j"
  by (auto simp: project_mutation_def apply_mutation_def Let_def split: sum.splits mutation.splits if_splits)

lemma ordinal_row: "ordinal_of s = (case row_at s KsVaultMeta short_id_ordinal_key of
    Some (Present value) \<Rightarrow> of_nat (from_be_bytes value) | _ \<Rightarrow> 0)"
  by (cases "keyspaces s KsVaultMeta") (auto simp: ordinal_of_def row_at_def split: option.split overlay_value.split)

lemma ordinal_retired:
  assumes "state_wf s"
  shows "ordinal_of (retire_closure hdr plan kept s) = ordinal_of s"
proof -
  obtain u es where u: "takes (retired_of plan kept s) s u" "retire_closure hdr plan kept s = recalculate_bytes hdr (u\<lparr>journal := es\<rparr>)"
    using retire_closure_takes [OF assms, of plan kept hdr] by blast
  have "(KsVaultMeta, key) \<notin> set (retired_rows op)" for key op
    by (cases op rule: retired_rows.cases) (auto simp: Let_def)
  moreover have "(KsVaultMeta, key) \<notin> alias_rows s i" for key i
    by (auto simp: alias_rows_def split: option.splits overlay_value.splits)
  ultimately have "(KsVaultMeta, key) \<notin> retired_of plan kept s" for key by (auto simp: retired_of_def)
  then have "row_at u KsVaultMeta key = row_at s KsVaultMeta key" for key using u(1) by (simp add: takes_def)
  moreover have "row_at (retire_closure hdr plan kept s) KsVaultMeta key = row_at u KsVaultMeta key" for key
    by (simp add: u(2) row_at_def)
  ultimately show ?thesis by (simp add: ordinal_row)
qed

lemma alloc_cases:
  assumes "alloc_session_short_id hdr xxh32 i data (OwnSegment s) o' = (Ok (sid, h), seg)"
  defines "hash \<equiv> session_content_hash xxh32 data"
  obtains (again) v where "lookup_single (keyspaces (preview s) KsShortIdsReverse) i = Found v"
      "parse_short_id_value v = Ok (sid, last v)" "h = hash"
      "stage_mutation_group hdr (budget_bytes o') ((if last v \<noteq> hash then [Delete KsShortIds (forward_key sid (last v)) False] else []) @
         short_id_rows i sid hash) (OwnSegment s) = (Ok (), seg)"
    | (fresh) "alias_row (preview s) i = None" "ordinal_of (preview s) \<noteq> - 1" "sid = session_alias (ordinal_of (preview s) + 1)"
      "h = hash"
      "stage_mutation_group hdr (budget_bytes o') (short_id_rows i sid hash @
         [Put KsVaultMeta short_id_ordinal_key (to_be_bytes 8 (unat (ordinal_of (preview s) + 1)))]) (OwnSegment s) = (Ok (), seg)"
proof -
  obtain view q where "take_snapshot (OwnSegment s) o' = Ok (view, q)"
    using assms(1) by (auto simp: alloc_session_short_id_def Let_def split: sum.splits)
  then have view: "take_snapshot (OwnSegment s) o' = Ok (view, q)" "view_state view = preview s"
    by (auto simp: take_snapshot_def split: sum.splits)
  show ?thesis
  proof (cases "lookup_single (keyspaces (preview s) KsShortIdsReverse) i")
    case (Found v)
    then have "parse_short_id_value v = Ok (sid, last v) \<and> h = hash \<and>
      stage_mutation_group hdr (budget_bytes o') ((if last v \<noteq> hash then [Delete KsShortIds (forward_key sid (last v)) False] else []) @
         short_id_rows i sid hash) (OwnSegment s) = (Ok (), seg)"
      using assms(1) unfolding alloc_session_short_id_def Let_def view(1) hash_def
      by (simp add: view(2) split: sum.splits prod.splits) (auto simp: parse_short_id_value_def split: if_splits)
    with Found again show ?thesis by blast
  next
    case other: Passthrough
    show ?thesis
    proof (rule fresh)
      show "alias_row (preview s) i = None" by (simp add: alias_row_def other)
    qed (use assms(1) other in \<open>auto simp: alloc_session_short_id_def Let_def view ordinal_of_def hash_def
        split: sum.splits prod.splits if_splits lookup.splits\<close>)
  next
    case other: Masked
    show ?thesis
    proof (rule fresh)
      show "alias_row (preview s) i = None" by (simp add: alias_row_def other)
    qed (use assms(1) other in \<open>auto simp: alloc_session_short_id_def Let_def view ordinal_of_def hash_def
        split: sum.splits prod.splits if_splits lookup.splits\<close>)
  qed
qed

text \<open>C28: A room's short ids are fresh and found again: an allocation answers the id the record already has
  or mints one at the next ordinal of the room, which only grows and which retiring a saved turn
  leaves alone, so no id is minted twice; either way both its rows are staged, so the id leads to
  the record and the record to the id.\<close>

theorem short_ids_are_fresh:
  assumes "alloc_session_short_id hdr xxh32 i data (OwnSegment s) o' = (Ok (sid, h), seg)" "state_wf (preview s)"
  shows "\<exists>t. seg = OwnSegment t \<and> h = session_content_hash xxh32 data \<and>
    alias_row (preview t) i = Some (forward_key sid h) \<and>
    lookup_single (keyspaces (preview t) KsShortIds) (forward_key sid h) = Found i \<and>
    (case alias_row (preview s) i of
       Some v \<Rightarrow> parse_short_id_value v = Ok (sid, last v) \<and> ordinal_of (preview t) = ordinal_of (preview s)
     | None \<Rightarrow> sid = session_alias (ordinal_of (preview t)) \<and>
         unat (ordinal_of (preview t)) = unat (ordinal_of (preview s)) + 1) \<and>
    ordinal_of (retire_closure hdr plan kept (preview t)) = ordinal_of (preview t)"
  using assms(1)
proof (cases rule: alloc_cases)
  case (again v)
  then obtain p where p: "apply_all hdr ((if last v \<noteq> h then [Delete KsShortIds (forward_key sid (last v)) False] else []) @
         short_id_rows i sid h) (preview s) = Ok p" "seg = OwnSegment (s\<lparr>preview := p, seg_mutations := seg_mutations s @
       ((if last v \<noteq> h then [Delete KsShortIds (forward_key sid (last v)) False] else []) @ short_id_rows i sid h)\<rparr>)"
    using group_Ok by blast
  obtain u where u: "apply_all hdr (if last v \<noteq> h then [Delete KsShortIds (forward_key sid (last v)) False] else []) (preview s) = Ok u"
    "apply_all hdr (short_id_rows i sid h) u = Ok p"
    using p(1) unfolding apply_all_append by (auto split: sum.splits)
  have wu: "state_wf u" using apply_all_facts [OF u(1)] assms(2) by blast
  have "keyspaces u KsVaultMeta = keyspaces (preview s) KsVaultMeta"
    using u(1) project_frame by (fastforce split: if_splits sum.splits)
  moreover note st = short_id_rows_staged [OF u(2) wu]
  ultimately have "ordinal_of p = ordinal_of (preview s)" by (simp add: ordinal_of_def)
  then show ?thesis
    using again(1-3) st ordinal_retired [of p] by (simp add: p(2) alias_row_def)
next
  case fresh
  let ?n = "ordinal_of (preview s) + 1"
  obtain p where p: "apply_all hdr (short_id_rows i sid h @ [Put KsVaultMeta short_id_ordinal_key (to_be_bytes 8 (unat ?n))]) (preview s) = Ok p"
    "seg = OwnSegment (s\<lparr>preview := p, seg_mutations := seg_mutations s @
       (short_id_rows i sid h @ [Put KsVaultMeta short_id_ordinal_key (to_be_bytes 8 (unat ?n))])\<rparr>)"
    using group_Ok [of hdr "budget_bytes o'" _ s seg] fresh(4,5) by blast
  obtain u where u: "apply_all hdr (short_id_rows i sid h) (preview s) = Ok u"
    "project_mutation hdr (Put KsVaultMeta short_id_ordinal_key (to_be_bytes 8 (unat ?n))) u = Ok p"
    using p(1) unfolding apply_all_append by (auto split: sum.splits)
  note st = short_id_rows_staged [OF u(1) assms(2)]
  have wu: "state_wf u" using st by blast
  note put = lookup_after_put [OF wu _ u(2)]
  have wp: "state_wf p" using project_wf [OF wu u(2)] .
  have "ordinal_of p = ?n" using put by (simp add: ordinal_of_def ordinal_bytes is_dupsort_def)
  moreover have "unat ?n = unat (ordinal_of (preview s)) + 1"
    using fresh(2) by (rule next_word)
  ultimately show ?thesis
    using fresh(1,3,4) st put ordinal_retired [OF wp] by (simp add: p(2) alias_row_def is_dupsort_def)
qed

lemma puts_apply:
  "state_wf s \<Longrightarrow> \<forall>m \<in> set ms. \<exists>k key v. m = Put k key v \<and> \<not> is_dupsort k \<Longrightarrow> \<exists>p. apply_all hdr ms s = Ok p"
proof (induction ms arbitrary: s)
  case (Cons m ms)
  then obtain k key v where m: "m = Put k key v" "\<not> is_dupsort k" by auto
  obtain u where u: "project_mutation hdr m s = Ok u"
    using apply_single(2) [OF Cons.prems(1) m(2), of key v] by (auto simp: project_mutation_def m(1))
  then have "state_wf u" using project_wf Cons.prems(1) by blast
  with Cons u show ?case by auto
qed simp

lemma short_ids_are_fresh_witness:
  "\<exists>t. alloc_session_short_id 0 (\<lambda>_. 0) [1] [] (OwnSegment (open_segment 1 (new_room 1 usize_max)))
      ((new_room 1 usize_max)\<lparr>leases := 1, segment_active := True\<rparr>) = (Ok (session_alias 1, 0), OwnSegment t) \<and>
    alias_row (preview t) [1] = Some (forward_key (session_alias 1) 0)"
proof -
  let ?o = "(new_room 1 usize_max)\<lparr>leases := 1, segment_active := True\<rparr>"
  let ?s = "open_segment 1 (new_room 1 usize_max)"
  let ?ms = "short_id_rows [1] (session_alias 1) 0 @ [Put KsVaultMeta short_id_ordinal_key (to_be_bytes 8 1)]"
  have prev: "preview ?s = empty_state" "journal_bytes ?s = 0" "net_budget ?s = None"
    by (simp_all add: open_segment_def new_room_def)
  obtain p where p: "apply_all 0 ?ms empty_state = Ok p"
    using puts_apply [OF empty_state_wf, of ?ms 0] by (auto simp: short_id_rows_def is_dupsort_def)
  have "counted 0 p" using apply_all_facts [OF p] counted_empty by blast
  then have "bytes_used p \<le> usize_max" using counted_bytes by fastforce
  then have pre: "preflight_mutations 0 usize_max ?ms ?s = Ok ()"
    using p by (simp add: preflight_mutations_def staged_bytes_def checked_add_def prev ensure_mutation_budget_def
        ensure_budget_def empty_state_def)
  have one: "session_alias 1 = [115, 49]" by (simp add: session_alias_def decimal.simps ascii_def)
  have adm: "admit_group usize_max (OwnSegment ?s) ?ms = Ok ()"
    by (simp add: short_id_rows_def forward_key_def one admit_payload_def reject_unbudgetable_def checked_add_def
        usize_max_def short_id_ordinal_key_def ascii_def)
  have "stage_mutation_group 0 usize_max ?ms (OwnSegment ?s) =
      (Ok (), OwnSegment (?s\<lparr>preview := p, seg_mutations := seg_mutations ?s @ ?ms\<rparr>))"
    using stage_all_Ok [of 0 ?ms ?s p] p pre adm by (simp add: stage_mutation_group_def on_segment_def prev)
  moreover have "take_snapshot (OwnSegment ?s) ?o =
      Ok (\<lparr>view_state = empty_state, view_generation = 1, view_segment = Some 1\<rparr>, ?o\<lparr>leases := 2\<rparr>)"
    by (simp add: take_snapshot_def acquire_existing_lease_def lease_def checked_add_def usize_max_def open_segment_def new_room_def)
  ultimately have r: "alloc_session_short_id 0 (\<lambda>_. 0) [1] [] (OwnSegment ?s) ?o =
      (Ok (session_alias 1, 0), OwnSegment (?s\<lparr>preview := p, seg_mutations := seg_mutations ?s @ ?ms\<rparr>))"
    by (simp add: alloc_session_short_id_def session_content_hash_def empty_state_def ks_empty_def is_dupsort_def new_room_def)
  have "state_wf (preview ?s)" using empty_state_wf by (simp add: prev)
  from short_ids_are_fresh [OF r this] r show ?thesis by blast
qed

end
