(* ===== verification/SavedArtifacts.thy ===== *)
theory SavedArtifacts
  imports RoomLife
begin

text \<open>
  Retiring a natively saved subset of an off-record room
  (\<open>crates/oneiron-store/src/session_overlay/overlay/retire_selected.rs\<close>): after the durable write of
  the saved records and document slots has committed, the rows of the room they own leave it, each
  only where the room still holds what the capture held.

  The saved records and the slots are ordered sets, the lists of their members.  What a drop may
  take is computed from the capture alone, so each group of drops is a list of rows; the text of a
  record goes as a whole, or not at all.
\<close>

section \<open>Rows a capture owns\<close>

record entity_header =
  header_type :: byte
  header_start :: "64 word"
  header_end :: "64 word"
  header_learned :: "64 word"
  header_version :: "64 word"

definition parse_entity_header :: "bytes \<Rightarrow> entity_header option" where
  "parse_entity_header raw =
     (if length raw < 33 then None
      else Some \<lparr>header_type = raw ! 0,
        header_start = of_nat (from_be_bytes (take 8 (drop 1 raw))),
        header_end = of_nat (from_be_bytes (take 8 (drop 9 raw))),
        header_learned = of_nat (from_be_bytes (take 8 (drop 17 raw))),
        header_version = of_nat (from_be_bytes (take 8 (drop 25 raw)))\<rparr>)"

definition snapshot_present :: "overlay_state \<Rightarrow> keyspace \<Rightarrow> bytes \<Rightarrow> bytes option" where
  "snapshot_present s k key =
     (case keyspaces s k of
        Single _ rows \<Rightarrow> (case map_of rows key of Some (Present v) \<Rightarrow> Some v | _ \<Rightarrow> None)
      | DupSort _ _ \<Rightarrow> None)"

definition put_footprint :: "entity_id \<Rightarrow> byte \<Rightarrow> 64 word \<Rightarrow> 64 word \<Rightarrow> 64 word \<Rightarrow> (keyspace \<times> bytes) list" where
  "put_footprint i ty s e learned =
     [(KsEntities, i), (KsTypeIndex, encode_type_key ty i), (KsTemporalOccurredStart, encode_temporal_key s i)] @
     (if s \<noteq> e then [(KsTemporalOccurredEnd, encode_temporal_key e i)] else []) @
     [(KsTemporalLearned, encode_temporal_key learned i)] @
     (if unat e - unat s > unat long_interval_secs then [(KsTemporalLongIntervals, encode_temporal_key e i)] else [])"

definition edge_footprint :: "entity_id \<Rightarrow> edge_kind \<Rightarrow> entity_id \<Rightarrow> (keyspace \<times> bytes) list" where
  "edge_footprint src kind tgt =
     [(KsEdgesOut, encode_edge_key src kind tgt), (KsEdgesIn, encode_edge_key tgt kind src)]"

fun op_footprint :: "batch_op \<Rightarrow> (keyspace \<times> bytes) list" where
  "op_footprint (OpPut p) =
     put_footprint (put_id p) (put_type p) (range_start (put_occurred p)) (range_end (put_occurred p)) (put_learned_at p)"
| "op_footprint (OpEdge src kind tgt _ _) = edge_footprint src kind tgt"
| "op_footprint (OpPublicEdge src kind tgt _ _ _) = edge_footprint src kind tgt"
| "op_footprint (OpEdgeAt src kind tgt _ _ _ _) = edge_footprint src kind tgt"
| "op_footprint _ = []"

definition saved_entry :: "entity_id list \<Rightarrow> published_entry \<Rightarrow> bool" where
  "saved_entry saved e = (case replayed_subject (entry_op (entry e)) of None \<Rightarrow> False | Some i \<Rightarrow> i \<in> set saved)"

definition journal_rows :: "entity_id list \<Rightarrow> overlay_state \<Rightarrow> (keyspace \<times> bytes) list" where
  "journal_rows saved snap =
     concat (map (\<lambda>e. op_footprint (entry_op (entry e))) (filter (saved_entry saved) (journal snap)))"

definition header_rows :: "overlay_state \<Rightarrow> entity_id \<Rightarrow> (keyspace \<times> bytes) list" where
  "header_rows snap i =
     (case snapshot_present snap KsEntities i of
        None \<Rightarrow> []
      | Some raw \<Rightarrow>
          (case parse_entity_header raw of
             None \<Rightarrow> []
           | Some h \<Rightarrow> put_footprint i (header_type h) (header_start h) (header_end h) (header_learned h)))"

definition short_id_pair :: "overlay_state \<Rightarrow> entity_id \<Rightarrow> (keyspace \<times> bytes) list" where
  "short_id_pair snap i =
     (case snapshot_present snap KsShortIdsReverse i of
        None \<Rightarrow> [] | Some key \<Rightarrow> [(KsShortIds, key), (KsShortIdsReverse, i)])"

definition id_prefixed_row :: "string \<Rightarrow> entity_id \<Rightarrow> keyspace \<times> bytes" where
  "id_prefixed_row prefix i = (KsVaultMeta, ascii prefix @ i)"

definition present_keys :: "overlay_state \<Rightarrow> keyspace \<Rightarrow> bytes list" where
  "present_keys snap k =
     (case keyspaces snap k of
        Single _ rows \<Rightarrow> map fst (filter (\<lambda>(key, v). v \<noteq> Tombstone) rows)
      | DupSort _ _ \<Rightarrow> [])"

definition names_saved :: "entity_id list \<Rightarrow> bytes \<Rightarrow> bool" where
  "names_saved saved segment = (case from_bytes segment of Inl _ \<Rightarrow> False | Inr i \<Rightarrow> i \<in> set saved)"

definition strip_prefix :: "string \<Rightarrow> bytes \<Rightarrow> bytes option" where
  "strip_prefix prefix key =
     (if starts_with key (ascii prefix) then Some (drop (length (ascii prefix)) key) else None)"

definition staged_edges :: "entity_id list \<Rightarrow> overlay_state \<Rightarrow> (keyspace \<times> bytes) list" where
  "staged_edges saved snap =
     concat (map (\<lambda>(k, at). map (Pair k)
         (filter (\<lambda>key. length key = 33 \<and> names_saved saved (take 16 (drop at key))) (present_keys snap k)))
       [(KsEdgesOut, 0), (KsEdgesIn, 17)])"

definition prefixed_rows :: "string \<Rightarrow> nat \<Rightarrow> entity_id list \<Rightarrow> overlay_state \<Rightarrow> (keyspace \<times> bytes) list" where
  "prefixed_rows prefix id_at saved snap =
     map (Pair KsVaultMeta) (filter (\<lambda>key. case strip_prefix prefix key of
         None \<Rightarrow> False
       | Some tail \<Rightarrow> length tail = 32 \<and> names_saved saved (take 16 (drop id_at tail))) (present_keys snap KsVaultMeta))"

definition parse_hex_id :: "bytes \<Rightarrow> entity_id option" where
  "parse_hex_id hex = (if utf8_valid hex then scope_id_from_text (map (\<lambda>b. char_of (unat b)) hex) else None)"

definition hex_names :: "entity_id list \<Rightarrow> bytes \<Rightarrow> bool" where
  "hex_names ids hex = (case parse_hex_id hex of None \<Rightarrow> False | Some i \<Rightarrow> i \<in> set ids)"

definition pin_rows :: "string \<Rightarrow> bool \<Rightarrow> entity_id list \<Rightarrow> overlay_state \<Rightarrow> (keyspace \<times> bytes) list" where
  "pin_rows prefix citing_first saved snap =
     map (Pair KsVaultMeta) (filter (\<lambda>key. case strip_prefix prefix key of
         None \<Rightarrow> False
       | Some tail \<Rightarrow> length tail = 32 + 1 + 32 + 1 + 64 \<and> tail ! 32 = 58 \<and> tail ! 65 = 58 \<and>
           hex_names saved (if citing_first then take 32 tail else take 32 (drop 33 tail))) (present_keys snap KsVaultMeta))"

definition slot_rows :: "entity_id list \<Rightarrow> overlay_state \<Rightarrow> (keyspace \<times> bytes) list" where
  "slot_rows slots snap =
     concat (map (\<lambda>slot. map (\<lambda>prefix. (KsSyncState, ascii prefix @ ascii slot))
         [''d:e:'', ''sv:e:'', ''ssv:e:'', ''m:u_seq:e:'']) (map to_hex slots)) @
     map (Pair KsSyncState) (filter (\<lambda>key. case strip_prefix ''u:e:'' key of
         None \<Rightarrow> False
       | Some tail \<Rightarrow> (length tail = 32 + 1 + 8 \<or> length tail = 32 + 1 + 20) \<and> tail ! 32 = 58 \<and> hex_names slots (take 32 tail))
       (present_keys snap KsSyncState))"

section \<open>Dropping them\<close>

definition drop_snapshot_matched :: "overlay_state \<Rightarrow> keyspace \<Rightarrow> bytes \<Rightarrow> overlay_state \<Rightarrow> overlay_state" where
  "drop_snapshot_matched snap k key s =
     (case snapshot_present snap k key of
        None \<Rightarrow> s
      | Some want \<Rightarrow>
          (case snapshot_present s k key of
             None \<Rightarrow> s
           | Some have' \<Rightarrow> if want = have' then drop_overlay_row k key s else s))"

definition drop_all_matched :: "overlay_state \<Rightarrow> (keyspace \<times> bytes) list \<Rightarrow> overlay_state \<Rightarrow> overlay_state" where
  "drop_all_matched snap rows s = fold (\<lambda>(k, key). drop_snapshot_matched snap k key) rows s"

definition drop_text_posting :: "bytes \<Rightarrow> bytes \<Rightarrow> bytes \<Rightarrow> overlay_state \<Rightarrow> overlay_state" where
  "drop_text_posting word i want s =
     (case keyspaces s KsTextPostings of
        Single _ _ \<Rightarrow> s
      | DupSort c rows \<Rightarrow>
          (case map_of rows word of
             None \<Rightarrow> s
           | Some d \<Rightarrow>
               if map_of (present d) i \<noteq> Some want then s
               else let d' = d\<lparr>present := om_remove i (present d)\<rparr> in
                 s\<lparr>keyspaces := (keyspaces s)(KsTextPostings := DupSort c
                   (if present d' = [] \<and> deleted d' = [] \<and> \<not> delete_base d'
                    then om_remove word rows else om_insert word d' rows))\<rparr>))"

definition index_source_key :: "entity_id \<Rightarrow> bytes" where
  "index_source_key i = ascii ''index_source:text:v1:'' @ i"

definition same_present :: "overlay_state \<Rightarrow> overlay_state \<Rightarrow> keyspace \<Rightarrow> bytes \<Rightarrow> bool" where
  "same_present snap s k key =
     (case snapshot_present snap k key of None \<Rightarrow> False | Some want \<Rightarrow> snapshot_present s k key = Some want)"

definition drop_text_footprint :: "overlay_state \<Rightarrow> entity_id \<Rightarrow> overlay_state \<Rightarrow> overlay_state" where
  "drop_text_footprint snap i s =
     (if \<not> same_present snap s KsTextForward i \<or> \<not> same_present snap s KsVaultMeta (index_source_key i) then s
      else case keyspaces snap KsTextPostings of
             Single _ _ \<Rightarrow> s
           | DupSort _ rows \<Rightarrow>
               drop_all_matched snap [(KsTextForward, i), (KsTextDocFieldLengths, i), (KsTextMeta, i),
                   (KsVaultMeta, index_source_key i)]
                 (fold (\<lambda>(word, captured) s. case map_of (present captured) i of
                    None \<Rightarrow> s | Some want \<Rightarrow> drop_text_posting word i want s) rows s))"

definition retire_subject :: "overlay_state \<Rightarrow> entity_id \<Rightarrow> overlay_state \<Rightarrow> overlay_state" where
  "retire_subject snap i s =
     drop_all_matched snap (short_id_pair snap i @
         [id_prefixed_row ''provenance:row_birth:v1:'' i, id_prefixed_row ''scope:record:v2:'' i,
          id_prefixed_row ''note_head:v1:'' i])
       (drop_text_footprint snap i (drop_all_matched snap ((KsEntities, i) # header_rows snap i) s))"

definition shared_rows :: "entity_id list \<Rightarrow> entity_id list \<Rightarrow> overlay_state \<Rightarrow> (keyspace \<times> bytes) list" where
  "shared_rows saved slots snap =
     staged_edges saved snap @ prefixed_rows ''provenance:birth_by_trigger:v1:'' 16 saved snap @
     prefixed_rows ''note_head_doc:v1:'' 0 saved snap @ pin_rows ''note.pin/source/'' False saved snap @
     pin_rows ''note.pin/claim/'' False saved snap @ pin_rows ''note.pin/citing/'' True saved snap @
     slot_rows slots snap"

definition retire_saved ::
    "nat \<Rightarrow> overlay_state \<Rightarrow> entity_id list \<Rightarrow> entity_id list \<Rightarrow> overlay_state \<Rightarrow> overlay_state" where
  "retire_saved hdr snap saved slots s =
     (let s1 = drop_all_matched snap (journal_rows saved snap) s;
          s2 = fold (retire_subject snap) saved s1;
          s3 = drop_all_matched snap (shared_rows saved slots snap) s2;
          retired = map seq (filter (saved_entry saved) (journal snap))
      in recalculate_bytes hdr (s3\<lparr>journal := filter (\<lambda>e. seq e \<notin> set retired) (journal s3)\<rparr>))"

text \<open>The capture is a snapshot of this very overlay, or the call is refused.\<close>

definition retire_saved_artifacts ::
    "nat \<Rightarrow> bool \<Rightarrow> overlay_state \<Rightarrow> entity_id list \<Rightarrow> entity_id list \<Rightarrow> session_overlay \<Rightarrow>
     (room_error, unit) result \<times> session_overlay" where
  "retire_saved_artifacts hdr own snap saved slots o' =
     (if \<not> own then (Err (RoomInvariant ''selected retirement snapshot belongs to another session overlay''), o')
      else if life o' = Gone then (Err (LeaseClosed (generation o')), o')
      else (Ok (), o'\<lparr>published := retire_saved hdr snap saved slots (published o')\<rparr>))"


section \<open>What a drop takes\<close>

definition matched :: "overlay_state \<Rightarrow> overlay_state \<Rightarrow> keyspace \<times> bytes \<Rightarrow> bool" where
  "matched snap s x \<longleftrightarrow> (\<exists>v. row_at snap (fst x) (snd x) = Some (Present v) \<and> row_at s (fst x) (snd x) = Some (Present v))"

definition posting_at :: "overlay_state \<Rightarrow> bytes \<Rightarrow> bytes \<Rightarrow> bytes option" where
  "posting_at s word i = (case keyspaces s KsTextPostings of
     Single _ _ \<Rightarrow> None | DupSort _ rows \<Rightarrow> map_of (present (dup_delta_at rows word)) i)"

definition masks_at :: "overlay_state \<Rightarrow> bytes \<Rightarrow> bool \<times> bytes list" where
  "masks_at s word = (case keyspaces s KsTextPostings of
     Single _ _ \<Rightarrow> (False, []) | DupSort _ rows \<Rightarrow> (delete_base (dup_delta_at rows word), deleted (dup_delta_at rows word)))"

text \<open>Losing the rows \<open>D\<close> and the postings \<open>P\<close>, and nothing else.\<close>

definition loses :: "(keyspace \<times> bytes) set \<Rightarrow> (bytes \<times> bytes) set \<Rightarrow> overlay_state \<Rightarrow> overlay_state \<Rightarrow> bool" where
  "loses D P s t \<longleftrightarrow> state_wf t \<and>
     (\<forall>k key. row_at t k key = (if (k, key) \<in> D \<and> (\<exists>v. row_at s k key = Some (Present v)) then None else row_at s k key)) \<and>
     (\<forall>word i. posting_at t word i = (if (word, i) \<in> P then None else posting_at s word i)) \<and>
     (\<forall>word. masks_at t word = masks_at s word) \<and> (\<forall>k. cleared t k = cleared s k) \<and>
     journal t = journal s \<and> next_seq t = next_seq s \<and> bookkeeping t = bookkeeping s"

lemma loses_trans: "loses D P s t \<Longrightarrow> loses E Q t u \<Longrightarrow> loses (D \<union> E) (P \<union> Q) s u"
  unfolding loses_def by auto

lemma loses_wf: "loses D P s t \<Longrightarrow> state_wf t"
  by (simp add: loses_def)

lemma takes_loses: "takes D s t \<Longrightarrow> loses D {} s t"
proof -
  assume t: "takes D s t"
  then have "keyspaces t KsTextPostings = keyspaces s KsTextPostings" by (simp add: takes_def is_dupsort_def)
  with t show ?thesis by (simp add: takes_def loses_def posting_at_def masks_at_def)
qed

lemma snapshot_row_at: "snapshot_present s k key = Some v \<longleftrightarrow> row_at s k key = Some (Present v)"
  by (auto simp: snapshot_present_def row_at_def split: keyspace_state.splits option.splits overlay_value.splits)

lemma same_present_matched: "same_present snap s k key \<longleftrightarrow> matched snap s (k, key)"
  by (auto simp: same_present_def matched_def snapshot_row_at [symmetric] split: option.splits)

lemma drop_matched: "drop_snapshot_matched snap k key s = (if matched snap s (k, key) then drop_overlay_row k key s else s)"
  by (auto simp: drop_snapshot_matched_def matched_def snapshot_row_at [symmetric] split: option.splits)

lemma matched_after:
  assumes "loses D P s t"
  shows "matched snap t x \<longleftrightarrow> matched snap s x \<and> x \<notin> D"
proof -
  obtain k key where x: "x = (k, key)" by (cases x)
  have "row_at t k key = (if (k, key) \<in> D \<and> (\<exists>v. row_at s k key = Some (Present v)) then None else row_at s k key)"
    using assms by (simp add: loses_def)
  then show ?thesis unfolding matched_def x by auto
qed

lemma loses_all:
  "state_wf s \<Longrightarrow> loses {x \<in> set rows. matched snap s x} {} s (drop_all_matched snap rows s)"
proof (induction rows arbitrary: s)
  case Nil
  then show ?case using takes_loses [OF takes_none] by (simp add: drop_all_matched_def)
next
  case (Cons r rows)
  obtain k key where r: "r = (k, key)" by (cases r)
  let ?t = "drop_snapshot_matched snap k key s"
  have t: "loses (if matched snap s r then {r} else {}) {} s ?t"
    using takes_loses [OF takes_drop [OF Cons.prems]] takes_loses [OF takes_none [OF Cons.prems]] by (simp add: drop_matched r)
  have "loses {x \<in> set rows. matched snap ?t x} {} ?t (drop_all_matched snap rows ?t)"
    using Cons.IH loses_wf [OF t] by blast
  from loses_trans [OF t this]
  have "loses ((if matched snap s r then {r} else {}) \<union> {x \<in> set rows. matched snap ?t x}) {} s (drop_all_matched snap (r # rows) s)"
    by (simp add: drop_all_matched_def r)
  moreover have "(if matched snap s r then {r} else {}) \<union> {x \<in> set rows. matched snap ?t x} = {x \<in> set (r # rows). matched snap s x}"
    using matched_after [OF t, of snap] by auto
  ultimately show ?case by simp
qed

section \<open>Postings\<close>

lemma delta_after_remove:
  assumes "d' = d\<lparr>present := om_remove i (present d)\<rparr>"
    "rows' = (if present d' = [] \<and> deleted d' = [] \<and> \<not> delete_base d' then om_remove word rows else om_insert word d' rows)"
    "map_of rows word = Some d"
  shows "dup_delta_at rows' w = (if w = word then d' else dup_delta_at rows w)"
proof -
  have "d' = no_delta" if "present d' = []" "deleted d' = []" "\<not> delete_base d'"
    using that by (cases d') (simp add: no_delta_def)
  then show ?thesis using assms(2,3) by (auto simp: dup_delta_at_def)
qed

lemma loses_posting:
  assumes "state_wf s"
  shows "loses {} (if posting_at s word i = Some want then {(word, i)} else {}) s (drop_text_posting word i want s)"
proof -
  have w: "ks_wf KsTextPostings (keyspaces s KsTextPostings)" using assms by (simp add: state_wf_def)
  then obtain c rows where r: "keyspaces s KsTextPostings = DupSort c rows" by (cases "keyspaces s KsTextPostings") (auto simp: is_dupsort_def)
  have o: "ordered rows" "\<forall>(key, d) \<in> set rows. delta_wf d" using w r by simp_all
  show ?thesis
  proof (cases "\<exists>d. map_of rows word = Some d \<and> map_of (present d) i = Some want")
    case True
    then obtain d where d: "map_of rows word = Some d" "map_of (present d) i = Some want" by blast
    define d' where "d' = d\<lparr>present := om_remove i (present d)\<rparr>"
    define rows' where "rows' = (if present d' = [] \<and> deleted d' = [] \<and> \<not> delete_base d' then om_remove word rows else om_insert word d' rows)"
    have t: "drop_text_posting word i want s = s\<lparr>keyspaces := (keyspaces s)(KsTextPostings := DupSort c rows')\<rparr>"
      using d by (simp add: drop_text_posting_def r rows'_def d'_def)
    have "delta_wf d" using o(2) d(1) by (auto dest!: map_of_SomeD)
    then have "delta_wf d'" by (auto simp: delta_wf_def d'_def om_remove_def)
    then have "ordered rows'" "\<forall>(key, d) \<in> set rows'. delta_wf d"
      using o by (auto simp: rows'_def dest!: in_om_insert in_om_remove)
    then have wf: "state_wf (drop_text_posting word i want s)"
      using assms by (simp add: t state_wf_def is_dupsort_def)
    note del = delta_after_remove [OF d'_def rows'_def d(1)]
    have "posting_at s word i = Some want" using d by (simp add: posting_at_def r dup_delta_at_def)
    moreover have "dup_delta_at rows word = d" using d by (simp add: dup_delta_at_def)
    ultimately show ?thesis
      using wf by (auto simp: loses_def t posting_at_def masks_at_def r del d'_def row_at_def cleared_def)
  next
    case False
    then have "drop_text_posting word i want s = s"
      by (auto simp: drop_text_posting_def r split: option.split)
    moreover have "posting_at s word i \<noteq> Some want"
      using False by (auto simp: posting_at_def r dup_delta_at_def no_delta_def split: option.splits)
    ultimately show ?thesis using takes_loses [OF takes_none [OF assms]] by simp
  qed
qed


definition captured_postings :: "(bytes, dup_delta) omap \<Rightarrow> overlay_state \<Rightarrow> entity_id \<Rightarrow> (bytes \<times> bytes) set" where
  "captured_postings rows s i = {(word, j). j = i \<and> (\<exists>captured want. (word, captured) \<in> set rows \<and>
     map_of (present captured) i = Some want \<and> posting_at s word i = Some want)}"

lemma posting_after: "loses D P s t \<Longrightarrow> posting_at t word i = (if (word, i) \<in> P then None else posting_at s word i)"
  by (simp add: loses_def)

lemma loses_postings:
  "distinct (map fst rows) \<Longrightarrow> state_wf s \<Longrightarrow>
   loses {} (captured_postings rows s i) s
     (fold (\<lambda>(word, captured) s. case map_of (present captured) i of
        None \<Rightarrow> s | Some want \<Rightarrow> drop_text_posting word i want s) rows s)"
proof (induction rows arbitrary: s)
  case Nil
  then show ?case using takes_loses [OF takes_none] by (simp add: captured_postings_def)
next
  case (Cons r rows)
  obtain word captured where r: "r = (word, captured)" by (cases r)
  let ?t = "case map_of (present captured) i of None \<Rightarrow> s | Some want \<Rightarrow> drop_text_posting word i want s"
  let ?P = "if map_of (present captured) i \<noteq> None \<and> posting_at s word i = map_of (present captured) i then {(word, i)} else {}"
  have t: "loses {} ?P s ?t"
  proof (cases "map_of (present captured) i")
    case None
    then show ?thesis using takes_loses [OF takes_none [OF Cons.prems(2)]] by simp
  next
    case (Some want)
    then show ?thesis using loses_posting [OF Cons.prems(2), of word i want] by simp
  qed
  have "loses {} (captured_postings rows ?t i) ?t (fold (\<lambda>(word, captured) s. case map_of (present captured) i of
      None \<Rightarrow> s | Some want \<Rightarrow> drop_text_posting word i want s) rows ?t)"
    using Cons.IH [OF _ loses_wf [OF t]] Cons.prems(1) by simp
  from loses_trans [OF t this]
  have l: "loses {} (?P \<union> captured_postings rows ?t i) s (fold (\<lambda>(word, captured) s. case map_of (present captured) i of
      None \<Rightarrow> s | Some want \<Rightarrow> drop_text_posting word i want s) (r # rows) s)" by (simp add: r)
  have "w \<in> fst ` set rows \<Longrightarrow> posting_at ?t w i = posting_at s w i" for w
    using posting_after [OF t, of w i] Cons.prems(1) by (auto simp: r)
  then have "captured_postings rows ?t i = captured_postings rows s i"
    unfolding captured_postings_def by force
  moreover have "?P \<union> captured_postings rows s i = captured_postings (r # rows) s i"
    by (auto simp: captured_postings_def r)
  ultimately show ?case using l by simp
qed

definition text_rows :: "entity_id \<Rightarrow> (keyspace \<times> bytes) list" where
  "text_rows i = [(KsTextForward, i), (KsTextDocFieldLengths, i), (KsTextMeta, i), (KsVaultMeta, index_source_key i)]"

text \<open>The room still holds the text of a record as the capture did: its forward row and its source.\<close>

definition text_unmoved :: "overlay_state \<Rightarrow> overlay_state \<Rightarrow> entity_id \<Rightarrow> bool" where
  "text_unmoved snap s i \<longleftrightarrow> matched snap s (KsTextForward, i) \<and> matched snap s (KsVaultMeta, index_source_key i)"

definition posting_matched :: "overlay_state \<Rightarrow> overlay_state \<Rightarrow> bytes \<Rightarrow> bytes \<Rightarrow> bool" where
  "posting_matched snap s word i \<longleftrightarrow> posting_at snap word i \<noteq> None \<and> posting_at s word i = posting_at snap word i"

lemma loses_text:
  assumes "state_wf s" "state_wf snap"
  shows "loses {x. x \<in> set (text_rows i) \<and> matched snap s x \<and> text_unmoved snap s i}
      {(word, j). j = i \<and> posting_matched snap s word i \<and> text_unmoved snap s i} s (drop_text_footprint snap i s)"
proof (cases "text_unmoved snap s i")
  case False
  then have "drop_text_footprint snap i s = s"
    by (auto simp: drop_text_footprint_def text_unmoved_def same_present_matched)
  then show ?thesis using False takes_loses [OF takes_none [OF assms(1)]] by simp
next
  case True
  have w: "ks_wf KsTextPostings (keyspaces snap KsTextPostings)" using assms(2) by (simp add: state_wf_def)
  then obtain c rows where r: "keyspaces snap KsTextPostings = DupSort c rows"
    by (cases "keyspaces snap KsTextPostings") (auto simp: is_dupsort_def)
  have d: "distinct (map fst rows)" using w r ordered_distinct by auto
  define u where "u = fold (\<lambda>(word, captured) s. case map_of (present captured) i of
      None \<Rightarrow> s | Some want \<Rightarrow> drop_text_posting word i want s) rows s"
  have u: "loses {} (captured_postings rows s i) s u" unfolding u_def by (rule loses_postings [OF d assms(1)])
  have t: "drop_text_footprint snap i s = drop_all_matched snap (text_rows i) u"
    using True by (simp add: drop_text_footprint_def text_unmoved_def same_present_matched r u_def text_rows_def)
  have "loses ({} \<union> {x \<in> set (text_rows i). matched snap u x}) (captured_postings rows s i \<union> {}) s (drop_text_footprint snap i s)"
    unfolding t by (rule loses_trans [OF u loses_all [OF loses_wf [OF u]]])
  moreover have "matched snap u x = matched snap s x" for x using matched_after [OF u] by simp
  moreover have "captured_postings rows s i = {(word, j). j = i \<and> posting_matched snap s word i}"
  proof -
    have "(\<exists>captured want. (word, captured) \<in> set rows \<and> map_of (present captured) i = Some want \<and> posting_at s word i = Some want)
        \<longleftrightarrow> posting_matched snap s word i" for word
    proof (cases "map_of rows word")
      case None
      then have "word \<notin> fst ` set rows" by (simp add: map_of_eq_None_iff)
      then show ?thesis using None by (force simp: posting_matched_def posting_at_def r dup_delta_at_def no_delta_def)
    next
      case (Some cap)
      then have "(word, x) \<in> set rows \<longleftrightarrow> x = cap" for x using map_of_eq_Some_iff [OF d, of word x] by auto
      moreover have "posting_at snap word i = map_of (present cap) i" by (simp add: posting_at_def r dup_delta_at_def Some)
      ultimately show ?thesis by (auto simp: posting_matched_def)
    qed
    then show ?thesis by (auto simp: captured_postings_def)
  qed
  ultimately show ?thesis using True by simp
qed


section \<open>A subject, and all of them\<close>

definition subject_rows :: "overlay_state \<Rightarrow> entity_id \<Rightarrow> (keyspace \<times> bytes) list" where
  "subject_rows snap i =
     ((KsEntities, i) # header_rows snap i) @
     (short_id_pair snap i @ [id_prefixed_row ''provenance:row_birth:v1:'' i, id_prefixed_row ''scope:record:v2:'' i,
       id_prefixed_row ''note_head:v1:'' i])"

lemma footprint_keyspace [simp]:
  "(KsTextForward, key) \<notin> set (put_footprint i ty s e l)" "(KsVaultMeta, key) \<notin> set (put_footprint i ty s e l)"
  by (simp_all add: put_footprint_def)

lemma header_keyspace [simp]:
  "(KsTextForward, key) \<notin> set (header_rows snap i)" "(KsVaultMeta, key) \<notin> set (header_rows snap i)"
  by (simp_all add: header_rows_def split: option.split)

lemma journal_keyspace [simp]:
  "(KsTextForward, key) \<notin> set (journal_rows saved snap)" "(KsVaultMeta, key) \<notin> set (journal_rows saved snap)"
proof -
  have "(KsTextForward, key) \<notin> set (op_footprint op) \<and> (KsVaultMeta, key) \<notin> set (op_footprint op)" for op
    by (cases op rule: op_footprint.cases) (simp_all add: edge_footprint_def)
  then show "(KsTextForward, key) \<notin> set (journal_rows saved snap)" "(KsVaultMeta, key) \<notin> set (journal_rows saved snap)"
    by (simp_all add: journal_rows_def)
qed

lemma ascii_Cons: "ascii (c # cs) = of_nat (of_char c) # ascii cs"
  by (simp add: ascii_def)

lemma subject_not_text:
  "(KsTextForward, j) \<notin> set (subject_rows snap i)" "(KsVaultMeta, index_source_key j) \<notin> set (subject_rows snap i)"
  by (auto simp: subject_rows_def short_id_pair_def id_prefixed_row_def index_source_key_def ascii_Cons
      split: option.splits)

lemma text_unmoved_after:
  assumes "loses D P s t" "(KsTextForward, j) \<notin> D" "(KsVaultMeta, index_source_key j) \<notin> D"
  shows "text_unmoved snap t j \<longleftrightarrow> text_unmoved snap s j"
  using assms(2,3) matched_after [OF assms(1)] by (simp add: text_unmoved_def)

definition subject_loses :: "overlay_state \<Rightarrow> overlay_state \<Rightarrow> entity_id set \<Rightarrow> (keyspace \<times> bytes) set" where
  "subject_loses snap s ids = {x. matched snap s x \<and>
     (\<exists>i \<in> ids. x \<in> set (subject_rows snap i) \<or> (x \<in> set (text_rows i) \<and> text_unmoved snap s i))}"

definition posting_loses :: "overlay_state \<Rightarrow> overlay_state \<Rightarrow> entity_id set \<Rightarrow> (bytes \<times> bytes) set" where
  "posting_loses snap s ids = {(word, i). i \<in> ids \<and> posting_matched snap s word i \<and> text_unmoved snap s i}"

lemma loses_subject:
  assumes "state_wf s" "state_wf snap"
  shows "loses (subject_loses snap s {i}) (posting_loses snap s {i}) s (retire_subject snap i s)"
proof -
  let ?R = "(KsEntities, i) # header_rows snap i"
  let ?S = "short_id_pair snap i @ [id_prefixed_row ''provenance:row_birth:v1:'' i, id_prefixed_row ''scope:record:v2:'' i,
    id_prefixed_row ''note_head:v1:'' i]"
  define s1 where "s1 = drop_all_matched snap ?R s"
  define s2 where "s2 = drop_text_footprint snap i s1"
  have t: "retire_subject snap i s = drop_all_matched snap ?S s2" by (simp only: retire_subject_def s1_def s2_def)
  have l1: "loses {x \<in> set ?R. matched snap s x} {} s s1" unfolding s1_def by (rule loses_all [OF assms(1)])
  have l2: "loses {x. x \<in> set (text_rows i) \<and> matched snap s1 x \<and> text_unmoved snap s1 i}
      {(word, j). j = i \<and> posting_matched snap s1 word i \<and> text_unmoved snap s1 i} s1 s2"
    unfolding s2_def by (rule loses_text [OF loses_wf [OF l1] assms(2)])
  have l3: "loses {x \<in> set ?S. matched snap s2 x} {} s2 (retire_subject snap i s)"
    unfolding t by (rule loses_all [OF loses_wf [OF l2]])
  have m1: "matched snap s1 x \<longleftrightarrow> matched snap s x \<and> x \<notin> set ?R" for x using matched_after [OF l1, of snap x] by blast
  have tu: "text_unmoved snap s1 i = text_unmoved snap s i"
    by (rule text_unmoved_after [OF l1]) simp_all
  have pm: "posting_matched snap s1 word i = posting_matched snap s word i" for word
    using posting_after [OF l1, of word i] by (simp add: posting_matched_def)
  have m2: "matched snap s2 x \<longleftrightarrow> matched snap s x \<and> x \<notin> set ?R \<and> \<not> (x \<in> set (text_rows i) \<and> text_unmoved snap s i)" for x
    using matched_after [OF l2, of snap x] m1 [of x] tu by blast
  have "x \<in> set (subject_rows snap i) \<longleftrightarrow> x \<in> set ?R \<or> x \<in> set ?S" for x by (simp only: subject_rows_def set_append Un_iff)
  then have "{x \<in> set ?R. matched snap s x} \<union> {x. x \<in> set (text_rows i) \<and> matched snap s1 x \<and> text_unmoved snap s1 i} \<union>
      {x \<in> set ?S. matched snap s2 x} = subject_loses snap s {i}"
    unfolding subject_loses_def tu m1 m2 by blast
  moreover have "{} \<union> {(word, j). j = i \<and> posting_matched snap s1 word i \<and> text_unmoved snap s1 i} \<union> {} = posting_loses snap s {i}"
    unfolding posting_loses_def tu pm by auto
  ultimately show ?thesis using loses_trans [OF loses_trans [OF l1 l2] l3] by simp
qed

lemma loses_subjects:
  "distinct ids \<Longrightarrow> state_wf s \<Longrightarrow> state_wf snap \<Longrightarrow>
   loses (subject_loses snap s (set ids)) (posting_loses snap s (set ids)) s (fold (retire_subject snap) ids s)"
proof (induction ids arbitrary: s)
  case Nil
  then show ?case using takes_loses [OF takes_none] by (simp add: subject_loses_def posting_loses_def)
next
  case (Cons i ids)
  let ?t = "retire_subject snap i s"
  have t: "loses (subject_loses snap s {i}) (posting_loses snap s {i}) s ?t" by (rule loses_subject [OF Cons.prems(2,3)])
  have l: "loses (subject_loses snap ?t (set ids)) (posting_loses snap ?t (set ids)) ?t (fold (retire_subject snap) ids ?t)"
    using Cons.IH [OF _ loses_wf [OF t] Cons.prems(3)] Cons.prems(1) by simp
  have tu: "text_unmoved snap ?t j = text_unmoved snap s j" if "j \<in> set ids" for j
    by (rule text_unmoved_after [OF t])
      (use that Cons.prems(1) subject_not_text in \<open>auto simp: subject_loses_def text_rows_def index_source_key_def\<close>)
  have pm: "posting_matched snap ?t word j = posting_matched snap s word j" if "j \<in> set ids" for word j
    using posting_after [OF t, of word j] that Cons.prems(1) by (auto simp: posting_matched_def posting_loses_def)
  have "subject_loses snap s {i} \<union> subject_loses snap ?t (set ids) = subject_loses snap s (set (i # ids))"
    using matched_after [OF t, of snap] tu unfolding subject_loses_def by auto
  moreover have "posting_loses snap s {i} \<union> posting_loses snap ?t (set ids) = posting_loses snap s (set (i # ids))"
    using pm tu unfolding posting_loses_def by auto
  ultimately show ?case using loses_trans [OF t l] by simp
qed


section \<open>The whole retirement\<close>

definition owned_rows :: "entity_id list \<Rightarrow> entity_id list \<Rightarrow> overlay_state \<Rightarrow> (keyspace \<times> bytes) set" where
  "owned_rows saved slots snap =
     set (journal_rows saved snap) \<union> (\<Union>i \<in> set saved. set (subject_rows snap i)) \<union> set (shared_rows saved slots snap)"

definition saved_loses ::
    "entity_id list \<Rightarrow> entity_id list \<Rightarrow> overlay_state \<Rightarrow> overlay_state \<Rightarrow> (keyspace \<times> bytes) set" where
  "saved_loses saved slots snap s = {x. matched snap s x \<and>
     (x \<in> owned_rows saved slots snap \<or> (\<exists>i \<in> set saved. x \<in> set (text_rows i) \<and> text_unmoved snap s i))}"

lemma retire_saved_loses:
  assumes "state_wf s" "state_wf snap" "distinct saved"
  obtains u where "loses (saved_loses saved slots snap s) (posting_loses snap s (set saved)) s u"
    "retire_saved hdr snap saved slots s = recalculate_bytes hdr
       (u\<lparr>journal := filter (\<lambda>e. seq e \<notin> set (map seq (filter (saved_entry saved) (journal snap)))) (journal u)\<rparr>)"
proof -
  define s1 where "s1 = drop_all_matched snap (journal_rows saved snap) s"
  define s2 where "s2 = fold (retire_subject snap) saved s1"
  define u where "u = drop_all_matched snap (shared_rows saved slots snap) s2"
  have l1: "loses {x \<in> set (journal_rows saved snap). matched snap s x} {} s s1"
    unfolding s1_def by (rule loses_all [OF assms(1)])
  have l2: "loses (subject_loses snap s1 (set saved)) (posting_loses snap s1 (set saved)) s1 s2"
    unfolding s2_def by (rule loses_subjects [OF assms(3) loses_wf [OF l1] assms(2)])
  have l3: "loses {x \<in> set (shared_rows saved slots snap). matched snap s2 x} {} s2 u"
    unfolding u_def by (rule loses_all [OF loses_wf [OF l2]])
  have m1: "matched snap s1 x \<longleftrightarrow> matched snap s x \<and> x \<notin> set (journal_rows saved snap)" for x
    using matched_after [OF l1, of snap x] by blast
  have tu: "text_unmoved snap s1 i = text_unmoved snap s i" for i by (rule text_unmoved_after [OF l1]) simp_all
  have pm: "posting_matched snap s1 word i = posting_matched snap s word i" for word i
    using posting_after [OF l1, of word i] by (simp add: posting_matched_def)
  have m2: "matched snap s2 x \<longleftrightarrow> matched snap s1 x \<and> x \<notin> subject_loses snap s1 (set saved)" for x
    by (rule matched_after [OF l2])
  have "{x \<in> set (journal_rows saved snap). matched snap s x} \<union> subject_loses snap s1 (set saved) \<union>
      {x \<in> set (shared_rows saved slots snap). matched snap s2 x} = saved_loses saved slots snap s"
    unfolding m2 unfolding subject_loses_def saved_loses_def owned_rows_def m1 tu by blast
  moreover have "posting_loses snap s1 (set saved) = posting_loses snap s (set saved)"
    unfolding posting_loses_def pm tu by (rule refl)
  ultimately have "loses (saved_loses saved slots snap s) (posting_loses snap s (set saved)) s u"
    using loses_trans [OF loses_trans [OF l1 l2] l3] by simp
  then show thesis by (rule that) (simp add: retire_saved_def Let_def s1_def s2_def u_def)
qed


definition later_room :: overlay_state where
  "later_room = sample_room\<lparr>keyspaces := (keyspaces sample_room)(KsTypeIndex := Single False [([1], Present [2])])\<rparr>"


end
