(* ===== verification/RoomWorld.thy ===== *)
theory RoomWorld
  imports SavedArtifacts
begin

text \<open>
  A room's overlay under its threads: the step relation of every call that changes it, in any order
  the locks allow, and what holds in every state they reach.

  A thread has at most one segment installed, at most one guard, and at most one seal or close it
  waits in.  A call that waits takes its first half, and its second once its test passes; other
  threads move in between.  A commit takes the segment; its guard gives the writer back in a step of
  its own, as the code does after the call's locals have dropped.
\<close>

section \<open>Worlds\<close>

datatype guard = Free | TxnGuard | RetireGuard "64 word" | Spent

datatype waiting = Idle | SealWait | CloseWait "keyspace option"

record world =
  room :: session_overlay
  segs :: "nat \<Rightarrow> installed"
  guards :: "nat \<Rightarrow> guard"
  readers :: "64 word list"
  waits :: "nat \<Rightarrow> waiting"

definition new_world :: "64 word \<Rightarrow> nat \<Rightarrow> world" where
  "new_world gen budget = \<lparr>room = new_room gen budget, segs = (\<lambda>_. NoSegment), guards = (\<lambda>_. Free), readers = [],
     waits = (\<lambda>_. Idle)\<rparr>"

inductive world_step :: "nat \<Rightarrow> world \<Rightarrow> world \<Rightarrow> bool" for hdr where
  step_install: "waits w t = Idle \<Longrightarrow> guards w t = Free \<Longrightarrow>
    install_segment None n (segs w t) (room w) = Returns (Ok (s, p)) \<Longrightarrow>
    world_step hdr w (w\<lparr>room := p, segs := (segs w)(t := OwnSegment s), guards := (guards w)(t := TxnGuard)\<rparr>)"
| step_install_retirement: "waits w t = Idle \<Longrightarrow> guards w t = Free \<Longrightarrow>
    install_base_row_retirement r n (segs w t) (room w) = Returns (Ok (s, p)) \<Longrightarrow>
    world_step hdr w (w\<lparr>room := p, segs := (segs w)(t := OwnSegment s),
      guards := (guards w)(t := RetireGuard (route_mode r))\<rparr>)"
| step_other: "guards w t = Free \<Longrightarrow> seg = NoSegment \<or> seg = OtherSegment \<Longrightarrow> waits w t = Idle \<Longrightarrow>
    world_step hdr w (w\<lparr>segs := (segs w)(t := seg)\<rparr>)"
| step_stage: "guards w t = TxnGuard \<Longrightarrow>
    world_step hdr w (w\<lparr>segs := (segs w)(t := run_stage hdr (budget_bytes (room w)) p (segs w t))\<rparr>)"
| step_commit: "guards w t = TxnGuard \<Longrightarrow> commit_segment hdr (segs w t) (room w) = (r, p) \<Longrightarrow>
    world_step hdr w (w\<lparr>room := p, segs := (segs w)(t := NoSegment), guards := (guards w)(t := Spent)\<rparr>)"
| step_retire: "guards w t = RetireGuard m \<Longrightarrow> commit_retirement hdr m keys (segs w t) (room w) = (r, p) \<Longrightarrow>
    world_step hdr w (w\<lparr>room := p, segs := (segs w)(t := NoSegment), guards := (guards w)(t := Spent)\<rparr>)"
| step_drop_guard: "guards w t \<noteq> Free \<Longrightarrow> abort_segment (segs w t) (room w) = (seg, p) \<Longrightarrow>
    world_step hdr w (w\<lparr>room := release_segment_writer p, segs := (segs w)(t := seg), guards := (guards w)(t := Free)\<rparr>)"
| step_snapshot: "waits w t = Idle \<Longrightarrow> guards w t \<noteq> Spent \<Longrightarrow> take_snapshot (segs w t) (room w) = Ok (v, p) \<Longrightarrow>
    world_step hdr w (w\<lparr>room := p, readers := view_generation v # readers w\<rparr>)"
| step_drop_snapshot: "g \<in> set (readers w) \<Longrightarrow>
    world_step hdr w (w\<lparr>room := drop_lease (room w), readers := remove1 g (readers w)\<rparr>)"
| step_seal_begin: "waits w t = Idle \<Longrightarrow> guards w t \<noteq> Spent \<Longrightarrow> seal_begin (segs w t) (room w) = (Ok True, p) \<Longrightarrow>
    world_step hdr w (w\<lparr>room := p, waits := (waits w)(t := SealWait)\<rparr>)"
| step_seal_finish: "waits w t = SealWait \<Longrightarrow> seal_finish (room w) = Returns (r, p) \<Longrightarrow>
    world_step hdr w (w\<lparr>room := p, waits := (waits w)(t := Idle)\<rparr>)"
| step_rearm: "waits w t = Idle \<Longrightarrow> guards w t \<noteq> Spent \<Longrightarrow> rearm (room w) = (r, p) \<Longrightarrow>
    world_step hdr w (w\<lparr>room := p\<rparr>)"
| step_close_begin: "waits w t = Idle \<Longrightarrow> guards w t \<noteq> Spent \<Longrightarrow> close_begin (segs w t) (room w) = (r, p) \<Longrightarrow>
    world_step hdr w (w\<lparr>room := p, waits := (waits w)(t := (case r of Inl _ \<Rightarrow> Idle | Inr _ \<Rightarrow> CloseWait visit))\<rparr>)"
| step_close_finish: "waits w t = CloseWait visit \<Longrightarrow> close_finish visit (room w) = Returns (r, p) \<Longrightarrow>
    world_step hdr w (w\<lparr>room := p, waits := (waits w)(t := Idle)\<rparr>)"
| step_retire_closure: "life (room w) \<noteq> Gone \<Longrightarrow>
    world_step hdr w (w\<lparr>room := (room w)\<lparr>published := retire_closure hdr plan kept (published (room w))\<rparr>\<rparr>)"
| step_retire_saved: "state_wf snap \<Longrightarrow> distinct saved \<Longrightarrow>
    retire_saved_artifacts hdr own snap saved slots (room w) = (r, p) \<Longrightarrow> world_step hdr w (w\<lparr>room := p\<rparr>)"
| step_release: "world_step hdr w (w\<lparr>room := release_closed_state (room w)\<rparr>)"

abbreviation world_reaches :: "nat \<Rightarrow> world \<Rightarrow> world \<Rightarrow> bool" where
  "world_reaches hdr \<equiv> (world_step hdr)\<^sup>*\<^sup>*"

section \<open>The invariant\<close>

definition world_ok :: "world \<Rightarrow> bool" where
  "world_ok w \<longleftrightarrow>
     (\<forall>t. holds_own (segs w t) \<longleftrightarrow> guards w t \<noteq> Free \<and> guards w t \<noteq> Spent) \<and>
     (segment_active (room w) \<longleftrightarrow> (\<exists>t. guards w t \<noteq> Free)) \<and>
     (\<forall>t u. guards w t \<noteq> Free \<and> guards w u \<noteq> Free \<longrightarrow> t = u) \<and>
     leases (room w) = length (readers w) + (if \<exists>t. holds_own (segs w t) then 1 else 0) \<and>
     (life (room w) = Gone \<longrightarrow> leases (room w) = 0) \<and>
     (\<forall>t s. segs w t = OwnSegment s \<longrightarrow> seg_generation s = generation (room w)) \<and>
     (\<forall>g \<in> set (readers w). g = generation (room w)) \<and>
     (\<forall>t. guards w t = TxnGuard \<longrightarrow> life (room w) \<noteq> Sealed) \<and>
     (\<forall>t. waits w t = SealWait \<longrightarrow> life (room w) = Sealing) \<and>
     (\<forall>t v. waits w t = CloseWait v \<longrightarrow> life (room w) = Closing) \<and>
     (\<forall>t u. waits w t \<noteq> Idle \<and> waits w u \<noteq> Idle \<longrightarrow> t = u) \<and>
     (\<forall>t. waits w t \<noteq> Idle \<longrightarrow> guards w t = Free) \<and>
     state_wf (published (room w))"

lemma new_world_ok: "world_ok (new_world gen budget)"
  using empty_state_wf by (simp add: world_ok_def new_world_def new_room_def)


section \<open>What the calls do to the room\<close>

lemma stage_op_own: "\<exists>t. snd (stage_op hdr budget a (OwnSegment s)) = OwnSegment t \<and>
    seg_generation t = seg_generation s \<and> seg_nonce t = seg_nonce s"
proof -
  have m: "\<exists>t. stage_mutation hdr m s = (r, t) \<and> seg_generation t = seg_generation s \<and> seg_nonce t = seg_nonce s"
    if "fst (stage_mutation hdr m s) = r" for m r s
    using that by (auto simp: stage_mutation_def split: sum.splits)
  have all: "seg_generation (snd (stage_all hdr ms s)) = seg_generation s \<and> seg_nonce (snd (stage_all hdr ms s)) = seg_nonce s" for ms s
  proof (induction ms arbitrary: s)
    case (Cons x ms)
    obtain t where "stage_mutation hdr x s = (fst (stage_mutation hdr x s), t)" "seg_generation t = seg_generation s"
      "seg_nonce t = seg_nonce s" using m by blast
    with Cons show ?case by (cases "stage_mutation hdr x s") (auto split: sum.split)
  qed simp
  have pre: "\<exists>t. snd (preflight_and_stage hdr budget m (OwnSegment s)) = OwnSegment t \<and>
      seg_generation t = seg_generation s \<and> seg_nonce t = seg_nonce s" for m
    using m [OF refl, of m s] by (auto simp: preflight_and_stage_def on_segment_def split: sum.split prod.split)
  show ?thesis
  proof (cases a)
    case (SMark k key)
    then show ?thesis using m [OF refl, of "Bookkeeping k key" s]
      by (auto simp: mark_bookkeeping_row_def on_segment_def split: prod.split)
  next
    case (SGroup ms)
    then show ?thesis using all [of ms s]
      by (auto simp: stage_mutation_group_def on_segment_def split: sum.split prod.split)
  next
    case (SJournal e)
    then show ?thesis
      by (auto simp: stage_journal_entry_def on_segment_def Let_def split: sum.split)
  qed (use pre in \<open>auto simp: overlay_put_def delete_with_base_backing_def overlay_delete_duplicate_def overlay_clear_def
      split: sum.split\<close>)
qed

lemma stage_ops_own: "\<exists>t. snd (stage_ops hdr budget as (OwnSegment s)) = OwnSegment t \<and>
    seg_generation t = seg_generation s \<and> seg_nonce t = seg_nonce s"
proof (induction as arbitrary: s)
  case (Cons a as)
  obtain u where u: "snd (stage_op hdr budget a (OwnSegment s)) = OwnSegment u" "seg_generation u = seg_generation s"
    "seg_nonce u = seg_nonce s" using stage_op_own by blast
  with Cons.IH [of u] show ?case
    by (cases "stage_op hdr budget a (OwnSegment s)"; cases "fst (stage_op hdr budget a (OwnSegment s))") auto
qed simp

lemma run_stage_own: "\<exists>t. run_stage hdr budget p (OwnSegment s) = OwnSegment t \<and> seg_generation t = seg_generation s"
proof (cases p)
  case (Single_op a)
  then show ?thesis using stage_op_own [of hdr budget a s] by auto
next
  case (Net as)
  show ?thesis
  proof (cases "net_begin (OwnSegment s)")
    case (Inl e)
    then show ?thesis by (simp add: Net with_net_budget_def)
  next
    case (Inr s1)
    then have s1: "seg_generation s1 = seg_generation s" by (auto simp: net_begin_def split: if_splits)
    obtain r t where t: "stage_ops hdr budget as (OwnSegment s1) = (r, OwnSegment t)" "seg_generation t = seg_generation s1"
      using stage_ops_own [of hdr budget as s1] by (cases "stage_ops hdr budget as (OwnSegment s1)") auto
    have roll: "\<exists>u. net_rollback n (OwnSegment t) = OwnSegment u \<and> seg_generation u = seg_generation t" for n
      by (auto simp: net_rollback_def split: option.split)
    have fin: "net_finish budget n (OwnSegment t) = Ok u \<Longrightarrow> seg_generation u = seg_generation t" for n u
      by (auto simp: net_finish_def split: if_splits option.splits sum.splits)
    obtain u where u: "net_rollback (seg_nonce s1) (OwnSegment t) = OwnSegment u" "seg_generation u = seg_generation t"
      using roll by blast
    show ?thesis
    proof (cases r)
      case (Inl e)
      then show ?thesis using s1 t(2) u(2) by (simp add: Net with_net_budget_def Inr t(1) u(1))
    next
      case ok: (Inr x)
      show ?thesis
      proof (cases "net_finish budget (seg_nonce s1) (OwnSegment t)")
        case (Inl e)
        then show ?thesis using s1 t(2) u(2) by (simp add: Net with_net_budget_def \<open>net_begin (OwnSegment s) = Ok s1\<close> t(1) u(1) ok)
      next
        case over: (Inr v)
        then show ?thesis using s1 t(2) fin [OF over] by (simp add: Net with_net_budget_def Inr t(1) ok)
      qed
    qed
  qed
qed

lemma apply_segment_room:
  "apply_segment hdr s o' = (r, p) \<Longrightarrow> state_wf (published o') \<Longrightarrow>
   state_wf (published p) \<and> p = o'\<lparr>published := published p\<rparr>"
proof -
  assume a: "apply_segment hdr s o' = (r, p)" "state_wf (published o')"
  have "state_wf (fold (publish_entry hdr) js t) = state_wf t" for js t
    by (induction js arbitrary: t) (simp_all add: publish_entry_def, simp add: state_wf_def)
  then have "apply_preflighted hdr ms js (published o') = Ok t \<Longrightarrow> state_wf t" for ms js t
    using a(2) apply_all_facts by (fastforce simp: apply_preflighted_def split: sum.splits)
  then show ?thesis using a by (auto simp: apply_segment_def split: if_splits sum.splits)
qed

lemma retire_snapshot_wf:
  assumes "state_wf s"
  shows "state_wf (retire_snapshot_row snap k key s)"
proof -
  have w: "ks_wf k (keyspaces s k)" using assms by (simp add: state_wf_def)
  show ?thesis
  proof (cases "keyspaces s k")
    case (Single c rows)
    with w have "ks_wf k (Single c (om_remove key rows))" by simp
    with Single assms show ?thesis
      by (auto simp: retire_snapshot_row_def state_wf_def split: keyspace_state.split)
  qed (use assms in \<open>simp add: retire_snapshot_row_def split: keyspace_state.split\<close>)
qed

lemma retire_snapshots_wf: "state_wf s \<Longrightarrow> state_wf (fold (retire_snapshot_row snap k) keys s)"
  by (induction keys arbitrary: s) (simp_all add: retire_snapshot_wf)

lemma membership_wf: "state_wf s \<Longrightarrow> state_wf (membership_only s)"
proof -
  assume w: "state_wf s"
  then have k: "ks_wf KsEntities (keyspaces s KsEntities)" by (simp add: state_wf_def)
  show ?thesis
  proof (cases "keyspaces s KsEntities")
    case (Single c rows)
    with k have o: "ordered (filter (\<lambda>(i, v). v \<noteq> Tombstone) rows)" by simp
    then have "ordered (map (\<lambda>(i, v). (i, Present [])) (filter (\<lambda>(i, v). v \<noteq> Tombstone) rows))"
      using ordered_map_values [of "\<lambda>_ _. Present []"] by simp
    then show ?thesis
      using empty_state_wf by (auto simp: membership_only_def Single state_wf_def is_dupsort_def ks_empty_def)
  qed (simp add: membership_only_def empty_state_wf)
qed


section \<open>Every step keeps the invariant\<close>

lemma ok_facts:
  assumes "world_ok w"
  shows "holds_own (segs w t) \<longleftrightarrow> guards w t \<noteq> Free \<and> guards w t \<noteq> Spent"
    "segment_active (room w) \<longleftrightarrow> (\<exists>t. guards w t \<noteq> Free)"
    "guards w t \<noteq> Free \<Longrightarrow> guards w u \<noteq> Free \<Longrightarrow> t = u"
    "leases (room w) = length (readers w) + (if \<exists>t. holds_own (segs w t) then 1 else 0)"
    "life (room w) = Gone \<Longrightarrow> leases (room w) = 0"
    "segs w t = OwnSegment s \<Longrightarrow> seg_generation s = generation (room w)"
    "g \<in> set (readers w) \<Longrightarrow> g = generation (room w)"
    "guards w t = TxnGuard \<Longrightarrow> life (room w) \<noteq> Sealed"
    "waits w t = SealWait \<Longrightarrow> life (room w) = Sealing"
    "waits w t = CloseWait v \<Longrightarrow> life (room w) = Closing"
    "waits w t \<noteq> Idle \<Longrightarrow> waits w u \<noteq> Idle \<Longrightarrow> t = u"
    "waits w t \<noteq> Idle \<Longrightarrow> guards w t = Free"
    "state_wf (published (room w))"
  using assms unfolding world_ok_def by blast+

lemma ok_intro:
  assumes "\<And>t. holds_own (segs w t) \<longleftrightarrow> guards w t \<noteq> Free \<and> guards w t \<noteq> Spent"
    "segment_active (room w) \<longleftrightarrow> (\<exists>t. guards w t \<noteq> Free)"
    "\<And>t u. guards w t \<noteq> Free \<Longrightarrow> guards w u \<noteq> Free \<Longrightarrow> t = u"
    "leases (room w) = length (readers w) + (if \<exists>t. holds_own (segs w t) then 1 else 0)"
    "life (room w) = Gone \<Longrightarrow> leases (room w) = 0"
    "\<And>t s. segs w t = OwnSegment s \<Longrightarrow> seg_generation s = generation (room w)"
    "\<And>g. g \<in> set (readers w) \<Longrightarrow> g = generation (room w)"
    "\<And>t. guards w t = TxnGuard \<Longrightarrow> life (room w) \<noteq> Sealed"
    "\<And>t. waits w t = SealWait \<Longrightarrow> life (room w) = Sealing"
    "\<And>t v. waits w t = CloseWait v \<Longrightarrow> life (room w) = Closing"
    "\<And>t u. waits w t \<noteq> Idle \<Longrightarrow> waits w u \<noteq> Idle \<Longrightarrow> t = u"
    "\<And>t. waits w t \<noteq> Idle \<Longrightarrow> guards w t = Free"
    "state_wf (published (room w))"
  shows "world_ok w"
  using assms unfolding world_ok_def by blast

text \<open>A step that leaves segments, guards and leases alone.\<close>

lemma ok_room:
  assumes "world_ok w" "leases p = leases (room w)" "generation p = generation (room w)"
    "segment_active p = segment_active (room w)" "state_wf (published p)"
    "life p = Gone \<Longrightarrow> leases p = 0" "\<And>u. guards w u = TxnGuard \<Longrightarrow> life p \<noteq> Sealed"
    "\<And>u. ws u = SealWait \<Longrightarrow> life p = Sealing" "\<And>u v. ws u = CloseWait v \<Longrightarrow> life p = Closing"
    "\<And>u v. ws u \<noteq> Idle \<Longrightarrow> ws v \<noteq> Idle \<Longrightarrow> u = v" "\<And>u. ws u \<noteq> Idle \<Longrightarrow> guards w u = Free"
  shows "world_ok (w\<lparr>room := p, waits := ws\<rparr>)"
  by (rule ok_intro) (use assms ok_facts [OF assms(1)] in \<open>simp_all\<close>)

lemma permit_install:
  assumes "world_ok w" "guards w t = Free" "\<not> segment_active (room w)" "life (room w) = Live \<or> life (room w) = Sealed"
    "g = TxnGuard \<longrightarrow> life (room w) = Live" "g \<noteq> Free" "g \<noteq> Spent" "waits w t = Idle"
    "p = (room w)\<lparr>leases := leases (room w) + 1, segment_active := True\<rparr>" "s = open_segment n p"
  shows "world_ok (w\<lparr>room := p, segs := (segs w)(t := OwnSegment s), guards := (guards w)(t := g)\<rparr>)"
proof -
  have free: "guards w u = Free" for u using ok_facts(2) [OF assms(1)] assms(3) by blast
  have own: "\<not> holds_own (segs w u)" for u using ok_facts(1) [OF assms(1)] free by simp
  have no: "segs w u \<noteq> OwnSegment q" for u q using own [of u] by auto
  have idle: "waits w u = Idle" for u
    using ok_facts(9,10) [OF assms(1), of u] assms(4) by (cases "waits w u") auto
  show ?thesis
    by (rule ok_intro)
      (use assms free own no idle ok_facts [OF assms(1)] in \<open>auto simp: open_segment_def split: if_splits\<close>)
qed

lemma gives_back:
  assumes "world_ok w" "holds_own (segs w t)" "p = (room w)\<lparr>leases := leases (room w) - 1, published := st\<rparr>" "state_wf st"
    "\<not> holds_own seg" "g = Spent"
  shows "world_ok (w\<lparr>room := p, segs := (segs w)(t := seg), guards := (guards w)(t := g)\<rparr>)"
proof -
  have g: "guards w t \<noteq> Free" using ok_facts(1) [OF assms(1)] assms(2) by blast
  have only: "u = t" if "guards w u \<noteq> Free" for u using ok_facts(3) [OF assms(1) that g] .
  have own: "\<not> holds_own (segs w u)" if "u \<noteq> t" for u using ok_facts(1) [OF assms(1), of u] only [of u] that by blast
  have no: "segs w u \<noteq> OwnSegment q" if "u \<noteq> t" for u q using own [OF that] by auto
  have none: "\<not> (\<exists>u. holds_own (((segs w)(t := seg)) u))" using own assms(5) by auto
  have l: "leases (room w) = length (readers w) + 1" using ok_facts(4) [OF assms(1)] assms(2) by auto
  have wait: "waits w u \<noteq> Idle \<Longrightarrow> u \<noteq> t" for u using ok_facts(12) [OF assms(1), of u] g by blast
  define v where "v = w\<lparr>room := p, segs := (segs w)(t := seg), guards := (guards w)(t := g)\<rparr>"
  have v: "room v = p" "readers v = readers w" "waits v = waits w" "segs v t = seg" "guards v t = Spent"
    "\<And>u. u \<noteq> t \<Longrightarrow> segs v u = segs w u" "\<And>u. u \<noteq> t \<Longrightarrow> guards v u = Free" "\<not> (\<exists>u. holds_own (segs v u))"
    using only none assms(6) by (auto simp: v_def)
  have p: "leases p = leases (room w) - 1" "life p = life (room w)" "generation p = generation (room w)"
    "segment_active p = segment_active (room w)" "published p = st" using assms(3) by simp_all
  have "world_ok v"
  proof (rule ok_intro)
    fix u
    show "holds_own (segs v u) \<longleftrightarrow> guards v u \<noteq> Free \<and> guards v u \<noteq> Spent" using v(5) v(7) [of u] v(8) by (cases "u = t") auto
    show "waits v u \<noteq> Idle \<Longrightarrow> guards v u = Free" using v(3,7) wait by metis
    show "guards v u = TxnGuard \<Longrightarrow> life (room v) \<noteq> Sealed" using v(5) v(7) [of u] by (cases "u = t") auto
    show "segs v u = OwnSegment s \<Longrightarrow> seg_generation s = generation (room v)" for s
      using v(8) holds_own.simps by metis
    show "guards v u \<noteq> Free \<Longrightarrow> guards v x \<noteq> Free \<Longrightarrow> u = x" for x using v(7) by metis
    show "segment_active (room v) \<longleftrightarrow> (\<exists>u. guards v u \<noteq> Free)"
      using v(1,5) p(4) ok_facts(2) [OF assms(1)] g by (metis guard.distinct(5))
  qed (use v p l assms(4) ok_facts(5,7,9,10,11) [OF assms(1)] in \<open>simp_all\<close>)
  then show ?thesis by (simp add: v_def)
qed


lemma spent_release:
  assumes "world_ok w" "guards w t = Spent" "p = release_segment_writer (room w)"
  shows "world_ok (w\<lparr>room := p, guards := (guards w)(t := Free)\<rparr>)"
proof -
  have only: "guards w u \<noteq> Free \<Longrightarrow> u = t" for u using ok_facts(3) [OF assms(1), of u t] assms(2) by simp
  have own: "\<not> holds_own (segs w u)" for u using ok_facts(1) [OF assms(1), of u] only [of u] assms(2) by metis
  have no: "segs w u \<noteq> OwnSegment q" for u q using own [of u] by auto
  define v where "v = w\<lparr>room := p, guards := (guards w)(t := Free)\<rparr>"
  have v: "room v = p" "readers v = readers w" "waits v = waits w" "segs v = segs w" "guards v u = Free" for u
    using only by (auto simp: v_def)
  have p: "leases p = leases (room w)" "life p = life (room w)" "generation p = generation (room w)" "\<not> segment_active p"
    "published p = published (room w)" using assms(3) by (simp_all add: release_segment_writer_def)
  have "world_ok v"
  proof (rule ok_intro)
    show "waits v x \<noteq> Idle \<Longrightarrow> waits v y \<noteq> Idle \<Longrightarrow> x = y" for x y using ok_facts(11) [OF assms(1)] v(3) by metis
    show "leases (room v) = length (readers v) + (if \<exists>x. holds_own (segs v x) then 1 else 0)"
      using ok_facts(4) [OF assms(1)] own v p(1) by simp
  qed (use v p own no ok_facts(5,7,9,10,13) [OF assms(1)] in \<open>simp_all\<close>)
  then show ?thesis by (simp add: v_def)
qed

lemma reader_lease:
  assumes "world_ok w" "life (room w) \<noteq> Gone" "p = (room w)\<lparr>leases := leases (room w) + 1\<rparr>" "g = generation (room w)"
  shows "world_ok (w\<lparr>room := p, readers := g # readers w\<rparr>)"
proof -
  define v where "v = w\<lparr>room := p, readers := g # readers w\<rparr>"
  have v: "room v = p" "readers v = g # readers w" "waits v = waits w" "segs v = segs w" "guards v = guards w"
    by (simp_all add: v_def)
  note same = ok_facts [OF assms(1)]
  have "world_ok v"
  proof (rule ok_intro)
    show "waits v x \<noteq> Idle \<Longrightarrow> waits v y \<noteq> Idle \<Longrightarrow> x = y" for x y using same(11) v(3) by metis
    show "guards v x \<noteq> Free \<Longrightarrow> guards v y \<noteq> Free \<Longrightarrow> x = y" for x y using same(3) v(5) by metis
    show "h \<in> set (readers v) \<Longrightarrow> h = generation (room v)" for h using same(7) v assms(3,4) by auto
    show "life (room v) = Gone \<Longrightarrow> leases (room v) = 0" using v(1) assms(2,3) by simp
  qed (use v assms(3) same(1,2,4,6,8,9,10,12,13) in \<open>simp_all\<close>)
  then show ?thesis by (simp add: v_def)
qed

lemma reader_drop:
  assumes "world_ok w" "g \<in> set (readers w)"
  shows "world_ok (w\<lparr>room := drop_lease (room w), readers := remove1 g (readers w)\<rparr>)"
proof -
  have l: "length (remove1 g (readers w)) = length (readers w) - 1" "length (readers w) > 0"
    using assms(2) by (auto simp: length_remove1)
  define v where "v = w\<lparr>room := drop_lease (room w), readers := remove1 g (readers w)\<rparr>"
  have v: "room v = drop_lease (room w)" "readers v = remove1 g (readers w)" "waits v = waits w" "segs v = segs w"
    "guards v = guards w" by (simp_all add: v_def)
  note same = ok_facts [OF assms(1)]
  have "world_ok v"
  proof (rule ok_intro)
    show "waits v x \<noteq> Idle \<Longrightarrow> waits v y \<noteq> Idle \<Longrightarrow> x = y" for x y using same(11) v(3) by metis
    show "guards v x \<noteq> Free \<Longrightarrow> guards v y \<noteq> Free \<Longrightarrow> x = y" for x y using same(3) v(5) by metis
    show "h \<in> set (readers v) \<Longrightarrow> h = generation (room v)" for h
      using same(7) [of h] v(1,2) set_remove1_subset [of g "readers w"] by (auto simp: drop_lease_def)
    show "leases (room v) = length (readers v) + (if \<exists>x. holds_own (segs v x) then 1 else 0)"
      using same(4) v(1,2,4) l by (simp add: drop_lease_def)
  qed (use v same(1,2,5,6,8,9,10,12,13) in \<open>simp_all add: drop_lease_def\<close>)
  then show ?thesis by (simp add: v_def)
qed

lemma lease_Ok: "lease q = Ok p \<Longrightarrow> p = q\<lparr>leases := leases q + 1\<rparr>"
  by (auto simp: lease_def checked_add_def split: if_splits sum.splits)

lemma permit_Ok: "take_permit q = Ok p \<Longrightarrow> p = q\<lparr>leases := leases q + 1, segment_active := True\<rparr>"
  by (auto simp: take_permit_def dest!: lease_Ok split: sum.splits)

lemma install_Ok:
  assumes "install_segment base n seg q = Returns (Ok (s, p))"
  shows "seg = NoSegment" "\<not> segment_active q" "p = q\<lparr>leases := leases q + 1, segment_active := True\<rparr>"
    "s = open_segment n p" "case base of None \<Rightarrow> life q = Live | Some m \<Rightarrow> sealed_mode_is m q"
proof -
  obtain r where r: "(case base of Some m \<Rightarrow> acquire_base_retirement_lease m q | None \<Rightarrow> acquire_segment_lease q) = Returns r"
    and seg: "seg = NoSegment"
    and s: "case r of Inl e \<Rightarrow> False | Inr x \<Rightarrow> x = p \<and> s = open_segment n p"
    using assms by (auto simp: install_segment_def split: if_splits blocking.splits sum.splits)
  then have "r = take_permit q \<and> \<not> segment_active q \<and> (case base of None \<Rightarrow> life q = Live | Some m \<Rightarrow> sealed_mode_is m q)"
    by (auto simp: acquire_base_retirement_lease_def acquire_segment_lease_def split: option.splits if_splits)
  with s seg show "seg = NoSegment" "\<not> segment_active q" "p = q\<lparr>leases := leases q + 1, segment_active := True\<rparr>"
    "s = open_segment n p" "case base of None \<Rightarrow> life q = Live | Some m \<Rightarrow> sealed_mode_is m q"
    using permit_Ok by (auto split: sum.splits)
qed

lemma snapshot_Ok:
  assumes "take_snapshot seg q = Ok (v, p)"
  shows "p = q\<lparr>leases := leases q + 1\<rparr>" "life q \<noteq> Gone" "view_generation v = generation q"
  using assms
  by (auto simp: take_snapshot_def acquire_existing_lease_def acquire_read_lease_def dest!: lease_Ok
      split: installed.splits sum.splits if_splits)

lemma publish_mode_cases:
  "publish_mode q = (r, p) \<Longrightarrow> (r = Ok () \<and> mode_generation q \<noteq> - 1 \<and> p = q\<lparr>mode_generation := mode_generation q + 1\<rparr>) \<or>
     ((\<exists>e. r = Err e) \<and> mode_generation q = - 1 \<and> p = q)"
  by (auto simp: publish_mode_def next_mode_generation_def split: if_splits)


lemma own_of_guard: "world_ok w \<Longrightarrow> guards w t \<noteq> Free \<Longrightarrow> guards w t \<noteq> Spent \<Longrightarrow> \<exists>s. segs w t = OwnSegment s"
  using ok_facts(1) [of w t] by (cases "segs w t") auto

lemma commit_room:
  assumes "world_ok w" "segs w t = OwnSegment s" "commit_segment hdr (OwnSegment s) (room w) = (r, p)"
  shows "p = (room w)\<lparr>leases := leases (room w) - 1, published := published p\<rparr>" "state_wf (published p)"
proof -
  have wf: "state_wf (published (room w))" by (rule ok_facts(13) [OF assms(1)])
  obtain r2 p2 where a: "apply_segment hdr s (room w) = (r2, p2)" by (cases "apply_segment hdr s (room w)")
  note b = apply_segment_room [OF a wf]
  have d: "drop_lease p2 = (room w)\<lparr>leases := leases (room w) - 1, published := published p2\<rparr>"
    by (subst conjunct2 [OF b]) (simp add: drop_lease_def)
  show "p = (room w)\<lparr>leases := leases (room w) - 1, published := published p\<rparr>"
    using assms(3) d by (auto simp: commit_segment_def a drop_lease_def split: if_splits)
  show "state_wf (published p)"
    using assms(3) b wf by (auto simp: commit_segment_def a drop_lease_def split: if_splits)
qed

lemma retirement_room:
  assumes "state_wf (published q)" "commit_retirement hdr m keys (OwnSegment s) q = (r, p)"
  shows "p = q\<lparr>leases := leases q - 1, published := published p\<rparr>" "state_wf (published p)"
  using assms retire_snapshots_wf by (auto simp: commit_retirement_def drop_lease_def split: if_splits)

lemma other_ok:
  assumes "world_ok w" "guards w t = Free" "seg = NoSegment \<or> seg = OtherSegment"
  shows "world_ok (w\<lparr>segs := (segs w)(t := seg)\<rparr>)"
proof -
  note same = ok_facts [OF assms(1)]
  have own: "holds_own (((segs w)(t := seg)) u) = holds_own (segs w u)" for u
    using same(1) [of t] assms(2,3) by auto
  define v where "v = w\<lparr>segs := (segs w)(t := seg)\<rparr>"
  have v: "room v = room w" "readers v = readers w" "waits v = waits w" "guards v = guards w"
    "segs v u = OwnSegment s \<Longrightarrow> segs w u = OwnSegment s" "holds_own (segs v u) = holds_own (segs w u)" for u s
    using own [of u] assms(3) by (auto simp: v_def split: if_splits)
  have "world_ok v"
  proof (rule ok_intro)
    show "waits v x \<noteq> Idle \<Longrightarrow> waits v y \<noteq> Idle \<Longrightarrow> x = y" for x y using same(11) v(3) by metis
    show "guards v x \<noteq> Free \<Longrightarrow> guards v y \<noteq> Free \<Longrightarrow> x = y" for x y using same(3) v(4) by metis
    show "segs v u = OwnSegment s \<Longrightarrow> seg_generation s = generation (room v)" for u s using same(6) v(1,5) by metis
  qed (use v(1,2,3,4,6) same(1,2,4,5,7,8,9,10,12,13) in \<open>simp_all\<close>)
  then show ?thesis by (simp add: v_def)
qed

lemma stage_ok:
  assumes "world_ok w" "segs w t = OwnSegment s" "segs w t = OwnSegment s \<Longrightarrow> q = OwnSegment s' \<and> seg_generation s' = seg_generation s"
  shows "world_ok (w\<lparr>segs := (segs w)(t := q)\<rparr>)"
proof -
  note same = ok_facts [OF assms(1)]
  have q: "q = OwnSegment s'" "seg_generation s' = seg_generation s" using assms(2,3) by blast+
  define v where "v = w\<lparr>segs := (segs w)(t := q)\<rparr>"
  have v: "room v = room w" "readers v = readers w" "waits v = waits w" "guards v = guards w"
    "holds_own (segs v u) = holds_own (segs w u)" for u
    using assms(2) q by (auto simp: v_def)
  have "world_ok v"
  proof (rule ok_intro)
    show "waits v x \<noteq> Idle \<Longrightarrow> waits v y \<noteq> Idle \<Longrightarrow> x = y" for x y using same(11) v(3) by metis
    show "guards v x \<noteq> Free \<Longrightarrow> guards v y \<noteq> Free \<Longrightarrow> x = y" for x y using same(3) v(4) by metis
    show "segs v u = OwnSegment x \<Longrightarrow> seg_generation x = generation (room v)" for u x
      using same(6) [of u x] same(6) [OF assms(2)] q v(1) by (auto simp: v_def split: if_splits)
  qed (use v same(1,2,4,5,7,8,9,10,12,13) in \<open>simp_all\<close>)
  then show ?thesis by (simp add: v_def)
qed

lemma drop_guard_ok:
  assumes "world_ok w" "guards w t \<noteq> Free" "abort_segment (segs w t) (room w) = (seg, p)"
  shows "world_ok (w\<lparr>room := release_segment_writer p, segs := (segs w)(t := seg), guards := (guards w)(t := Free)\<rparr>)"
proof (cases "guards w t = Spent")
  case True
  then have "seg = segs w t" "p = room w"
    using assms(3) ok_facts(1) [OF assms(1), of t] by (auto simp: abort_segment_def split: installed.splits)
  then show ?thesis using spent_release [OF assms(1) True refl] by simp
next
  case False
  obtain s where s: "segs w t = OwnSegment s" using own_of_guard [OF assms(1,2) False] by blast
  then have p: "seg = NoSegment" "p = (room w)\<lparr>leases := leases (room w) - 1, published := published (room w)\<rparr>"
    using assms(3) by (auto simp: abort_segment_def drop_lease_def)
  have "world_ok (w\<lparr>room := p, segs := (segs w)(t := NoSegment), guards := (guards w)(t := Spent)\<rparr>)"
    by (rule gives_back [OF assms(1) _ p(2) ok_facts(13) [OF assms(1)]]) (use s in simp_all)
  from spent_release [OF this _ refl, of t] show ?thesis using p(1) by (cases w) simp
qed


lemma waits_idle:
  assumes "world_ok w" "life (room w) \<noteq> Sealing" "life (room w) \<noteq> Closing"
  shows "waits w u = Idle"
  using ok_facts(9,10) [OF assms(1), of u] assms(2,3) by (cases "waits w u") auto

lemma quiet_room:
  assumes "world_ok w" "\<not> segment_active (room w)"
  shows "guards w u = Free" "\<not> holds_own (segs w u)"
  using ok_facts(1,2) [OF assms(1)] assms(2) by blast+

lemma seal_begin_ok:
  assumes "world_ok w" "guards w t \<noteq> Spent" "seal_begin (segs w t) (room w) = (Ok True, p)"
  shows "world_ok (w\<lparr>room := p, waits := (waits w)(t := SealWait)\<rparr>)"
proof -
  have p: "p = (room w)\<lparr>life := Sealing\<rparr>" "life (room w) = Live" "\<not> holds_own (segs w t)"
    using assms(3) by (auto simp: seal_begin_def split: if_splits life_state.splits)
  then have idle: "waits w u = Idle" for u using waits_idle [OF assms(1)] by simp
  have free: "guards w t = Free" using ok_facts(1) [OF assms(1), of t] assms(2) p(3) by blast
  show ?thesis
    by (rule ok_room [OF assms(1)]) (use p idle free ok_facts(13) [OF assms(1)] in \<open>auto split: if_splits\<close>)
qed

lemma seal_finish_ok:
  assumes "world_ok w" "waits w t = SealWait" "seal_finish (room w) = Returns (r, p)"
  shows "world_ok (w\<lparr>room := p, waits := (waits w)(t := Idle)\<rparr>)"
proof -
  have q: "\<not> segment_active (room w)" "publish_mode ((room w)\<lparr>life := Sealed\<rparr>) = (r, p)"
    using assms(3) by (auto simp: seal_finish_def split: if_splits)
  have p: "leases p = leases (room w)" "generation p = generation (room w)" "segment_active p = segment_active (room w)"
    "published p = published (room w)" "life p = Sealed" using publish_mode_cases [OF q(2)] by auto
  have idle: "((waits w)(t := Idle)) u = Idle" for u using ok_facts(11) [OF assms(1), of u t] assms(2) by auto
  show ?thesis
    by (rule ok_room [OF assms(1) p(1-3)])
      (use p idle quiet_room(1) [OF assms(1) q(1)] ok_facts(13) [OF assms(1)] in \<open>simp_all del: fun_upd_apply\<close>)
qed

lemma rearm_ok:
  assumes "world_ok w" "rearm (room w) = (r, p)"
  shows "world_ok (w\<lparr>room := p\<rparr>)"
proof (cases "life (room w) = Sealed")
  case True
  then have p: "leases p = leases (room w)" "generation p = generation (room w)" "segment_active p = segment_active (room w)"
    "published p = published (room w)" "life p = Live"
    using assms(2) by (auto simp: rearm_def dest!: publish_mode_cases)
  have "world_ok (w\<lparr>room := p, waits := waits w\<rparr>)"
    by (rule ok_room [OF assms(1) p(1-3)])
      (use p waits_idle [OF assms(1)] True ok_facts(13) [OF assms(1)] in \<open>simp_all\<close>)
  then show ?thesis by (cases w) simp
next
  case False
  then have "p = room w" using assms(2) by (simp add: rearm_def)
  then show ?thesis using assms(1) by simp
qed

lemma close_begin_ok:
  assumes "world_ok w" "waits w t = Idle" "guards w t \<noteq> Spent" "close_begin (segs w t) (room w) = (r, p)"
  shows "world_ok (w\<lparr>room := p, waits := (waits w)(t := (case r of Inl _ \<Rightarrow> Idle | Inr _ \<Rightarrow> CloseWait visit))\<rparr>)"
proof (cases "\<not> holds_own (segs w t) \<and> (life (room w) = Live \<or> life (room w) = Sealed)")
  case True
  then have q: "publish_mode ((room w)\<lparr>life := Closing\<rparr>) = (r, p)" using assms(4) by (simp add: close_begin_def)
  have p: "leases p = leases (room w)" "generation p = generation (room w)" "segment_active p = segment_active (room w)"
    "published p = published (room w)" "life p = Closing" using publish_mode_cases [OF q] by auto
  have idle: "waits w u = Idle" for u using waits_idle [OF assms(1)] True by auto
  have free: "guards w t = Free" using ok_facts(1) [OF assms(1), of t] assms(3) True by blast
  show ?thesis
    by (rule ok_room [OF assms(1) p(1-3)])
      (use p idle free ok_facts(13) [OF assms(1)] in \<open>auto split: if_splits sum.splits\<close>)
next
  case False
  then have "p = room w" "\<exists>e. r = Err e" using assms(4) by (auto simp: close_begin_def split: if_splits)
  then show ?thesis using assms(1,2) by (auto simp: fun_upd_idem)
qed

lemma close_finish_cases:
  assumes "close_finish visit q = Returns (r, p)"
  shows "leases q = 0" "(p = q \<and> generation q = - 1 \<and> (\<exists>e. r = Err e)) \<or>
    (generation q \<noteq> - 1 \<and> p = q\<lparr>generation := generation q + 1, life := Gone, published := membership_only (published q)\<rparr>)"
  using assms by (auto simp: close_finish_def split: if_splits)


lemma close_finish_ok:
  assumes "world_ok w" "waits w t = CloseWait visit" "close_finish visit (room w) = Returns (r, p)"
  shows "world_ok (w\<lparr>room := p, waits := (waits w)(t := Idle)\<rparr>)"
proof -
  note same = ok_facts [OF assms(1)]
  note q = close_finish_cases [OF assms(3)]
  have idle: "((waits w)(t := Idle)) u = Idle" for u using same(11) [of u t] assms(2) by auto
  have closing: "life (room w) = Closing" by (rule same(10) [OF assms(2)])
  have none: "readers w = []" "\<not> holds_own (segs w u)" for u using same(4) q(1) by (auto split: if_splits)
  have no: "segs w u \<noteq> OwnSegment s" for u s using none(2) [of u] by auto
  have txn: "guards w u \<noteq> TxnGuard" for u using same(1) [of u] none(2) [of u] by auto
  define v where "v = w\<lparr>room := p, waits := (waits w)(t := Idle)\<rparr>"
  have v: "room v = p" "readers v = []" "waits v u = Idle" "segs v = segs w" "guards v = guards w" for u
    using none(1) idle by (simp_all add: v_def)
  have p: "leases p = 0" "segment_active p = segment_active (room w)" "state_wf (published p)"
    using q membership_wf [OF same(13)] same(13) by auto
  have "world_ok v"
  proof (rule ok_intro)
    show "guards v x \<noteq> Free \<Longrightarrow> guards v y \<noteq> Free \<Longrightarrow> x = y" for x y using same(3) v(5) by metis
  qed (use v p none no txn same(1,2) in \<open>simp_all\<close>)
  then show ?thesis by (simp add: v_def)
qed

lemma retire_closure_wf: "state_wf s \<Longrightarrow> state_wf (retire_closure hdr plan kept s)"
proof -
  assume s: "state_wf s"
  obtain u js where u: "takes (retired_of plan kept s) s u" "retire_closure hdr plan kept s = recalculate_bytes hdr (u\<lparr>journal := js\<rparr>)"
    using retire_closure_takes [OF s] by blast
  have "state_wf u" using u(1) by (simp add: takes_def)
  then show ?thesis unfolding u(2) by (simp add: state_wf_def)
qed

lemma retire_saved_wf:
  assumes "state_wf s" "state_wf snap" "distinct saved"
  shows "state_wf (retire_saved hdr snap saved slots s)"
proof -
  obtain u js where "loses (saved_loses saved slots snap s) (posting_loses snap s (set saved)) s u"
    "retire_saved hdr snap saved slots s = recalculate_bytes hdr (u\<lparr>journal := js\<rparr>)"
    using retire_saved_loses [OF assms] by metis
  then show ?thesis by (auto simp: loses_def state_wf_def)
qed

lemma publish_ok:
  assumes "world_ok w" "state_wf st"
  shows "world_ok (w\<lparr>room := (room w)\<lparr>published := st\<rparr>\<rparr>)"
proof -
  have "world_ok (w\<lparr>room := (room w)\<lparr>published := st\<rparr>, waits := waits w\<rparr>)"
  proof (rule ok_room [OF assms(1)])
    show "waits w x \<noteq> Idle \<Longrightarrow> waits w y \<noteq> Idle \<Longrightarrow> x = y" for x y using ok_facts(11) [OF assms(1)] by metis
  qed (use assms(2) ok_facts(5,8,9,10,12) [OF assms(1)] in \<open>simp_all\<close>)
  then show ?thesis by (cases w) simp
qed

lemma step_ok: "world_step hdr w w' \<Longrightarrow> world_ok w \<Longrightarrow> world_ok w'"
proof (induction rule: world_step.induct)
  case (step_install w t n s p)
  note i = install_Ok [OF step_install(3)]
  show ?case by (rule permit_install [OF step_install(4,2)]) (use i step_install(1) in simp_all)
next
  case (step_install_retirement w t r n s p)
  then have "install_segment (Some (route_mode r)) n (segs w t) (room w) = Returns (Ok (s, p))"
    by (simp add: install_base_row_retirement_def split: if_splits)
  note i = install_Ok [OF this]
  show ?case by (rule permit_install [OF step_install_retirement(4,2)])
      (use i step_install_retirement(1) in \<open>simp_all add: sealed_mode_is_def\<close>)
next
  case (step_other w t seg)
  then show ?case using other_ok by blast
next
  case (step_stage w t p)
  then obtain s where s: "segs w t = OwnSegment s" using own_of_guard [of w t] by auto
  obtain s' where s': "run_stage hdr (budget_bytes (room w)) p (OwnSegment s) = OwnSegment s'" "seg_generation s' = seg_generation s"
    using run_stage_own by blast
  then show ?case using stage_ok [OF step_stage(2) s, of _ s'] s by simp
next
  case (step_commit w t r p)
  then obtain s where s: "segs w t = OwnSegment s" using own_of_guard [of w t] by auto
  note c = commit_room [OF step_commit(3) s step_commit(2) [unfolded s]]
  show ?case by (rule gives_back [OF step_commit(3) _ c]) (use s in simp_all)
next
  case (step_retire w t m keys r p)
  then obtain s where s: "segs w t = OwnSegment s" using own_of_guard [of w t] by auto
  note c = retirement_room [OF ok_facts(13) [OF step_retire(3)] step_retire(2) [unfolded s]]
  show ?case by (rule gives_back [OF step_retire(3) _ c]) (use s in simp_all)
next
  case (step_drop_guard w t seg p)
  then show ?case using drop_guard_ok by blast
next
  case (step_snapshot w t v p)
  note q = snapshot_Ok [OF step_snapshot(3)]
  show ?case by (rule reader_lease [OF step_snapshot(4) q(2,1,3)])
next
  case (step_drop_snapshot g w)
  then show ?case using reader_drop by blast
next
  case (step_seal_begin w t p)
  then show ?case using seal_begin_ok by blast
next
  case (step_seal_finish w t r p)
  then show ?case using seal_finish_ok by blast
next
  case (step_rearm w t r p)
  then show ?case using rearm_ok by blast
next
  case (step_close_begin w t r p visit)
  then show ?case using close_begin_ok by blast
next
  case (step_close_finish w t visit r p)
  then show ?case using close_finish_ok by blast
next
  case (step_retire_closure w plan kept)
  then show ?case using publish_ok retire_closure_wf ok_facts(13) by blast
next
  case (step_retire_saved snap saved own slots w r p)
  have wf: "state_wf (published (room w))" by (rule ok_facts(13) [OF step_retire_saved(4)])
  from publish_ok [OF step_retire_saved(4) retire_saved_wf [OF wf step_retire_saved(1,2)]] step_retire_saved(3,4)
  show ?case by (auto simp: retire_saved_artifacts_def split: if_splits)
next
  case (step_release w)
  show ?case
  proof (cases "life (room w) = Gone")
    case True
    then show ?thesis using publish_ok [OF step_release empty_state_wf] by (simp add: release_closed_state_def)
  qed (use step_release in \<open>simp add: release_closed_state_def\<close>)
qed

lemma reaches_ok: "world_reaches hdr w w' \<Longrightarrow> world_ok w \<Longrightarrow> world_ok w'"
  by (induction rule: rtranclp_induct) (auto dest: step_ok)


section \<open>What every run keeps\<close>

declare new_world_def [room_calls] new_room_def [room_calls] install_segment_def [room_calls]
  acquire_segment_lease_def [room_calls] take_permit_def [room_calls] lease_def [room_calls] checked_add_def [room_calls]
  usize_max_def [room_calls] open_segment_def [room_calls] take_snapshot_def [room_calls] acquire_read_lease_def [room_calls]
  seal_begin_def [room_calls] seal_finish_def [room_calls] publish_mode_def [room_calls] next_mode_generation_def [room_calls]
  revalidate_def [room_calls] mint_route_def [room_calls]




section \<open>A sealed room\<close>

definition shrinks :: "overlay_state \<Rightarrow> overlay_state \<Rightarrow> bool" where
  "shrinks s t \<longleftrightarrow>
     (\<forall>k key v. row_at t k key = Some v \<longrightarrow> row_at s k key = Some v) \<and>
     (\<forall>k. cleared t k = cleared s k) \<and>
     (\<forall>word i v. posting_at t word i = Some v \<longrightarrow> posting_at s word i = Some v) \<and> (\<forall>word. masks_at t word = masks_at s word) \<and>
     set (journal t) \<subseteq> set (journal s) \<and> next_seq t = next_seq s \<and> bookkeeping t = bookkeeping s"

lemma shrinks_refl: "shrinks s s"
  by (simp add: shrinks_def)

lemma shrinks_trans: "shrinks s t \<Longrightarrow> shrinks t u \<Longrightarrow> shrinks s u"
  unfolding shrinks_def by (metis subset_trans)

lemma shrinks_recalculate: "shrinks s t \<Longrightarrow> shrinks s (recalculate_bytes hdr t)"
  by (simp add: shrinks_def row_at_def cleared_def posting_at_def masks_at_def recalculate_bytes_def)

lemma shrinks_retire:
  assumes "state_wf s" "\<not> is_dupsort k"
  shows "shrinks s (retire_snapshot_row snap k key s)"
proof -
  have w: "ks_wf k (keyspaces s k)" using assms(1) by (simp add: state_wf_def)
  show ?thesis
  proof (cases "keyspaces s k")
    case (Single c now)
    with w have o: "ordered now" by simp
    show ?thesis
    proof (cases "keyspaces snap k")
      case (Single c2 before)
      show ?thesis
        using assms(2) o Single \<open>keyspaces s k = Single c now\<close>
        by (auto simp: shrinks_def retire_snapshot_row_def row_at_def cleared_def posting_at_def masks_at_def is_dupsort_def
            split: if_splits)
    qed (simp add: retire_snapshot_row_def Single shrinks_refl)
  next
    case (DupSort c rows)
    then show ?thesis by (simp add: retire_snapshot_row_def shrinks_refl split: keyspace_state.split)
  qed
qed

lemma shrinks_retires:
  "state_wf s \<Longrightarrow> \<not> is_dupsort k \<Longrightarrow> shrinks s (fold (retire_snapshot_row snap k) keys s)"
proof (induction keys arbitrary: s)
  case (Cons key keys)
  show ?case using shrinks_trans [OF shrinks_retire Cons.IH [OF retire_snapshot_wf]] Cons.prems by simp
qed (simp add: shrinks_refl)

lemma shrinks_loses:
  assumes "loses D P s u"
  shows "shrinks s (recalculate_bytes hdr (u\<lparr>journal := filter Q (journal s)\<rparr>))"
proof -
  have "shrinks s (u\<lparr>journal := filter Q (journal s)\<rparr>)"
    using assms by (auto simp: loses_def shrinks_def row_at_def cleared_def posting_at_def masks_at_def split: if_splits)
  then show ?thesis by (rule shrinks_recalculate)
qed

lemma shrinks_closure:
  assumes "state_wf s"
  shows "shrinks s (retire_closure hdr plan kept s)"
proof -
  obtain u Q where u: "takes (retired_of plan kept s) s u"
    "retire_closure hdr plan kept s = recalculate_bytes hdr (u\<lparr>journal := filter Q (journal s)\<rparr>)"
    using retire_closure_takes [OF assms] by blast
  show ?thesis unfolding u(2) by (rule shrinks_loses [OF takes_loses [OF u(1)]])
qed

lemma shrinks_saved:
  assumes "state_wf s" "state_wf snap" "distinct saved"
  shows "shrinks s (retire_saved hdr snap saved slots s)"
proof -
  obtain u Q where u: "loses (saved_loses saved slots snap s) (posting_loses snap s (set saved)) s u"
    "retire_saved hdr snap saved slots s = recalculate_bytes hdr (u\<lparr>journal := filter Q (journal u)\<rparr>)"
    using retire_saved_loses [OF assms] by metis
  moreover from u(1) have "journal u = journal s" by (simp add: loses_def)
  ultimately show ?thesis using shrinks_loses by metis
qed

lemma sealed_step:
  assumes "world_step hdr w w'" "world_ok w" "life (room w) = Sealed"
  shows "shrinks (published (room w)) (published (room w'))"
  using assms
proof (induction rule: world_step.induct)
  case (step_commit w t r p)
  then show ?case using ok_facts(8) [OF step_commit(3)] by simp
next
  case (step_retire w t m keys r p)
  then obtain s where s: "segs w t = OwnSegment s" using own_of_guard [of w t] by auto
  note wf = ok_facts(13) [OF step_retire(3)]
  have "shrinks (published (room w)) (recalculate_bytes hdr
      (fold (retire_snapshot_row (preview s) KsVaultMeta) keys (published (room w))))"
    by (rule shrinks_recalculate, rule shrinks_retires [OF wf]) (simp add: is_dupsort_def)
  then show ?case
    using step_retire(2) by (auto simp: s commit_retirement_def drop_lease_def shrinks_refl split: if_splits)
next
  case (step_install w t n s p)
  then show ?case using install_Ok(5) by fastforce
next
  case (step_install_retirement w t r n s p)
  then have "install_segment (Some (route_mode r)) n (segs w t) (room w) = Returns (Ok (s, p))"
    by (simp add: install_base_row_retirement_def split: if_splits)
  from install_Ok(3) [OF this] show ?case by (simp add: shrinks_refl)
next
  case (step_seal_finish w t r p)
  then show ?case using ok_facts(9) [OF step_seal_finish(3)] by simp
next
  case (step_close_finish w t visit r p)
  then show ?case using ok_facts(10) [OF step_close_finish(3)] by simp
next
  case (step_retire_closure w plan kept)
  then show ?case using shrinks_closure ok_facts(13) by simp
next
  case (step_retire_saved snap saved own slots w r p)
  note wf = ok_facts(13) [OF step_retire_saved(4)]
  from shrinks_saved [OF wf step_retire_saved(1,2)] step_retire_saved(3)
  show ?case by (auto simp: retire_saved_artifacts_def shrinks_refl split: if_splits)
next
  case (step_snapshot w t v p)
  then show ?case using snapshot_Ok(1) by (fastforce simp: shrinks_refl)
qed (auto simp: shrinks_refl drop_lease_def abort_segment_def release_segment_writer_def seal_begin_def rearm_def
    close_begin_def publish_mode_def release_closed_state_def split: installed.splits if_splits sum.splits life_state.splits)

lemma sealed_run:
  assumes "(\<lambda>u v. world_step hdr u v \<and> life (room u) = Sealed)\<^sup>*\<^sup>* w w'" "world_ok w"
  shows "shrinks (published (room w)) (published (room w')) \<and> world_ok w'"
  using assms
proof (induction rule: rtranclp_induct)
  case (step u v)
  then show ?case using sealed_step step_ok shrinks_trans by blast
qed (simp add: shrinks_refl)





section \<open>Routes across modes\<close>

text \<open>How far a room's life can move while its mode generation stays where it is.\<close>

definition same_mode :: "life_state \<Rightarrow> life_state \<Rightarrow> bool" where
  "same_mode l m \<longleftrightarrow> m = l \<or> (l = Live \<and> m = Sealing) \<or> (l = Closing \<and> m = Gone)"

definition mode_moves :: "session_overlay \<Rightarrow> session_overlay \<Rightarrow> bool" where
  "mode_moves p q \<longleftrightarrow> unat (mode_generation p) \<le> unat (mode_generation q) \<and>
     (mode_generation p = mode_generation q \<and> mode_generation q \<noteq> - 1 \<longrightarrow> same_mode (life p) (life q))"

lemma mode_moves_refl: "mode_moves p p"
  by (simp add: mode_moves_def same_mode_def)

lemma mode_moves_trans:
  assumes "mode_moves p q" "mode_moves q r"
  shows "mode_moves p r"
proof -
  have "mode_generation q = mode_generation p" if "mode_generation p = mode_generation r"
    using assms that unfolding mode_moves_def by (simp add: word_unat_eq_iff)
  then show ?thesis
    using assms unfolding mode_moves_def same_mode_def by (auto intro: order_trans)
qed

lemma mode_moves_publish:
  assumes "publish_mode (q\<lparr>life := l\<rparr>) = (r, p)"
  shows "mode_moves q p"
proof (cases "mode_generation q = - 1")
  case True
  then have "mode_generation p = mode_generation q" using publish_mode_cases [OF assms] by auto
  then show ?thesis using True by (simp add: mode_moves_def)
next
  case False
  then have "mode_generation p = mode_generation q + 1" using publish_mode_cases [OF assms] by auto
  then show ?thesis using next_word [OF False] by (simp add: mode_moves_def)
qed

lemma mode_step: "world_step hdr w w' \<Longrightarrow> world_ok w \<Longrightarrow> mode_moves (room w) (room w')"
proof (induction rule: world_step.induct)
  case (step_install w t n s p)
  from install_Ok(3) [OF step_install(3)] show ?case by (simp add: mode_moves_def same_mode_def)
next
  case (step_install_retirement w t r n s p)
  then have "install_segment (Some (route_mode r)) n (segs w t) (room w) = Returns (Ok (s, p))"
    by (simp add: install_base_row_retirement_def split: if_splits)
  from install_Ok(3) [OF this] show ?case by (simp add: mode_moves_def same_mode_def)
next
  case (step_commit w t r p)
  then obtain s where s: "segs w t = OwnSegment s" using own_of_guard [of w t] by auto
  note p = commit_room(1) [OF step_commit(3) s step_commit(2) [unfolded s]]
  from arg_cong [OF p, of mode_generation] arg_cong [OF p, of life]
  have "mode_generation p = mode_generation (room w)" "life p = life (room w)" by simp_all
  then show ?case by (simp add: mode_moves_def same_mode_def)
next
  case (step_seal_begin w t p)
  then show ?case
    by (auto simp: seal_begin_def mode_moves_def same_mode_def split: if_splits life_state.splits)
next
  case (step_seal_finish w t r p)
  then show ?case by (auto simp: seal_finish_def split: if_splits intro: mode_moves_publish)
next
  case (step_rearm w t r p)
  then show ?case by (auto simp: rearm_def mode_moves_refl split: if_splits intro: mode_moves_publish)
next
  case (step_close_begin w t r p visit)
  then show ?case by (auto simp: close_begin_def mode_moves_refl split: if_splits intro: mode_moves_publish)
next
  case (step_close_finish w t visit r p)
  from close_finish_cases(2) [OF step_close_finish(2)] ok_facts(10) [OF step_close_finish(3,1)]
  show ?case by (auto simp: mode_moves_def same_mode_def)
next
  case (step_snapshot w t v p)
  from snapshot_Ok(1) [OF step_snapshot(3)] show ?case by (simp add: mode_moves_def same_mode_def)
qed (auto simp: mode_moves_def same_mode_def drop_lease_def abort_segment_def release_segment_writer_def
    commit_retirement_def release_closed_state_def retire_saved_artifacts_def split: installed.splits if_splits)

lemma mode_run: "world_reaches hdr w w' \<Longrightarrow> world_ok w \<Longrightarrow> mode_moves (room w) (room w')"
proof (induction rule: rtranclp_induct)
  case (step u v)
  then show ?case using mode_step mode_moves_trans reaches_ok by blast
qed (simp add: mode_moves_refl)

text \<open>C6: A route outlives no change of mode: a route minted in any state of a room that still validates
  after any run of its threads finds the room in the mode it was minted in, where a live room may at most
  be waiting for its last writer before it seals and a closing one be gone; a route of a live room is
  refused once the room is sealed or closing, one of a sealed room once it is live again or closing.  The
  counter of modes is below its last value, which no further change of mode can leave.\<close>

theorem stale_route_refused:
  assumes "world_reaches hdr (new_world gen budget) w" "world_reaches hdr w w'"
    "mode_generation (room w') \<noteq> - 1"
    "revalidate (room w') (mint_route (room w) tg) = Ok ()"
  shows "life (room w') = life (room w) \<or> (life (room w) = Live \<and> life (room w') = Sealing) \<or>
    (life (room w) = Closing \<and> life (room w') = Gone)"
  using mode_run [OF assms(2) reaches_ok [OF assms(1) new_world_ok]] assms(3,4)
  by (auto simp: mode_moves_def same_mode_def revalidate_def mint_route_def split: if_splits)

lemma stale_route_refused_witness:
  "\<exists>w w'. world_step 0 w w' \<and> life (room w) = Live \<and> revalidate (room w') (mint_route (room w) RouteBase) = Ok () \<and>
    life (room w') = Sealing"
proof -
  let ?w0 = "new_world 1 10"
  let ?w1 = "?w0\<lparr>room := (new_room 1 10)\<lparr>life := Sealing\<rparr>, waits := (waits ?w0)(0 := SealWait)\<rparr>"
  have s: "world_step 0 ?w0 ?w1"
    by (rule step_seal_begin) (simp_all add: room_calls)
  have "life (room ?w1) = life (room ?w0) \<or> (life (room ?w0) = Live \<and> life (room ?w1) = Sealing) \<or>
      (life (room ?w0) = Closing \<and> life (room ?w1) = Gone)"
    by (rule stale_route_refused [where tg = RouteBase, OF rtranclp.rtrancl_refl r_into_rtranclp [where r = "world_step 0", OF s]])
      (simp_all add: room_calls)
  then show ?thesis
    using s by (intro exI [of _ ?w0] exI [of _ ?w1]) (simp add: room_calls)
qed

section \<open>A waiting call can finish\<close>

lemma drops_readers:
  "world_ok w \<Longrightarrow> \<exists>w'. world_reaches hdr w w' \<and> readers w' = [] \<and> waits w' = waits w \<and> guards w' = guards w \<and>
     segs w' = segs w \<and> life (room w') = life (room w) \<and> generation (room w') = generation (room w)"
proof (induction "length (readers w)" arbitrary: w)
  case (Suc n)
  then obtain g gs where g: "readers w = g # gs" by (cases "readers w") auto
  let ?v = "w\<lparr>room := drop_lease (room w), readers := remove1 g (readers w)\<rparr>"
  have s: "world_step hdr w ?v" by (rule step_drop_snapshot) (simp add: g)
  have "n = length (readers ?v)" using Suc.hyps(2) by (simp add: g)
  from Suc.hyps(1) [OF this step_ok [OF s Suc.prems]] obtain w' where "world_reaches hdr ?v w'" "readers w' = []"
    "waits w' = waits w" "guards w' = guards w" "segs w' = segs w" "life (room w') = life (room w)"
    "generation (room w') = generation (room w)" by (auto simp: drop_lease_def)
  then show ?case using converse_rtranclp_into_rtranclp [where r = "world_step hdr", OF s] by blast
qed auto

lemma drops_guard:
  assumes "world_ok w"
  shows "\<exists>w'. world_reaches hdr w w' \<and> \<not> segment_active (room w') \<and> waits w' = waits w \<and> readers w' = readers w \<and>
     life (room w') = life (room w) \<and> generation (room w') = generation (room w)"
proof (cases "segment_active (room w)")
  case True
  then obtain u where u: "guards w u \<noteq> Free" using ok_facts(2) [OF assms] by blast
  obtain seg p where a: "abort_segment (segs w u) (room w) = (seg, p)" by (cases "abort_segment (segs w u) (room w)")
  have p: "life p = life (room w)" "generation p = generation (room w)"
    using a by (auto simp: abort_segment_def drop_lease_def split: installed.splits)
  note s = step_drop_guard [where hdr = hdr, OF u a]
  show ?thesis
    by (intro exI conjI, rule r_into_rtranclp [where r = "world_step hdr", OF s]) (simp_all add: p release_segment_writer_def)
qed (use assms in blast)

text \<open>C7: No seal and no close waits in vain: from every reachable state where a thread waits to seal the
  writer can let go and the seal finish, and where it waits to close the readers and the writer can let
  go and the room be gone, unless the counter of generations is at its end; neither needs the waiting
  thread itself to release anything.\<close>

theorem waiting_call_can_finish:
  assumes "world_reaches hdr (new_world gen budget) w" "waits w t \<noteq> Idle"
  shows "(waits w t = SealWait \<longrightarrow> (\<exists>w'. world_reaches hdr w w' \<and> waits w' t = Idle \<and> life (room w') = Sealed)) \<and>
    (\<forall>visit. waits w t = CloseWait visit \<and> generation (room w) \<noteq> - 1 \<longrightarrow>
      (\<exists>w'. world_reaches hdr w w' \<and> waits w' t = Idle \<and> life (room w') = Gone))"
proof -
  have ok: "world_ok w" by (rule reaches_ok [OF assms(1) new_world_ok])
  obtain v where v: "world_reaches hdr w v" "\<not> segment_active (room v)" "waits v = waits w" "readers v = readers w"
    "life (room v) = life (room w)" "generation (room v) = generation (room w)" using drops_guard [OF ok] by blast
  have "\<exists>w'. world_reaches hdr w w' \<and> waits w' t = Idle \<and> life (room w') = Sealed" if s: "waits w t = SealWait"
  proof -
    obtain r p where p: "seal_finish (room v) = Returns (r, p)" "life p = Sealed"
      using v(2) publish_mode_cases [of "(room v)\<lparr>life := Sealed\<rparr>"]
      by (cases "publish_mode ((room v)\<lparr>life := Sealed\<rparr>)") (fastforce simp: seal_finish_def)
    have "world_step hdr v (v\<lparr>room := p, waits := (waits v)(t := Idle)\<rparr>)"
      by (rule step_seal_finish [OF _ p(1)]) (simp add: v(3) s)
    then show ?thesis using rtranclp.rtrancl_into_rtrancl [OF v(1)] p(2) by fastforce
  qed
  moreover have "\<exists>w'. world_reaches hdr w w' \<and> waits w' t = Idle \<and> life (room w') = Gone"
    if c: "waits w t = CloseWait visit" "generation (room w) \<noteq> - 1" for visit
  proof -
    have okv: "world_ok v" by (rule reaches_ok [OF v(1) ok])
    obtain x where x: "world_reaches hdr v x" "readers x = []" "waits x = waits v" "guards x = guards v" "segs x = segs v"
      "life (room x) = life (room v)" "generation (room x) = generation (room v)" using drops_readers [OF okv] by blast
    have okx: "world_ok x" by (rule reaches_ok [OF x(1) okv])
    have own: "\<not> holds_own (segs x u)" for u using quiet_room(2) [OF okv v(2)] x(5) by simp
    then have l: "leases (room x) = 0" using ok_facts(4) [OF okx] x(2) by simp
    obtain r p where p: "close_finish visit (room x) = Returns (r, p)" "life p = Gone"
      using l c(2) x(7) v(6) by (auto simp: close_finish_def)
    have "world_step hdr x (x\<lparr>room := p, waits := (waits x)(t := Idle)\<rparr>)"
      by (rule step_close_finish [OF _ p(1)]) (simp add: x(3) v(3) c(1))
    then show ?thesis using rtranclp.rtrancl_into_rtrancl [OF rtranclp_trans [OF v(1) x(1)]] p(2) by fastforce
  qed
  ultimately show ?thesis by blast
qed

lemma waiting_call_can_finish_witness:
  "\<exists>w w'. waits w 0 = SealWait \<and> world_reaches 0 w w' \<and> life (room w') = Sealed"
proof -
  let ?w0 = "new_world 1 10"
  let ?w1 = "?w0\<lparr>room := (new_room 1 10)\<lparr>life := Sealing\<rparr>, waits := (waits ?w0)(0 := SealWait)\<rparr>"
  have s: "world_step 0 ?w0 ?w1"
    by (rule step_seal_begin) (simp_all add: room_calls)
  from waiting_call_can_finish [OF r_into_rtranclp [where r = "world_step 0", OF s], of 0]
  obtain w' where "world_reaches 0 ?w1 w'" "life (room w') = Sealed" by auto
  then show ?thesis by (intro exI [of _ ?w1] exI [of _ w']) simp
qed

end
