(* ===== verification/ModelIds.thy ===== *)
theory ModelIds
  imports EntityIds
begin

text \<open>
  Model identifiers, \<open>provider/name@revision\<close> (\<open>crates/oneiron-model/src/llm/model_id.rs\<close>): the parser
  and its errors, the parts of a parsed identifier, and the names the engine makes for models that have none.

  The accessors of the code split the text again and would panic on one that has no separator; they are
  options here, and \<open>None\<close> is that panic.
\<close>

datatype model_id = ModelId (model_text: string)

datatype id_segment = ProviderSegment | NameSegment | RevisionSegment

datatype model_id_error =
  MissingProviderSeparator | MissingRevisionSeparator | EmptySegment id_segment | InvalidCharacter id_segment

definition segment_char :: "char \<Rightarrow> bool" where
  "segment_char c \<longleftrightarrow> in_range CHR ''a'' CHR ''z'' c \<or> in_range CHR ''A'' CHR ''Z'' c \<or> in_range CHR ''0'' CHR ''9'' c \<or>
     c = CHR ''.'' \<or> c = CHR ''-'' \<or> c = CHR ''_''"

definition validate_segment :: "string \<Rightarrow> id_segment \<Rightarrow> (model_id_error, unit) result" where
  "validate_segment text seg =
     (if text = [] then Err (EmptySegment seg)
      else if list_all segment_char text then Ok () else Err (InvalidCharacter seg))"

text \<open>The last place a separator stands at.\<close>

definition rsplit_once :: "char \<Rightarrow> string \<Rightarrow> (string \<times> string) option" where
  "rsplit_once sep s = map_option (\<lambda>(tail, head). (rev head, rev tail)) (split_once sep (rev s))"

definition parse_model_id :: "string \<Rightarrow> (model_id_error, model_id) result" where
  "parse_model_id text =
     (case split_once CHR ''/'' text of
        None \<Rightarrow> Err MissingProviderSeparator
      | Some (provider, remainder) \<Rightarrow>
          (case rsplit_once CHR ''@'' remainder of
             None \<Rightarrow> Err MissingRevisionSeparator
           | Some (name, revision) \<Rightarrow>
               (case validate_segment provider ProviderSegment of
                  Inl e \<Rightarrow> Err e
                | Inr _ \<Rightarrow>
                    (case validate_segment name NameSegment of
                       Inl e \<Rightarrow> Err e
                     | Inr _ \<Rightarrow>
                         (case validate_segment revision RevisionSegment of
                            Inl e \<Rightarrow> Err e
                          | Inr _ \<Rightarrow> Ok (ModelId text))))))"

definition model_provider :: "model_id \<Rightarrow> string option" where
  "model_provider m = map_option fst (split_once CHR ''/'' (model_text m))"

definition model_name :: "model_id \<Rightarrow> string option" where
  "model_name m =
     (case split_once CHR ''/'' (model_text m) of
        None \<Rightarrow> None
      | Some (_, remainder) \<Rightarrow> map_option fst (rsplit_once CHR ''@'' remainder))"

definition model_revision :: "model_id \<Rightarrow> string option" where
  "model_revision m = map_option snd (rsplit_once CHR ''@'' (model_text m))"

text \<open>A name for a bound model; \<open>None\<close> is the panic on parts that were not sanitised.\<close>

definition dynamic_model_id :: "string \<Rightarrow> string \<Rightarrow> string \<Rightarrow> model_id option" where
  "dynamic_model_id provider name revision =
     (case parse_model_id (provider @ ''/'' @ name @ ''@'' @ revision) of Inl _ \<Rightarrow> None | Inr m \<Rightarrow> Some m)"

definition trim_dots :: "string \<Rightarrow> string" where
  "trim_dots s = rev (dropWhile (\<lambda>c. c = CHR ''.'') (rev (dropWhile (\<lambda>c. c = CHR ''.'') s)))"

definition sanitize_segment :: "string \<Rightarrow> string" where
  "sanitize_segment text =
     (let sanitized = trim_dots (map (\<lambda>c. if segment_char c then c else CHR ''.'') text)
      in if sanitized = [] then ''configured'' else sanitized)"

text \<open>The text on either side of the first occurrence of a pattern.\<close>

fun split_at_text :: "string \<Rightarrow> string \<Rightarrow> (string \<times> string) option" where
  "split_at_text pat [] = (if pat = [] then Some ([], []) else None)"
| "split_at_text pat (c # s) =
     (if take (length pat) (c # s) = pat then Some ([], drop (length pat) (c # s))
      else map_option (\<lambda>(a, b). (c # a, b)) (split_at_text pat s))"

text \<open>What an endpoint is called: its host and path, without scheme, credentials, query or fragment.\<close>

definition head_before :: "char \<Rightarrow> string \<Rightarrow> string" where
  "head_before sep s = (case split_once sep s of None \<Rightarrow> s | Some (h, _) \<Rightarrow> h)"

definition endpoint_model_identity :: "string \<Rightarrow> string" where
  "endpoint_model_identity url =
     (let without_scheme = (case split_at_text ''://'' url of None \<Rightarrow> url | Some (_, rest) \<Rightarrow> rest);
          without_query = head_before CHR ''?'' (head_before CHR ''#'' without_scheme);
          slash = (case position (\<lambda>c. c = CHR ''/'') without_query of None \<Rightarrow> length without_query | Some i \<Rightarrow> i);
          authority = take slash without_query;
          host = (case rsplit_once CHR ''@'' authority of None \<Rightarrow> authority | Some (_, h) \<Rightarrow> h)
      in host @ drop slash without_query)"

section \<open>Parsing\<close>

lemma split_once_some: "split_once sep s = Some (a, b) \<longleftrightarrow> s = a @ sep # b \<and> sep \<notin> set a"
proof
  assume "split_once sep s = Some (a, b)"
  then obtain i where i: "position (\<lambda>c. c = sep) s = Some i" "a = take i s" "b = drop (Suc i) s"
    by (auto simp: split_once_def)
  with position_take [OF i(1)] id_take_nth_drop [of i s] show "s = a @ sep # b \<and> sep \<notin> set a"
    by (auto simp: list_all_iff)
next
  assume a: "s = a @ sep # b \<and> sep \<notin> set a"
  have "list_all (\<lambda>c. c \<noteq> sep) a" using a by (auto simp: list_all_iff)
  then have "position (\<lambda>c. c = sep) s = Some (length a)" using a position_split [of "\<lambda>c. c = sep" a sep b] by simp
  with a show "split_once sep s = Some (a, b)" by (simp add: split_once_def)
qed

lemma rsplit_once_some: "rsplit_once sep s = Some (a, b) \<longleftrightarrow> s = a @ sep # b \<and> sep \<notin> set b"
proof -
  have "rsplit_once sep s = Some (a, b) \<longleftrightarrow> split_once sep (rev s) = Some (rev b, rev a)"
    unfolding rsplit_once_def by (cases "split_once sep (rev s)") (auto simp: rev_swap)
  also have "\<dots> \<longleftrightarrow> s = a @ sep # b \<and> sep \<notin> set b"
    unfolding split_once_some by (auto simp: rev_swap)
  finally show ?thesis .
qed

definition good_segment :: "string \<Rightarrow> bool" where
  "good_segment s \<longleftrightarrow> s \<noteq> [] \<and> list_all segment_char s"

lemma validate_good: "validate_segment s seg = Ok u \<longleftrightarrow> good_segment s"
  by (simp add: validate_segment_def good_segment_def)

lemma good_segment_separators: "good_segment s \<Longrightarrow> CHR ''/'' \<notin> set s \<and> CHR ''@'' \<notin> set s"
  by (auto simp: good_segment_def list_all_iff segment_char_def in_range_def)

text \<open>a model identifier is its three parts.  A text parses exactly when it is a provider, a name and a
  revision of good characters with the two separators between them, and the parts it then reports are those
  three: no accessor of a parsed identifier panics.\<close>

theorem model_id_is_its_parts:
  "parse_model_id s = Ok m \<longleftrightarrow>
     (\<exists>p n r. good_segment p \<and> good_segment n \<and> good_segment r \<and> s = p @ ''/'' @ n @ ''@'' @ r \<and> m = ModelId s \<and>
        model_provider m = Some p \<and> model_name m = Some n \<and> model_revision m = Some r)"
proof
  assume "parse_model_id s = Ok m"
  then obtain p rem n r where parts: "split_once CHR ''/'' s = Some (p, rem)" "rsplit_once CHR ''@'' rem = Some (n, r)"
    and good: "good_segment p" "good_segment n" "good_segment r" and m: "m = ModelId s"
    by (auto simp: parse_model_id_def validate_good split: option.splits sum.splits prod.splits)
  then have "rsplit_once CHR ''@'' s = Some (p @ CHR ''/'' # n, r)" by (auto simp: split_once_some rsplit_once_some)
  then have "model_revision m = Some r" "model_provider m = Some p" "model_name m = Some n"
    using parts m by (simp_all add: model_revision_def model_provider_def model_name_def)
  moreover have "s = p @ ''/'' @ n @ ''@'' @ r" using parts by (simp add: split_once_some rsplit_once_some)
  ultimately show "\<exists>p n r. good_segment p \<and> good_segment n \<and> good_segment r \<and> s = p @ ''/'' @ n @ ''@'' @ r \<and> m = ModelId s \<and>
      model_provider m = Some p \<and> model_name m = Some n \<and> model_revision m = Some r"
    using good m by blast
next
  assume "\<exists>p n r. good_segment p \<and> good_segment n \<and> good_segment r \<and> s = p @ ''/'' @ n @ ''@'' @ r \<and> m = ModelId s \<and>
      model_provider m = Some p \<and> model_name m = Some n \<and> model_revision m = Some r"
  then obtain p n r where good: "good_segment p" "good_segment n" "good_segment r" and s: "s = p @ ''/'' @ n @ ''@'' @ r" and m: "m = ModelId s"
    by blast
  then have "split_once CHR ''/'' s = Some (p, n @ ''@'' @ r)" "rsplit_once CHR ''@'' (n @ ''@'' @ r) = Some (n, r)"
    by (simp_all add: split_once_some rsplit_once_some good_segment_separators)
  moreover have "validate_segment p ProviderSegment = Ok ()" "validate_segment n NameSegment = Ok ()" "validate_segment r RevisionSegment = Ok ()"
    using good by (simp_all add: validate_good)
  ultimately show "parse_model_id s = Ok m" by (simp add: parse_model_id_def m)
qed

lemma trim_dots_subset: "set (trim_dots s) \<subseteq> set s"
  unfolding trim_dots_def by (auto dest!: set_dropWhileD)

lemma sanitized_good: "good_segment (sanitize_segment s)"
proof -
  let ?t = "trim_dots (map (\<lambda>c. if segment_char c then c else CHR ''.'') s)"
  have dot: "segment_char CHR ''.''" by (simp add: segment_char_def)
  have "segment_char c" if "c \<in> set ?t" for c
  proof -
    have "c \<in> set (map (\<lambda>c. if segment_char c then c else CHR ''.'') s)" using that trim_dots_subset by blast
    then show ?thesis using dot by (auto split: if_splits)
  qed
  then have "list_all segment_char ?t" by (simp only: list_all_iff) blast
  moreover have "good_segment ''configured''" by (simp add: good_segment_def segment_char_def in_range_def)
  ultimately show ?thesis by (cases "?t = []") (simp_all only: good_segment_def sanitize_segment_def Let_def if_True if_False not_False_eq_True simp_thms)
qed

text \<open>A model named from sanitised parts always has an identifier: naming it never panics.\<close>

lemma sanitized_names_parse:
  "dynamic_model_id (sanitize_segment p) (sanitize_segment n) (sanitize_segment r) =
     Some (ModelId (sanitize_segment p @ ''/'' @ sanitize_segment n @ ''@'' @ sanitize_segment r))"
proof -
  let ?s = "sanitize_segment p @ ''/'' @ sanitize_segment n @ ''@'' @ sanitize_segment r"
  have "rsplit_once CHR ''@'' ?s = Some (sanitize_segment p @ ''/'' @ sanitize_segment n, sanitize_segment r)"
    "split_once CHR ''/'' ?s = Some (sanitize_segment p, sanitize_segment n @ ''@'' @ sanitize_segment r)"
    "rsplit_once CHR ''@'' (sanitize_segment n @ ''@'' @ sanitize_segment r) = Some (sanitize_segment n, sanitize_segment r)"
    using sanitized_good good_segment_separators by (simp_all add: split_once_some rsplit_once_some)
  moreover have "validate_segment (sanitize_segment x) seg = Ok ()" for x seg
    using validate_good [of "sanitize_segment x" seg "()"] sanitized_good by simp
  ultimately show ?thesis by (simp add: dynamic_model_id_def parse_model_id_def)
qed

end
