(* ===== verification/BudgetMeter.thy ===== *)
theory BudgetMeter
  imports EntityIds
begin

text \<open>
  The budget meter of the model calls an attempt makes (\<open>crates/oneiron-model/src/llm/budget\<close>):
  one pool of units, the rows of a policy that reserve floors in it and cap what matches them,
  the leases an admission issues, their dispatch, settlement and abort, the warning ladders, and
  the checkpoint of a settled meter.

  The guard is a mutex around one state and each of its operations runs under the lock, so an operation
  is a function from the state to its result and the next state.  Units are \<open>u64\<close>, natural numbers with
  the saturating operations written out.  The identity of a guard, an allocation the code compares by
  address, is a number.  The leases are an association list, because a checkpoint reads them all.
\<close>

section \<open>Vocabulary\<close>

datatype call_purpose =
  Extraction | Consolidation | AnswerGen | AutoCheck | ToolRouting | Voice | Eval
  | AutonomyForHuman | AutonomyOwnTime | OtherPurpose string

datatype model_locality = OnDevice | OwnServer | ThirdParty

datatype budget_denied = Exhausted | LeaseInvalid | AdmissionDenied | HostCheck

datatype exhaustion_policy = Suspend | ContinueOnLocal | Overdraft nat

fun admission_cap :: "exhaustion_policy \<Rightarrow> nat \<Rightarrow> nat" where
  "admission_cap Suspend limit = limit"
| "admission_cap ContinueOnLocal limit = limit"
| "admission_cap (Overdraft cap) limit = sat_add limit cap"

datatype budget_threshold = Silent50 | Plan80 | Land95

fun threshold_percent :: "budget_threshold \<Rightarrow> nat" where
  "threshold_percent Silent50 = 50"
| "threshold_percent Plan80 = 80"
| "threshold_percent Land95 = 95"

definition plan_template_id :: string where "plan_template_id = ''budget.plan.80''"
definition land_template_id :: string where "land_template_id = ''budget.land.95''"

definition plan_template :: string where
  "plan_template = ''Budget is at or above 80%. Re-rank the remaining work by value, keep quality '' @
     ''honest, and make a compact PLAN for what still deserves compute.''"

definition land_template :: string where
  "land_template = ''Budget is at or above 95%. Enter LAND: start no new work, write durable '' @
     ''checkpoints, and list unfinished work as cold-resumable TODOs. An '' @
     ''incomplete-but-honest checkpoint is a successful landing.''"

fun template_id :: "budget_threshold \<Rightarrow> string option" where
  "template_id Silent50 = None"
| "template_id Plan80 = Some plan_template_id"
| "template_id Land95 = Some land_template_id"

text \<open>A steering signal: its threshold, its template and the message; all go to the next turn's queue.\<close>

record steering_signal =
  signal_threshold :: budget_threshold
  signal_template :: string
  signal_message :: string

definition steering_for :: "budget_threshold \<Rightarrow> steering_signal option" where
  "steering_for t =
     (case template_id t of
        None \<Rightarrow> None
      | Some tid \<Rightarrow>
          (case t of
             Silent50 \<Rightarrow> None
           | Plan80 \<Rightarrow> Some \<lparr>signal_threshold = t, signal_template = tid, signal_message = plan_template\<rparr>
           | Land95 \<Rightarrow> Some \<lparr>signal_threshold = t, signal_template = tid, signal_message = land_template\<rparr>))"

record ladder_event =
  event_threshold :: budget_threshold
  event_steering :: "steering_signal option"
  event_row :: "nat option"

section \<open>Policy rows\<close>

datatype policy_selector = ByPurpose call_purpose | ByActor entity_id

record policy_row =
  row_selector :: policy_selector
  row_floor :: "nat option"
  row_cap :: "nat option"

fun selector_matches :: "policy_selector \<Rightarrow> call_purpose option \<Rightarrow> entity_id option \<Rightarrow> bool" where
  "selector_matches (ByPurpose p) purpose act = (purpose = Some p)"
| "selector_matches (ByActor a) purpose act = (act = Some a)"

text \<open>The name a purpose row has in a policy manifest.\<close>

fun purpose_manifest_name :: "call_purpose \<Rightarrow> string" where
  "purpose_manifest_name Extraction = ''extraction''"
| "purpose_manifest_name Consolidation = ''consolidation''"
| "purpose_manifest_name AnswerGen = ''answer_gen''"
| "purpose_manifest_name AutoCheck = ''auto_check''"
| "purpose_manifest_name ToolRouting = ''tool_routing''"
| "purpose_manifest_name Voice = ''voice''"
| "purpose_manifest_name Eval = ''eval''"
| "purpose_manifest_name AutonomyForHuman = ''autonomy.for_human''"
| "purpose_manifest_name AutonomyOwnTime = ''autonomy.own_time''"
| "purpose_manifest_name (OtherPurpose name) = name"

text \<open>What a row may spend before its ladder is at its end: its cap, and never the floors it cannot draw.\<close>

definition add_floor :: "policy_row \<Rightarrow> nat \<Rightarrow> nat" where
  "add_floor r acc = (case row_floor r of None \<Rightarrow> acc | Some f \<Rightarrow> sat_add acc f)"

definition total_floors :: "policy_row list \<Rightarrow> nat" where
  "total_floors rows = fold add_floor rows 0"

definition leaseable_floors :: "policy_row list \<Rightarrow> policy_selector \<Rightarrow> nat" where
  "leaseable_floors rows s = fold add_floor (filter (\<lambda>r. row_selector r = s) rows) 0"

definition row_horizons :: "policy_row list \<Rightarrow> nat \<Rightarrow> nat \<Rightarrow> nat list" where
  "row_horizons rows limit floors =
     map (\<lambda>r. min (case row_cap r of None \<Rightarrow> usize_max | Some c \<Rightarrow> c)
                   (limit - (floors - leaseable_floors rows (row_selector r)))) rows"

section \<open>Leases and tallies\<close>

record row_tally =
  tally_used :: nat
  tally_reserved :: nat
  floor_used :: nat
  floor_reserved :: nat
  tally_fired :: "budget_threshold set"

definition new_tally :: row_tally where
  "new_tally = \<lparr>tally_used = 0, tally_reserved = 0, floor_used = 0, floor_reserved = 0, tally_fired = {}\<rparr>"

record reserve_allocation =
  alloc_rows :: "nat list"
  alloc_floors :: "(nat \<times> nat) list"
  alloc_shared :: nat

definition no_allocation :: reserve_allocation where
  "no_allocation = \<lparr>alloc_rows = [], alloc_floors = [], alloc_shared = 0\<rparr>"

datatype reserve_plan = AdmitPlan reserve_allocation | DeniedByCap | DeniedByCapacity

record dispatch_binding =
  subject :: string
  bind_route :: string
  bind_locality :: model_locality
  offer :: string
  request_digest :: "string option"

datatype lease_state = OpenLease | SettledLease nat | AbortedLease

record lease_record =
  reserve_units :: nat
  metered :: bool
  lease_state :: lease_state
  matched_rows :: "nat list"
  floor_allocations :: "(nat \<times> nat) list"
  shared_units :: nat
  lease_binding :: "dispatch_binding option"
  was_dispatched :: bool

record budget_lease =
  lease_name :: string
  issuer :: nat

record meter =
  guard_identity :: nat
  attempt_id :: string
  limit_units :: nat
  reserve_default :: nat
  on_exhausted :: exhaustion_policy
  used_units :: nat
  reserved_units :: nat
  next_lease_seq :: nat
  fired_thresholds :: "budget_threshold set"
  leases :: "(string \<times> lease_record) list"
  meter_actor :: "entity_id option"
  policy :: "policy_row list"
  row_tallies :: "row_tally list"
  total_floor_units :: nat
  horizons :: "nat list"
  shared_used :: nat
  shared_reserved :: nat

definition new_meter :: "nat \<Rightarrow> string \<Rightarrow> nat \<Rightarrow> nat \<Rightarrow> exhaustion_policy \<Rightarrow> entity_id option \<Rightarrow> policy_row list \<Rightarrow> meter" where
  "new_meter identity attempt limit reserve exhausted act rows =
     \<lparr>guard_identity = identity, attempt_id = attempt, limit_units = limit, reserve_default = reserve,
      on_exhausted = exhausted, used_units = 0, reserved_units = 0, next_lease_seq = 0, fired_thresholds = {},
      leases = [], meter_actor = act, policy = rows, row_tallies = replicate (length rows) new_tally,
      total_floor_units = total_floors rows, horizons = row_horizons rows limit (total_floors rows),
      shared_used = 0, shared_reserved = 0\<rparr>"

text \<open>The four ways a guard is built.\<close>

definition default_reserve_units :: nat where "default_reserve_units = 8000"

definition with_reserve_units :: "nat \<Rightarrow> string \<Rightarrow> nat \<Rightarrow> nat \<Rightarrow> exhaustion_policy \<Rightarrow> meter" where
  "with_reserve_units identity attempt limit reserve exhausted = new_meter identity attempt limit reserve exhausted None []"

definition default_guard :: "nat \<Rightarrow> string \<Rightarrow> nat \<Rightarrow> exhaustion_policy \<Rightarrow> meter" where
  "default_guard identity attempt limit exhausted = with_reserve_units identity attempt limit default_reserve_units exhausted"

definition with_policy_table :: "nat \<Rightarrow> string \<Rightarrow> nat \<Rightarrow> nat \<Rightarrow> exhaustion_policy \<Rightarrow> entity_id \<Rightarrow> policy_row list \<Rightarrow> meter" where
  "with_policy_table identity attempt limit reserve exhausted act rows =
     new_meter identity attempt limit reserve exhausted (Some act) rows"

definition uncapped :: "nat \<Rightarrow> string \<Rightarrow> nat \<Rightarrow> entity_id \<Rightarrow> meter" where
  "uncapped identity attempt reserve act = new_meter identity attempt usize_max reserve Suspend (Some act) []"

definition revise_line :: "nat \<Rightarrow> nat \<Rightarrow> meter \<Rightarrow> meter" where
  "revise_line limit reserve m =
     m\<lparr>limit_units := limit, reserve_default := reserve,
       horizons := row_horizons (policy m) limit (total_floor_units m)\<rparr>"

definition cap_units :: "meter \<Rightarrow> nat" where
  "cap_units m = admission_cap (on_exhausted m) (limit_units m)"

text \<open>The three parts are summed wide.\<close>

definition exceeds :: "nat \<Rightarrow> nat \<Rightarrow> nat \<Rightarrow> nat \<Rightarrow> bool" where
  "exceeds a b c cap \<longleftrightarrow> a + b + c > cap"

definition global_denies :: "meter \<Rightarrow> nat \<Rightarrow> bool" where
  "global_denies m r \<longleftrightarrow> exceeds (used_units m) (reserved_units m) r (cap_units m)"

definition policy_row_at :: "meter \<Rightarrow> nat \<Rightarrow> policy_row option" where
  "policy_row_at m i = (if i < length (policy m) then Some (policy m ! i) else None)"

definition row_tally_at :: "meter \<Rightarrow> nat \<Rightarrow> row_tally option" where
  "row_tally_at m i = (if i < length (row_tallies m) then Some (row_tallies m ! i) else None)"

definition rows_matching :: "meter \<Rightarrow> call_purpose option \<Rightarrow> nat list" where
  "rows_matching m purpose =
     filter (\<lambda>i. selector_matches (row_selector (policy m ! i)) purpose (meter_actor m)) [0 ..< length (policy m)]"

definition matched_cap_denies :: "meter \<Rightarrow> nat list \<Rightarrow> nat \<Rightarrow> bool" where
  "matched_cap_denies m rows r \<longleftrightarrow>
     list_ex (\<lambda>i. case Option.bind (policy_row_at m i) row_cap of
          None \<Rightarrow> False
        | Some cap \<Rightarrow>
            (case row_tally_at m i of
               None \<Rightarrow> False
             | Some t \<Rightarrow> exceeds (tally_used t) (tally_reserved t) r cap)) rows"

fun allocate_floors :: "meter \<Rightarrow> nat list \<Rightarrow> nat \<Rightarrow> (nat \<times> nat) list \<times> nat" where
  "allocate_floors m [] remaining = ([], remaining)"
| "allocate_floors m (i # rows) remaining =
     (if remaining = 0 then ([], 0)
      else case Option.bind (policy_row_at m i) row_floor of
             None \<Rightarrow> allocate_floors m rows remaining
           | Some f \<Rightarrow>
               (case row_tally_at m i of
                  None \<Rightarrow> allocate_floors m rows remaining
                | Some t \<Rightarrow>
                    (let units = min remaining (f - sat_add (floor_used t) (floor_reserved t))
                     in if units = 0 then allocate_floors m rows remaining
                        else let (allocs, left) = allocate_floors m rows (remaining - units)
                             in ((i, units) # allocs, left))))"

definition shared_slice_units :: "meter \<Rightarrow> nat" where
  "shared_slice_units m = limit_units m - total_floor_units m"

definition shared_admission_ceiling :: "meter \<Rightarrow> nat" where
  "shared_admission_ceiling m = sat_add (shared_slice_units m) (cap_units m - limit_units m)"

definition plan_single_pool :: "meter \<Rightarrow> nat \<Rightarrow> reserve_plan" where
  "plan_single_pool m r = (if global_denies m r then DeniedByCapacity else AdmitPlan no_allocation)"

definition plan_reserve :: "meter \<Rightarrow> nat \<Rightarrow> call_purpose option \<Rightarrow> reserve_plan" where
  "plan_reserve m r purpose =
     (if policy m = [] then plan_single_pool m r
      else
        let rows = rows_matching m purpose
        in if matched_cap_denies m rows r then DeniedByCap
           else let (floors, shared) = allocate_floors m rows r
                in if shared > 0 \<and> exceeds (shared_used m) (shared_reserved m) shared (shared_admission_ceiling m)
                   then DeniedByCapacity
                   else if global_denies m r then DeniedByCapacity
                   else AdmitPlan \<lparr>alloc_rows = rows, alloc_floors = floors, alloc_shared = shared\<rparr>)"

definition at_row :: "nat \<Rightarrow> (row_tally \<Rightarrow> row_tally) \<Rightarrow> meter \<Rightarrow> meter" where
  "at_row i f m =
     (if i < length (row_tallies m) then m\<lparr>row_tallies := (row_tallies m)[i := f (row_tallies m ! i)]\<rparr> else m)"

definition commit_reservation :: "nat \<Rightarrow> reserve_allocation \<Rightarrow> meter \<Rightarrow> meter" where
  "commit_reservation r a m =
     (let m1 = m\<lparr>reserved_units := sat_add (reserved_units m) r\<rparr>;
          m2 = fold (\<lambda>i. at_row i (\<lambda>t. t\<lparr>tally_reserved := sat_add (tally_reserved t) r\<rparr>)) (alloc_rows a) m1;
          m3 = fold (\<lambda>(i, u). at_row i (\<lambda>t. t\<lparr>floor_reserved := sat_add (floor_reserved t) u\<rparr>)) (alloc_floors a) m2
      in m3\<lparr>shared_reserved := sat_add (shared_reserved m3) (alloc_shared a)\<rparr>)"

definition lease_id :: "meter \<Rightarrow> string \<Rightarrow> nat \<Rightarrow> string" where
  "lease_id m kind n = attempt_id m @ '':'' @ kind @ '':'' @ decimal n"

definition issue_lease_with :: "nat \<Rightarrow> bool \<Rightarrow> string \<Rightarrow> reserve_allocation \<Rightarrow> dispatch_binding option \<Rightarrow> meter \<Rightarrow> budget_lease \<times> meter" where
  "issue_lease_with r is_metered kind a binding m =
     (let n = sat_add (next_lease_seq m) 1;
          name = lease_id m kind n
      in (\<lparr>lease_name = name, issuer = guard_identity m\<rparr>,
          m\<lparr>next_lease_seq := n,
            leases := AList.update name
              \<lparr>reserve_units = r, metered = is_metered, lease_state = OpenLease, matched_rows = alloc_rows a,
               floor_allocations = alloc_floors a, shared_units = alloc_shared a, lease_binding = binding,
               was_dispatched = False\<rparr> (leases m)\<rparr>))"

definition issue_lease :: "nat \<Rightarrow> bool \<Rightarrow> string \<Rightarrow> dispatch_binding option \<Rightarrow> meter \<Rightarrow> budget_lease \<times> meter" where
  "issue_lease r is_metered kind binding = issue_lease_with r is_metered kind no_allocation binding"

definition reserve_bound :: "nat \<Rightarrow> call_purpose option \<Rightarrow> dispatch_binding option \<Rightarrow> meter \<Rightarrow> (budget_denied, budget_lease) result \<times> meter" where
  "reserve_bound r purpose binding m =
     (if r = 0 then (Err AdmissionDenied, m)
      else case plan_reserve m r purpose of
             AdmitPlan a \<Rightarrow>
               (let (lease, m') = issue_lease_with r True ''metered'' a binding (commit_reservation r a m) in (Ok lease, m'))
           | _ \<Rightarrow> (Err Exhausted, m))"

definition reserve_for :: "nat \<Rightarrow> call_purpose option \<Rightarrow> meter \<Rightarrow> (budget_denied, budget_lease) result \<times> meter" where
  "reserve_for r purpose m = reserve_bound r purpose None m"

definition reserve_plain :: "nat \<Rightarrow> meter \<Rightarrow> (budget_denied, budget_lease) result \<times> meter" where
  "reserve_plain r m = reserve_for r None m"


section \<open>Reads and ladders\<close>

record budget_read =
  read_attempt :: string
  read_limit :: nat
  read_cap :: nat
  read_used :: nat
  read_reserved :: nat
  read_remaining :: nat
  read_exhausted :: exhaustion_policy
  read_fired :: "budget_threshold set"

definition read_meter :: "meter \<Rightarrow> budget_read" where
  "read_meter m =
     \<lparr>read_attempt = attempt_id m, read_limit = limit_units m, read_cap = cap_units m, read_used = used_units m,
      read_reserved = reserved_units m,
      read_remaining = cap_units m - sat_add (used_units m) (reserved_units m),
      read_exhausted = on_exhausted m, read_fired = fired_thresholds m\<rparr>"

definition percent_used :: "nat \<Rightarrow> nat \<Rightarrow> nat" where
  "percent_used used limit = (if limit = 0 then 100 else min (used * 100 div limit) 100)"

definition depleted_percent :: "budget_read \<Rightarrow> nat" where
  "depleted_percent r = percent_used (sat_add (read_used r) (read_reserved r)) (read_limit r)"

definition capped_remaining_units :: "budget_read \<Rightarrow> nat option" where
  "capped_remaining_units r = (if read_limit r \<noteq> usize_max then Some (read_remaining r) else None)"

definition thresholds :: "budget_threshold list" where
  "thresholds = [Silent50, Plan80, Land95]"

text \<open>One ladder: each threshold reached and not yet fired is fired, in order.\<close>

fun fire_from :: "nat option \<Rightarrow> nat \<Rightarrow> budget_threshold list \<Rightarrow> budget_threshold set \<Rightarrow> ladder_event list \<times> budget_threshold set" where
  "fire_from who percent [] fired = ([], fired)"
| "fire_from who percent (t # ts) fired =
     (if percent < threshold_percent t then fire_from who percent ts fired
      else if t \<in> fired then fire_from who percent ts fired
      else let (events, fired') = fire_from who percent ts (insert t fired)
           in (\<lparr>event_threshold = t, event_steering = steering_for t, event_row = who\<rparr> # events, fired'))"

definition fire_global_ladder :: "meter \<Rightarrow> ladder_event list \<times> meter" where
  "fire_global_ladder m =
     (let (events, fired) = fire_from None (percent_used (sat_add (used_units m) (reserved_units m)) (limit_units m))
            thresholds (fired_thresholds m)
      in (events, m\<lparr>fired_thresholds := fired\<rparr>))"

definition row_horizon :: "meter \<Rightarrow> nat \<Rightarrow> nat" where
  "row_horizon m i = (if i < length (horizons m) then horizons m ! i else 0)"

definition fire_row :: "nat \<Rightarrow> meter \<Rightarrow> ladder_event list \<times> meter" where
  "fire_row i m =
     (case row_tally_at m i of
        None \<Rightarrow> ([], m)
      | Some t \<Rightarrow>
          (let (events, fired) = fire_from (Some i) (percent_used (sat_add (tally_used t) (tally_reserved t)) (row_horizon m i))
                 thresholds (tally_fired t)
           in (events, at_row i (\<lambda>t. t\<lparr>tally_fired := fired\<rparr>) m)))"

fun fire_rows :: "nat list \<Rightarrow> meter \<Rightarrow> ladder_event list \<times> meter" where
  "fire_rows [] m = ([], m)"
| "fire_rows (i # rows) m =
     (let (events, m1) = fire_row i m; (more, m2) = fire_rows rows m1 in (events @ more, m2))"

definition fire_row_ladders :: "meter \<Rightarrow> ladder_event list \<times> meter" where
  "fire_row_ladders m = (if policy m = [] then ([], m) else fire_rows [0 ..< length (policy m)] m)"

definition fire_ladders :: "meter \<Rightarrow> ladder_event list \<times> meter" where
  "fire_ladders m =
     (let (events, m1) = fire_global_ladder m; (more, m2) = fire_row_ladders m1 in (events @ more, m2))"

section \<open>Admissions\<close>

record budget_admission =
  admitted_lease :: budget_lease
  admitted_read :: budget_read
  admitted_events :: "ladder_event list"

definition metered_admission :: "budget_lease \<Rightarrow> meter \<Rightarrow> budget_admission \<times> meter" where
  "metered_admission lease m =
     (let (events, m') = fire_ladders m
      in (\<lparr>admitted_lease = lease, admitted_read = read_meter m', admitted_events = events\<rparr>, m'))"

definition admitting :: "(budget_denied, budget_lease) result \<times> meter \<Rightarrow> (budget_denied, budget_admission) result \<times> meter" where
  "admitting r =
     (case r of
        (Inl e, m) \<Rightarrow> (Err e, m)
      | (Inr lease, m) \<Rightarrow> (let (a, m') = metered_admission lease m in (Ok a, m')))"

record budget_request =
  call_locality :: model_locality
  host_keyless :: bool
  host_paid :: bool
  purpose_of :: call_purpose

definition unmetered_admission :: "dispatch_binding option \<Rightarrow> meter \<Rightarrow> (budget_denied, budget_admission) result \<times> meter" where
  "unmetered_admission binding m =
     (let (lease, m') = issue_lease 0 False ''local'' binding m
      in (Ok \<lparr>admitted_lease = lease, admitted_read = read_meter m', admitted_events = []\<rparr>, m'))"

definition admit :: "meter \<Rightarrow> (budget_denied, budget_admission) result \<times> meter" where
  "admit m = admitting (reserve_plain (reserve_default m) m)"

definition admit_local :: "meter \<Rightarrow> (budget_denied, budget_admission) result \<times> meter" where
  "admit_local m = unmetered_admission None m"

definition admit_paid_for_request :: "budget_request \<Rightarrow> meter \<Rightarrow> (budget_denied, budget_admission) result \<times> meter" where
  "admit_paid_for_request req m = admitting (reserve_for (reserve_default m) (Some (purpose_of req)) m)"

definition admit_for_request :: "budget_request \<Rightarrow> meter \<Rightarrow> (budget_denied, budget_admission) result \<times> meter" where
  "admit_for_request req m =
     (let free_route = call_locality req = OnDevice \<or> (host_keyless req \<and> call_locality req = OwnServer)
      in if free_route \<and> \<not> host_paid req then admit_local m
         else admitting (reserve_for (reserve_default m) (Some (purpose_of req)) m))"

definition admit_reserve :: "nat \<Rightarrow> meter \<Rightarrow> (budget_denied, budget_admission) result \<times> meter" where
  "admit_reserve r m = admitting (reserve_plain r m)"

definition admit_reserve_bound :: "nat \<Rightarrow> dispatch_binding \<Rightarrow> meter \<Rightarrow> (budget_denied, budget_admission) result \<times> meter" where
  "admit_reserve_bound r binding m = admitting (reserve_bound r None (Some binding) m)"

definition admit_call_bound :: "nat \<Rightarrow> call_purpose \<Rightarrow> dispatch_binding \<Rightarrow> meter \<Rightarrow> (budget_denied, budget_admission) result \<times> meter" where
  "admit_call_bound r purpose binding m = admitting (reserve_bound r (Some purpose) (Some binding) m)"

definition admit_free_work :: "dispatch_binding \<Rightarrow> bool \<Rightarrow> meter \<Rightarrow> (budget_denied, budget_admission) result \<times> meter" where
  "admit_free_work binding keyless m =
     (let free = bind_locality binding = OnDevice \<or> (keyless \<and> bind_locality binding = OwnServer)
      in if \<not> free then (Err AdmissionDenied, m) else unmetered_admission (Some binding) m)"

definition admit_unmetered :: "dispatch_binding \<Rightarrow> meter \<Rightarrow> (budget_denied, budget_admission) result \<times> meter" where
  "admit_unmetered binding m = admit_free_work binding False m"

section \<open>Settlement\<close>

type_synonym settlement = "budget_read \<times> ladder_event list"

definition settlement_of :: "meter \<Rightarrow> (budget_denied, settlement) result \<times> meter" where
  "settlement_of m = (let (events, m') = fire_ladders m in (Ok (read_meter m', events), m'))"

definition release_reservations :: "lease_record \<Rightarrow> meter \<Rightarrow> meter" where
  "release_reservations r m =
     (let m1 = m\<lparr>reserved_units := reserved_units m - reserve_units r\<rparr>;
          m2 = fold (\<lambda>i. at_row i (\<lambda>t. t\<lparr>tally_reserved := tally_reserved t - reserve_units r\<rparr>)) (matched_rows r) m1;
          m3 = fold (\<lambda>(i, u). at_row i (\<lambda>t. t\<lparr>floor_reserved := floor_reserved t - u\<rparr>)) (floor_allocations r) m2
      in m3\<lparr>shared_reserved := shared_reserved m3 - shared_units r\<rparr>)"

text \<open>The spend goes to the floors of the matched rows that have room, in order; the rest is shared.\<close>

fun charge_floors :: "nat list \<Rightarrow> nat \<Rightarrow> meter \<Rightarrow> nat \<times> meter" where
  "charge_floors [] remaining m = (remaining, m)"
| "charge_floors (i # rows) remaining m =
     (if remaining = 0 then (0, m)
      else case Option.bind (policy_row_at m i) row_floor of
             None \<Rightarrow> charge_floors rows remaining m
           | Some f \<Rightarrow>
               (let committed = (case row_tally_at m i of None \<Rightarrow> 0 | Some t \<Rightarrow> sat_add (floor_used t) (floor_reserved t));
                    units = min remaining (f - committed)
                in if units = 0 then charge_floors rows remaining m
                   else charge_floors rows (remaining - units)
                          (at_row i (\<lambda>t. t\<lparr>floor_used := sat_add (floor_used t) units\<rparr>) m)))"

definition apply_usage :: "lease_record \<Rightarrow> nat \<Rightarrow> meter \<Rightarrow> meter" where
  "apply_usage r spent m =
     (let m1 = fold (\<lambda>i. at_row i (\<lambda>t. t\<lparr>tally_used := sat_add (tally_used t) spent\<rparr>)) (matched_rows r) m;
          (left, m2) = charge_floors (matched_rows r) spent m1
      in m2\<lparr>shared_used := sat_add (shared_used m2) left\<rparr>)"

definition close_lease :: "string \<Rightarrow> lease_record \<Rightarrow> lease_state \<Rightarrow> meter \<Rightarrow> meter" where
  "close_lease name r st m = m\<lparr>leases := AList.update name (r\<lparr>lease_state := st\<rparr>) (leases m)\<rparr>"

definition settle_absolute :: "budget_lease \<Rightarrow> nat \<Rightarrow> meter \<Rightarrow> (budget_denied, settlement) result \<times> meter" where
  "settle_absolute lease reading m =
     (if issuer lease \<noteq> guard_identity m then (Err LeaseInvalid, m)
      else case map_of (leases m) (lease_name lease) of
             None \<Rightarrow> (Err LeaseInvalid, m)
           | Some r \<Rightarrow>
               (case lease_state r of
                  AbortedLease \<Rightarrow> (Err LeaseInvalid, m)
                | SettledLease _ \<Rightarrow> settlement_of m
                | OpenLease \<Rightarrow>
                    (let m1 = release_reservations r (close_lease (lease_name lease) r (SettledLease reading) m)
                     in settlement_of
                          (if metered r
                           then apply_usage r (reading - used_units m1) (m1\<lparr>used_units := max (used_units m1) reading\<rparr>)
                           else m1))))"

definition settle_usage :: "budget_lease \<Rightarrow> nat \<Rightarrow> meter \<Rightarrow> (budget_denied, settlement) result \<times> meter" where
  "settle_usage lease spent m =
     (if issuer lease \<noteq> guard_identity m then (Err LeaseInvalid, m)
      else let reading = sat_add (used_units m) spent
           in case map_of (leases m) (lease_name lease) of
                None \<Rightarrow> (Err LeaseInvalid, m)
              | Some r \<Rightarrow>
                  (case lease_state r of
                     AbortedLease \<Rightarrow> (Err LeaseInvalid, m)
                   | SettledLease _ \<Rightarrow> settlement_of m
                   | OpenLease \<Rightarrow>
                       (let m1 = release_reservations r (close_lease (lease_name lease) r (SettledLease reading) m)
                        in settlement_of
                             (if metered r then apply_usage r spent (m1\<lparr>used_units := reading\<rparr>) else m1))))"

text \<open>A usage report: its token totals, and the number under \<open>failed_rungs\<close> in the provider's receipt, if there is one.\<close>

record llm_usage =
  input_total :: nat
  output_total :: nat
  receipt_rungs :: "nat option"

definition failed_rungs :: "llm_usage \<Rightarrow> nat" where
  "failed_rungs u = (case receipt_rungs u of None \<Rightarrow> 0 | Some n \<Rightarrow> n)"

definition llm_usage_units :: "llm_usage \<Rightarrow> nat" where
  "llm_usage_units u = sat_add (input_total u) (output_total u)"

definition settle_terminal :: "budget_lease \<Rightarrow> llm_usage \<Rightarrow> meter \<Rightarrow> (budget_denied, settlement) result \<times> meter" where
  "settle_terminal lease usage m = settle_absolute lease (llm_usage_units usage) m"

definition settle_per_call :: "budget_lease \<Rightarrow> llm_usage \<Rightarrow> meter \<Rightarrow> (budget_denied, settlement) result \<times> meter" where
  "settle_per_call lease usage m = settle_usage lease (llm_usage_units usage) m"

text \<open>The one operation that takes the lock twice: the units are read, then settled.\<close>

definition reserved_for :: "budget_lease \<Rightarrow> meter \<Rightarrow> nat option" where
  "reserved_for lease m =
     (if issuer lease \<noteq> guard_identity m then None else map_option reserve_units (map_of (leases m) (lease_name lease)))"

definition settle_reserved :: "budget_lease \<Rightarrow> meter \<Rightarrow> (budget_denied, settlement) result \<times> meter" where
  "settle_reserved lease m =
     (case reserved_for lease m of None \<Rightarrow> (Err LeaseInvalid, m) | Some units \<Rightarrow> settle_usage lease units m)"

definition abort :: "budget_lease \<Rightarrow> meter \<Rightarrow> (budget_denied, settlement) result \<times> meter" where
  "abort lease m =
     (if issuer lease \<noteq> guard_identity m then (Err LeaseInvalid, m)
      else case map_of (leases m) (lease_name lease) of
             None \<Rightarrow> (Err LeaseInvalid, m)
           | Some r \<Rightarrow>
               (if was_dispatched r \<and> lease_state r = OpenLease then settle_usage lease (reserve_units r) m
                else case lease_state r of
                       OpenLease \<Rightarrow> settlement_of (release_reservations r (close_lease (lease_name lease) r AbortedLease m))
                     | AbortedLease \<Rightarrow> settlement_of m
                     | SettledLease _ \<Rightarrow> (Err LeaseInvalid, m)))"

text \<open>One answered call's charge.\<close>

definition answered_units_wide :: "llm_usage \<Rightarrow> nat \<Rightarrow> nat" where
  "answered_units_wide u floor =
     (let tokens = input_total u + output_total u
      in (if tokens = 0 then floor else tokens) + failed_rungs u * floor)"

definition answered_units :: "llm_usage \<Rightarrow> nat \<Rightarrow> nat" where
  "answered_units u floor = min (answered_units_wide u floor) usize_max"

section \<open>Dispatch\<close>

datatype dispatch_refused =
  ForeignLease | Closed | Unbound | AlreadyDispatched | SubjectMismatch | RouteMismatch | OfferMismatch | RequestMismatch

definition begin_dispatch :: "budget_lease \<Rightarrow> dispatch_binding \<Rightarrow> meter \<Rightarrow> (dispatch_refused, unit) result \<times> meter" where
  "begin_dispatch lease c m =
     (if issuer lease \<noteq> guard_identity m then (Err ForeignLease, m)
      else case map_of (leases m) (lease_name lease) of
             None \<Rightarrow> (Err ForeignLease, m)
           | Some r \<Rightarrow>
               (if lease_state r \<noteq> OpenLease then (Err Closed, m)
                else case lease_binding r of
                       None \<Rightarrow> (Err Unbound, m)
                     | Some b \<Rightarrow>
                         (if was_dispatched r then (Err AlreadyDispatched, m)
                          else if subject b \<noteq> subject c then (Err SubjectMismatch, m)
                          else if bind_route b \<noteq> bind_route c then (Err RouteMismatch, m)
                          else if offer b \<noteq> offer c \<or> bind_locality b \<noteq> bind_locality c then (Err OfferMismatch, m)
                          else if request_digest b \<noteq> request_digest c then (Err RequestMismatch, m)
                          else (Ok (), m\<lparr>leases := AList.update (lease_name lease) (r\<lparr>was_dispatched := True\<rparr>) (leases m)\<rparr>))))"

definition mark_unsent :: "budget_lease \<Rightarrow> meter \<Rightarrow> (budget_denied, unit) result \<times> meter" where
  "mark_unsent lease m =
     (if issuer lease \<noteq> guard_identity m then (Err LeaseInvalid, m)
      else case map_of (leases m) (lease_name lease) of
             None \<Rightarrow> (Err LeaseInvalid, m)
           | Some r \<Rightarrow>
               (if lease_state r \<noteq> OpenLease then (Err LeaseInvalid, m)
                else (Ok (), m\<lparr>leases := AList.update (lease_name lease) (r\<lparr>was_dispatched := False\<rparr>) (leases m)\<rparr>)))"

definition own_record :: "budget_lease \<Rightarrow> meter \<Rightarrow> lease_record option" where
  "own_record lease m = (if issuer lease \<noteq> guard_identity m then None else map_of (leases m) (lease_name lease))"

definition admitted_request_digest :: "budget_lease \<Rightarrow> meter \<Rightarrow> string option" where
  "admitted_request_digest lease m = Option.bind (Option.bind (own_record lease m) lease_binding) request_digest"

definition dispatched :: "budget_lease \<Rightarrow> meter \<Rightarrow> bool option" where
  "dispatched lease m = map_option was_dispatched (own_record lease m)"

definition lease_open :: "budget_lease \<Rightarrow> meter \<Rightarrow> bool option" where
  "lease_open lease m = map_option (\<lambda>r. lease_state r = OpenLease) (own_record lease m)"

datatype lease_observed = ObservedOpen nat bool | ObservedSettled nat | ObservedAborted

definition lease_observation :: "string \<Rightarrow> meter \<Rightarrow> lease_observed option" where
  "lease_observation name m =
     map_option (\<lambda>r. case lease_state r of
         OpenLease \<Rightarrow> ObservedOpen (reserve_units r) (was_dispatched r)
       | SettledLease n \<Rightarrow> ObservedSettled n
       | AbortedLease \<Rightarrow> ObservedAborted) (map_of (leases m) name)"

section \<open>Checkpoints\<close>

record checkpoint_row =
  kept_policy :: policy_row
  kept_used :: nat
  kept_floor_used :: nat
  kept_fired :: "budget_threshold set"

record budget_checkpoint =
  cp_attempt :: string
  cp_limit :: nat
  cp_reserve :: nat
  cp_exhausted :: exhaustion_policy
  cp_actor :: "entity_id option"
  cp_used :: nat
  cp_shared_used :: nat
  cp_next_seq :: nat
  cp_fired :: "budget_threshold set"
  cp_rows :: "checkpoint_row list"

definition meter_checkpoint :: "meter \<Rightarrow> (budget_denied, budget_checkpoint) result" where
  "meter_checkpoint m =
     (if list_ex (\<lambda>(_, r). lease_state r = OpenLease) (leases m) then Err LeaseInvalid
      else Ok \<lparr>cp_attempt = attempt_id m, cp_limit = limit_units m, cp_reserve = reserve_default m,
               cp_exhausted = on_exhausted m, cp_actor = meter_actor m, cp_used = used_units m,
               cp_shared_used = shared_used m, cp_next_seq = next_lease_seq m, cp_fired = fired_thresholds m,
               cp_rows = map (\<lambda>(p, t). \<lparr>kept_policy = p, kept_used = tally_used t, kept_floor_used = floor_used t,
                                          kept_fired = tally_fired t\<rparr>) (zip (policy m) (row_tallies m))\<rparr>)"

definition from_checkpoint :: "nat \<Rightarrow> budget_checkpoint \<Rightarrow> meter" where
  "from_checkpoint identity c =
     (let m = new_meter identity (cp_attempt c) (cp_limit c) (cp_reserve c) (cp_exhausted c) (cp_actor c)
                (map kept_policy (cp_rows c))
      in m\<lparr>used_units := cp_used c, shared_used := cp_shared_used c, next_lease_seq := cp_next_seq c,
           fired_thresholds := cp_fired c,
           row_tallies := map (\<lambda>r. new_tally\<lparr>tally_used := kept_used r, floor_used := kept_floor_used r,
                                    tally_fired := kept_fired r\<rparr>) (cp_rows c)\<rparr>)"


section \<open>Rows of tallies\<close>

definition upd :: "nat \<Rightarrow> ('a \<Rightarrow> 'a) \<Rightarrow> 'a list \<Rightarrow> 'a list" where
  "upd i f xs = xs[i := f (xs ! i)]"

lemma length_upd [simp]: "length (upd i f xs) = length xs"
  by (simp add: upd_def)

lemma nth_upd: "j < length xs \<Longrightarrow> upd i f xs ! j = (if i = j then f (xs ! j) else xs ! j)"
  by (simp add: upd_def nth_list_update)

lemma at_row_eq: "at_row i f m = m\<lparr>row_tallies := upd i f (row_tallies m)\<rparr>"
  by (cases m) (auto simp: at_row_def upd_def list_update_beyond)

lemma fold_at_row: "fold (\<lambda>i. at_row i f) is m = m\<lparr>row_tallies := fold (\<lambda>i. upd i f) is (row_tallies m)\<rparr>"
  by (induction "is" arbitrary: m) (simp_all add: at_row_eq)

lemma fold_at_pairs:
  "fold (\<lambda>(i, u). at_row i (f u)) al m = m\<lparr>row_tallies := fold (\<lambda>(i, u). upd i (f u)) al (row_tallies m)\<rparr>"
  by (induction al arbitrary: m) (auto simp: at_row_eq)

lemma fold_upd:
  "distinct is \<Longrightarrow> length (fold (\<lambda>i. upd i f) is xs) = length xs \<and>
   (\<forall>j < length xs. fold (\<lambda>i. upd i f) is xs ! j = (if j \<in> set is then f (xs ! j) else xs ! j))"
  by (induction "is" arbitrary: xs) (auto simp: nth_upd)

lemma fold_upd_pairs:
  "distinct (map fst al) \<Longrightarrow> length (fold (\<lambda>(i, u). upd i (f u)) al xs) = length xs \<and>
   (\<forall>j < length xs. fold (\<lambda>(i, u). upd i (f u)) al xs ! j = (case map_of al j of None \<Rightarrow> xs ! j | Some u \<Rightarrow> f u (xs ! j)))"
proof (induction al arbitrary: xs)
  case (Cons p al)
  obtain i u where p: "p = (i, u)" by (cases p)
  have ih: "length (fold (\<lambda>(i, u). upd i (f u)) al (upd i (f u) xs)) = length xs"
    "\<forall>j < length xs. fold (\<lambda>(i, u). upd i (f u)) al (upd i (f u) xs) ! j =
       (case map_of al j of None \<Rightarrow> upd i (f u) xs ! j | Some v \<Rightarrow> f v (upd i (f u) xs ! j))"
    using Cons.IH [of "upd i (f u) xs"] Cons.prems by simp_all
  have "map_of al i = None" using Cons.prems p by (simp add: map_of_eq_None_iff)
  with ih p show ?case by (auto simp: nth_upd split: option.splits)
qed simp

text \<open>What the money of a row is: everything but the thresholds it has fired.\<close>

definition money :: "row_tally \<Rightarrow> nat \<times> nat \<times> nat \<times> nat" where
  "money t = (tally_used t, tally_reserved t, floor_used t, floor_reserved t)"

lemma fire_row_effect:
  "\<exists>ts. snd (fire_row i m) = m\<lparr>row_tallies := ts\<rparr> \<and> map money ts = map money (row_tallies m)"
proof (cases "row_tally_at m i")
  case None
  then show ?thesis by (intro exI [of _ "row_tallies m"]) (simp add: fire_row_def)
next
  case (Some t)
  have same: "map money (upd i (\<lambda>t. t\<lparr>tally_fired := F\<rparr>) ts) = map money ts" for F ts
    by (intro nth_equalityI) (simp_all add: nth_upd money_def)
  show ?thesis unfolding fire_row_def Some option.case Let_def at_row_eq
    by (auto simp: same split: prod.split intro!: exI)
qed

lemma fire_rows_effect:
  "\<exists>ts. snd (fire_rows is m) = m\<lparr>row_tallies := ts\<rparr> \<and> map money ts = map money (row_tallies m)"
proof (induction "is" arbitrary: m)
  case Nil
  then show ?case by (intro exI [of _ "row_tallies m"]) simp
next
  case (Cons i "is")
  obtain ts where 1: "snd (fire_row i m) = m\<lparr>row_tallies := ts\<rparr>" "map money ts = map money (row_tallies m)"
    using fire_row_effect by blast
  obtain ts' where "snd (fire_rows is (m\<lparr>row_tallies := ts\<rparr>)) = m\<lparr>row_tallies := ts'\<rparr>" "map money ts' = map money ts"
    using Cons.IH [of "m\<lparr>row_tallies := ts\<rparr>"] by auto
  with 1 show ?case by (auto split: prod.split)
qed

text \<open>Firing the ladders moves no money.\<close>

lemma fire_ladders_effect:
  "\<exists>F ts. snd (fire_ladders m) = m\<lparr>fired_thresholds := F, row_tallies := ts\<rparr> \<and> map money ts = map money (row_tallies m)"
proof -
  obtain F where F: "snd (fire_global_ladder m) = m\<lparr>fired_thresholds := F\<rparr>"
    by (cases "fire_from None (percent_used (sat_add (used_units m) (reserved_units m)) (limit_units m)) thresholds (fired_thresholds m)")
      (simp add: fire_global_ladder_def)
  obtain ts where "snd (fire_row_ladders (m\<lparr>fired_thresholds := F\<rparr>)) = m\<lparr>fired_thresholds := F, row_tallies := ts\<rparr>"
    "map money ts = map money (row_tallies m)"
  proof (cases "policy m = []")
    case True
    then show ?thesis by (intro that [of "row_tallies m"]) (simp_all add: fire_row_ladders_def)
  next
    case False
    then show ?thesis
      using fire_rows_effect [of "[0 ..< length (policy m)]" "m\<lparr>fired_thresholds := F\<rparr>"] that
      by (auto simp: fire_row_ladders_def)
  qed
  with F show ?thesis unfolding fire_ladders_def by (intro exI [of _ F] exI [of _ ts]) (auto split: prod.split)
qed

section \<open>The invariant of a meter\<close>

definition floor_of :: "policy_row list \<Rightarrow> nat \<Rightarrow> nat" where
  "floor_of rows i = (case row_floor (rows ! i) of None \<Rightarrow> 0 | Some f \<Rightarrow> f)"

definition row_share :: "nat \<Rightarrow> lease_record \<Rightarrow> nat" where
  "row_share i r = (if i \<in> set (matched_rows r) then reserve_units r else 0)"

definition floor_share :: "nat \<Rightarrow> lease_record \<Rightarrow> nat" where
  "floor_share i r = (case map_of (floor_allocations r) i of None \<Rightarrow> 0 | Some u \<Rightarrow> u)"

definition held_by :: "(lease_record \<Rightarrow> nat) \<Rightarrow> lease_record \<Rightarrow> nat" where
  "held_by f r = (if lease_state r = OpenLease then f r else 0)"

definition open_sum :: "(lease_record \<Rightarrow> nat) \<Rightarrow> meter \<Rightarrow> nat" where
  "open_sum f m = alist_sum (held_by f) (leases m)"

definition lease_ok :: "policy_row list \<Rightarrow> lease_record \<Rightarrow> bool" where
  "lease_ok rows r \<longleftrightarrow>
     distinct (matched_rows r) \<and> set (matched_rows r) \<subseteq> {..< length rows} \<and>
     distinct (map fst (floor_allocations r)) \<and> fst ` set (floor_allocations r) \<subseteq> set (matched_rows r) \<and>
     (if rows = [] \<or> \<not> metered r then matched_rows r = [] \<and> shared_units r = 0
      else reserve_units r = sum_list (map snd (floor_allocations r)) + shared_units r) \<and>
     (metered r \<or> reserve_units r = 0)"

definition units_fit :: "meter \<Rightarrow> bool" where
  "units_fit m \<longleftrightarrow> limit_units m \<le> usize_max \<and> (\<forall>i < length (policy m). floor_of (policy m) i \<le> usize_max) \<and>
     used_units m \<le> usize_max \<and> reserved_units m \<le> usize_max \<and> shared_used m \<le> usize_max"

definition names_ok :: "meter \<Rightarrow> bool" where
  "names_ok m \<longleftrightarrow> distinct (map fst (leases m)) \<and>
     (\<forall>name \<in> fst ` set (leases m). \<exists>n \<le> next_lease_seq m. name = lease_id m ''metered'' n \<or> name = lease_id m ''local'' n)"

definition tally_ok :: "meter \<Rightarrow> nat \<Rightarrow> row_tally \<Rightarrow> bool" where
  "tally_ok m i t \<longleftrightarrow>
     tally_reserved t = open_sum (row_share i) m \<and> floor_reserved t = open_sum (floor_share i) m \<and>
     floor_used t + floor_reserved t \<le> floor_of (policy m) i \<and> tally_used t \<le> used_units m"

definition spend_split :: "meter \<Rightarrow> bool" where
  "spend_split m \<longleftrightarrow> (policy m \<noteq> [] \<and> used_units m < usize_max \<longrightarrow>
     used_units m = sum_list (map floor_used (row_tallies m)) + shared_used m)"

definition meter_inv :: "meter \<Rightarrow> bool" where
  "meter_inv m \<longleftrightarrow>
     units_fit m \<and> names_ok m \<and> list_all (\<lambda>(_, r). lease_ok (policy m) r) (leases m) \<and>
     total_floor_units m = total_floors (policy m) \<and>
     horizons m = row_horizons (policy m) (limit_units m) (total_floor_units m) \<and>
     length (row_tallies m) = length (policy m) \<and>
     (\<forall>i < length (policy m). tally_ok m i (row_tallies m ! i)) \<and>
     reserved_units m = open_sum reserve_units m \<and> shared_reserved m = open_sum shared_units m \<and> spend_split m"

lemma meter_invD:
  assumes "meter_inv m"
  shows "units_fit m" "names_ok m" "list_all (\<lambda>(_, r). lease_ok (policy m) r) (leases m)"
    "total_floor_units m = total_floors (policy m)"
    "horizons m = row_horizons (policy m) (limit_units m) (total_floor_units m)"
    "length (row_tallies m) = length (policy m)" "i < length (policy m) \<Longrightarrow> tally_ok m i (row_tallies m ! i)"
    "reserved_units m = open_sum reserve_units m" "shared_reserved m = open_sum shared_units m" "spend_split m"
  using assms by (auto simp: meter_inv_def)

lemma open_sum_fields [simp]:
  "open_sum f (m\<lparr>fired_thresholds := F\<rparr>) = open_sum f m" "open_sum f (m\<lparr>row_tallies := ts\<rparr>) = open_sum f m"
  "open_sum f (m\<lparr>used_units := u\<rparr>) = open_sum f m" "open_sum f (m\<lparr>reserved_units := u\<rparr>) = open_sum f m"
  "open_sum f (m\<lparr>shared_used := u\<rparr>) = open_sum f m" "open_sum f (m\<lparr>shared_reserved := u\<rparr>) = open_sum f m"
  "open_sum f (m\<lparr>limit_units := u\<rparr>) = open_sum f m" "open_sum f (m\<lparr>reserve_default := u\<rparr>) = open_sum f m"
  "open_sum f (m\<lparr>horizons := hs\<rparr>) = open_sum f m" "open_sum f (m\<lparr>next_lease_seq := u\<rparr>) = open_sum f m"
  by (simp_all add: open_sum_def)

lemma new_meter_inv:
  assumes "limit \<le> usize_max" "list_all (\<lambda>r. case row_floor r of None \<Rightarrow> True | Some f \<Rightarrow> f \<le> usize_max) rows"
  shows "meter_inv (new_meter identity attempt limit reserve exhausted act rows)"
proof -
  have "floor_of rows i \<le> usize_max" if "i < length rows" for i
    using assms(2) that nth_mem [OF that] by (auto simp: floor_of_def list_all_iff split: option.splits)
  then show ?thesis using assms(1)
    by (simp add: meter_inv_def new_meter_def units_fit_def names_ok_def tally_ok_def open_sum_def spend_split_def
        new_tally_def sum_list_replicate)
qed

lemma meter_inv_fired:
  assumes "meter_inv m" "map money ts = map money (row_tallies m)"
  shows "meter_inv (m\<lparr>fired_thresholds := F, row_tallies := ts\<rparr>)"
proof -
  have len: "length ts = length (row_tallies m)" using assms(2) map_eq_imp_length_eq by blast
  have nth: "money (ts ! i) = money (row_tallies m ! i)" if "i < length (policy m)" for i
    using assms len that meter_invD(6) [OF assms(1)] by (metis nth_map)
  have "map floor_used ts = map (fst \<circ> snd \<circ> snd) (map money ts)" by (simp add: money_def)
  also have "\<dots> = map floor_used (row_tallies m)" unfolding assms(2) by (simp add: money_def)
  finally have "spend_split (m\<lparr>fired_thresholds := F, row_tallies := ts\<rparr>)"
    using meter_invD(10) [OF assms(1)] by (simp add: spend_split_def)
  moreover have "tally_ok (m\<lparr>fired_thresholds := F, row_tallies := ts\<rparr>) i (ts ! i)" if "i < length (policy m)" for i
    using meter_invD(7) [OF assms(1) that] nth [OF that] by (simp add: tally_ok_def money_def)
  ultimately show ?thesis using assms(1) len
    by (simp add: meter_inv_def units_fit_def names_ok_def lease_id_def)
qed

lemma fire_ladders_inv: "meter_inv m \<Longrightarrow> meter_inv (snd (fire_ladders m))"
  using fire_ladders_effect [of m] meter_inv_fired by fastforce

lemma settlement_inv: "meter_inv m \<Longrightarrow> meter_inv (snd (settlement_of m))"
  using fire_ladders_inv [of m] by (auto simp: settlement_of_def split: prod.split)

lemma revise_inv:
  assumes "meter_inv m" "limit \<le> usize_max"
  shows "meter_inv (revise_line limit reserve m)"
  using assms by (auto simp: meter_inv_def revise_line_def units_fit_def names_ok_def lease_id_def tally_ok_def spend_split_def)


section \<open>Admission keeps the invariant\<close>

lemma alist_sum_mono: "(\<And>v. v \<in> snd ` set al \<Longrightarrow> f v \<le> g v) \<Longrightarrow> alist_sum f al \<le> alist_sum g al"
proof (induction al)
  case (Cons p al)
  have "f (snd p) \<le> g (snd p)" "alist_sum f al \<le> alist_sum g al" using Cons by auto
  then show ?case by (cases p) (simp add: add_mono)
qed simp

lemma lease_parts:
  assumes "lease_ok rows r"
  shows "row_share i r \<le> reserve_units r" "shared_units r \<le> reserve_units r"
  using assms by (auto simp: lease_ok_def row_share_def split: if_splits)

lemma open_sum_parts:
  assumes "meter_inv m"
  shows "open_sum (row_share i) m \<le> reserved_units m" "open_sum shared_units m \<le> reserved_units m"
proof -
  have ok: "lease_ok (policy m) r" if "r \<in> snd ` set (leases m)" for r
    using meter_invD(3) [OF assms] that by (auto simp: list_all_iff)
  have "held_by (row_share i) r \<le> held_by reserve_units r" "held_by shared_units r \<le> held_by reserve_units r"
    if "r \<in> snd ` set (leases m)" for r using lease_parts [OF ok [OF that]] by (simp_all add: held_by_def)
  then show "open_sum (row_share i) m \<le> reserved_units m" "open_sum shared_units m \<le> reserved_units m"
    unfolding meter_invD(8) [OF assms] open_sum_def by (blast intro: alist_sum_mono)+
qed

lemma allocate_facts:
  assumes "distinct rows" "allocate_floors m rows r = (as, rest)"
  shows "distinct (map fst as) \<and> fst ` set as \<subseteq> set rows \<and> sum_list (map snd as) + rest = r \<and>
    (\<forall>(i, u) \<in> set as. i < length (policy m) \<and> i < length (row_tallies m) \<and>
       u \<le> floor_of (policy m) i - sat_add (floor_used (row_tallies m ! i)) (floor_reserved (row_tallies m ! i)))"
  using assms
proof (induction m rows r arbitrary: "as" rule: allocate_floors.induct)
  case (2 m i rows r)
  consider (none) "r = 0" | (no_floor) "r \<noteq> 0" "Option.bind (policy_row_at m i) row_floor = None"
    | (no_tally) f where "r \<noteq> 0" "Option.bind (policy_row_at m i) row_floor = Some f" "row_tally_at m i = None"
    | (both) f t where "r \<noteq> 0" "Option.bind (policy_row_at m i) row_floor = Some f" "row_tally_at m i = Some t"
    by (cases "Option.bind (policy_row_at m i) row_floor"; cases "row_tally_at m i") auto
  then show ?case
  proof cases
    case none
    then show ?thesis using 2(6) by auto
  next
    case no_floor
    then show ?thesis using 2(1) [of "as"] 2(5,6) by auto
  next
    case no_tally
    then show ?thesis using 2(2) [of f "as"] 2(5,6) by auto
  next
    case both
    define units where "units = min r (f - sat_add (floor_used t) (floor_reserved t))"
    show ?thesis
    proof (cases "units = 0")
      case True
      then show ?thesis using 2(3) [OF both units_def, of "as"] 2(5,6) both by (auto simp: units_def)
    next
      case nz: False
      have "allocate_floors m (i # rows) r = (let (allocs, left) = allocate_floors m rows (r - units) in ((i, units) # allocs, left))"
        using both nz by (simp add: units_def [symmetric])
      then obtain bs where bs: "allocate_floors m rows (r - units) = (bs, rest)" "as = (i, units) # bs"
        using 2(6) by (cases "allocate_floors m rows (r - units)") auto
      have ih: "distinct (map fst bs) \<and> fst ` set bs \<subseteq> set rows \<and> sum_list (map snd bs) + rest = r - units \<and>
        (\<forall>(i, u) \<in> set bs. i < length (policy m) \<and> i < length (row_tallies m) \<and>
           u \<le> floor_of (policy m) i - sat_add (floor_used (row_tallies m ! i)) (floor_reserved (row_tallies m ! i)))"
        using 2(4) [OF both units_def nz, of bs] bs(1) 2(5) by simp
      have i: "i < length (policy m)" "f = floor_of (policy m) i" "i < length (row_tallies m)" "t = row_tallies m ! i"
        using both(2,3) by (auto simp: policy_row_at_def row_tally_at_def floor_of_def bind_eq_Some_conv split: if_splits)
      have "units \<le> r" "units \<le> floor_of (policy m) i - sat_add (floor_used (row_tallies m ! i)) (floor_reserved (row_tallies m ! i))"
        using i by (simp_all add: units_def)
      then show ?thesis using ih 2(5) i(1,3) unfolding bs(2) by auto
    qed
  qed
qed auto

lemma rows_matching_facts: "distinct (rows_matching m p) \<and> set (rows_matching m p) \<subseteq> {..< length (policy m)}"
  by (auto simp: rows_matching_def)

text \<open>What an admitted plan promises.\<close>

definition plan_fits :: "meter \<Rightarrow> nat \<Rightarrow> call_purpose option \<Rightarrow> reserve_allocation \<Rightarrow> bool" where
  "plan_fits m r p a \<longleftrightarrow>
     used_units m + reserved_units m + r \<le> cap_units m \<and>
     (if policy m = [] then a = no_allocation
      else alloc_rows a = rows_matching m p \<and> distinct (map fst (alloc_floors a)) \<and>
        fst ` set (alloc_floors a) \<subseteq> set (alloc_rows a) \<and> r = sum_list (map snd (alloc_floors a)) + alloc_shared a \<and>
        \<not> matched_cap_denies m (alloc_rows a) r \<and>
        (alloc_shared a > 0 \<longrightarrow> shared_used m + shared_reserved m + alloc_shared a \<le> shared_admission_ceiling m) \<and>
        (\<forall>(i, u) \<in> set (alloc_floors a). i < length (policy m) \<and>
           u \<le> floor_of (policy m) i - sat_add (floor_used (row_tallies m ! i)) (floor_reserved (row_tallies m ! i))))"

lemma plan_admits: "plan_reserve m r p = AdmitPlan a \<Longrightarrow> plan_fits m r p a"
proof (cases "policy m = []")
  case True
  then show "plan_reserve m r p = AdmitPlan a \<Longrightarrow> plan_fits m r p a"
    by (auto simp: plan_reserve_def plan_single_pool_def plan_fits_def global_denies_def exceeds_def split: if_splits)
next
  case False
  assume p: "plan_reserve m r p = AdmitPlan a"
  obtain fs sh where fs: "allocate_floors m (rows_matching m p) r = (fs, sh)" by fastforce
  with p False have a: "a = \<lparr>alloc_rows = rows_matching m p, alloc_floors = fs, alloc_shared = sh\<rparr>"
    and d: "\<not> matched_cap_denies m (rows_matching m p) r" "\<not> global_denies m r"
      "sh > 0 \<longrightarrow> \<not> exceeds (shared_used m) (shared_reserved m) sh (shared_admission_ceiling m)"
    by (auto simp: plan_reserve_def Let_def split: if_splits)
  show "plan_fits m r p a"
    using allocate_facts [OF _ fs] rows_matching_facts [of m p] d False
    by (auto simp: plan_fits_def a global_denies_def exceeds_def)
qed

lemma cap_units_fit: "units_fit m \<Longrightarrow> cap_units m \<le> usize_max"
  by (cases "on_exhausted m") (auto simp: units_fit_def cap_units_def)

lemma decimal_inject: "decimal m = decimal n \<longleftrightarrow> m = n"
  by (metis undecimal_decimal)

lemma lease_name_fresh:
  assumes "names_ok m" "next_lease_seq m < usize_max" "kind = ''metered'' \<or> kind = ''local''"
  shows "map_of (leases m) (lease_id m kind (Suc (next_lease_seq m))) = None"
proof -
  have "lease_id m kind (Suc (next_lease_seq m)) \<notin> fst ` set (leases m)"
    using assms by (fastforce simp: names_ok_def lease_id_def decimal_inject)
  then show ?thesis by (simp add: map_of_dom_fst)
qed

text \<open>Issuing a lease whose reservation has been committed, seen through what the leases hold open.\<close>

definition new_record :: "nat \<Rightarrow> bool \<Rightarrow> reserve_allocation \<Rightarrow> dispatch_binding option \<Rightarrow> lease_record" where
  "new_record r is_metered a binding =
     \<lparr>reserve_units = r, metered = is_metered, lease_state = OpenLease, matched_rows = alloc_rows a,
      floor_allocations = alloc_floors a, shared_units = alloc_shared a, lease_binding = binding, was_dispatched = False\<rparr>"

lemma issued_sum:
  assumes "names_ok m" "next_lease_seq m < usize_max" "kind = ''metered'' \<or> kind = ''local''"
  shows "open_sum f (snd (issue_lease_with r b kind a binding m)) = open_sum f m + f (new_record r b a binding)"
  using lease_name_fresh [OF assms] assms(2)
  by (simp add: issue_lease_with_def Let_def open_sum_def alist_sum_update_new held_by_def new_record_def)

lemma issued_names:
  assumes "names_ok m" "next_lease_seq m < usize_max" "kind = ''metered'' \<or> kind = ''local''"
  shows "names_ok (snd (issue_lease_with r b kind a binding m))"
proof -
  let ?m = "snd (issue_lease_with r b kind a binding m)"
  have dom: "fst ` set (AList.update k v al) = insert k (fst ` set al)" for k v and al :: "(string \<times> lease_record) list"
    by (induction al) auto
  have seq: "next_lease_seq ?m = Suc (next_lease_seq m)" "\<And>k n. lease_id ?m k n = lease_id m k n"
    using assms(2) by (simp_all add: issue_lease_with_def Let_def lease_id_def)
  have names: "fst ` set (leases ?m) = insert (lease_id m kind (Suc (next_lease_seq m))) (fst ` set (leases m))"
    using assms(2) by (simp add: issue_lease_with_def Let_def dom)
  have "distinct (map fst (leases ?m))"
    using assms(1) by (simp add: issue_lease_with_def Let_def names_ok_def distinct_update)
  moreover have "\<exists>n \<le> next_lease_seq ?m. name = lease_id ?m ''metered'' n \<or> name = lease_id ?m ''local'' n"
    if "name \<in> fst ` set (leases ?m)" for name
  proof (cases "name = lease_id m kind (Suc (next_lease_seq m))")
    case True
    then show ?thesis unfolding seq using assms(3) by blast
  next
    case False
    then have "name \<in> fst ` set (leases m)" using that names by blast
    then show ?thesis unfolding seq using assms(1) le_SucI unfolding names_ok_def by metis
  qed
  ultimately show ?thesis unfolding names_ok_def by blast
qed

lemma issued_leases:
  "list_all (\<lambda>(_, x). lease_ok rows x) (leases m) \<Longrightarrow> lease_ok rows (new_record r b a binding) \<Longrightarrow>
   list_all (\<lambda>(_, x). lease_ok rows x) (leases (snd (issue_lease_with r b kind a binding m)))"
proof -
  assume a: "list_all (\<lambda>(_, x). lease_ok rows x) (leases m)" "lease_ok rows (new_record r b a binding)"
  have "set (AList.update k v al) \<subseteq> insert (k, v) (set al)" for k v and al :: "(string \<times> lease_record) list"
    by (induction al) auto
  then show ?thesis using a unfolding issue_lease_with_def Let_def new_record_def snd_conv list_all_iff
    by (simp add: subset_iff) blast
qed

lemma issued_fields:
  "snd (issue_lease_with r b kind a binding m) =
   m\<lparr>next_lease_seq := next_lease_seq (snd (issue_lease_with r b kind a binding m)),
     leases := leases (snd (issue_lease_with r b kind a binding m))\<rparr>"
  by (simp add: issue_lease_with_def Let_def)


text \<open>Reserving and releasing both change the matched rows, then the rows of the floor allocations.\<close>

definition row_change :: "nat list \<Rightarrow> (nat \<times> nat) list \<Rightarrow> ('t \<Rightarrow> 't) \<Rightarrow> (nat \<Rightarrow> 't \<Rightarrow> 't) \<Rightarrow> nat \<Rightarrow> 't \<Rightarrow> 't" where
  "row_change is al f g j t =
     (let t' = (if j \<in> set is then f t else t) in case map_of al j of None \<Rightarrow> t' | Some u \<Rightarrow> g u t')"

lemma fold_row_change:
  assumes "distinct is" "distinct (map fst al)"
  shows "length (fold (\<lambda>(i, u). upd i (g u)) al (fold (\<lambda>i. upd i f) is xs)) = length xs \<and>
    (\<forall>j < length xs. fold (\<lambda>(i, u). upd i (g u)) al (fold (\<lambda>i. upd i f) is xs) ! j = row_change is al f g j (xs ! j))"
  using fold_upd [OF assms(1), of f xs] fold_upd_pairs [OF assms(2), of g "fold (\<lambda>i. upd i f) is xs"]
  by (simp add: row_change_def Let_def split: option.split)

lemma commit_effect:
  assumes "distinct (alloc_rows a)" "distinct (map fst (alloc_floors a))"
  shows "\<exists>ts. commit_reservation r a m = m\<lparr>reserved_units := sat_add (reserved_units m) r, row_tallies := ts,
      shared_reserved := sat_add (shared_reserved m) (alloc_shared a)\<rparr> \<and> length ts = length (row_tallies m) \<and>
    (\<forall>j < length (row_tallies m). ts ! j = row_change (alloc_rows a) (alloc_floors a)
       (\<lambda>t. t\<lparr>tally_reserved := sat_add (tally_reserved t) r\<rparr>)
       (\<lambda>u t. t\<lparr>floor_reserved := sat_add (floor_reserved t) u\<rparr>) j (row_tallies m ! j))"
proof -
  let ?f = "\<lambda>t. t\<lparr>tally_reserved := sat_add (tally_reserved t) r\<rparr>"
  let ?g = "\<lambda>u t. t\<lparr>floor_reserved := sat_add (floor_reserved t) u\<rparr>"
  let ?ts = "fold (\<lambda>(i, u). upd i (?g u)) (alloc_floors a) (fold (\<lambda>i. upd i ?f) (alloc_rows a) (row_tallies m))"
  have "commit_reservation r a m = m\<lparr>reserved_units := sat_add (reserved_units m) r, row_tallies := ?ts,
      shared_reserved := sat_add (shared_reserved m) (alloc_shared a)\<rparr>"
    by (simp add: commit_reservation_def fold_at_row fold_at_pairs)
  then show ?thesis using fold_row_change [OF assms, of ?g ?f "row_tallies m"]
    by - (rule exI [of _ ?ts], rule conjI)
qed

text \<open>The row tallies after a plan that fits, exactly.\<close>

lemma committed_rows:
  assumes inv: "meter_inv m" and fit: "plan_fits m r p a"
  shows "\<exists>ts. commit_reservation r a m = m\<lparr>reserved_units := reserved_units m + r, row_tallies := ts,
      shared_reserved := shared_reserved m + alloc_shared a\<rparr> \<and> length ts = length (policy m) \<and>
    (\<forall>j < length (policy m). tally_used (ts ! j) = tally_used (row_tallies m ! j) \<and>
       floor_used (ts ! j) = floor_used (row_tallies m ! j) \<and>
       tally_reserved (ts ! j) = tally_reserved (row_tallies m ! j) + row_share j (new_record r True a b) \<and>
       floor_reserved (ts ! j) = floor_reserved (row_tallies m ! j) + floor_share j (new_record r True a b) \<and>
       floor_used (ts ! j) + floor_reserved (ts ! j) \<le> floor_of (policy m) j)"
proof -
  note fits = meter_invD(1) [OF inv, unfolded units_fit_def]
  have len: "length (row_tallies m) = length (policy m)" by (rule meter_invD(6) [OF inv])
  have rows: "distinct (alloc_rows a)" "distinct (map fst (alloc_floors a))" "alloc_shared a \<le> r \<or> alloc_shared a = 0"
    using fit rows_matching_facts [of m p] by (auto simp: plan_fits_def no_allocation_def split: if_splits)
  have cap: "reserved_units m + r \<le> usize_max"
    using fit cap_units_fit [OF meter_invD(1) [OF inv]] by (simp add: plan_fits_def)
  obtain ts where ts: "commit_reservation r a m = m\<lparr>reserved_units := sat_add (reserved_units m) r, row_tallies := ts,
      shared_reserved := sat_add (shared_reserved m) (alloc_shared a)\<rparr>" "length ts = length (row_tallies m)"
    "\<And>j. j < length (row_tallies m) \<Longrightarrow> ts ! j = row_change (alloc_rows a) (alloc_floors a)
       (\<lambda>t. t\<lparr>tally_reserved := sat_add (tally_reserved t) r\<rparr>)
       (\<lambda>u t. t\<lparr>floor_reserved := sat_add (floor_reserved t) u\<rparr>) j (row_tallies m ! j)"
    using commit_effect [OF rows(1,2), of r m] by blast
  have sh: "sat_add (shared_reserved m) (alloc_shared a) = shared_reserved m + alloc_shared a"
    using open_sum_parts(2) [OF inv] meter_invD(9) [OF inv] cap rows(3) fits by (intro sat_add_exact) auto
  have "tally_used (ts ! j) = tally_used (row_tallies m ! j) \<and> floor_used (ts ! j) = floor_used (row_tallies m ! j) \<and>
       tally_reserved (ts ! j) = tally_reserved (row_tallies m ! j) + row_share j (new_record r True a b) \<and>
       floor_reserved (ts ! j) = floor_reserved (row_tallies m ! j) + floor_share j (new_record r True a b) \<and>
       floor_used (ts ! j) + floor_reserved (ts ! j) \<le> floor_of (policy m) j" if j: "j < length (policy m)" for j
  proof -
    let ?t = "row_tallies m ! j"
    have ok: "tally_ok m j ?t" by (rule meter_invD(7) [OF inv j])
    have tr: "sat_add (tally_reserved ?t) r = tally_reserved ?t + r"
      using ok open_sum_parts(1) [OF inv, of j] cap by (intro sat_add_exact) (simp add: tally_ok_def)
    have fl: "floor_used ?t + floor_reserved ?t \<le> floor_of (policy m) j" "floor_of (policy m) j \<le> usize_max"
      using ok fits j by (auto simp: tally_ok_def)
    show ?thesis
    proof (cases "map_of (alloc_floors a) j")
      case None
      then show ?thesis using ts(3) [of j] j len tr fl(1)
        by (auto simp: row_change_def row_share_def floor_share_def new_record_def Let_def)
    next
      case (Some u)
      have "(j, u) \<in> set (alloc_floors a)" using Some by (rule map_of_SomeD)
      then have "u \<le> floor_of (policy m) j - sat_add (floor_used ?t) (floor_reserved ?t)"
        using fit by (auto simp: plan_fits_def no_allocation_def split: if_splits)
      then have u: "floor_used ?t + (floor_reserved ?t + u) \<le> floor_of (policy m) j" using fl by auto
      then have "sat_add (floor_reserved ?t) u = floor_reserved ?t + u" using fl(2) by (intro sat_add_exact) simp
      then show ?thesis using ts(3) [of j] j len tr u Some
        by (auto simp: row_change_def row_share_def floor_share_def new_record_def Let_def)
    qed
  qed
  then show ?thesis using ts(1,2) len sh cap by auto
qed

lemma issued_inv:
  assumes inv: "meter_inv m" and seq: "next_lease_seq m < usize_max" and kind: "kind = ''metered'' \<or> kind = ''local''"
    and ok: "lease_ok (policy m) (new_record r b a binding)"
    and ts: "length ts = length (policy m)"
      "\<And>j. j < length (policy m) \<Longrightarrow> tally_used (ts ! j) = tally_used (row_tallies m ! j) \<and>
         floor_used (ts ! j) = floor_used (row_tallies m ! j) \<and>
         tally_reserved (ts ! j) = tally_reserved (row_tallies m ! j) + row_share j (new_record r b a binding) \<and>
         floor_reserved (ts ! j) = floor_reserved (row_tallies m ! j) + floor_share j (new_record r b a binding) \<and>
         floor_used (ts ! j) + floor_reserved (ts ! j) \<le> floor_of (policy m) j"
    and cap: "reserved_units m + r \<le> usize_max"
  shows "meter_inv (snd (issue_lease_with r b kind a binding
    (m\<lparr>reserved_units := reserved_units m + r, row_tallies := ts, shared_reserved := shared_reserved m + alloc_shared a\<rparr>)))"
proof -
  let ?m = "m\<lparr>reserved_units := reserved_units m + r, row_tallies := ts, shared_reserved := shared_reserved m + alloc_shared a\<rparr>"
  let ?i = "snd (issue_lease_with r b kind a binding ?m)"
  have nm: "names_ok ?m" "next_lease_seq ?m < usize_max"
    using meter_invD(2) [OF inv] seq by (simp_all add: names_ok_def lease_id_def)
  have sum: "open_sum f ?i = open_sum f m + f (new_record r b a binding)" for f
    using issued_sum [OF nm kind] by simp
  have fields: "policy ?i = policy m" "used_units ?i = used_units m" "limit_units ?i = limit_units m"
    "reserved_units ?i = reserved_units m + r" "shared_used ?i = shared_used m" "row_tallies ?i = ts"
    "shared_reserved ?i = shared_reserved m + alloc_shared a" "total_floor_units ?i = total_floor_units m"
    "horizons ?i = horizons m" by (simp_all add: issue_lease_with_def Let_def)
  have "map floor_used ts = map floor_used (row_tallies m)"
    using ts meter_invD(6) [OF inv] by (intro nth_equalityI) auto
  then have "spend_split ?i" using meter_invD(10) [OF inv] unfolding spend_split_def fields by simp
  moreover have "tally_ok ?i j (ts ! j)" if "j < length (policy m)" for j
    using meter_invD(7) [OF inv that] ts(2) [OF that] unfolding tally_ok_def fields sum by simp
  moreover have "list_all (\<lambda>(_, x). lease_ok (policy m) x) (leases ?i)"
    using issued_leases [of "policy m" ?m] meter_invD(3) [OF inv] ok by simp
  moreover have "names_ok ?i" by (rule issued_names [OF nm kind])
  ultimately show ?thesis using inv ts(1) cap unfolding meter_inv_def units_fit_def fields sum
    by (simp add: new_record_def)
qed

lemma reserve_inv:
  assumes inv: "meter_inv m" and seq: "next_lease_seq m < usize_max"
  shows "meter_inv (snd (reserve_bound r p b m))"
proof (cases "plan_reserve m r p")
  case (AdmitPlan a)
  have fit: "plan_fits m r p a" using AdmitPlan by (rule plan_admits)
  obtain ts where ts: "commit_reservation r a m = m\<lparr>reserved_units := reserved_units m + r, row_tallies := ts,
      shared_reserved := shared_reserved m + alloc_shared a\<rparr>" "length ts = length (policy m)"
    "\<And>j. j < length (policy m) \<Longrightarrow> tally_used (ts ! j) = tally_used (row_tallies m ! j) \<and>
       floor_used (ts ! j) = floor_used (row_tallies m ! j) \<and>
       tally_reserved (ts ! j) = tally_reserved (row_tallies m ! j) + row_share j (new_record r True a b) \<and>
       floor_reserved (ts ! j) = floor_reserved (row_tallies m ! j) + floor_share j (new_record r True a b) \<and>
       floor_used (ts ! j) + floor_reserved (ts ! j) \<le> floor_of (policy m) j"
    using committed_rows [OF inv fit, of b] by blast
  have ok: "lease_ok (policy m) (new_record r True a b)"
    using fit rows_matching_facts [of m p]
    by (auto simp: lease_ok_def new_record_def plan_fits_def no_allocation_def split: if_splits)
  have cap: "reserved_units m + r \<le> usize_max"
    using fit cap_units_fit [OF meter_invD(1) [OF inv]] by (simp add: plan_fits_def)
  have "meter_inv (snd (issue_lease_with r True ''metered'' a b (commit_reservation r a m)))"
    unfolding ts(1) by (rule issued_inv [OF inv seq _ ok ts(2,3) cap]) simp
  then show ?thesis using inv AdmitPlan by (auto simp: reserve_bound_def split: prod.splits)
qed (use inv in \<open>auto simp: reserve_bound_def\<close>)

lemma unmetered_inv:
  assumes inv: "meter_inv m" and seq: "next_lease_seq m < usize_max"
  shows "meter_inv (snd (unmetered_admission b m))"
proof -
  have same: "m\<lparr>reserved_units := reserved_units m + 0, row_tallies := row_tallies m,
      shared_reserved := shared_reserved m + alloc_shared no_allocation\<rparr> = m" by (simp add: no_allocation_def)
  have "meter_inv (snd (issue_lease_with 0 False ''local'' no_allocation b
      (m\<lparr>reserved_units := reserved_units m + 0, row_tallies := row_tallies m,
         shared_reserved := shared_reserved m + alloc_shared no_allocation\<rparr>)))"
  proof (rule issued_inv [OF inv seq])
    show "lease_ok (policy m) (new_record 0 False no_allocation b)"
      by (simp add: lease_ok_def new_record_def no_allocation_def)
    show "length (row_tallies m) = length (policy m)" by (rule meter_invD(6) [OF inv])
    show "reserved_units m + 0 \<le> usize_max" using meter_invD(1) [OF inv] by (simp add: units_fit_def)
    show "tally_used (row_tallies m ! j) = tally_used (row_tallies m ! j) \<and>
         floor_used (row_tallies m ! j) = floor_used (row_tallies m ! j) \<and>
         tally_reserved (row_tallies m ! j) = tally_reserved (row_tallies m ! j) + row_share j (new_record 0 False no_allocation b) \<and>
         floor_reserved (row_tallies m ! j) = floor_reserved (row_tallies m ! j) + floor_share j (new_record 0 False no_allocation b) \<and>
         floor_used (row_tallies m ! j) + floor_reserved (row_tallies m ! j) \<le> floor_of (policy m) j"
      if "j < length (policy m)" for j
      using meter_invD(7) [OF inv that] by (simp add: tally_ok_def row_share_def floor_share_def new_record_def no_allocation_def)
  qed simp
  then show ?thesis unfolding same by (auto simp: unmetered_admission_def issue_lease_def split: prod.splits)
qed


section \<open>Settlement keeps the invariant\<close>

lemma open_sum_close:
  assumes "map_of (leases m) name = Some r" "lease_state r = OpenLease" "st \<noteq> OpenLease"
  shows "open_sum f (close_lease name r st m) + f r = open_sum f m"
  using alist_sum_update [OF assms(1), of "held_by f" "r\<lparr>lease_state := st\<rparr>"] assms(2,3)
  by (simp add: open_sum_def close_lease_def held_by_def)

lemma names_update:
  assumes "names_ok m" "map_of (leases m) name = Some r"
  shows "names_ok (m\<lparr>leases := AList.update name r' (leases m)\<rparr>)"
proof -
  have "fst ` set (AList.update name r' al) = fst ` set al" if "map_of al name = Some r" for al :: "(string \<times> lease_record) list"
    using that by (induction al) (auto split: if_splits)
  then show ?thesis using assms by (auto simp: names_ok_def lease_id_def distinct_update)
qed

lemma leases_update:
  "list_all (\<lambda>(_, x). P x) al \<Longrightarrow> P r' \<Longrightarrow> list_all (\<lambda>(_, x). P x) (AList.update name r' al)"
  by (induction al) auto

lemma lease_found: "meter_inv m \<Longrightarrow> map_of (leases m) name = Some r \<Longrightarrow> lease_ok (policy m) r"
  using meter_invD(3) [of m] map_of_SomeD [of "leases m" name r] by (auto simp: list_all_iff)

text \<open>What releasing a lease's reservations writes.\<close>

lemma release_row_effect:
  assumes "distinct (matched_rows r)" "distinct (map fst (floor_allocations r))"
  shows "\<exists>ts. release_reservations r m = m\<lparr>reserved_units := reserved_units m - reserve_units r, row_tallies := ts,
      shared_reserved := shared_reserved m - shared_units r\<rparr> \<and> length ts = length (row_tallies m) \<and>
    (\<forall>j < length (row_tallies m). ts ! j = row_change (matched_rows r) (floor_allocations r)
       (\<lambda>t. t\<lparr>tally_reserved := tally_reserved t - reserve_units r\<rparr>)
       (\<lambda>u t. t\<lparr>floor_reserved := floor_reserved t - u\<rparr>) j (row_tallies m ! j))"
proof -
  let ?f = "\<lambda>t. t\<lparr>tally_reserved := tally_reserved t - reserve_units r\<rparr>"
  let ?g = "\<lambda>u t. t\<lparr>floor_reserved := floor_reserved t - u\<rparr>"
  let ?ts = "fold (\<lambda>(i, u). upd i (?g u)) (floor_allocations r) (fold (\<lambda>i. upd i ?f) (matched_rows r) (row_tallies m))"
  have "release_reservations r m = m\<lparr>reserved_units := reserved_units m - reserve_units r, row_tallies := ?ts,
      shared_reserved := shared_reserved m - shared_units r\<rparr>"
    by (simp add: release_reservations_def fold_at_row fold_at_pairs)
  then show ?thesis using fold_row_change [OF assms, of ?g ?f "row_tallies m"]
    by - (rule exI [of _ ?ts], rule conjI)
qed

text \<open>A lease that stops being open gives back exactly what it reserved.\<close>

lemma released_rows:
  assumes inv: "meter_inv m" and r: "map_of (leases m) name = Some r" "lease_state r = OpenLease" "st \<noteq> OpenLease"
  shows "\<exists>ts. release_reservations r (close_lease name r st m) =
      m\<lparr>leases := AList.update name (r\<lparr>lease_state := st\<rparr>) (leases m), reserved_units := reserved_units m - reserve_units r,
        row_tallies := ts, shared_reserved := shared_reserved m - shared_units r\<rparr> \<and> length ts = length (policy m) \<and>
    (\<forall>j < length (policy m). tally_used (ts ! j) = tally_used (row_tallies m ! j) \<and>
       floor_used (ts ! j) = floor_used (row_tallies m ! j) \<and>
       tally_reserved (ts ! j) = tally_reserved (row_tallies m ! j) - row_share j r \<and>
       floor_reserved (ts ! j) = floor_reserved (row_tallies m ! j) - floor_share j r)"
proof -
  have ok: "distinct (matched_rows r)" "distinct (map fst (floor_allocations r))"
    using lease_found [OF inv r(1)] by (auto simp: lease_ok_def)
  obtain ts where ts: "release_reservations r (close_lease name r st m) =
      (close_lease name r st m)\<lparr>reserved_units := reserved_units (close_lease name r st m) - reserve_units r, row_tallies := ts,
      shared_reserved := shared_reserved (close_lease name r st m) - shared_units r\<rparr>"
    "length ts = length (row_tallies (close_lease name r st m))"
    "\<And>j. j < length (row_tallies (close_lease name r st m)) \<Longrightarrow> ts ! j = row_change (matched_rows r) (floor_allocations r)
       (\<lambda>t. t\<lparr>tally_reserved := tally_reserved t - reserve_units r\<rparr>)
       (\<lambda>u t. t\<lparr>floor_reserved := floor_reserved t - u\<rparr>) j (row_tallies (close_lease name r st m) ! j)"
    using release_row_effect [OF ok, of "close_lease name r st m"] by blast
  show ?thesis
    by (rule exI [of _ ts]) (use ts meter_invD(6) [OF inv] in
      \<open>auto simp: close_lease_def row_change_def row_share_def floor_share_def Let_def split: option.splits\<close>)
qed

lemma release_inv:
  assumes inv: "meter_inv m" and r: "map_of (leases m) name = Some r" "lease_state r = OpenLease" "st \<noteq> OpenLease"
  shows "meter_inv (release_reservations r (close_lease name r st m))"
proof -
  let ?m = "release_reservations r (close_lease name r st m)"
  obtain ts where ts: "?m = m\<lparr>leases := AList.update name (r\<lparr>lease_state := st\<rparr>) (leases m),
        reserved_units := reserved_units m - reserve_units r,
        row_tallies := ts, shared_reserved := shared_reserved m - shared_units r\<rparr>" "length ts = length (policy m)"
    and rows: "\<And>j. j < length (policy m) \<Longrightarrow> tally_used (ts ! j) = tally_used (row_tallies m ! j) \<and>
       floor_used (ts ! j) = floor_used (row_tallies m ! j) \<and>
       tally_reserved (ts ! j) = tally_reserved (row_tallies m ! j) - row_share j r \<and>
       floor_reserved (ts ! j) = floor_reserved (row_tallies m ! j) - floor_share j r"
    using released_rows [OF inv r] by blast
  have fields: "policy ?m = policy m" "used_units ?m = used_units m" "limit_units ?m = limit_units m"
    "reserved_units ?m = reserved_units m - reserve_units r" "shared_used ?m = shared_used m" "row_tallies ?m = ts"
    "shared_reserved ?m = shared_reserved m - shared_units r" "total_floor_units ?m = total_floor_units m"
    "horizons ?m = horizons m" "leases ?m = AList.update name (r\<lparr>lease_state := st\<rparr>) (leases m)"
    by (simp_all add: ts(1))
  have "open_sum f ?m = open_sum f (close_lease name r st m)" for f
    unfolding open_sum_def fields unfolding close_lease_def by simp
  then have sum: "open_sum f ?m = open_sum f m - f r" for f using open_sum_close [OF r, of f] by simp
  have "map floor_used ts = map floor_used (row_tallies m)"
    using ts rows meter_invD(6) [OF inv] by (intro nth_equalityI) auto
  then have "spend_split ?m" using meter_invD(10) [OF inv] unfolding spend_split_def fields by simp
  moreover have "tally_ok ?m j (ts ! j)" if "j < length (policy m)" for j
    using meter_invD(7) [OF inv that] rows [OF that] unfolding tally_ok_def fields sum by auto
  moreover have "list_all (\<lambda>(_, x). lease_ok (policy m) x) (leases ?m)"
    unfolding fields using meter_invD(3) [OF inv] lease_found [OF inv r(1)]
    by (intro leases_update) (simp_all add: lease_ok_def)
  moreover have "names_ok ?m"
    using names_update [OF meter_invD(2) [OF inv] r(1)] by (simp add: ts(1) names_ok_def lease_id_def)
  ultimately show ?thesis using inv ts(2) unfolding meter_inv_def units_fit_def fields sum by auto
qed

lemma sum_list_add_at: "i < length xs \<Longrightarrow> sum_list (xs[i := xs ! i + u]) = sum_list xs + (u :: nat)"
proof (induction xs arbitrary: i)
  case (Cons x xs)
  then show ?case by (cases i) auto
qed simp

text \<open>Charging floors: what is left over and what the floors took is what was spent.\<close>

definition floors_hold :: "meter \<Rightarrow> bool" where
  "floors_hold m \<longleftrightarrow> length (row_tallies m) = length (policy m) \<and>
     (\<forall>j < length (policy m). floor_of (policy m) j \<le> usize_max \<and>
        floor_used (row_tallies m ! j) + floor_reserved (row_tallies m ! j) \<le> floor_of (policy m) j)"

lemma charge_effect:
  assumes "floors_hold m" "set rows \<subseteq> {..< length (policy m)}"
  shows "\<exists>rest ts. charge_floors rows spent m = (rest, m\<lparr>row_tallies := ts\<rparr>) \<and> floors_hold (m\<lparr>row_tallies := ts\<rparr>) \<and>
    sum_list (map floor_used ts) + rest = sum_list (map floor_used (row_tallies m)) + spent \<and> rest \<le> spent \<and>
    (\<forall>j < length (policy m). tally_used (ts ! j) = tally_used (row_tallies m ! j) \<and>
       tally_reserved (ts ! j) = tally_reserved (row_tallies m ! j) \<and>
       floor_reserved (ts ! j) = floor_reserved (row_tallies m ! j) \<and> floor_used (row_tallies m ! j) \<le> floor_used (ts ! j))"
  using assms
proof (induction rows arbitrary: spent m)
  case (Cons i rows)
  have i: "i < length (policy m)" "i < length (row_tallies m)" using Cons.prems by (auto simp: floors_hold_def)
  let ?t = "row_tallies m ! i"
  define units where "units = min spent (floor_of (policy m) i - (floor_used ?t + floor_reserved ?t))"
  have fit: "floor_used ?t + floor_reserved ?t \<le> floor_of (policy m) i" "floor_of (policy m) i \<le> usize_max"
    using Cons.prems(1) i by (auto simp: floors_hold_def)
  show ?case
  proof (cases "units = 0")
    case True
    show ?thesis
    proof (cases "spent = 0")
      case True
      then show ?thesis using Cons.prems(1) by (intro exI [of _ 0] exI [of _ "row_tallies m"]) simp
    next
      case False
      with True fit i have "charge_floors (i # rows) spent m = charge_floors rows spent m"
        by (auto simp: policy_row_at_def row_tally_at_def units_def floor_of_def Let_def split: option.splits)
      then show ?thesis using Cons.IH [of m spent] Cons.prems by simp
    qed
  next
    case False
    let ?ts = "upd i (\<lambda>t. t\<lparr>floor_used := sat_add (floor_used t) units\<rparr>) (row_tallies m)"
    have units: "units \<le> spent" "floor_used ?t + units + floor_reserved ?t \<le> floor_of (policy m) i"
      using fit(1) by (auto simp: units_def)
    have sat: "sat_add (floor_used ?t) units = floor_used ?t + units" using units fit(2) by simp
    have "charge_floors (i # rows) spent m = charge_floors rows (spent - units) (m\<lparr>row_tallies := ?ts\<rparr>)"
      using False fit i by (auto simp: policy_row_at_def row_tally_at_def units_def floor_of_def at_row_eq Let_def split: option.splits)
    moreover have "floors_hold (m\<lparr>row_tallies := ?ts\<rparr>)"
      using Cons.prems(1) units(2) sat by (auto simp: floors_hold_def nth_upd)
    then obtain rest ts where ih: "charge_floors rows (spent - units) (m\<lparr>row_tallies := ?ts\<rparr>) = (rest, m\<lparr>row_tallies := ts\<rparr>)"
      "floors_hold (m\<lparr>row_tallies := ts\<rparr>)"
      "sum_list (map floor_used ts) + rest = sum_list (map floor_used ?ts) + (spent - units)" "rest \<le> spent - units"
      "\<And>j. j < length (policy m) \<Longrightarrow> tally_used (ts ! j) = tally_used (?ts ! j) \<and> tally_reserved (ts ! j) = tally_reserved (?ts ! j) \<and>
         floor_reserved (ts ! j) = floor_reserved (?ts ! j) \<and> floor_used (?ts ! j) \<le> floor_used (ts ! j)"
      using Cons.IH [of "m\<lparr>row_tallies := ?ts\<rparr>" "spent - units"] Cons.prems(2) by auto
    moreover have "sum_list (map floor_used ?ts) = sum_list (map floor_used (row_tallies m)) + units"
    proof -
      have "map floor_used ?ts = (map floor_used (row_tallies m))[i := floor_used ?t + units]"
        by (simp add: upd_def map_update sat)
      then show ?thesis using i(2) using sum_list_add_at [of i "map floor_used (row_tallies m)" units] by simp
    qed
    moreover have "tally_used (?ts ! j) = tally_used (row_tallies m ! j) \<and> tally_reserved (?ts ! j) = tally_reserved (row_tallies m ! j) \<and>
         floor_reserved (?ts ! j) = floor_reserved (row_tallies m ! j) \<and> floor_used (row_tallies m ! j) \<le> floor_used (?ts ! j)"
      if "j < length (policy m)" for j
      using that Cons.prems(1) sat by (auto simp: nth_upd floors_hold_def)
    ultimately show ?thesis using units(1) by (intro exI [of _ rest] exI [of _ ts]) fastforce
  qed
qed (auto intro!: exI [of _ "row_tallies _"])


lemma usage_inv:
  assumes inv: "meter_inv m" and ok: "lease_ok (policy m) r"
    and u: "used_units m \<le> u" "u \<le> usize_max" "u = used_units m + spent \<or> u = usize_max \<and> usize_max \<le> used_units m + spent"
  shows "meter_inv (apply_usage r spent (m\<lparr>used_units := u\<rparr>))"
proof -
  let ?f = "\<lambda>t. t\<lparr>tally_used := sat_add (tally_used t) spent\<rparr>"
  let ?us = "fold (\<lambda>i. upd i ?f) (matched_rows r) (row_tallies m)"
  let ?m = "m\<lparr>used_units := u, row_tallies := ?us\<rparr>"
  note fits = meter_invD(1) [OF inv, unfolded units_fit_def]
  have rows: "distinct (matched_rows r)" "set (matched_rows r) \<subseteq> {..< length (policy m)}" using ok by (auto simp: lease_ok_def)
  have len: "length (row_tallies m) = length (policy m)" by (rule meter_invD(6) [OF inv])
  have us: "length ?us = length (policy m)"
    "\<And>j. j < length (policy m) \<Longrightarrow> ?us ! j = (if j \<in> set (matched_rows r) then ?f (row_tallies m ! j) else row_tallies m ! j)"
    using fold_upd [OF rows(1), of ?f "row_tallies m"] len by auto
  have row: "tally_ok m j (row_tallies m ! j)" if "j < length (policy m)" for j by (rule meter_invD(7) [OF inv that])
  have same: "floor_used (?us ! j) = floor_used (row_tallies m ! j) \<and> floor_reserved (?us ! j) = floor_reserved (row_tallies m ! j) \<and>
      tally_reserved (?us ! j) = tally_reserved (row_tallies m ! j) \<and> tally_used (?us ! j) \<le> u" if "j < length (policy m)" for j
    using us(2) [OF that] row [OF that] u by (auto simp: tally_ok_def sat_add_def)
  have fit: "floor_used (row_tallies m ! j) + floor_reserved (row_tallies m ! j) \<le> floor_of (policy m) j"
    if "j < length (policy m)" for j using row [OF that] unfolding tally_ok_def by (elim conjE)
  have "floors_hold ?m" using us(1) same fit fits by (auto simp: floors_hold_def)
  then obtain rest ts where c: "charge_floors (matched_rows r) spent ?m = (rest, m\<lparr>used_units := u, row_tallies := ts\<rparr>)"
    and h: "floors_hold (m\<lparr>used_units := u, row_tallies := ts\<rparr>)"
    and s: "sum_list (map floor_used ts) + rest = sum_list (map floor_used ?us) + spent"
    and t: "\<And>j. j < length (policy m) \<Longrightarrow> tally_used (ts ! j) = tally_used (?us ! j) \<and>
       tally_reserved (ts ! j) = tally_reserved (?us ! j) \<and> floor_reserved (ts ! j) = floor_reserved (?us ! j)"
    using charge_effect [of ?m "matched_rows r" spent] rows(2) by auto
  let ?n = "m\<lparr>used_units := u, row_tallies := ts, shared_used := sat_add (shared_used m) rest\<rparr>"
  have n: "apply_usage r spent (m\<lparr>used_units := u\<rparr>) = ?n"
    using c by (simp add: apply_usage_def fold_at_row)
  have "map floor_used ?us = map floor_used (row_tallies m)" using us(1) same len by (intro nth_equalityI) auto
  then have "spend_split ?n" using s u meter_invD(10) [OF inv] by (auto simp: spend_split_def sat_add_def)
  moreover have "tally_ok ?n j (ts ! j)" if "j < length (policy m)" for j
    using that t [OF that] same [OF that] row [OF that] h by (auto simp: tally_ok_def floors_hold_def)
  ultimately show ?thesis unfolding n using inv u h
    by (auto simp: meter_inv_def units_fit_def names_ok_def lease_id_def floors_hold_def)
qed

lemma release_fields [simp]:
  "used_units (release_reservations r m) = used_units m" "policy (release_reservations r m) = policy m"
  by (simp_all add: release_reservations_def fold_at_row fold_at_pairs)

lemma close_fields [simp]:
  "used_units (close_lease name r st m) = used_units m" "policy (close_lease name r st m) = policy m"
  by (simp_all add: close_lease_def)

lemma settle_usage_inv:
  assumes inv: "meter_inv m"
  shows "meter_inv (snd (settle_usage l spent m))"
proof -
  have "meter_inv (apply_usage r spent (release_reservations r (close_lease (lease_name l) r st m)
      \<lparr>used_units := sat_add (used_units m) spent\<rparr>))"
    if "map_of (leases m) (lease_name l) = Some r" "lease_state r = OpenLease" "st \<noteq> OpenLease" for r st
    using release_inv [OF inv that] lease_found [OF inv that(1)] meter_invD(1) [OF inv]
    by (intro usage_inv) (auto simp: sat_add_def units_fit_def)
  then show ?thesis using inv settlement_inv release_inv [OF inv]
    by (auto simp: settle_usage_def Let_def split: option.splits lease_state.splits)
qed

lemma settle_absolute_inv:
  assumes inv: "meter_inv m" and reading: "reading \<le> usize_max"
  shows "meter_inv (snd (settle_absolute l reading m))"
proof -
  have "meter_inv (apply_usage r (reading - used_units m) (release_reservations r (close_lease (lease_name l) r st m)
      \<lparr>used_units := max (used_units m) reading\<rparr>))"
    if "map_of (leases m) (lease_name l) = Some r" "lease_state r = OpenLease" "st \<noteq> OpenLease" for r st
    using release_inv [OF inv that] lease_found [OF inv that(1)] meter_invD(1) [OF inv] reading
    by (intro usage_inv) (auto simp: units_fit_def max_def)
  then show ?thesis using inv settlement_inv release_inv [OF inv]
    by (auto simp: settle_absolute_def Let_def split: option.splits lease_state.splits)
qed

lemma abort_inv: "meter_inv m \<Longrightarrow> meter_inv (snd (abort l m))"
  using settle_usage_inv settlement_inv release_inv [of m]
  by (auto simp: abort_def split: option.splits lease_state.splits)

lemma flag_inv:
  assumes inv: "meter_inv m" and r: "map_of (leases m) name = Some r"
  shows "meter_inv (m\<lparr>leases := AList.update name (r\<lparr>was_dispatched := b\<rparr>) (leases m)\<rparr>)"
proof -
  let ?m = "m\<lparr>leases := AList.update name (r\<lparr>was_dispatched := b\<rparr>) (leases m)\<rparr>"
  have sum: "open_sum f ?m = open_sum f m" if "f (r\<lparr>was_dispatched := b\<rparr>) = f r" for f
    using alist_sum_update [OF r, of "held_by f" "r\<lparr>was_dispatched := b\<rparr>"] that by (simp add: open_sum_def held_by_def split: if_splits)
  have "open_sum (row_share i) ?m = open_sum (row_share i) m" "open_sum (floor_share i) ?m = open_sum (floor_share i) m"
    "open_sum reserve_units ?m = open_sum reserve_units m" "open_sum shared_units ?m = open_sum shared_units m" for i
    by (rule sum, simp add: row_share_def floor_share_def)+
  moreover have "list_all (\<lambda>(_, x). lease_ok (policy m) x) (leases ?m)"
    using meter_invD(3) [OF inv] lease_found [OF inv r] by (simp add: leases_update lease_ok_def)
  ultimately show ?thesis using inv names_update [OF meter_invD(2) [OF inv] r]
    by (auto simp: meter_inv_def units_fit_def tally_ok_def spend_split_def)
qed

lemma dispatch_inv: "meter_inv m \<Longrightarrow> meter_inv (snd (begin_dispatch l c m))"
  by (auto simp: begin_dispatch_def intro: flag_inv split: option.splits)

lemma unsent_inv: "meter_inv m \<Longrightarrow> meter_inv (snd (mark_unsent l m))"
  by (auto simp: mark_unsent_def intro: flag_inv split: option.splits)

lemma admitting_inv: "meter_inv (snd x) \<Longrightarrow> meter_inv (snd (admitting x))"
  using fire_ladders_inv by (auto simp: admitting_def metered_admission_def split: prod.splits sum.splits)
    (metis snd_conv)


section \<open>Runs\<close>

datatype meter_call =
  CAdmit | CRequest budget_request | CPaid budget_request | CLocal | CReserve nat
| CReserveBound nat dispatch_binding | CCallBound nat call_purpose dispatch_binding | CFree dispatch_binding bool
| CSettleAbsolute budget_lease nat | CSettleUsage budget_lease nat | CSettleReserved budget_lease
| CAbort budget_lease | CBegin budget_lease dispatch_binding | CUnsent budget_lease | CRevise nat nat

fun meter_step :: "meter_call \<Rightarrow> meter \<Rightarrow> meter" where
  "meter_step CAdmit m = snd (admit m)"
| "meter_step (CRequest req) m = snd (admit_for_request req m)"
| "meter_step (CPaid req) m = snd (admit_paid_for_request req m)"
| "meter_step CLocal m = snd (admit_local m)"
| "meter_step (CReserve r) m = snd (admit_reserve r m)"
| "meter_step (CReserveBound r b) m = snd (admit_reserve_bound r b m)"
| "meter_step (CCallBound r p b) m = snd (admit_call_bound r p b m)"
| "meter_step (CFree b keyless) m = snd (admit_free_work b keyless m)"
| "meter_step (CSettleAbsolute l n) m = snd (settle_absolute l n m)"
| "meter_step (CSettleUsage l n) m = snd (settle_usage l n m)"
| "meter_step (CSettleReserved l) m = snd (settle_reserved l m)"
| "meter_step (CAbort l) m = snd (abort l m)"
| "meter_step (CBegin l c) m = snd (begin_dispatch l c m)"
| "meter_step (CUnsent l) m = snd (mark_unsent l m)"
| "meter_step (CRevise limit reserve) m = revise_line limit reserve m"

text \<open>Readings and limits are \<open>u64\<close>.\<close>

fun call_fits :: "meter_call \<Rightarrow> bool" where
  "call_fits (CSettleAbsolute l n) = (n \<le> usize_max)"
| "call_fits (CRevise limit reserve) = (limit \<le> usize_max)"
| "call_fits _ = True"

definition policy_fits :: "policy_row list \<Rightarrow> bool" where
  "policy_fits rows \<longleftrightarrow> list_all (\<lambda>r. case row_floor r of None \<Rightarrow> True | Some f \<Rightarrow> f \<le> usize_max) rows"

text \<open>Every admission is a reservation or an unmetered lease, with the ladders fired.\<close>

lemmas admission_defs = admit_def admit_local_def admit_paid_for_request_def admit_for_request_def admit_reserve_def
  admit_reserve_bound_def admit_call_bound_def admit_free_work_def reserve_plain_def reserve_for_def

lemma meter_step_cases:
  obtains (reserve) r p b where "meter_step c m = snd (admitting (reserve_bound r p b m))"
  | (free) b where "meter_step c m = snd (unmetered_admission b m)"
  | (absolute) l n where "c = CSettleAbsolute l n" "meter_step c m = snd (settle_absolute l n m)"
  | (usage) l n where "c = CSettleUsage l n \<or> c = CSettleReserved l \<and> reserved_for l m = Some n" "meter_step c m = snd (settle_usage l n m)"
  | (abort) l where "c = CAbort l" "meter_step c m = snd (abort l m)"
  | (dispatch) l d where "c = CBegin l d" "meter_step c m = snd (begin_dispatch l d m)"
  | (unsent) l where "c = CUnsent l" "meter_step c m = snd (mark_unsent l m)"
  | (revise) limit res where "c = CRevise limit res" "meter_step c m = revise_line limit res m"
  | (none) "meter_step c m = m"
proof (cases c)
  case (CSettleReserved l)
  show thesis
  proof (cases "reserved_for l m")
    case None
    with CSettleReserved show thesis by (intro none) (simp add: settle_reserved_def)
  next
    case (Some n)
    with CSettleReserved show thesis by (intro usage [of l n]) (simp_all add: settle_reserved_def)
  qed
next
  case (CRequest req)
  show thesis
  proof (cases "(call_locality req = OnDevice \<or> host_keyless req \<and> call_locality req = OwnServer) \<and> \<not> host_paid req")
    case True
    with CRequest show thesis by (intro free) (simp add: admission_defs)
  next
    case False
    with CRequest show thesis by (intro reserve) (auto simp: admission_defs)
  qed
next
  case (CFree b keyless)
  show thesis
  proof (cases "bind_locality b = OnDevice \<or> (keyless \<and> bind_locality b = OwnServer)")
    case True
    with CFree show thesis by (intro free) (simp add: admission_defs)
  next
    case False
    with CFree show thesis by (intro none) (auto simp: admission_defs)
  qed
qed (use that in \<open>auto simp: admission_defs\<close>)

lemma meter_step_inv:
  assumes inv: "meter_inv m" and seq: "next_lease_seq m < usize_max" and fits: "call_fits c"
  shows "meter_inv (meter_step c m)"
  using meter_step_cases [of c m]
proof cases
  case (reserve r p b)
  then show ?thesis using admitting_inv [OF reserve_inv [OF inv seq]] by simp
next
  case (free b)
  then show ?thesis using unmetered_inv [OF inv seq] by simp
next
  case (absolute l n)
  then show ?thesis using settle_absolute_inv [OF inv] fits by simp
next
  case (revise limit res)
  then show ?thesis using revise_inv [OF inv] fits by simp
qed (use inv settle_usage_inv abort_inv dispatch_inv unsent_inv in simp_all)

text \<open>A call takes at most one lease number.\<close>

lemma fired_seq: "next_lease_seq (snd (fire_ladders m)) = next_lease_seq m"
  using fire_ladders_effect [of m] by auto

lemma charged_seq: "next_lease_seq (snd (charge_floors rows spent m)) = next_lease_seq m"
  by (induction rows arbitrary: spent m) (auto simp: Let_def at_row_eq split: option.split)

lemma applied_seq: "next_lease_seq (apply_usage r spent m) = next_lease_seq m"
  by (simp add: apply_usage_def fold_at_row charged_seq case_prod_unfold Let_def)

lemma released_seq: "next_lease_seq (release_reservations r (close_lease name r st m)) = next_lease_seq m"
  by (simp add: release_reservations_def fold_at_row fold_at_pairs close_lease_def)

lemma settled_seq: "next_lease_seq (snd (settlement_of m)) = next_lease_seq m"
  using fired_seq [of m] by (simp add: settlement_of_def case_prod_unfold Let_def)

lemma reserved_seq: "next_lease_seq (snd (reserve_bound r p b m)) \<le> Suc (next_lease_seq m)"
  by (auto simp: reserve_bound_def issue_lease_with_def commit_reservation_def fold_at_row fold_at_pairs Let_def sat_add_def
      split: reserve_plan.split)

lemma step_seq: "next_lease_seq (meter_step c m) \<le> Suc (next_lease_seq m)"
  using meter_step_cases [of c m]
proof cases
  case (reserve r p b)
  have "next_lease_seq (snd (admitting x)) = next_lease_seq (snd x)" for x
    using fired_seq [of "snd x"] by (auto simp: admitting_def metered_admission_def split: prod.splits sum.splits)
  then show ?thesis using reserve reserved_seq by simp
next
  case (free b)
  then show ?thesis by (auto simp: unmetered_admission_def issue_lease_def issue_lease_with_def Let_def sat_add_def)
next
  case (absolute l n)
  then show ?thesis by (auto simp: settle_absolute_def Let_def settled_seq applied_seq released_seq split: option.split lease_state.split)
next
  case (usage l n)
  then show ?thesis by (auto simp: settle_usage_def Let_def settled_seq applied_seq released_seq split: option.split lease_state.split)
next
  case (abort l)
  then show ?thesis
    by (auto simp: abort_def settle_usage_def Let_def settled_seq applied_seq released_seq split: option.split lease_state.split)
next
  case (dispatch l d)
  then show ?thesis by (auto simp: begin_dispatch_def split: option.split)
next
  case (unsent l)
  then show ?thesis by (auto simp: mark_unsent_def split: option.split)
qed (simp_all add: revise_line_def)

lemma meter_run_inv:
  "meter_inv m \<Longrightarrow> list_all call_fits cs \<Longrightarrow> next_lease_seq m + length cs < usize_max \<Longrightarrow>
   meter_inv (fold meter_step cs m) \<and> next_lease_seq (fold meter_step cs m) \<le> next_lease_seq m + length cs"
proof (induction cs arbitrary: m)
  case (Cons c cs)
  have "meter_inv (meter_step c m)" using Cons.prems by (intro meter_step_inv) auto
  with Cons.IH [of "meter_step c m"] Cons.prems step_seq [of c m] show ?case by auto
qed simp

text \<open>C15: every unit of a meter is accounted for.  Whatever calls a new meter has served, what it and
  each policy row hold reserved is the sum over the leases still open; no row has committed more of its floor
  than the floor; and all that was spent is split between the floors and the shared slice, until the
  counter reaches its maximum.\<close>

theorem meter_accounts_for_every_unit:
  assumes "limit \<le> usize_max" "policy_fits rows" "list_all call_fits cs" "length cs < usize_max"
    and m: "m = fold meter_step cs (new_meter identity attempt limit reserve exhausted act rows)"
  shows "reserved_units m = open_sum reserve_units m \<and> shared_reserved m = open_sum shared_units m \<and>
    (i < length (policy m) \<longrightarrow>
       tally_reserved (row_tallies m ! i) = open_sum (row_share i) m \<and>
       floor_reserved (row_tallies m ! i) = open_sum (floor_share i) m \<and>
       floor_used (row_tallies m ! i) + floor_reserved (row_tallies m ! i) \<le> floor_of (policy m) i \<and>
       tally_used (row_tallies m ! i) \<le> used_units m) \<and>
    (policy m \<noteq> [] \<and> used_units m < usize_max \<longrightarrow>
       used_units m = sum_list (map floor_used (row_tallies m)) + shared_used m)"
proof -
  have "meter_inv (new_meter identity attempt limit reserve exhausted act rows)"
    using assms(1,2) by (intro new_meter_inv) (simp_all add: policy_fits_def)
  then have inv: "meter_inv m" unfolding m using assms(3,4) by (intro meter_run_inv [THEN conjunct1]) (simp_all add: new_meter_def)
  show ?thesis using meter_invD(8-10) [OF inv] meter_invD(7) [OF inv, of i] unfolding tally_ok_def spend_split_def by blast
qed

definition sample_rows :: "policy_row list" where
  "sample_rows = [\<lparr>row_selector = ByPurpose Consolidation, row_floor = Some 200, row_cap = None\<rparr>,
     \<lparr>row_selector = ByPurpose Extraction, row_floor = None, row_cap = Some 150\<rparr>]"

definition sample_call :: dispatch_binding where
  "sample_call = \<lparr>subject = ''model'', bind_route = ''r'', bind_locality = ThirdParty, offer = ''o'', request_digest = None\<rparr>"

definition sample_meter :: meter where
  "sample_meter = new_meter 7 ''a'' 1000 100 Suspend None sample_rows"

definition sample_lease :: budget_lease where
  "sample_lease = \<lparr>lease_name = ''a:metered:1'', issuer = 7\<rparr>"

lemmas meter_computes = new_tally_def sample_meter_def sample_rows_def new_meter_def total_floors_def add_floor_def row_horizons_def
  leaseable_floors_def admit_call_bound_def reserve_bound_def plan_reserve_def rows_matching_def upt_rec matched_cap_denies_def
  policy_row_at_def row_tally_at_def exceeds_def global_denies_def cap_units_def shared_admission_ceiling_def
  shared_slice_units_def usize_max_def sat_add_def commit_reservation_def at_row_def issue_lease_with_def
  admitting_def metered_admission_def Let_def

lemma fired_reserved: "reserved_units (snd (fire_ladders m)) = reserved_units m"
  using fire_ladders_effect [of m] by auto

lemma meter_accounts_for_every_unit_witness:
  "open_sum reserve_units (fold meter_step [CCallBound 100 Extraction sample_call] sample_meter) = 100"
proof -
  have "reserved_units (fold meter_step [CCallBound 100 Extraction sample_call] sample_meter) = 100"
    by (simp add: meter_computes case_prod_unfold fired_reserved)
  moreover have "reserved_units (fold meter_step [CCallBound 100 Extraction sample_call] sample_meter) =
      open_sum reserve_units (fold meter_step [CCallBound 100 Extraction sample_call] sample_meter)"
    using meter_accounts_for_every_unit [of 1000 sample_rows "[CCallBound 100 Extraction sample_call]"
        "fold meter_step [CCallBound 100 Extraction sample_call] sample_meter" 7 "''a''" 100 Suspend None]
    by (simp add: policy_fits_def sample_rows_def usize_max_def sample_meter_def)
  ultimately show ?thesis by simp
qed


section \<open>Spend within the line\<close>

text \<open>A run is modest while no settlement charges more than its lease reserved and nobody revises the line.\<close>

fun modest :: "meter_call \<Rightarrow> meter \<Rightarrow> bool" where
  "modest (CSettleUsage l n) m = (case own_record l m of None \<Rightarrow> True | Some r \<Rightarrow> metered r \<longrightarrow> n \<le> reserve_units r)"
| "modest (CSettleAbsolute l n) m =
     (case own_record l m of None \<Rightarrow> True | Some r \<Rightarrow> metered r \<longrightarrow> n \<le> used_units m + reserve_units r)"
| "modest (CRevise limit reserve) m = False"
| "modest c m = True"

fun modest_run :: "meter_call list \<Rightarrow> meter \<Rightarrow> bool" where
  "modest_run [] m = True"
| "modest_run (c # cs) m = (modest c m \<and> modest_run cs (meter_step c m))"

definition within_line :: "meter \<Rightarrow> bool" where
  "within_line m \<longleftrightarrow> used_units m + reserved_units m \<le> cap_units m \<and>
     (policy m = [] \<or> shared_used m + shared_reserved m \<le> shared_admission_ceiling m)"

lemma within_fired: "within_line (snd (fire_ladders m)) = within_line m"
  using fire_ladders_effect [of m]
  by (auto simp: within_line_def cap_units_def shared_admission_ceiling_def shared_slice_units_def)

lemma within_settled: "within_line (snd (settlement_of m)) = within_line m"
  using within_fired [of m] by (simp add: settlement_of_def case_prod_unfold Let_def)

lemma within_admitting: "within_line (snd (admitting x)) = within_line (snd x)"
  using within_fired [of "snd x"]
  by (cases x; cases "fst x") (auto simp: admitting_def metered_admission_def case_prod_unfold Let_def)

lemma within_reserve:
  assumes inv: "meter_inv m" and w: "within_line m"
  shows "within_line (snd (reserve_bound r p b m))"
proof (cases "plan_reserve m r p")
  case (AdmitPlan a)
  have fit: "plan_fits m r p a" using AdmitPlan by (rule plan_admits)
  obtain ts where ts: "commit_reservation r a m = m\<lparr>reserved_units := reserved_units m + r, row_tallies := ts,
      shared_reserved := shared_reserved m + alloc_shared a\<rparr>" using committed_rows [OF inv fit, of b] by blast
  have "alloc_shared a = 0 \<or> shared_used m + shared_reserved m + alloc_shared a \<le> shared_admission_ceiling m"
    using fit by (auto simp: plan_fits_def no_allocation_def split: if_splits)
  then show ?thesis using w fit AdmitPlan
    by (auto simp: reserve_bound_def ts issue_lease_with_def Let_def within_line_def plan_fits_def cap_units_def
        shared_admission_ceiling_def shared_slice_units_def)
qed (use w in \<open>auto simp: reserve_bound_def\<close>)

lemma within_free: "within_line m \<Longrightarrow> within_line (snd (unmetered_admission b m))"
  by (auto simp: unmetered_admission_def issue_lease_def issue_lease_with_def Let_def within_line_def cap_units_def
      shared_admission_ceiling_def shared_slice_units_def)

lemma charge_rest:
  assumes "floors_hold m" "distinct rows" "set rows \<subseteq> {..< length (policy m)}"
    "\<And>i. i \<in> set rows \<Longrightarrow> h i + floor_used (row_tallies m ! i) + floor_reserved (row_tallies m ! i) \<le> floor_of (policy m) i"
  shows "fst (charge_floors rows spent m) \<le> spent - sum_list (map h rows)"
  using assms
proof (induction rows arbitrary: spent m)
  case (Cons i rows)
  have i: "i < length (policy m)" "i < length (row_tallies m)" using Cons.prems by (auto simp: floors_hold_def)
  let ?t = "row_tallies m ! i"
  define units where "units = min spent (floor_of (policy m) i - (floor_used ?t + floor_reserved ?t))"
  have fit: "h i + floor_used ?t + floor_reserved ?t \<le> floor_of (policy m) i" "floor_of (policy m) i \<le> usize_max"
    using Cons.prems(1,4) i by (auto simp: floors_hold_def)
  show ?case
  proof (cases "spent = 0")
    case False
    show ?thesis
    proof (cases "units = 0")
      case True
      with fit i False have "charge_floors (i # rows) spent m = charge_floors rows spent m" "h i = 0"
        by (auto simp: policy_row_at_def row_tally_at_def units_def floor_of_def Let_def split: option.splits)
      then show ?thesis using Cons.IH [of m spent] Cons.prems by simp
    next
      case nz: False
      let ?m = "m\<lparr>row_tallies := upd i (\<lambda>t. t\<lparr>floor_used := sat_add (floor_used t) units\<rparr>) (row_tallies m)\<rparr>"
      have units: "units + floor_used ?t + floor_reserved ?t \<le> floor_of (policy m) i" using fit(1) by (auto simp: units_def)
      have sat: "sat_add (floor_used ?t) units = floor_used ?t + units" using units fit(2) by simp
      have "charge_floors (i # rows) spent m = charge_floors rows (spent - units) ?m"
        using nz fit i False by (auto simp: policy_row_at_def row_tally_at_def units_def floor_of_def at_row_eq Let_def split: option.splits)
      moreover have "fst (charge_floors rows (spent - units) ?m) \<le> spent - units - sum_list (map h rows)"
      proof (rule Cons.IH)
        show "floors_hold ?m" using Cons.prems(1) units sat by (auto simp: floors_hold_def nth_upd)
        show "h j + floor_used (row_tallies ?m ! j) + floor_reserved (row_tallies ?m ! j) \<le> floor_of (policy ?m) j"
          if j: "j \<in> set rows" for j
        proof -
          have "j < length (row_tallies m)" "i \<noteq> j" using Cons.prems j by (auto simp: floors_hold_def)
          then show ?thesis using Cons.prems(4) [of j] j by (simp add: nth_upd)
        qed
      qed (use Cons.prems in auto)
      moreover have "h i \<le> units \<or> units = spent" using fit(1) by (auto simp: units_def)
      ultimately show ?thesis by auto
    qed
  qed simp
qed simp

lemma sum_shares:
  "distinct (map fst al) \<Longrightarrow> distinct is \<Longrightarrow> fst ` set al \<subseteq> set is \<Longrightarrow>
   sum_list (map (\<lambda>i. case map_of al i of None \<Rightarrow> 0 | Some u \<Rightarrow> u) is) = sum_list (map snd (al :: (nat \<times> nat) list))"
proof (induction al)
  case (Cons p al)
  obtain k u where p: "p = (k, u)" by (cases p)
  have k: "map_of al k = None" "k \<in> set is" using Cons.prems p by (auto simp: map_of_eq_None_iff)
  let ?f = "\<lambda>i. case map_of al i of None \<Rightarrow> 0 | Some u \<Rightarrow> u"
  have "map (\<lambda>i. case map_of (p # al) i of None \<Rightarrow> 0 | Some u \<Rightarrow> u) is = map (\<lambda>i. ?f i + (if i = k then u else 0)) is"
    using k p by auto
  also have "sum_list \<dots> = sum_list (map ?f is) + sum_list (map (\<lambda>i. if i = k then u else 0) is)"
    by (rule sum_list_addf)
  also have "sum_list (map (\<lambda>i. if i = k then u else 0) is) = u"
    using Cons.prems(2) k(2) by (simp add: sum_list_distinct_conv_sum_set)
  finally show ?case using Cons p by simp
qed (simp add: sum_list_distinct_conv_sum_set)

lemma charged_shared: "shared_used (snd (charge_floors rows spent m)) = shared_used m"
  by (induction rows arbitrary: spent m) (auto simp: Let_def at_row_eq split: option.split)

text \<open>What a settlement adds to the shared slice is at most what its lease had reserved there.\<close>

lemma settled_shared:
  assumes inv: "meter_inv m" and r: "map_of (leases m) name = Some r" "lease_state r = OpenLease" "st \<noteq> OpenLease"
    and spent: "spent \<le> reserve_units r" "metered r" "policy m \<noteq> []" and u: "used_units m \<le> u" "u \<le> usize_max"
  shows "shared_used (apply_usage r spent (release_reservations r (close_lease name r st m)\<lparr>used_units := u\<rparr>)) \<le> shared_used m + shared_units r"
proof -
  let ?m = "release_reservations r (close_lease name r st m)"
  have ok: "lease_ok (policy m) r" by (rule lease_found [OF inv r(1)])
  obtain ts where ts: "?m = m\<lparr>leases := AList.update name (r\<lparr>lease_state := st\<rparr>) (leases m),
        reserved_units := reserved_units m - reserve_units r,
        row_tallies := ts, shared_reserved := shared_reserved m - shared_units r\<rparr>" "length ts = length (policy m)"
    and rows: "\<And>j. j < length (policy m) \<Longrightarrow> tally_used (ts ! j) = tally_used (row_tallies m ! j) \<and>
       floor_used (ts ! j) = floor_used (row_tallies m ! j) \<and>
       tally_reserved (ts ! j) = tally_reserved (row_tallies m ! j) - row_share j r \<and>
       floor_reserved (ts ! j) = floor_reserved (row_tallies m ! j) - floor_share j r"
    using released_rows [OF inv r] by blast
  let ?f = "\<lambda>t. t\<lparr>tally_used := sat_add (tally_used t) spent\<rparr>"
  let ?us = "fold (\<lambda>i. upd i ?f) (matched_rows r) ts"
  let ?n = "?m\<lparr>used_units := u, row_tallies := ?us\<rparr>"
  have dm: "distinct (matched_rows r)" "set (matched_rows r) \<subseteq> {..< length (policy m)}" using ok by (auto simp: lease_ok_def)
  have us: "length ?us = length (policy m)" "\<And>j. j < length (policy m) \<Longrightarrow>
      floor_used (?us ! j) = floor_used (ts ! j) \<and> floor_reserved (?us ! j) = floor_reserved (ts ! j)"
    using fold_upd [OF dm(1), of ?f ts] ts(2) by auto
  have room: "floor_share j r + floor_used (?us ! j) + floor_reserved (?us ! j) \<le> floor_of (policy m) j"
    if j: "j < length (policy m)" for j
  proof -
    have "tally_ok m j (row_tallies m ! j)" by (rule meter_invD(7) [OF inv j])
    moreover have "floor_share j r \<le> open_sum (floor_share j) m"
      using alist_sum_ge [OF r(1), of "held_by (floor_share j)"] r(2) by (simp add: open_sum_def held_by_def)
    ultimately show ?thesis using rows [OF j] us(2) [OF j] by (auto simp: tally_ok_def)
  qed
  have "floors_hold ?n"
    using us(1) room meter_invD(1) [OF inv] ts by (fastforce simp: floors_hold_def units_fit_def)
  then have "fst (charge_floors (matched_rows r) spent ?n) \<le> spent - sum_list (map (\<lambda>j. floor_share j r) (matched_rows r))"
    by (rule charge_rest) (use dm room ts in auto)
  also have "sum_list (map (\<lambda>j. floor_share j r) (matched_rows r)) = sum_list (map snd (floor_allocations r))"
    unfolding floor_share_def using ok by (intro sum_shares) (auto simp: lease_ok_def)
  also have "spent - \<dots> \<le> shared_units r" using ok spent by (auto simp: lease_ok_def)
  finally have rest: "fst (charge_floors (matched_rows r) spent ?n) \<le> shared_units r" .
  have "shared_used (apply_usage r spent (?m\<lparr>used_units := u\<rparr>)) =
      sat_add (shared_used m) (fst (charge_floors (matched_rows r) spent ?n))"
    by (simp add: apply_usage_def fold_at_row case_prod_unfold Let_def ts charged_shared)
  then show ?thesis using rest by (simp add: sat_add_def)
qed


lemma line_fields:
  "cap_units (release_reservations r m) = cap_units m" "cap_units (close_lease name r st m) = cap_units m"
  "shared_admission_ceiling (release_reservations r m) = shared_admission_ceiling m"
  "shared_admission_ceiling (close_lease name r st m) = shared_admission_ceiling m"
  "shared_used (release_reservations r m) = shared_used m" "shared_used (close_lease name r st m) = shared_used m"
  by (simp_all add: release_reservations_def fold_at_row fold_at_pairs close_lease_def cap_units_def
      shared_admission_ceiling_def shared_slice_units_def)

lemma charge_fields: "\<exists>ts. snd (charge_floors rows spent m) = m\<lparr>row_tallies := ts\<rparr>"
proof (induction rows arbitrary: spent m)
  case Nil
  then show ?case by (intro exI [of _ "row_tallies m"]) simp
next
  case (Cons i rows)
  have "charge_floors (i # rows) spent m \<in> {(0, m), charge_floors rows spent m} \<or>
      (\<exists>u ts. charge_floors (i # rows) spent m = charge_floors rows u (m\<lparr>row_tallies := ts\<rparr>))"
    by (auto simp: Let_def at_row_eq split: option.split)
  then show ?case
  proof (elim disjE insertE exE)
    assume "charge_floors (i # rows) spent m = (0, m)"
    then show ?thesis by (intro exI [of _ "row_tallies m"]) simp
  next
    assume "charge_floors (i # rows) spent m = charge_floors rows spent m"
    then show ?thesis using Cons.IH [of spent m] by simp
  next
    fix u ts assume "charge_floors (i # rows) spent m = charge_floors rows u (m\<lparr>row_tallies := ts\<rparr>)"
    then show ?thesis using Cons.IH [of u "m\<lparr>row_tallies := ts\<rparr>"] by auto
  qed simp
qed

lemma applied_fields:
  "\<exists>ts u. apply_usage r spent m = m\<lparr>row_tallies := ts, shared_used := u\<rparr>"
proof -
  obtain ts where "snd (charge_floors (matched_rows r) spent
      (fold (\<lambda>i. at_row i (\<lambda>t. t\<lparr>tally_used := sat_add (tally_used t) spent\<rparr>)) (matched_rows r) m)) = m\<lparr>row_tallies := ts\<rparr>"
    using charge_fields [of "matched_rows r" spent "m\<lparr>row_tallies := fold (\<lambda>i. upd i
      (\<lambda>t. t\<lparr>tally_used := sat_add (tally_used t) spent\<rparr>)) (matched_rows r) (row_tallies m)\<rparr>"]
    by (auto simp: fold_at_row)
  then show ?thesis by (auto simp: apply_usage_def case_prod_unfold Let_def)
qed

lemma within_charged:
  assumes inv: "meter_inv m" and w: "within_line m"
    and r: "map_of (leases m) name = Some r" "lease_state r = OpenLease" "st \<noteq> OpenLease"
    and spent: "metered r \<longrightarrow> spent \<le> reserve_units r"
    and u: "used_units m \<le> u" "u \<le> usize_max" "u \<le> used_units m + spent"
  shows "within_line (release_reservations r (close_lease name r st m))"
    "metered r \<Longrightarrow> within_line (apply_usage r spent (release_reservations r (close_lease name r st m)\<lparr>used_units := u\<rparr>))"
proof -
  let ?m = "release_reservations r (close_lease name r st m)"
  obtain ts where ts: "?m = m\<lparr>leases := AList.update name (r\<lparr>lease_state := st\<rparr>) (leases m),
        reserved_units := reserved_units m - reserve_units r,
        row_tallies := ts, shared_reserved := shared_reserved m - shared_units r\<rparr>"
    using released_rows [OF inv r] by blast
  have held: "reserve_units r \<le> reserved_units m" "shared_units r \<le> shared_reserved m"
    using alist_sum_ge [OF r(1), of "held_by reserve_units"] alist_sum_ge [OF r(1), of "held_by shared_units"] r(2)
      meter_invD(8,9) [OF inv] by (simp_all add: open_sum_def held_by_def)
  show "within_line ?m" using w
    by (auto simp: within_line_def ts cap_units_def shared_admission_ceiling_def shared_slice_units_def)
  assume met: "metered r"
  obtain ts' s where a: "apply_usage r spent (?m\<lparr>used_units := u\<rparr>) = ?m\<lparr>used_units := u, row_tallies := ts', shared_used := s\<rparr>"
    using applied_fields [of r spent "?m\<lparr>used_units := u\<rparr>"] by auto
  have "policy m = [] \<or> s \<le> shared_used m + shared_units r"
    using settled_shared [OF inv r _ met _ u(1,2), of spent] spent met a by auto
  then show "within_line (apply_usage r spent (?m\<lparr>used_units := u\<rparr>))"
    using w held spent met u unfolding a
    by (auto simp: within_line_def ts cap_units_def shared_admission_ceiling_def shared_slice_units_def)
qed

lemma within_usage:
  assumes inv: "meter_inv m" and w: "within_line m"
    and spent: "\<And>r. own_record l m = Some r \<Longrightarrow> metered r \<Longrightarrow> n \<le> reserve_units r"
  shows "within_line (snd (settle_usage l n m))"
proof -
  have fit: "used_units m \<le> usize_max" using meter_invD(1) [OF inv] by (simp add: units_fit_def)
  have u: "used_units m \<le> sat_add (used_units m) n" "sat_add (used_units m) n \<le> usize_max"
    "sat_add (used_units m) n \<le> used_units m + n" using fit by (simp_all add: sat_add_ge) (simp add: sat_add_def)
  show ?thesis
  proof (cases "own_record l m")
    case None
    then show ?thesis using w by (auto simp: settle_usage_def own_record_def Let_def split: if_splits)
  next
    case (Some r)
    then have r: "issuer l = guard_identity m" "map_of (leases m) (lease_name l) = Some r"
      by (auto simp: own_record_def split: if_splits)
    show ?thesis
    proof (cases "lease_state r")
      case OpenLease
      have "metered r \<longrightarrow> n \<le> reserve_units r" using spent Some by blast
      note c = within_charged [OF inv w r(2) OpenLease _ this u, of "SettledLease (sat_add (used_units m) n)"]
      then show ?thesis using r OpenLease by (auto simp: settle_usage_def Let_def within_settled)
    qed (use w r in \<open>auto simp: settle_usage_def Let_def within_settled\<close>)
  qed
qed

lemma within_step:
  assumes inv: "meter_inv m" and w: "within_line m" and mod: "modest c m" and fits: "call_fits c"
  shows "within_line (meter_step c m)"
  using meter_step_cases [of c m]
proof cases
  case (reserve r p b)
  then show ?thesis using within_reserve [OF inv w] by (simp add: within_admitting)
next
  case (free b)
  then show ?thesis using within_free [OF w] by simp
next
  case (usage l n)
  have "n \<le> reserve_units r" if "own_record l m = Some r" "metered r" for r
    using usage(1) mod that by (auto simp: reserved_for_def own_record_def split: if_splits)
  then show ?thesis using within_usage [OF inv w] usage(2) by simp
next
  case (abort l)
  show ?thesis
  proof (cases "own_record l m")
    case None
    then show ?thesis using w abort by (auto simp: abort_def own_record_def split: if_splits)
  next
    case (Some r)
    then have r: "issuer l = guard_identity m" "map_of (leases m) (lease_name l) = Some r"
      by (auto simp: own_record_def split: if_splits)
    show ?thesis
    proof (cases "lease_state r")
      case OpenLease
      have "within_line (snd (settle_usage l (reserve_units r) m))" by (rule within_usage [OF inv w]) (simp add: Some)
      moreover have "within_line (release_reservations r (close_lease (lease_name l) r AbortedLease m))"
        using within_charged(1) [OF inv w r(2) OpenLease, of AbortedLease 0 "used_units m"] meter_invD(1) [OF inv]
        by (simp add: units_fit_def)
      ultimately show ?thesis using r abort OpenLease by (auto simp: abort_def within_settled)
    qed (use w r abort in \<open>auto simp: abort_def within_settled\<close>)
  qed
next
  case (absolute l n)
  show ?thesis
  proof (cases "own_record l m")
    case None
    then show ?thesis using w absolute by (auto simp: settle_absolute_def own_record_def split: if_splits)
  next
    case (Some r)
    then have r: "issuer l = guard_identity m" "map_of (leases m) (lease_name l) = Some r"
      by (auto simp: own_record_def split: if_splits)
    show ?thesis
    proof (cases "lease_state r")
      case OpenLease
      have "metered r \<longrightarrow> n - used_units m \<le> reserve_units r" using mod absolute(1) Some by auto
      note c = within_charged [OF inv w r(2) OpenLease _ this, of "SettledLease n" "max (used_units m) n"]
      then show ?thesis using r absolute OpenLease fits meter_invD(1) [OF inv]
        by (auto simp: settle_absolute_def Let_def within_settled units_fit_def)
    qed (use w r absolute in \<open>auto simp: settle_absolute_def within_settled\<close>)
  qed
next
  case (dispatch l d)
  then show ?thesis using w
    by (auto simp: begin_dispatch_def within_line_def cap_units_def shared_admission_ceiling_def shared_slice_units_def
        split: option.split)
next
  case (unsent l)
  then show ?thesis using w
    by (auto simp: mark_unsent_def within_line_def cap_units_def shared_admission_ceiling_def shared_slice_units_def
        split: option.split)
qed (use w mod in simp_all)

lemma within_run:
  "meter_inv m \<Longrightarrow> within_line m \<Longrightarrow> modest_run cs m \<Longrightarrow> list_all call_fits cs \<Longrightarrow> next_lease_seq m + length cs < usize_max \<Longrightarrow>
   within_line (fold meter_step cs m) \<and> meter_inv (fold meter_step cs m)"
proof (induction cs arbitrary: m)
  case (Cons c cs)
  have "meter_inv (meter_step c m)" "within_line (meter_step c m)"
    using Cons.prems by (intro meter_step_inv within_step; simp)+
  with Cons.IH [of "meter_step c m"] Cons.prems step_seq [of c m] show ?case by auto
qed simp

text \<open>C16: a meter never overspends.  While no call is charged more than it reserved and the line is not
  revised, what is spent and what is reserved stay together within the admission cap of the line,
  whatever the interleaving of the calls; and under a policy the shared part stays within the shared slice.\<close>

theorem meter_never_overspends:
  assumes "limit \<le> usize_max" "policy_fits rows" "list_all call_fits cs" "length cs < usize_max"
    and m: "m = new_meter identity attempt limit reserve exhausted act rows" and "modest_run cs m"
  shows "used_units (fold meter_step cs m) + reserved_units (fold meter_step cs m) \<le> cap_units (fold meter_step cs m) \<and>
    (policy (fold meter_step cs m) = [] \<or>
     shared_used (fold meter_step cs m) + shared_reserved (fold meter_step cs m) \<le> shared_admission_ceiling (fold meter_step cs m))"
proof -
  have inv: "meter_inv m" unfolding m using assms(1,2) by (intro new_meter_inv) (simp_all add: policy_fits_def)
  have "within_line m" by (simp add: m within_line_def new_meter_def)
  from within_run [OF inv this assms(6,3)] assms(4) show ?thesis by (simp add: m new_meter_def within_line_def)
qed

lemma meter_never_overspends_witness:
  "used_units (fold meter_step [CCallBound 100 Extraction sample_call, CReserve 950] sample_meter) +
   reserved_units (fold meter_step [CCallBound 100 Extraction sample_call, CReserve 950] sample_meter)
   \<le> cap_units (fold meter_step [CCallBound 100 Extraction sample_call, CReserve 950] sample_meter)"
  using meter_never_overspends [of 1000 sample_rows "[CCallBound 100 Extraction sample_call, CReserve 950]" sample_meter
      7 "''a''" 100 Suspend None]
  by (simp add: policy_fits_def sample_rows_def usize_max_def sample_meter_def)

end
