(* ===== verification/RunBudget.thy ===== *)
theory RunBudget
  imports ModelIds BudgetMeter
begin

text \<open>
  What a run declares about its paid calls and the stop at a paid job's declared maximum
  (\<open>crates/oneiron-run-budget/src/run_budget\<close>).  A declaration is the run's budget line, the teachers it
  pinned with the pin's own admission (\<open>PinnedModelConfig::admit\<close>), its paid connectors and the offers the
  owner let in.  A job under a maximum is a state machine whose calls are the host's: usage so far, a
  confirmed warning, a checkpoint, the stop and the resume.
\<close>

section \<open>Units and lines\<close>

datatype lease_unit = LeaseUnit (unit_name: string)

datatype declaration_error = MissingTarget | MissingPurpose | UnitName

definition tokens_unit :: lease_unit where "tokens_unit = LeaseUnit ''tokens''"

definition new_lease_unit :: "string \<Rightarrow> (declaration_error, lease_unit) result" where
  "new_lease_unit name =
     (if name = [] \<or> \<not> list_all (\<lambda>c. in_range CHR ''a'' CHR ''z'' c \<or> in_range CHR ''0'' CHR ''9'' c \<or> c = CHR ''_'' \<or> c = CHR ''-'') name
      then Err UnitName else Ok (LeaseUnit name))"

record budget_line =
  line_limit :: nat
  line_reserve :: nat
  line_unit :: lease_unit

section \<open>Pinned models\<close>

record pinned_models =
  allowed_models :: "model_id set"
  background_tier :: bool

datatype pin_violation = ModelNotPinned model_id | BackgroundTierDisabled call_purpose

definition background_purpose :: "call_purpose \<Rightarrow> bool" where
  "background_purpose p \<longleftrightarrow> p = Consolidation \<or> p = Extraction \<or> p = AutonomyForHuman \<or> p = AutonomyOwnTime"

definition pins_admit :: "pinned_models \<Rightarrow> model_id \<Rightarrow> call_purpose \<Rightarrow> (pin_violation, unit) result" where
  "pins_admit pins model purpose =
     (if model \<notin> allowed_models pins then Err (ModelNotPinned model)
      else if \<not> background_tier pins \<and> background_purpose purpose then Err (BackgroundTierDisabled purpose)
      else Ok ())"

section \<open>Declarations\<close>

text \<open>
  Whether a text is blank, as \<open>str::trim\<close> reads it: nothing but Unicode white space, here in its UTF-8
  bytes (the ASCII blanks, U+0085, U+00A0, U+1680, U+2000 to U+200A, U+2028, U+2029, U+202F, U+205F, U+3000).
\<close>

definition wide_blank :: "nat \<Rightarrow> nat \<Rightarrow> nat \<Rightarrow> bool" where
  "wide_blank a b c \<longleftrightarrow>
     a = 0xE1 \<and> b = 0x9A \<and> c = 0x80 \<or>
     a = 0xE2 \<and> b = 0x80 \<and> (0x80 \<le> c \<and> c \<le> 0x8A \<or> c = 0xA8 \<or> c = 0xA9 \<or> c = 0xAF) \<or>
     a = 0xE2 \<and> b = 0x81 \<and> c = 0x9F \<or>
     a = 0xE3 \<and> b = 0x80 \<and> c = 0x80"

fun blank_bytes :: "nat list \<Rightarrow> bool" where
  "blank_bytes [] = True"
| "blank_bytes [a] = (a = 32 \<or> 9 \<le> a \<and> a \<le> 13)"
| "blank_bytes [a, b] =
     (if a = 32 \<or> 9 \<le> a \<and> a \<le> 13 then blank_bytes [b] else a = 0xC2 \<and> (b = 0x85 \<or> b = 0xA0))"
| "blank_bytes (a # b # c # s) =
     (if a = 32 \<or> 9 \<le> a \<and> a \<le> 13 then blank_bytes (b # c # s)
      else if a = 0xC2 \<and> (b = 0x85 \<or> b = 0xA0) then blank_bytes (c # s)
      else wide_blank a b c \<and> blank_bytes s)"

definition is_blank :: "string \<Rightarrow> bool" where
  "is_blank s = blank_bytes (map of_char s)"

text \<open>The aliases are a map; of two for one selector the last stands.\<close>

record declared_teachers =
  pins :: pinned_models
  teacher_aliases :: "(string \<times> model_id) list"
  teacher_target :: string
  teacher_purpose :: string

definition new_teachers :: "model_id list \<Rightarrow> (string \<times> model_id) list \<Rightarrow> string \<Rightarrow> string \<Rightarrow> (declaration_error, declared_teachers) result" where
  "new_teachers models aliases target purpose =
     (if is_blank target then Err MissingTarget
      else if is_blank purpose then Err MissingPurpose
      else Ok \<lparr>pins = \<lparr>allowed_models = set models, background_tier = True\<rparr>, teacher_aliases = rev aliases,
               teacher_target = target, teacher_purpose = purpose\<rparr>)"

definition teacher_alias :: "declared_teachers \<Rightarrow> string \<Rightarrow> model_id option" where
  "teacher_alias t selector = map_of (teacher_aliases t) selector"

record run_declaration =
  is_declared :: bool
  teachers :: "declared_teachers option"
  budget :: budget_line
  connectors :: "string set"
  custody_overrides :: "string set"

definition undeclared :: "budget_line \<Rightarrow> run_declaration" where
  "undeclared line = \<lparr>is_declared = False, teachers = None, budget = line, connectors = {}, custody_overrides = {}\<rparr>"

definition declared :: "budget_line \<Rightarrow> run_declaration" where
  "declared line = (undeclared line)\<lparr>is_declared := True\<rparr>"

definition with_teachers :: "declared_teachers \<Rightarrow> run_declaration \<Rightarrow> run_declaration" where
  "with_teachers t d = d\<lparr>is_declared := True, teachers := Some t\<rparr>"

definition with_connector :: "string \<Rightarrow> run_declaration \<Rightarrow> run_declaration" where
  "with_connector c d = d\<lparr>connectors := insert c (connectors d)\<rparr>"

definition with_custody_override :: "string \<Rightarrow> run_declaration \<Rightarrow> run_declaration" where
  "with_custody_override name d = d\<lparr>custody_overrides := insert name (custody_overrides d)\<rparr>"

definition with_reserve :: "nat \<Rightarrow> run_declaration \<Rightarrow> run_declaration" where
  "with_reserve r d = d\<lparr>budget := (budget d)\<lparr>line_reserve := r\<rparr>\<rparr>"

definition admits_connector :: "run_declaration \<Rightarrow> string \<Rightarrow> bool" where
  "admits_connector d c \<longleftrightarrow> \<not> is_declared d \<or> c \<in> connectors d"

definition overrides_custody :: "run_declaration \<Rightarrow> string \<Rightarrow> bool" where
  "overrides_custody d name \<longleftrightarrow> name \<in> custody_overrides d"

datatype declaration_editor = OwnerEdits | HostEdits | RunEdits

section \<open>A job under a declared maximum\<close>

record declared_maximum =
  max_units :: nat
  max_unit :: lease_unit

datatype job_signal = Warning95 nat nat | AtMaximum

record add_funds_notice =
  notice_job :: string
  notice_used :: nat
  notice_maximum :: declared_maximum
  notice_checkpoint :: string

record resume_offer =
  offer_job :: string
  offer_checkpoint :: string
  offer_stop :: nat

record maximum_stop =
  stop_notice :: add_funds_notice
  stop_resume :: resume_offer

datatype job_start_refused = MaximumNotShown | ZeroMaximum
datatype stop_refused = NotAtMaximum | NoWarning | NoCheckpoint | AlreadyStopped
datatype resume_refused = NotStopped | StaleOffer | MaximumNotRaised

record job_maximum =
  job_name :: string
  maximum :: declared_maximum
  job_used :: nat
  warning_due :: bool
  warning_delivered :: bool
  job_checkpoint :: "string option"
  stops :: nat
  stopped :: bool

text \<open>When the maximum was shown, if it was, in host milliseconds.\<close>

definition start_job :: "string \<Rightarrow> declared_maximum \<Rightarrow> nat option \<Rightarrow> (job_start_refused, job_maximum) result" where
  "start_job job mx shown =
     (if shown = None then Err MaximumNotShown
      else if max_units mx = 0 then Err ZeroMaximum
      else Ok \<lparr>job_name = job, maximum = mx, job_used = 0, warning_due = False, warning_delivered = False,
               job_checkpoint = None, stops = 0, stopped = False\<rparr>)"

definition record_usage :: "nat \<Rightarrow> job_maximum \<Rightarrow> job_signal list \<times> job_maximum" where
  "record_usage used j =
     (let j1 = j\<lparr>job_used := max (job_used j) used\<rparr>;
          j2 = (if job_used j1 * 100 \<ge> max_units (maximum j1) * 95 then j1\<lparr>warning_due := True\<rparr> else j1)
      in ((if warning_due j2 \<and> \<not> warning_delivered j2 then [Warning95 (job_used j2) (max_units (maximum j2))] else []) @
          (if job_used j2 \<ge> max_units (maximum j2) then [AtMaximum] else []), j2))"

definition confirm_warning :: "job_maximum \<Rightarrow> bool \<times> job_maximum" where
  "confirm_warning j =
     (let j1 = (if warning_due j then j\<lparr>warning_delivered := True\<rparr> else j) in (warning_delivered j1, j1))"

definition take_checkpoint :: "string \<Rightarrow> job_maximum \<Rightarrow> job_maximum" where
  "take_checkpoint c j = (if warning_delivered j \<and> \<not> stopped j then j\<lparr>job_checkpoint := Some c\<rparr> else j)"

definition u32_max :: nat where "u32_max = 4294967295"

definition stop_at_maximum :: "job_maximum \<Rightarrow> (stop_refused, maximum_stop) result \<times> job_maximum" where
  "stop_at_maximum j =
     (if stopped j then (Err AlreadyStopped, j)
      else if job_used j < max_units (maximum j) then (Err NotAtMaximum, j)
      else if \<not> warning_delivered j then (Err NoWarning, j)
      else case job_checkpoint j of
             None \<Rightarrow> (Err NoCheckpoint, j)
           | Some c \<Rightarrow>
               (let j1 = j\<lparr>stopped := True, stops := min (stops j + 1) u32_max\<rparr>
                in (Ok \<lparr>stop_notice = \<lparr>notice_job = job_name j, notice_used = job_used j, notice_maximum = maximum j,
                          notice_checkpoint = c\<rparr>,
                        stop_resume = \<lparr>offer_job = job_name j, offer_checkpoint = c, offer_stop = stops j1\<rparr>\<rparr>, j1)))"

definition resume_job :: "resume_offer \<Rightarrow> declared_maximum \<Rightarrow> nat option \<Rightarrow> job_maximum \<Rightarrow> (resume_refused, string) result \<times> job_maximum" where
  "resume_job ticket mx shown j =
     (if \<not> stopped j then (Err NotStopped, j)
      else if offer_job ticket \<noteq> job_name j \<or> offer_stop ticket \<noteq> stops j \<or> Some (offer_checkpoint ticket) \<noteq> job_checkpoint j
      then (Err StaleOffer, j)
      else if shown = None \<or> max_unit mx \<noteq> max_unit (maximum j) \<or> max_units mx \<le> max_units (maximum j)
      then (Err MaximumNotRaised, j)
      else (Ok (offer_checkpoint ticket),
            j\<lparr>maximum := mx, warning_due := False, warning_delivered := False, stopped := False, job_checkpoint := None\<rparr>))"


section \<open>Runs of a job\<close>

datatype job_call = JUsage nat | JConfirm | JCheckpoint string | JStop | JResume resume_offer declared_maximum "nat option"

fun job_step :: "job_call \<Rightarrow> job_maximum \<Rightarrow> job_maximum" where
  "job_step (JUsage used) j = snd (record_usage used j)"
| "job_step JConfirm j = snd (confirm_warning j)"
| "job_step (JCheckpoint c) j = take_checkpoint c j"
| "job_step JStop j = snd (stop_at_maximum j)"
| "job_step (JResume t mx shown) j = snd (resume_job t mx shown j)"

lemmas job_defs = record_usage_def confirm_warning_def take_checkpoint_def stop_at_maximum_def resume_job_def

text \<open>A maximum is only ever raised, and raising it starts the warning and the checkpoint over.\<close>

lemma maximum_grows: "max_units (maximum j) \<le> max_units (maximum (fold job_step cs j))"
proof (induction cs arbitrary: j)
  case (Cons c cs)
  have "max_units (maximum j) \<le> max_units (maximum (job_step c j))"
    by (cases c) (auto simp: job_defs Let_def split: option.split)
  with Cons [of "job_step c j"] show ?case by simp
qed simp

lemma step_keeps_or_raises:
  "maximum (job_step c j) = maximum j \<or>
   max_units (maximum j) < max_units (maximum (job_step c j)) \<and> \<not> warning_due (job_step c j) \<and> \<not> warning_delivered (job_step c j) \<and>
     job_checkpoint (job_step c j) = None"
  by (cases c) (auto simp: job_defs Let_def split: option.split)

definition near_maximum :: "job_maximum \<Rightarrow> bool" where
  "near_maximum j \<longleftrightarrow> max_units (maximum j) * 95 \<le> job_used j * 100"

text \<open>What a warning and a checkpoint on record mean: when they were made, under the maximum that still stands.\<close>

definition warned :: "job_maximum \<Rightarrow> job_call list \<Rightarrow> bool" where
  "warned j0 cs \<longleftrightarrow>
     (\<exists>pre post. cs = pre @ JConfirm # post \<and> near_maximum (fold job_step pre j0) \<and>
        maximum (fold job_step pre j0) = maximum (fold job_step cs j0))"

definition saved :: "job_maximum \<Rightarrow> job_call list \<Rightarrow> string \<Rightarrow> bool" where
  "saved j0 cs c \<longleftrightarrow>
     (\<exists>pre post. cs = pre @ JCheckpoint c # post \<and> warned j0 pre \<and> maximum (fold job_step pre j0) = maximum (fold job_step cs j0))"

definition job_history :: "job_maximum \<Rightarrow> job_call list \<Rightarrow> bool" where
  "job_history j0 cs \<longleftrightarrow>
     (let j = fold job_step cs j0
      in (warning_due j \<longrightarrow> near_maximum j) \<and> (warning_delivered j \<longrightarrow> warned j0 cs) \<and>
         (\<forall>c. job_checkpoint j = Some c \<longrightarrow> saved j0 cs c))"

lemma warned_later:
  assumes "warned j0 cs" "maximum (fold job_step (cs @ [x]) j0) = maximum (fold job_step cs j0)"
  shows "warned j0 (cs @ [x])"
proof -
  obtain pre post where p: "cs = pre @ JConfirm # post" "near_maximum (fold job_step pre j0)"
    "maximum (fold job_step pre j0) = maximum (fold job_step cs j0)" using assms(1) by (auto simp: warned_def)
  show ?thesis unfolding warned_def by (rule exI [of _ pre], rule exI [of _ "post @ [x]"]) (use p assms(2) in simp)
qed

lemma saved_later:
  assumes "saved j0 cs c" "maximum (fold job_step (cs @ [x]) j0) = maximum (fold job_step cs j0)"
  shows "saved j0 (cs @ [x]) c"
proof -
  obtain pre post where p: "cs = pre @ JCheckpoint c # post" "warned j0 pre"
    "maximum (fold job_step pre j0) = maximum (fold job_step cs j0)" using assms(1) by (auto simp: saved_def)
  show ?thesis unfolding saved_def by (rule exI [of _ pre], rule exI [of _ "post @ [x]"]) (use p assms(2) in simp)
qed

lemma history_step:
  assumes h: "job_history j0 cs"
  shows "job_history j0 (cs @ [x])"
proof -
  let ?j = "fold job_step cs j0" and ?j' = "job_step x (fold job_step cs j0)"
  have due: "warning_due ?j \<Longrightarrow> near_maximum ?j" and del: "warning_delivered ?j \<Longrightarrow> warned j0 cs"
    and chk: "job_checkpoint ?j = Some c \<Longrightarrow> saved j0 cs c" for c
    using h by (simp_all add: job_history_def Let_def)
  show ?thesis
  proof (cases "maximum ?j' = maximum ?j")
    case False
    then show ?thesis using step_keeps_or_raises [of x ?j] by (auto simp: job_history_def)
  next
    case same: True
    then have later: "warned j0 cs \<Longrightarrow> warned j0 (cs @ [x])" "saved j0 cs c \<Longrightarrow> saved j0 (cs @ [x]) c" for c
      using warned_later saved_later by simp_all
    have "warning_due ?j' \<longrightarrow> near_maximum ?j'"
      using due same by (cases x) (auto simp: job_defs Let_def near_maximum_def split: option.split)
    moreover have "warned j0 (cs @ [x])" if "warning_delivered ?j'"
    proof (cases "warning_delivered ?j")
      case False
      with that have "x = JConfirm" "warning_due ?j"
        by (cases x; auto simp: job_defs Let_def split: option.splits if_splits)+
      with due same show ?thesis unfolding warned_def by (intro exI [of _ cs] exI [of _ "[]"]) simp
    qed (use del later in simp)
    moreover have "saved j0 (cs @ [x]) c" if c: "job_checkpoint ?j' = Some c" for c
    proof (cases "job_checkpoint ?j = Some c")
      case False
      with c have "x = JCheckpoint c" "warning_delivered ?j"
        by (cases x; auto simp: job_defs Let_def split: option.splits if_splits)+
      with del same show ?thesis unfolding saved_def by (intro exI [of _ cs] exI [of _ "[]"]) simp
    qed (use chk later in simp)
    ultimately show ?thesis by (simp add: job_history_def)
  qed
qed

lemma history: "start_job job mx shown = Ok j0 \<Longrightarrow> job_history j0 cs"
proof (induction cs rule: rev_induct)
  case Nil
  then show ?case by (auto simp: start_job_def job_history_def split: if_splits)
qed (rule history_step)


text \<open>C27: a job is stopped only on the owner's five conditions.  Whatever its host called before, a stop that
  is granted finds the maximum used up; the customer had confirmed a warning while the job was at 95 percent
  of that very maximum; the checkpoint the notice and the offer name was taken after it, under that maximum
  still; and the job then stands stopped until it is resumed.\<close>

theorem stop_only_as_agreed:
  assumes "start_job job mx shown = Ok j0" and granted: "fst (stop_at_maximum (fold job_step cs j0)) = Ok stop"
  shows "max_units (maximum (fold job_step cs j0)) \<le> job_used (fold job_step cs j0) \<and>
    stopped (job_step JStop (fold job_step cs j0)) \<and> offer_checkpoint (stop_resume stop) = notice_checkpoint (stop_notice stop) \<and>
    notice_maximum (stop_notice stop) = maximum (fold job_step cs j0) \<and>
    (\<exists>pre mid post. cs = pre @ JConfirm # mid @ JCheckpoint (notice_checkpoint (stop_notice stop)) # post \<and>
       near_maximum (fold job_step pre j0) \<and> maximum (fold job_step pre j0) = notice_maximum (stop_notice stop))"
proof -
  let ?j = "fold job_step cs j0"
  from granted obtain c where c: "\<not> stopped ?j" "max_units (maximum ?j) \<le> job_used ?j" "job_checkpoint ?j = Some c"
    "stop = \<lparr>stop_notice = \<lparr>notice_job = job_name ?j, notice_used = job_used ?j, notice_maximum = maximum ?j, notice_checkpoint = c\<rparr>,
       stop_resume = \<lparr>offer_job = job_name ?j, offer_checkpoint = c, offer_stop = min (stops ?j + 1) u32_max\<rparr>\<rparr>"
    "stopped (job_step JStop ?j)"
    by (auto simp: stop_at_maximum_def Let_def split: if_splits option.splits)
  have "saved j0 cs c" using history [OF assms(1), of cs] c(3) by (simp add: job_history_def Let_def)
  then obtain pre mid post where "cs = (pre @ JConfirm # mid) @ JCheckpoint c # post" "near_maximum (fold job_step pre j0)"
    "maximum (fold job_step pre j0) = maximum ?j" unfolding saved_def warned_def by metis
  then have "\<exists>pre mid post. cs = pre @ JConfirm # mid @ JCheckpoint c # post \<and> near_maximum (fold job_step pre j0) \<and>
      maximum (fold job_step pre j0) = maximum ?j"
    by (metis append.assoc append_Cons)
  moreover have f: "notice_checkpoint (stop_notice stop) = c" "notice_maximum (stop_notice stop) = maximum ?j"
    "offer_checkpoint (stop_resume stop) = c" using c(4) by simp_all
  ultimately show ?thesis unfolding f using c(2,5) by blast
qed

definition render_max :: declared_maximum where
  "render_max = \<lparr>max_units = 100, max_unit = tokens_unit\<rparr>"

definition render_job :: job_maximum where
  "render_job = \<lparr>job_name = ''render'', maximum = render_max, job_used = 0, warning_due = False, warning_delivered = False,
     job_checkpoint = None, stops = 0, stopped = False\<rparr>"

definition render_calls :: "job_call list" where
  "render_calls = [JUsage 96, JConfirm, JCheckpoint ''step 96'', JUsage 100]"

lemmas render_computes = render_calls_def render_job_def render_max_def job_defs u32_max_def start_job_def

lemma stop_only_as_agreed_witness:
  "\<exists>pre mid post. render_calls = pre @ JConfirm # mid @ JCheckpoint ''step 96'' # post \<and> near_maximum (fold job_step pre render_job)"
proof -
  define stop where "stop = \<lparr>stop_notice = \<lparr>notice_job = ''render'', notice_used = 100, notice_maximum = render_max, notice_checkpoint = ''step 96''\<rparr>,
    stop_resume = \<lparr>offer_job = ''render'', offer_checkpoint = ''step 96'', offer_stop = 1\<rparr>\<rparr>"
  have "start_job ''render'' render_max (Some 0) = Ok render_job" by (simp add: render_computes)
  moreover have "fst (stop_at_maximum (fold job_step render_calls render_job)) = Ok stop"
    by (simp add: render_computes stop_def)
  ultimately show ?thesis using stop_only_as_agreed [of "''render''" render_max "Some 0" render_job render_calls stop]
    by (auto simp: stop_def)
qed

text \<open>Stops are counted, so an offer is for one of them.\<close>

lemma stops_grow:
  assumes "stops j < u32_max"
  shows "stops j \<le> stops (job_step c j) \<and> stops (job_step c j) \<le> stops j + 1 \<and>
    (stopped (job_step c j) \<longrightarrow> stopped j \<or> stops j < stops (job_step c j)) \<and>
    (stopped j \<and> stopped (job_step c j) \<longrightarrow> stops (job_step c j) = stops j)"
  using assms by (cases c) (auto simp: job_defs Let_def split: option.split)

lemma offer_stays_stale:
  "stops j \<ge> n \<Longrightarrow> (stopped j \<longrightarrow> stops j > n) \<Longrightarrow> stops j + length cs < u32_max \<Longrightarrow>
   stops (fold job_step cs j) \<ge> n \<and> (stopped (fold job_step cs j) \<longrightarrow> stops (fold job_step cs j) > n)"
proof (induction cs arbitrary: j)
  case (Cons c cs)
  have g: "stops j \<le> stops (job_step c j) \<and> stops (job_step c j) \<le> stops j + 1 \<and>
    (stopped (job_step c j) \<longrightarrow> stopped j \<or> stops j < stops (job_step c j))"
    using stops_grow [of j c] Cons.prems(3) by simp
  show ?case using Cons.IH [of "job_step c j"] Cons.prems g by auto
qed simp

text \<open>a resume offer is good for one resume.  Once an offer has resumed a job, no later call of any host
  makes the same offer resume it again, however often the job stops, while the counter of stops holds.\<close>

theorem offer_resumes_once:
  assumes "fst (resume_job ticket mx shown j) = Ok c" "stops j + length cs < u32_max"
  shows "fst (resume_job ticket mx' shown' (fold job_step cs (job_step (JResume ticket mx shown) j))) = Err NotStopped \<or>
    fst (resume_job ticket mx' shown' (fold job_step cs (job_step (JResume ticket mx shown) j))) = Err StaleOffer"
proof -
  let ?j = "job_step (JResume ticket mx shown) j"
  have r: "offer_stop ticket = stops j" "stops ?j = stops j" "\<not> stopped ?j"
    using assms(1) by (auto simp: resume_job_def split: if_splits)
  have "stopped (fold job_step cs ?j) \<longrightarrow> stops (fold job_step cs ?j) > stops j"
    using offer_stays_stale [of "stops j" ?j cs] r assms(2) by simp
  then show ?thesis using r(1) by (auto simp: resume_job_def)
qed

lemma offer_resumes_once_witness:
  "fst (resume_job \<lparr>offer_job = ''render'', offer_checkpoint = ''step 96'', offer_stop = 1\<rparr> (render_max\<lparr>max_units := 300\<rparr>) (Some 2)
     (fold job_step [JUsage 199]
       (job_step (JResume \<lparr>offer_job = ''render'', offer_checkpoint = ''step 96'', offer_stop = 1\<rparr> (render_max\<lparr>max_units := 200\<rparr>) (Some 1))
         (fold job_step (render_calls @ [JStop]) render_job)))) \<noteq> Ok ''step 96''"
  using offer_resumes_once [of "\<lparr>offer_job = ''render'', offer_checkpoint = ''step 96'', offer_stop = 1\<rparr>" "render_max\<lparr>max_units := 200\<rparr>"
      "Some 1" "fold job_step (render_calls @ [JStop]) render_job" "''step 96''" "[JUsage 199]" "render_max\<lparr>max_units := 300\<rparr>" "Some 2"]
  by (force simp: render_computes)

end
