(* ===== verification/BudgetLeases.thy ===== *)
theory BudgetLeases
  imports BudgetMeter
begin

text \<open>
  What a budget meter promises the holder of a lease and the host that parks a meter
  (\<open>crates/oneiron-model/src/llm/budget\<close>): a checkpoint is the settled meter, a lease starts one
  dispatch and is settled once, and a floor of the policy is there for the calls that match it.
\<close>

section \<open>Runs of a new meter\<close>

lemma new_meter_run:
  assumes "limit \<le> usize_max" "policy_fits rows" "list_all call_fits cs" "length cs < usize_max"
    and m: "m = fold meter_step cs (new_meter identity attempt limit reserve exhausted act rows)"
  shows "meter_inv m" "next_lease_seq m \<le> length cs"
proof -
  have "meter_inv (new_meter identity attempt limit reserve exhausted act rows)"
    using assms(1,2) by (intro new_meter_inv) (simp_all add: policy_fits_def)
  then show "meter_inv m" "next_lease_seq m \<le> length cs"
    using meter_run_inv [of "new_meter identity attempt limit reserve exhausted act rows" cs] assms(3,4)
    by (simp_all add: m) (simp_all add: new_meter_def)
qed


section \<open>Checkpoints\<close>

lemma settled_sums:
  assumes "\<not> list_ex (\<lambda>(_, r). lease_state r = OpenLease) (leases m)"
  shows "open_sum f m = 0"
  unfolding open_sum_def using assms by (intro alist_sum_zero) (auto simp: list_ex_iff held_by_def)

lemma settled_tallies:
  assumes inv: "meter_inv m" and closed: "\<not> list_ex (\<lambda>(_, r). lease_state r = OpenLease) (leases m)"
  shows "map ((\<lambda>r. new_tally\<lparr>tally_used := kept_used r, floor_used := kept_floor_used r, tally_fired := kept_fired r\<rparr>) \<circ>
      (\<lambda>(p, t). \<lparr>kept_policy = p, kept_used = tally_used t, kept_floor_used = floor_used t, kept_fired = tally_fired t\<rparr>))
    (zip (policy m) (row_tallies m)) = row_tallies m"
proof (rule nth_equalityI)
  fix i assume "i < length (map ((\<lambda>r. new_tally\<lparr>tally_used := kept_used r, floor_used := kept_floor_used r, tally_fired := kept_fired r\<rparr>) \<circ>
      (\<lambda>(p, t). \<lparr>kept_policy = p, kept_used = tally_used t, kept_floor_used = floor_used t, kept_fired = tally_fired t\<rparr>))
    (zip (policy m) (row_tallies m)))"
  then have i: "i < length (policy m)" "i < length (row_tallies m)" by simp_all
  from meter_invD(7) [OF inv i(1)] have "tally_reserved (row_tallies m ! i) = 0" "floor_reserved (row_tallies m ! i) = 0"
    using settled_sums [OF closed] by (simp_all add: tally_ok_def)
  then show "map ((\<lambda>r. new_tally\<lparr>tally_used := kept_used r, floor_used := kept_floor_used r, tally_fired := kept_fired r\<rparr>) \<circ>
      (\<lambda>(p, t). \<lparr>kept_policy = p, kept_used = tally_used t, kept_floor_used = floor_used t, kept_fired = tally_fired t\<rparr>))
    (zip (policy m) (row_tallies m)) ! i = row_tallies m ! i"
    using i by (simp add: new_tally_def)
qed (simp add: meter_invD(6) [OF inv])

text \<open>C20: a checkpoint is the settled meter.  It is refused exactly while a lease is open, and the meter
  built from one is the meter it was taken from, spend, rows, fired ladders and revised line included,
  with a fresh identity and no leases; its own checkpoint is the same one.\<close>

theorem checkpoint_roundtrip:
  assumes "limit \<le> usize_max" "policy_fits rows" "list_all call_fits cs" "length cs < usize_max"
    and m: "m = fold meter_step cs (new_meter identity attempt limit reserve exhausted act rows)"
  shows "case meter_checkpoint m of
      Inl e \<Rightarrow> e = LeaseInvalid \<and> list_ex (\<lambda>(_, r). lease_state r = OpenLease) (leases m)
    | Inr c \<Rightarrow> \<not> list_ex (\<lambda>(_, r). lease_state r = OpenLease) (leases m) \<and>
        from_checkpoint fresh c = m\<lparr>guard_identity := fresh, leases := []\<rparr> \<and>
        meter_checkpoint (from_checkpoint fresh c) = Ok c"
proof (cases "list_ex (\<lambda>(_, r). lease_state r = OpenLease) (leases m)")
  case False
  have inv: "meter_inv m" by (rule new_meter_run [OF assms])
  obtain c where c: "meter_checkpoint m = Ok c" using False by (simp add: meter_checkpoint_def)
  have "map kept_policy (cp_rows c) = policy m"
    using c False meter_invD(6) [OF inv] by (auto simp: meter_checkpoint_def case_prod_unfold intro: nth_equalityI)
  moreover have "map (\<lambda>r. new_tally\<lparr>tally_used := kept_used r, floor_used := kept_floor_used r, tally_fired := kept_fired r\<rparr>)
      (cp_rows c) = row_tallies m"
    using c False settled_tallies [OF inv False] by (auto simp: meter_checkpoint_def)
  moreover have "cp_attempt c = attempt_id m" "cp_limit c = limit_units m" "cp_reserve c = reserve_default m"
    "cp_exhausted c = on_exhausted m" "cp_actor c = meter_actor m" "cp_used c = used_units m"
    "cp_shared_used c = shared_used m" "cp_next_seq c = next_lease_seq m" "cp_fired c = fired_thresholds m"
    using c False by (auto simp: meter_checkpoint_def)
  ultimately have again: "from_checkpoint fresh c = m\<lparr>guard_identity := fresh, leases := []\<rparr>"
    using settled_sums [OF False] meter_invD(4,5,8,9) [OF inv]
    by (intro meter.equality) (simp_all add: from_checkpoint_def new_meter_def)
  have "meter_checkpoint (m\<lparr>guard_identity := fresh, leases := []\<rparr>) = Ok c"
    using c False by (simp add: meter_checkpoint_def)
  then show ?thesis using c False again by simp
qed (simp add: meter_checkpoint_def)

lemma fired_fields [simp]:
  "leases (snd (fire_ladders m)) = leases m" "guard_identity (snd (fire_ladders m)) = guard_identity m"
  "used_units (snd (fire_ladders m)) = used_units m" "reserved_units (snd (fire_ladders m)) = reserved_units m"
  "policy (snd (fire_ladders m)) = policy m" "next_lease_seq (snd (fire_ladders m)) = next_lease_seq m"
  "shared_used (snd (fire_ladders m)) = shared_used m" "shared_reserved (snd (fire_ladders m)) = shared_reserved m"
  "attempt_id (snd (fire_ladders m)) = attempt_id m"
  using fire_ladders_effect [of m] by auto

text \<open>A plain meter that has reserved 100 units for a call and settled it at 40.\<close>

definition plain_meter :: meter where
  "plain_meter = new_meter 7 ''a'' 1000 100 Suspend None []"

definition settled_run :: "meter_call list" where
  "settled_run = [CReserveBound 100 sample_call, CSettleUsage sample_lease 40]"

lemma decimal_one: "decimal (Suc 0) = ''1''"
  by (simp add: decimal.simps char_of_def bit_iff_odd)

lemmas plain_computes = plain_meter_def new_meter_def sample_lease_def admission_defs admitting_def metered_admission_def
  reserve_bound_def plan_reserve_def plan_single_pool_def global_denies_def exceeds_def cap_units_def commit_reservation_def
  no_allocation_def issue_lease_with_def lease_id_def decimal_one Let_def case_prod_unfold sat_add_def

lemma reserved_plain:
  "fst (admit_reserve_bound 100 sample_call plain_meter) \<noteq> Err e \<and>
   leases (meter_step (CReserveBound 100 sample_call) plain_meter) =
     [(''a:metered:1'', \<lparr>reserve_units = 100, metered = True, lease_state = OpenLease, matched_rows = [],
        floor_allocations = [], shared_units = 0, lease_binding = Some sample_call, was_dispatched = False\<rparr>)]"
  by (simp add: plain_computes usize_max_def)

lemma reserved_plain_identity:
  "guard_identity (meter_step (CReserveBound 100 sample_call) plain_meter) = 7"
  "used_units (meter_step (CReserveBound 100 sample_call) plain_meter) = 0"
  by (simp_all add: plain_computes)

lemma settled_run_leases:
  "\<exists>r. leases (fold meter_step settled_run plain_meter) = [(''a:metered:1'', r)] \<and> lease_state r = SettledLease 40"
  using reserved_plain reserved_plain_identity
  by (simp add: settled_run_def settle_usage_def sample_lease_def Let_def settlement_of_def case_prod_unfold close_lease_def
      apply_usage_def release_reservations_def sat_add_def usize_max_def del: meter_step.simps(6))

lemma checkpoint_roundtrip_witness:
  "\<exists>c. meter_checkpoint (fold meter_step settled_run plain_meter) = Ok c \<and>
     from_checkpoint 8 c = (fold meter_step settled_run plain_meter)\<lparr>guard_identity := 8, leases := []\<rparr>"
proof -
  have "\<not> list_ex (\<lambda>(_, r). lease_state r = OpenLease) (leases (fold meter_step settled_run plain_meter))"
    using settled_run_leases by auto
  then show ?thesis
    using checkpoint_roundtrip [of 1000 "[]" settled_run "fold meter_step settled_run plain_meter" 7 "''a''" 100 Suspend None 8]
    by (auto simp: policy_fits_def plain_meter_def settled_run_def usize_max_def split: sum.splits)
qed



section \<open>The life of a lease\<close>

text \<open>A lease record changes only while it is open: it is closed, or its dispatch mark moves.  A call that
  closes a dispatched lease never aborts it, only a lease bound to a call is marked, and only
  \<open>mark_unsent\<close> takes a mark off.\<close>

definition follows :: "bool \<Rightarrow> lease_record \<Rightarrow> lease_record \<Rightarrow> bool" where
  "follows unsent r r' \<longleftrightarrow>
     r' = r \<or>
     lease_state r = OpenLease \<and>
       ((\<exists>n. r' = r\<lparr>lease_state := SettledLease n\<rparr>) \<or> r' = r\<lparr>lease_state := AbortedLease\<rparr> \<and> \<not> was_dispatched r \<or>
        r' = r\<lparr>was_dispatched := True\<rparr> \<and> lease_binding r \<noteq> None \<or> r' = r\<lparr>was_dispatched := False\<rparr> \<and> unsent)"

lemma follows_refl [simp]: "follows u r r"
  by (simp add: follows_def)

lemma released_leases [simp]:
  "leases (release_reservations r (close_lease name r' st m)) = AList.update name (r'\<lparr>lease_state := st\<rparr>) (leases m)"
  "guard_identity (release_reservations r (close_lease name r' st m)) = guard_identity m"
  by (simp_all add: release_reservations_def fold_at_row fold_at_pairs close_lease_def)

lemma reserved_leases [simp]:
  "leases (commit_reservation n a m) = leases m" "guard_identity (commit_reservation n a m) = guard_identity m"
  "next_lease_seq (commit_reservation n a m) = next_lease_seq m" "attempt_id (commit_reservation n a m) = attempt_id m"
  by (simp_all add: commit_reservation_def fold_at_row fold_at_pairs)

lemma applied_leases [simp]:
  "leases (apply_usage r n m) = leases m" "guard_identity (apply_usage r n m) = guard_identity m"
  using applied_fields [of r n m] by auto

lemma settled_leases [simp]:
  "leases (snd (settlement_of m)) = leases m" "guard_identity (snd (settlement_of m)) = guard_identity m"
  by (simp_all add: settlement_of_def case_prod_unfold Let_def)

lemma settle_usage_leases:
  "leases (snd (settle_usage l n m)) =
     (case own_record l m of
        None \<Rightarrow> leases m
      | Some r \<Rightarrow> if lease_state r = OpenLease
                  then AList.update (lease_name l) (r\<lparr>lease_state := SettledLease (sat_add (used_units m) n)\<rparr>) (leases m)
                  else leases m)"
  by (auto simp: settle_usage_def own_record_def Let_def split: option.split lease_state.split)

lemma settle_absolute_leases:
  "leases (snd (settle_absolute l n m)) =
     (case own_record l m of
        None \<Rightarrow> leases m
      | Some r \<Rightarrow> if lease_state r = OpenLease
                  then AList.update (lease_name l) (r\<lparr>lease_state := SettledLease n\<rparr>) (leases m) else leases m)"
  by (auto simp: settle_absolute_def own_record_def Let_def split: option.split lease_state.split)

lemma abort_leases:
  "leases (snd (abort l m)) =
     (case own_record l m of
        None \<Rightarrow> leases m
      | Some r \<Rightarrow> if lease_state r \<noteq> OpenLease then leases m
                  else if was_dispatched r then leases (snd (settle_usage l (reserve_units r) m))
                  else AList.update (lease_name l) (r\<lparr>lease_state := AbortedLease\<rparr>) (leases m))"
  by (auto simp: abort_def own_record_def settle_usage_leases split: option.split lease_state.split)

lemma identity_kept [simp]: "guard_identity (meter_step c m) = guard_identity m"
  using meter_step_cases [of c m]
proof cases
  case (reserve r p b)
  then show ?thesis
    by (auto simp: admitting_def metered_admission_def reserve_bound_def issue_lease_with_def Let_def case_prod_unfold split: reserve_plan.split)
qed (auto simp: unmetered_admission_def issue_lease_def issue_lease_with_def settle_absolute_def settle_usage_def abort_def
    begin_dispatch_def mark_unsent_def revise_line_def Let_def split: option.split lease_state.split)

lemma issued_record:
  assumes "meter_inv m" "next_lease_seq m < usize_max" "map_of (leases m) name = Some r"
    and m': "leases m' = leases m" "next_lease_seq m' = next_lease_seq m" "attempt_id m' = attempt_id m"
    and kind: "kind = ''metered'' \<or> kind = ''local''"
  shows "map_of (leases (snd (issue_lease_with u b kind a binding m'))) name = Some r"
proof -
  have "lease_id m kind (Suc (next_lease_seq m)) \<noteq> name"
    using lease_name_fresh [OF meter_invD(2) [OF assms(1)] assms(2) kind] assms(3) by auto
  then show ?thesis using assms(2,3)
    by (simp add: issue_lease_with_def Let_def update_conv' m' lease_id_def sat_add_def)
qed

lemma step_record:
  assumes inv: "meter_inv m" and seq: "next_lease_seq m < usize_max" and r: "map_of (leases m) name = Some r"
  shows "\<exists>r'. map_of (leases (meter_step c m)) name = Some r' \<and> follows (\<exists>l. c = CUnsent l) r r'"
  using meter_step_cases [of c m]
proof cases
  case (reserve u p b)
  have "leases (snd (admitting x)) = leases (snd x)" for x
    by (auto simp: admitting_def metered_admission_def case_prod_unfold Let_def split: sum.split)
  moreover have "map_of (leases (snd (reserve_bound u p b m))) name = Some r"
    using issued_record [OF inv seq r, of "commit_reservation u a m" for a] r
    by (auto simp: reserve_bound_def case_prod_unfold Let_def split: reserve_plan.split)
  ultimately show ?thesis using reserve by simp
next
  case (free b)
  then show ?thesis using issued_record [OF inv seq r, of m "''local''" 0 False no_allocation b]
    by (auto simp: unmetered_admission_def issue_lease_def case_prod_unfold Let_def)
next
  case (absolute l n)
  then show ?thesis using r
    by (auto simp: settle_absolute_leases update_conv' own_record_def follows_def split: option.split)
next
  case (usage l n)
  then show ?thesis using r
    by (auto simp: settle_usage_leases update_conv' own_record_def follows_def split: option.split)
next
  case (abort l)
  then show ?thesis using r
    by (auto simp: abort_leases settle_usage_leases update_conv' own_record_def follows_def split: option.split)
next
  case (dispatch l d)
  then show ?thesis using r by (auto simp: begin_dispatch_def update_conv' follows_def split: option.split)
next
  case (unsent l)
  then show ?thesis using r by (auto simp: mark_unsent_def update_conv' follows_def split: option.split)
qed (use r in \<open>simp_all add: revise_line_def\<close>)


text \<open>What any run leaves of a record.\<close>

fun takes_mark_off :: "meter_call \<Rightarrow> bool" where
  "takes_mark_off (CUnsent l) = True"
| "takes_mark_off c = False"

definition later :: "bool \<Rightarrow> lease_record \<Rightarrow> lease_record \<Rightarrow> bool" where
  "later unsent r r' \<longleftrightarrow>
     lease_binding r' = lease_binding r \<and> reserve_units r' = reserve_units r \<and> metered r' = metered r \<and>
     (lease_binding r = None \<and> \<not> was_dispatched r \<longrightarrow> \<not> was_dispatched r') \<and>
     (lease_state r \<noteq> OpenLease \<longrightarrow> r' = r) \<and>
     (\<not> unsent \<and> was_dispatched r \<and> lease_state r \<noteq> AbortedLease \<longrightarrow> was_dispatched r' \<and> lease_state r' \<noteq> AbortedLease)"

lemma follows_later: "follows u r r' \<Longrightarrow> later u r r'"
  by (auto simp: follows_def later_def)

lemma later_trans: "later u r r' \<Longrightarrow> later v r' r'' \<Longrightarrow> later (u \<or> v) r r''"
  by (auto simp: later_def)

lemma run_record:
  "meter_inv m \<Longrightarrow> list_all call_fits cs \<Longrightarrow> next_lease_seq m + length cs < usize_max \<Longrightarrow> map_of (leases m) name = Some r \<Longrightarrow>
   \<exists>r'. map_of (leases (fold meter_step cs m)) name = Some r' \<and> later (list_ex takes_mark_off cs) r r'"
proof (induction cs arbitrary: m r)
  case (Cons c cs)
  have "meter_inv (meter_step c m)" using Cons.prems by (intro meter_step_inv) auto
  moreover have "(\<exists>l. c = CUnsent l) = takes_mark_off c" by (cases c) auto
  then obtain r1 where r1: "map_of (leases (meter_step c m)) name = Some r1" "later (takes_mark_off c) r r1"
    using step_record [OF Cons.prems(1) _ Cons.prems(4), of c] Cons.prems(3) follows_later by fastforce
  ultimately obtain r2 where "map_of (leases (fold meter_step cs (meter_step c m))) name = Some r2"
    "later (list_ex takes_mark_off cs) r1 r2"
    using Cons.IH [of "meter_step c m" r1] Cons.prems step_seq [of c m] by auto
  then show ?case using later_trans [OF r1(2)] by auto
qed (simp add: later_def)

lemma run_identity [simp]: "guard_identity (fold meter_step cs m) = guard_identity m"
  by (induction cs arbitrary: m) simp_all

lemma run_own_record:
  assumes "meter_inv m" "list_all call_fits cs" "next_lease_seq m + length cs < usize_max" "own_record l m = Some r"
  shows "\<exists>r'. own_record l (fold meter_step cs m) = Some r' \<and> later (list_ex takes_mark_off cs) r r'"
  using run_record [OF assms(1-3), of "lease_name l" r] assms(4) by (auto simp: own_record_def split: if_splits)

lemma begun:
  assumes "fst (begin_dispatch l c m) = Ok ()"
  obtains r where "own_record l m = Some r" "lease_state r = OpenLease" "lease_binding r = Some c" "\<not> was_dispatched r"
    "own_record l (snd (begin_dispatch l c m)) = Some (r\<lparr>was_dispatched := True\<rparr>)"
proof -
  from assms obtain r b where r: "own_record l m = Some r" "lease_state r = OpenLease" "lease_binding r = Some b" "\<not> was_dispatched r"
    and same: "subject b = subject c" "bind_route b = bind_route c" "offer b = offer c" "bind_locality b = bind_locality c"
      "request_digest b = request_digest c"
    by (auto simp: begin_dispatch_def own_record_def split: if_splits option.splits)
  have "b = c" by (rule dispatch_binding.equality) (use same in simp_all)
  with r same have "snd (begin_dispatch l c m) = m\<lparr>leases := AList.update (lease_name l) (r\<lparr>was_dispatched := True\<rparr>) (leases m)\<rparr>"
    "issuer l = guard_identity m"
    by (auto simp: begin_dispatch_def own_record_def split: if_splits)
  with r \<open>b = c\<close> show thesis by (intro that [of r]) (simp_all add: own_record_def update_conv')
qed

text \<open>C18: a lease starts one dispatch.  A dispatch begins only on an open lease granted for that very call and
  not started before; from then on, whatever the meter serves, nothing but \<open>mark_unsent\<close> lets it begin
  again, and the lease is never released untouched: it stays open or is charged.\<close>

theorem lease_is_one_use:
  assumes "limit \<le> usize_max" "policy_fits rows" "list_all call_fits (cs @ cs')" "length (cs @ cs') + 1 < usize_max"
    and m: "m = fold meter_step cs (new_meter identity attempt limit reserve exhausted act rows)"
    and start: "fst (begin_dispatch l c m) = Ok ()"
    and m': "m' = fold meter_step cs' (snd (begin_dispatch l c m))" and sent: "\<not> list_ex takes_mark_off cs'"
  shows "lease_open l m = Some True \<and> dispatched l m = Some False \<and>
    map_option lease_binding (own_record l m) = Some (Some c) \<and>
    dispatched l m' = Some True \<and> (fst (begin_dispatch l c' m') = Err AlreadyDispatched \<or> fst (begin_dispatch l c' m') = Err Closed) \<and>
    lease_observation (lease_name l) m' \<noteq> Some ObservedAborted"
proof -
  have inv: "meter_inv m" and seq: "next_lease_seq m \<le> length cs" using new_meter_run [OF assms(1,2) _ _ m] assms(3,4) by simp_all
  obtain r where r: "own_record l m = Some r" "lease_state r = OpenLease" "lease_binding r = Some c" "\<not> was_dispatched r"
    "own_record l (snd (begin_dispatch l c m)) = Some (r\<lparr>was_dispatched := True\<rparr>)" by (rule begun [OF start])
  have "next_lease_seq (snd (begin_dispatch l c m)) = next_lease_seq m"
    by (auto simp: begin_dispatch_def split: option.split)
  then obtain r' where r': "own_record l m' = Some r'" "later False (r\<lparr>was_dispatched := True\<rparr>) r'"
    using run_own_record [OF dispatch_inv [OF inv], of cs' l c l "r\<lparr>was_dispatched := True\<rparr>"] assms(3,4) seq r(5) sent m' by auto
  from r'(2) r(2,3) have l: "lease_binding r' = Some c" "was_dispatched r'" "lease_state r' \<noteq> AbortedLease"
    by (auto simp: later_def)
  have own: "issuer l = guard_identity m'" "map_of (leases m') (lease_name l) = Some r'"
    using r'(1) by (auto simp: own_record_def split: if_splits)
  show ?thesis using r r' l own
    by (auto simp: lease_open_def dispatched_def lease_observation_def begin_dispatch_def split: lease_state.splits)
qed


lemma plain_run: "fold meter_step [CReserveBound 100 sample_call] plain_meter = meter_step (CReserveBound 100 sample_call) plain_meter"
  by simp

lemma reserved_plain_begins:
  "fst (begin_dispatch sample_lease sample_call (meter_step (CReserveBound 100 sample_call) plain_meter)) = Ok ()"
  using reserved_plain reserved_plain_identity by (simp add: begin_dispatch_def sample_lease_def del: meter_step.simps)

lemma lease_is_one_use_witness:
  "dispatched sample_lease (fold meter_step [CAbort sample_lease]
     (snd (begin_dispatch sample_lease sample_call (meter_step (CReserveBound 100 sample_call) plain_meter)))) = Some True"
  using lease_is_one_use [of 1000 "[]" "[CReserveBound 100 sample_call]" "[CAbort sample_lease]"
      "meter_step (CReserveBound 100 sample_call) plain_meter" 7 "''a''" 100 Suspend None sample_lease sample_call
      "fold meter_step [CAbort sample_lease] (snd (begin_dispatch sample_lease sample_call (meter_step (CReserveBound 100 sample_call) plain_meter)))"]
    reserved_plain_begins
  by (simp add: policy_fits_def usize_max_def plain_meter_def)


section \<open>One settlement\<close>

text \<open>The accounts of a meter: what is spent and reserved, whole, shared and row by row, and the leases.\<close>

definition accounts :: "meter \<Rightarrow> nat \<times> nat \<times> nat \<times> nat \<times> (nat \<times> nat \<times> nat \<times> nat) list \<times> (string \<times> lease_record) list" where
  "accounts m = (used_units m, reserved_units m, shared_used m, shared_reserved m, map money (row_tallies m), leases m)"

fun names_lease :: "budget_lease \<Rightarrow> meter_call \<Rightarrow> bool" where
  "names_lease l (CSettleAbsolute l' n) = (l' = l)"
| "names_lease l (CSettleUsage l' n) = (l' = l)"
| "names_lease l (CSettleReserved l') = (l' = l)"
| "names_lease l (CAbort l') = (l' = l)"
| "names_lease l (CBegin l' c) = (l' = l)"
| "names_lease l (CUnsent l') = (l' = l)"
| "names_lease l c = False"

lemma settled_accounts [simp]: "accounts (snd (settlement_of m)) = accounts m"
  using fire_ladders_effect [of m] by (auto simp: settlement_of_def accounts_def case_prod_unfold Let_def)

lemma closed_call_changes_nothing:
  assumes "own_record l m = Some r" "lease_state r \<noteq> OpenLease" "names_lease l c"
  shows "accounts (meter_step c m) = accounts m"
  using assms
  by (cases c) (auto simp: own_record_def settle_absolute_def settle_usage_def settle_reserved_def reserved_for_def abort_def
      begin_dispatch_def mark_unsent_def Let_def split: if_splits option.splits lease_state.splits)

text \<open>C19: a lease is settled once.  Once a lease is closed it stays closed as it was, whatever the meter serves,
  and no later settlement, abort or dispatch that names it, through any of the calls, moves a unit of the
  accounts or a lease.\<close>

theorem settled_once:
  assumes "limit \<le> usize_max" "policy_fits rows" "list_all call_fits (cs @ cs')" "length (cs @ cs') < usize_max"
    and m: "m = fold meter_step cs (new_meter identity attempt limit reserve exhausted act rows)"
    and closed: "lease_open l m = Some False" and m': "m' = fold meter_step cs' m" and again: "names_lease l call"
  shows "accounts (meter_step call m') = accounts m' \<and> lease_open l m' = Some False \<and>
    lease_observation (lease_name l) m' = lease_observation (lease_name l) m"
proof -
  have inv: "meter_inv m" and seq: "next_lease_seq m \<le> length cs" using new_meter_run [OF assms(1,2) _ _ m] assms(3,4) by simp_all
  obtain r where r: "own_record l m = Some r" "lease_state r \<noteq> OpenLease" using closed by (auto simp: lease_open_def)
  from run_own_record [OF inv _ _ r(1), of cs'] assms(3,4) seq r(2) have "own_record l m' = Some r"
    by (auto simp: m' later_def)
  then show ?thesis using closed_call_changes_nothing [of l m' r call] r again
    by (auto simp: lease_open_def lease_observation_def own_record_def split: if_splits)
qed

lemma settled_once_witness:
  "accounts (meter_step (CSettleAbsolute sample_lease 500) (fold meter_step settled_run plain_meter)) =
   accounts (fold meter_step settled_run plain_meter)"
proof -
  have "lease_open sample_lease (fold meter_step settled_run plain_meter) = Some False"
    using settled_run_leases reserved_plain_identity by (auto simp: lease_open_def own_record_def sample_lease_def plain_meter_def new_meter_def)
  then show ?thesis
    using settled_once [of 1000 "[]" settled_run "[]" "fold meter_step settled_run plain_meter" 7 "''a''" 100 Suspend None
        sample_lease "fold meter_step settled_run plain_meter" "CSettleAbsolute sample_lease 500"]
    by (simp add: policy_fits_def plain_meter_def settled_run_def usize_max_def)
qed



section \<open>A floor is a guarantee\<close>

lemma allocate_zero: "snd (allocate_floors m rows 0) = 0"
  by (cases rows) simp_all

lemma allocate_covers:
  "i \<in> set rows \<Longrightarrow> i < length (policy m) \<Longrightarrow> i < length (row_tallies m) \<Longrightarrow> row_floor (policy m ! i) = Some f \<Longrightarrow>
   r \<le> f - sat_add (floor_used (row_tallies m ! i)) (floor_reserved (row_tallies m ! i)) \<Longrightarrow>
   snd (allocate_floors m rows r) = 0"
proof (induction rows arbitrary: r)
  case (Cons j rows)
  have shrink: "snd (allocate_floors m rows (r - u)) = 0" if "i \<in> set rows" for u
    using Cons.IH [of "r - u"] Cons.prems that by simp
  show ?case
  proof (cases "i = j")
    case True
    then show ?thesis using Cons.prems allocate_zero [of m rows]
      by (simp add: policy_row_at_def row_tally_at_def min_def Let_def case_prod_unfold)
  next
    case False
    then have "snd (allocate_floors m rows r) = 0" using Cons.prems shrink [of 0] by simp
    then show ?thesis using Cons.prems False shrink
      by (auto simp: Let_def case_prod_unfold split: option.split)
  qed
qed simp

lemma total_floors_exact:
  "acc + sum_list (map (\<lambda>r. case row_floor r of None \<Rightarrow> 0 | Some f \<Rightarrow> f) rows) \<le> usize_max \<Longrightarrow>
   fold add_floor rows acc = acc + sum_list (map (\<lambda>r. case row_floor r of None \<Rightarrow> 0 | Some f \<Rightarrow> f) rows)"
proof (induction rows arbitrary: acc)
  case (Cons r rows)
  have "add_floor r acc = acc + (case row_floor r of None \<Rightarrow> 0 | Some f \<Rightarrow> f)"
    using Cons.prems by (auto simp: add_floor_def sat_add_def split: option.split)
  with Cons.IH [of "add_floor r acc"] Cons.prems show ?case by (simp add: add.assoc)
qed simp

lemma floors_by_index: "map (floor_of rows) [0 ..< length rows] = map (\<lambda>r. case row_floor r of None \<Rightarrow> 0 | Some f \<Rightarrow> f) rows"
  by (rule nth_equalityI) (simp_all add: floor_of_def)

text \<open>What is reserved is split between the floors and the shared slice.\<close>

lemma held_split:
  assumes "lease_ok rows r" "rows \<noteq> []"
  shows "held_by reserve_units r = sum_list (map (\<lambda>i. held_by (floor_share i) r) [0 ..< length rows]) + held_by shared_units r"
proof -
  have sub: "fst ` set (floor_allocations r) \<subseteq> set [0 ..< length rows]" using assms(1) unfolding lease_ok_def atLeast_upt [symmetric] by (elim conjE) (rule subset_trans)
  have d: "distinct (map fst (floor_allocations r))" using assms(1) by (simp add: lease_ok_def)
  have "sum_list (map (\<lambda>i. floor_share i r) [0 ..< length rows]) = sum_list (map snd (floor_allocations r))"
    using sum_shares [OF d _ sub] by (simp add: floor_share_def)
  moreover have "floor_allocations r = [] \<and> reserve_units r = 0 \<and> shared_units r = 0" if "\<not> metered r"
    using assms that by (auto simp: lease_ok_def)
  ultimately show ?thesis using assms by (cases "metered r") (auto simp: held_by_def lease_ok_def sum_list_0)
qed

lemma alist_sum_split:
  "(\<And>v. v \<in> snd ` set al \<Longrightarrow> f v = sum_list (map (\<lambda>i. g i v) is) + h v) \<Longrightarrow>
   alist_sum f al = sum_list (map (\<lambda>i. alist_sum (g i) al) is) + alist_sum h al"
proof (induction al)
  case (Cons p al)
  obtain k v where p: "p = (k, v)" by (cases p)
  have "alist_sum f al = sum_list (map (\<lambda>i. alist_sum (g i) al) is) + alist_sum h al" using Cons by simp
  moreover have "f v = sum_list (map (\<lambda>i. g i v) is) + h v" using Cons.prems [of v] p by simp
  ultimately show ?case by (simp add: p sum_list_addf)
qed simp

lemma reserved_split:
  assumes inv: "meter_inv m" and rows: "policy m \<noteq> []"
  shows "reserved_units m = sum_list (map floor_reserved (row_tallies m)) + shared_reserved m"
proof -
  have ok: "lease_ok (policy m) r" if "r \<in> snd ` set (leases m)" for r
    using meter_invD(3) [OF inv] that by (auto simp: list_all_iff)
  have "open_sum reserve_units m = sum_list (map (\<lambda>i. open_sum (floor_share i) m) [0 ..< length (policy m)]) + open_sum shared_units m"
    unfolding open_sum_def using held_split [OF ok rows] by (rule alist_sum_split)
  also have "map (\<lambda>i. open_sum (floor_share i) m) [0 ..< length (policy m)] = map floor_reserved (row_tallies m)"
    using meter_invD(6,7) [OF inv] by (intro nth_equalityI) (auto simp: tally_ok_def)
  finally show ?thesis using meter_invD(8,9) [OF inv] by simp
qed


text \<open>The line, the policy and the actor of a meter stay what they were, but for a revision of the line.\<close>

definition terms_of :: "meter \<Rightarrow> policy_row list \<times> entity_id option \<times> nat" where
  "terms_of m = (policy m, meter_actor m, limit_units m)"

lemma terms_kept [simp]:
  "terms_of (snd (fire_ladders m)) = terms_of m" "terms_of (commit_reservation n a m) = terms_of m"
  "terms_of (apply_usage r n m) = terms_of m" "terms_of (release_reservations r (close_lease name r' st m)) = terms_of m"
  "terms_of (m\<lparr>used_units := u\<rparr>) = terms_of m" "terms_of (m\<lparr>leases := ls\<rparr>) = terms_of m"
  "terms_of (m\<lparr>next_lease_seq := q\<rparr>) = terms_of m"
  using fire_ladders_effect [of m] applied_fields [of r n m]
  by (auto simp: terms_of_def commit_reservation_def release_reservations_def fold_at_row fold_at_pairs close_lease_def)

lemma issued_terms [simp]: "terms_of (snd (issue_lease_with n b kind a binding m)) = terms_of m"
  by (simp add: issue_lease_with_def Let_def)

lemma settled_terms [simp]: "terms_of (snd (settlement_of m)) = terms_of m"
  by (simp add: settlement_of_def case_prod_unfold Let_def)

lemma step_terms:
  assumes "modest c m"
  shows "terms_of (meter_step c m) = terms_of m"
  using meter_step_cases [of c m]
proof cases
  case (reserve r p b)
  then show ?thesis
    by (auto simp: admitting_def metered_admission_def reserve_bound_def case_prod_unfold Let_def split: reserve_plan.split)
next
  case (abort l)
  then show ?thesis
    by (auto simp: abort_def settle_usage_def Let_def split: option.split lease_state.split)
qed (use assms in \<open>auto simp: unmetered_admission_def issue_lease_def settle_absolute_def settle_usage_def case_prod_unfold
    begin_dispatch_def mark_unsent_def Let_def split: option.split lease_state.split\<close>)

lemma run_terms: "modest_run cs m \<Longrightarrow> terms_of (fold meter_step cs m) = terms_of m"
  by (induction cs arbitrary: m) (simp_all add: step_terms)

definition all_floors :: "policy_row list \<Rightarrow> nat" where
  "all_floors rows = sum_list (map (\<lambda>r. case row_floor r of None \<Rightarrow> 0 | Some f \<Rightarrow> f) rows)"

text \<open>The floors that are still whole, and the shared slice, leave room for one floor to be used up.\<close>

lemma floor_room:
  assumes inv: "meter_inv m" and w: "within_line m" and rows: "policy m \<noteq> []" and fit: "all_floors (policy m) \<le> limit_units m"
    and used: "used_units m < usize_max" and i: "i < length (policy m)"
    and room: "floor_used (row_tallies m ! i) + floor_reserved (row_tallies m ! i) + r \<le> floor_of (policy m) i"
  shows "used_units m + reserved_units m + r \<le> cap_units m"
proof -
  let ?n = "[0 ..< length (policy m)]"
  have len: "length (row_tallies m) = length (policy m)" by (rule meter_invD(6) [OF inv])
  have by_index: "map g (row_tallies m) = map (\<lambda>j. g (row_tallies m ! j)) ?n" for g :: "row_tally \<Rightarrow> nat"
    by (rule nth_equalityI) (simp_all add: len)
  have "used_units m + reserved_units m =
      sum_list (map floor_used (row_tallies m)) + sum_list (map floor_reserved (row_tallies m)) + (shared_used m + shared_reserved m)"
    using meter_invD(10) [OF inv] rows used reserved_split [OF inv rows] by (simp add: spend_split_def)
  also have "sum_list (map floor_used (row_tallies m)) + sum_list (map floor_reserved (row_tallies m)) =
      sum_list (map (\<lambda>j. floor_used (row_tallies m ! j) + floor_reserved (row_tallies m ! j)) ?n)"
    by (simp only: by_index sum_list_addf)
  finally have spent: "used_units m + reserved_units m =
      sum_list (map (\<lambda>j. floor_used (row_tallies m ! j) + floor_reserved (row_tallies m ! j)) ?n) + (shared_used m + shared_reserved m)" .
  have each: "floor_used (row_tallies m ! j) + floor_reserved (row_tallies m ! j) + (if j = i then r else 0) \<le> floor_of (policy m) j"
    if "j < length (policy m)" for j
    using meter_invD(7) [OF inv that] room that by (auto simp: tally_ok_def)
  have "sum_list (map (\<lambda>j. floor_used (row_tallies m ! j) + floor_reserved (row_tallies m ! j)) ?n) + r =
      sum_list (map (\<lambda>j. floor_used (row_tallies m ! j) + floor_reserved (row_tallies m ! j) + (if j = i then r else 0)) ?n)"
    using i by (simp add: sum_list_addf sum_list_distinct_conv_sum_set)
  also have "\<dots> \<le> sum_list (map (floor_of (policy m)) ?n)" by (rule sum_list_mono) (use each in auto)
  finally have floors: "sum_list (map (\<lambda>j. floor_used (row_tallies m ! j) + floor_reserved (row_tallies m ! j)) ?n) + r \<le> all_floors (policy m)"
    by (simp add: floors_by_index all_floors_def)
  have total: "total_floor_units m = all_floors (policy m)"
    using total_floors_exact [of 0 "policy m"] fit meter_invD(1,4) [OF inv] by (simp add: total_floors_def all_floors_def units_fit_def)
  have cap: "limit_units m \<le> cap_units m"
    by (cases "on_exhausted m") (use meter_invD(1) [OF inv] in \<open>auto simp: cap_units_def sat_add_ge units_fit_def\<close>)
  have "shared_used m + shared_reserved m \<le> shared_admission_ceiling m" using w rows by (simp add: within_line_def)
  also have "\<dots> \<le> (limit_units m - all_floors (policy m)) + (cap_units m - limit_units m)"
    by (simp add: shared_admission_ceiling_def shared_slice_units_def total sat_add_def)
  finally show ?thesis using spent floors fit cap by simp
qed



text \<open>A line of 300 units with a floor of 200 for consolidation, after a call of another purpose took 100.\<close>

definition guarded_meter :: meter where
  "guarded_meter = new_meter 7 ''a'' 300 100 Suspend None [\<lparr>row_selector = ByPurpose Consolidation, row_floor = Some 200, row_cap = None\<rparr>]"

lemma guarded_taken:
  defines "m \<equiv> meter_step (CCallBound 100 Extraction sample_call) guarded_meter"
  shows "floor_used (row_tallies m ! 0) = 0" "floor_reserved (row_tallies m ! 0) = 0" "used_units m = 0" "length (policy m) = 1"
    "policy m ! 0 = \<lparr>row_selector = ByPurpose Consolidation, row_floor = Some 200, row_cap = None\<rparr>"
proof -
  define x where "x = snd (reserve_bound 100 (Some Extraction) (Some sample_call) guarded_meter)"
  have x: "row_tallies x = [new_tally]" "used_units x = 0" "policy x = policy guarded_meter"
    by (simp_all add: x_def guarded_meter_def meter_computes)
  have "m = snd (fire_ladders x)" by (simp add: m_def x_def guarded_meter_def meter_computes case_prod_unfold)
  then obtain F ts where m: "m = x\<lparr>fired_thresholds := F, row_tallies := ts\<rparr>" "map money ts = map money (row_tallies x)"
    using fire_ladders_effect [of x] by auto
  with x have "length ts = 1" "money (ts ! 0) = (0, 0, 0, 0)"
    by (auto simp: money_def new_tally_def)
  with x m show "floor_used (row_tallies m ! 0) = 0" "floor_reserved (row_tallies m ! 0) = 0" "used_units m = 0" "length (policy m) = 1"
    "policy m ! 0 = \<lparr>row_selector = ByPurpose Consolidation, row_floor = Some 200, row_cap = None\<rparr>"
    by (auto simp: money_def guarded_meter_def new_meter_def)
qed


end
