(* ===== verification/RunHost.thy ===== *)
theory RunHost
  imports RunBudget BudgetLeases
begin

text \<open>
  What a host feeds the run admission (\<open>crates/oneiron/src/llm/run_admission/host.rs\<close>): the routes, offers
  and paid connectors it bound, the rates between units, and the money a vault may commit, with
  the allocation in force and its generation.

  The digests (\<open>blake3\<close> of a text, and of the serialised binding) are parameters.  A meter is
  shared by its handle, as the code shares a guard behind an \<open>Arc\<close>: an allocation holds the number of its
  meter, and the meters live in the store of the caller.
\<close>

section \<open>Who pays, and with what key\<close>

datatype payer = HostPays | CustomerKey | CustomerAccount | CustomerSeat | LocalPayer

datatype payer_account = PersonAccount string | VaultOwner | VaultApproved nat

definition payer_account_kind :: "payer_account \<Rightarrow> string" where
  "payer_account_kind a =
     (case a of PersonAccount _ \<Rightarrow> ''person'' | VaultOwner \<Rightarrow> ''vault_owner'' | VaultApproved _ \<Rightarrow> ''vault_approved'')"

record payer_person =
  paying_person :: entity_id
  root_scope :: string
  billed_account :: payer_account

datatype key_custody = Keyless | T0 | T1

section \<open>Routes\<close>

record offer_route =
  route_adapter :: string
  route_origin :: string

datatype offer_route_error = AdapterError | OriginError

text \<open>
  Whether a text holds a white-space or control character, read on its UTF-8 bytes: no byte of the patterns
  is a continuation byte of another character where a character starts.
\<close>

definition blank_or_control :: "nat list \<Rightarrow> bool" where
  "blank_or_control s =
     (case s of
        [] \<Rightarrow> False
      | a # s1 \<Rightarrow>
          a \<le> 32 \<or> a = 127 \<or>
          (case s1 of
             [] \<Rightarrow> False
           | b # s2 \<Rightarrow>
               a = 0xC2 \<and> 0x80 \<le> b \<and> b \<le> 0x9F \<or> a = 0xC2 \<and> b = 0xA0 \<or>
               (case s2 of [] \<Rightarrow> False | c # _ \<Rightarrow> wide_blank a b c)))"

fun some_suffix :: "('a list \<Rightarrow> bool) \<Rightarrow> 'a list \<Rightarrow> bool" where
  "some_suffix P [] = P []"
| "some_suffix P (x # xs) = (P (x # xs) \<or> some_suffix P xs)"

definition plain_name :: "string \<Rightarrow> char list \<Rightarrow> bool" where
  "plain_name name banned \<longleftrightarrow>
     name \<noteq> [] \<and> \<not> some_suffix blank_or_control (map of_char name) \<and> \<not> list_ex (\<lambda>c. c \<in> set banned) name"

definition ascii_lower :: "char \<Rightarrow> char" where
  "ascii_lower c = (if in_range CHR ''A'' CHR ''Z'' c then char_of ((of_char c :: nat) + 32) else c)"

definition web_schemes :: "string list" where
  "web_schemes = [''http'', ''https'', ''ws'', ''wss'']"

definition is_digit_char :: "char \<Rightarrow> bool" where
  "is_digit_char c = in_range CHR ''0'' CHR ''9'' c"

definition is_hex_char :: "char \<Rightarrow> bool" where
  "is_hex_char c \<longleftrightarrow> is_digit_char c \<or> in_range CHR ''a'' CHR ''f'' c \<or> in_range CHR ''A'' CHR ''F'' c"

definition is_alnum_char :: "char \<Rightarrow> bool" where
  "is_alnum_char c \<longleftrightarrow> is_digit_char c \<or> in_range CHR ''a'' CHR ''z'' c \<or> in_range CHR ''A'' CHR ''Z'' c"

definition port_ok :: "string \<Rightarrow> bool" where
  "port_ok port \<longleftrightarrow>
     (case port of
        [] \<Rightarrow> True
      | c # ds \<Rightarrow> c = CHR '':'' \<and> ds \<noteq> [] \<and> list_all is_digit_char ds)"

definition is_authority :: "string \<Rightarrow> bool" where
  "is_authority a =
     (case a of
        CHR ''['' # bracketed \<Rightarrow>
          (case split_once CHR '']'' bracketed of
             None \<Rightarrow> False
           | Some (address, port) \<Rightarrow>
               address \<noteq> [] \<and> list_all (\<lambda>c. is_hex_char c \<or> c = CHR '':'' \<or> c = CHR ''.'') address \<and> port_ok port)
      | _ \<Rightarrow>
          (let i = (case position (\<lambda>c. c = CHR '':'') a of None \<Rightarrow> length a | Some i \<Rightarrow> i)
           in take i a \<noteq> [] \<and> list_all (\<lambda>c. is_alnum_char c \<or> c = CHR ''.'' \<or> c = CHR ''-'') (take i a) \<and> port_ok (drop i a)))"

definition web_ok :: "string \<Rightarrow> bool" where
  "web_ok origin =
     (case split_once CHR '':'' origin of
        None \<Rightarrow> True
      | Some (scheme, rest) \<Rightarrow>
          map ascii_lower scheme \<in> set web_schemes \<longrightarrow>
          (case rest of CHR ''/'' # CHR ''/'' # authority \<Rightarrow> is_authority authority | _ \<Rightarrow> False))"

definition new_offer_route :: "string \<Rightarrow> string \<Rightarrow> (offer_route_error, offer_route) result" where
  "new_offer_route adapter origin =
     (if \<not> plain_name adapter ''@'' then Err AdapterError
      else if \<not> plain_name origin [CHR ''@'', CHR ''?'', CHR ''#'', CHR 0x5C] \<or> \<not> web_ok origin then Err OriginError
      else Ok \<lparr>route_adapter = adapter, route_origin = origin\<rparr>)"

definition route_key :: "offer_route \<Rightarrow> string" where
  "route_key r = route_adapter r @ ''@'' @ route_origin r"

fun locality_text :: "model_locality \<Rightarrow> string" where
  "locality_text OnDevice = ''on_device''"
| "locality_text OwnServer = ''own_server''"
| "locality_text ThirdParty = ''third_party''"

definition offer_place :: "model_locality \<Rightarrow> string \<Rightarrow> string" where
  "offer_place locality origin =
     (if locality = OnDevice \<or> origin = [] then locality_text locality
      else
        let rest = (case split_at_text ''://'' origin of None \<Rightarrow> origin | Some (_, r) \<Rightarrow> r);
            end' = (case position (\<lambda>c. c = CHR ''/'' \<or> c = CHR ''?'' \<or> c = CHR ''#'') rest of None \<Rightarrow> length rest | Some i \<Rightarrow> i);
            authority = take end' rest;
            host = (case rsplit_once CHR ''@'' authority of None \<Rightarrow> authority | Some (_, h) \<Rightarrow> h)
        in if host = [] then locality_text locality else host)"

text \<open>A cut at or before a place that does not split a character.\<close>

fun char_boundary :: "string \<Rightarrow> nat \<Rightarrow> nat" where
  "char_boundary s 0 = 0"
| "char_boundary s (Suc n) =
     (if Suc n \<ge> length s then Suc n
      else let b = of_char (s ! Suc n) :: nat in if 0x80 \<le> b \<and> b < 0xC0 then char_boundary s n else Suc n)"

definition offer_id :: "(string \<Rightarrow> string) \<Rightarrow> model_id \<Rightarrow> string \<Rightarrow> string" where
  "offer_id hash_hex model place =
     (let full = model_text model @ ''@'' @ place
      in if length full \<le> 128 then full
         else take (char_boundary full (min 119 (length full))) full @ ''-'' @ take 8 (hash_hex full))"

section \<open>Prices\<close>

record unit_rate =
  rate_unit :: lease_unit
  rate_per :: nat
  rate_cost :: nat

datatype unpriced = NoRate | TooLarge

definition u128_max :: nat where "u128_max = 2 ^ 128 - 1"

definition div_ceil :: "nat \<Rightarrow> nat \<Rightarrow> nat" where
  "div_ceil a b = a div b + (if a mod b > 0 then 1 else 0)"

definition convert_units :: "nat \<Rightarrow> lease_unit \<Rightarrow> lease_unit \<Rightarrow> unit_rate list \<Rightarrow> (unpriced, nat) result" where
  "convert_units units native target rates =
     (let converted =
        (if native = target then Ok units
         else case find (\<lambda>r. rate_unit r = target \<and> rate_per r > 0) rates of
                None \<Rightarrow> Err NoRate
              | Some r \<Rightarrow>
                  if units * rate_cost r > u128_max then Err TooLarge else Ok (div_ceil (units * rate_cost r) (rate_per r)))
      in case converted of
           Inl e \<Rightarrow> Err e
         | Inr n \<Rightarrow> if n > usize_max then Err TooLarge else Ok n)"

section \<open>Offers and connectors\<close>

record offer_binding =
  bound_offer :: string
  bound_model :: model_id
  bound_route :: offer_route
  bound_locality :: model_locality
  bound_payer :: payer
  credential_binding :: "string option"
  catalog_revision :: "string option"
  custody :: key_custody
  rates :: "unit_rate list"
  bound_person :: "payer_person option"

record paid_connector =
  connector :: string
  connector_route :: offer_route
  connector_locality :: model_locality
  connector_payer :: payer
  connector_credential :: "string option"
  connector_revision :: "string option"
  connector_custody :: key_custody
  unit_cost :: nat
  cost_unit :: lease_unit
  connector_rates :: "unit_rate list"

text \<open>The identity of a binding is a digest of all its fields.\<close>

datatype bound_service = OfferService offer_binding | ConnectorService paid_connector

definition offer_dispatch :: "(bound_service \<Rightarrow> string) \<Rightarrow> offer_binding \<Rightarrow> dispatch_binding" where
  "offer_dispatch identity o1 =
     \<lparr>subject = model_text (bound_model o1), bind_route = route_key (bound_route o1), bind_locality = bound_locality o1,
      offer = identity (OfferService o1), request_digest = None\<rparr>"

definition connector_dispatch :: "(bound_service \<Rightarrow> string) \<Rightarrow> paid_connector \<Rightarrow> dispatch_binding" where
  "connector_dispatch identity c =
     \<lparr>subject = connector c, bind_route = route_key (connector_route c), bind_locality = connector_locality c,
      offer = identity (ConnectorService c), request_digest = None\<rparr>"

section \<open>The account\<close>

record allocation_ref =
  alloc_id :: string
  generation :: nat

record issued_allocation =
  alloc_ref :: allocation_ref
  alloc_units :: nat
  alloc_unit :: lease_unit

datatype allocation_refusal = HostCheckHold

record live_allocation =
  live_ref :: allocation_ref
  live_unit :: lease_unit
  live_meter :: nat

record account_status =
  status_allocation :: "allocation_ref option"
  status_refused :: "allocation_refusal option"

datatype grant_error = StaleGeneration

text \<open>The in-flight tally is the residents' part of the account, when it keeps them.\<close>

record host_account =
  live :: "live_allocation option"
  newest_generation :: "nat option"
  fresh_refused :: "allocation_refusal option"
  keeps_residents :: bool
  in_flight :: "entity_id \<times> allocation_ref \<Rightarrow> nat option"

definition new_account :: host_account where
  "new_account = \<lparr>live = None, newest_generation = None, fresh_refused = None, keeps_residents = False, in_flight = Map.empty\<rparr>"

definition account_with_residents :: host_account where
  "account_with_residents = new_account\<lparr>keeps_residents := True\<rparr>"

definition allocation_meter_name :: "allocation_ref \<Rightarrow> string" where
  "allocation_meter_name r = ''allocation:'' @ alloc_id r @ '':'' @ decimal (generation r)"

text \<open>A grant builds a meter, under a fresh handle the caller supplies.\<close>

definition grant_allocation :: "nat \<Rightarrow> issued_allocation \<Rightarrow> (nat \<Rightarrow> meter) \<Rightarrow> host_account \<Rightarrow> (grant_error, unit) result \<times> (nat \<Rightarrow> meter) \<times> host_account" where
  "grant_allocation fresh a meters acct =
     (if (case newest_generation acct of None \<Rightarrow> False | Some newest \<Rightarrow> generation (alloc_ref a) \<le> newest)
      then (Err StaleGeneration, meters, acct)
      else (Ok (),
            meters(fresh := with_reserve_units fresh (allocation_meter_name (alloc_ref a)) (alloc_units a) 1 Suspend),
            acct\<lparr>newest_generation := Some (generation (alloc_ref a)),
                 live := Some \<lparr>live_ref = alloc_ref a, live_unit = alloc_unit a, live_meter = fresh\<rparr>\<rparr>))"

definition refuse_fresh :: "allocation_refusal \<Rightarrow> host_account \<Rightarrow> host_account" where
  "refuse_fresh reason acct = acct\<lparr>fresh_refused := Some reason\<rparr>"

definition lift_refusal :: "host_account \<Rightarrow> host_account" where
  "lift_refusal acct = acct\<lparr>fresh_refused := None\<rparr>"

definition status_of :: "host_account \<Rightarrow> account_status" where
  "status_of acct = \<lparr>status_allocation = map_option live_ref (live acct), status_refused = fresh_refused acct\<rparr>"

end
