(* ===== verification/RunShares.thy ===== *)
theory RunShares
  imports RunHost
begin

text \<open>
  Each resident's share of the host-paid allocation (\<open>llm/run_admission/resident.rs\<close>) and the vault's ledger
  of it (\<open>llm/budget/resident.rs\<close>, \<open>store/resident_budget_rows.rs\<close>): the draw a call makes when it is
  admitted, its settlement, and what the ledger's rows say of a resident on an allocation.

  The residents use the ledger through an interface; its laws are a locale, the bound on a pinned share is
  proved from them, and the vault's ledger is shown to keep them.
\<close>

section \<open>Draws\<close>

record resident_standing =
  share :: nat
  is_pinned :: bool
  standing_used :: nat

record resident_draw =
  draw_resident :: entity_id
  draw_allocation :: allocation_ref
  draw_share :: nat
  draw_used :: nat
  draw_reserved :: nat
  draw_overdraft :: nat

type_synonym flights = "entity_id \<times> allocation_ref \<Rightarrow> nat option"

definition held_in_flight :: "flights \<Rightarrow> entity_id \<Rightarrow> allocation_ref \<Rightarrow> nat" where
  "held_in_flight fl r a = (case fl (r, a) of None \<Rightarrow> 0 | Some h \<Rightarrow> h)"

text \<open>The standing is read from the ledger before the tally is locked, so it is an argument.\<close>

definition draw_units :: "resident_standing \<Rightarrow> entity_id \<Rightarrow> allocation_ref \<Rightarrow> nat \<Rightarrow> flights \<Rightarrow> (entity_id, resident_draw) result \<times> flights" where
  "draw_units s r a units fl =
     (let held = held_in_flight fl r a;
          committed = sat_add (standing_used s) held;
          after = sat_add committed units;
          overdraft = after - max (share s) committed
      in if is_pinned s \<and> overdraft > 0 then (Err r, fl)
         else (Ok \<lparr>draw_resident = r, draw_allocation = a, draw_share = share s, draw_used = committed,
                   draw_reserved = units, draw_overdraft = overdraft\<rparr>,
               fl((r, a) \<mapsto> sat_add held units)))"

definition land_draw :: "resident_draw \<Rightarrow> flights \<Rightarrow> flights" where
  "land_draw d fl =
     (let key = (draw_resident d, draw_allocation d);
          left = held_in_flight fl (draw_resident d) (draw_allocation d) - draw_reserved d
      in if left = 0 then fl(key := None) else fl(key \<mapsto> left))"

definition settled_overdraft :: "resident_draw \<Rightarrow> nat \<Rightarrow> nat" where
  "settled_overdraft d units = units - (draw_share d - draw_used d)"

text \<open>The ledger is charged after the tally is unlocked.\<close>

definition settle_draw :: "('l \<Rightarrow> entity_id \<Rightarrow> allocation_ref \<Rightarrow> nat \<Rightarrow> nat \<Rightarrow> 'l) \<Rightarrow> resident_draw \<Rightarrow> nat \<Rightarrow> flights \<times> 'l \<Rightarrow> flights \<times> 'l" where
  "settle_draw charge d units st =
     (land_draw d (fst st),
      if units = 0 then snd st
      else charge (snd st) (draw_resident d) (draw_allocation d) units (settled_overdraft d units))"

section \<open>The vault's ledger\<close>

record resident_share =
  share_units :: "nat option"
  share_pinned :: bool

record resident_row =
  row_share :: resident_share
  row_allocation :: "allocation_ref option"
  row_used :: nat
  row_overdraft :: nat
  row_overdrafts :: nat

definition default_row :: resident_row where
  "default_row = \<lparr>row_share = \<lparr>share_units = None, share_pinned = False\<rparr>, row_allocation = None, row_used = 0,
                  row_overdraft = 0, row_overdrafts = 0\<rparr>"

text \<open>The rows, and whether the storage under them answers: rows that cannot be read stand as none.\<close>

record vault_ledger =
  ledger_rows :: "(entity_id \<times> resident_row) list"
  readable :: bool
  writable :: bool

definition used_on :: "resident_row \<Rightarrow> allocation_ref \<Rightarrow> nat" where
  "used_on rw a = (if row_allocation rw = Some a then row_used rw else 0)"

definition rows_of :: "vault_ledger \<Rightarrow> (entity_id \<times> resident_row) list" where
  "rows_of l = (if readable l then ledger_rows l else [])"

definition own_row :: "(entity_id \<times> resident_row) list \<Rightarrow> entity_id \<Rightarrow> resident_row" where
  "own_row rows r = (case map_of rows r of None \<Rightarrow> default_row | Some rw \<Rightarrow> rw)"

definition set_shares :: "(entity_id \<times> resident_row) list \<Rightarrow> nat" where
  "set_shares rows = fold (\<lambda>(_, rw) acc. case share_units (row_share rw) of None \<Rightarrow> acc | Some u \<Rightarrow> sat_add acc u) rows 0"

definition unset_others :: "(entity_id \<times> resident_row) list \<Rightarrow> entity_id \<Rightarrow> allocation_ref \<Rightarrow> nat" where
  "unset_others rows r a =
     length (filter (\<lambda>(id, rw). id \<noteq> r \<and> share_units (row_share rw) = None \<and> row_allocation rw = Some a) rows)"

definition vault_standing :: "vault_ledger \<Rightarrow> entity_id \<Rightarrow> allocation_ref \<Rightarrow> nat \<Rightarrow> resident_standing" where
  "vault_standing l r a allocation_units =
     (let rows = rows_of l; own = own_row rows r
      in \<lparr>share = (case share_units (row_share own) of
                     Some u \<Rightarrow> u
                   | None \<Rightarrow> (allocation_units - set_shares rows) div sat_add (unset_others rows r a) 1),
          is_pinned = share_pinned (row_share own), standing_used = used_on own a\<rparr>)"

definition charged_row :: "allocation_ref \<Rightarrow> nat \<Rightarrow> nat \<Rightarrow> resident_row \<Rightarrow> resident_row" where
  "charged_row a units overdraft rw =
     (let row1 = (if row_allocation rw \<noteq> Some a
                  then rw\<lparr>row_allocation := Some a, row_used := 0, row_overdraft := 0, row_overdrafts := 0\<rparr> else rw);
          row2 = row1\<lparr>row_used := sat_add (row_used row1) units, row_overdraft := sat_add (row_overdraft row1) overdraft\<rparr>
      in if overdraft > 0 then row2\<lparr>row_overdrafts := sat_add (row_overdrafts row2) 1\<rparr> else row2)"

definition vault_charge :: "vault_ledger \<Rightarrow> entity_id \<Rightarrow> allocation_ref \<Rightarrow> nat \<Rightarrow> nat \<Rightarrow> vault_ledger" where
  "vault_charge l r a units overdraft =
     (if writable l
      then l\<lparr>ledger_rows := AList.update r (charged_row a units overdraft (own_row (ledger_rows l) r)) (ledger_rows l)\<rparr>
      else l)"

definition set_resident_share :: "vault_ledger \<Rightarrow> entity_id \<Rightarrow> resident_share \<Rightarrow> vault_ledger" where
  "set_resident_share l r s =
     l\<lparr>ledger_rows := AList.update r ((own_row (ledger_rows l) r)\<lparr>row_share := s\<rparr>) (ledger_rows l)\<rparr>"

record resident_share_read =
  read_resident :: entity_id
  read_share :: resident_share
  read_allocation :: "allocation_ref option"
  read_share_used :: nat
  read_overdraft :: nat
  read_overdrafts :: nat

definition resident_shares :: "vault_ledger \<Rightarrow> resident_share_read list" where
  "resident_shares l =
     map (\<lambda>(r, rw). \<lparr>read_resident = r, read_share = row_share rw, read_allocation = row_allocation rw,
                      read_share_used = row_used rw, read_overdraft = row_overdraft rw, read_overdrafts = row_overdrafts rw\<rparr>)
       (ledger_rows l)"

section \<open>The ledger a resident relies on\<close>

text \<open>
  The laws: a charge adds to what its resident used of that allocation, and to nobody else's; it moves no pin,
  and no share that was set.
\<close>

locale share_ledger =
  fixes standing :: "'l \<Rightarrow> entity_id \<Rightarrow> allocation_ref \<Rightarrow> nat \<Rightarrow> resident_standing"
    and charge :: "'l \<Rightarrow> entity_id \<Rightarrow> allocation_ref \<Rightarrow> nat \<Rightarrow> nat \<Rightarrow> 'l"
    and sound :: "'l \<Rightarrow> bool"
    and share_set :: "'l \<Rightarrow> entity_id \<Rightarrow> bool"
  assumes charged_self: "sound l \<Longrightarrow> standing_used (standing (charge l r a u ov) r a n) = sat_add (standing_used (standing l r a n)) u"
    and charged_other: "sound l \<Longrightarrow> r \<noteq> r' \<Longrightarrow> standing_used (standing (charge l r' a u ov) r a n) = standing_used (standing l r a n)"
    and charged_pin: "sound l \<Longrightarrow> is_pinned (standing (charge l r' a u ov) r a n) = is_pinned (standing l r a n)"
    and charged_share: "sound l \<Longrightarrow> share_set l r \<Longrightarrow>
      share (standing (charge l r' a u ov) r a n) = share (standing l r a n) \<and> share_set (charge l r' a u ov) r"
    and charged_sound: "sound l \<Longrightarrow> sound (charge l r' a u ov)"

text \<open>Calls that draw on one allocation and settle, each step with the standing read at once.\<close>

datatype share_call = SDraw entity_id nat | SSettle nat nat

record 'l share_state =
  shares_ledger :: 'l
  shares_flights :: flights
  open_draws :: "resident_draw list"

fun share_step :: "('l \<Rightarrow> entity_id \<Rightarrow> allocation_ref \<Rightarrow> nat \<Rightarrow> resident_standing) \<Rightarrow>
    ('l \<Rightarrow> entity_id \<Rightarrow> allocation_ref \<Rightarrow> nat \<Rightarrow> nat \<Rightarrow> 'l) \<Rightarrow> allocation_ref \<Rightarrow> nat \<Rightarrow> share_call \<Rightarrow> 'l share_state \<Rightarrow> 'l share_state" where
  "share_step standing charge a n (SDraw r units) st =
     (case draw_units (standing (shares_ledger st) r a n) r a units (shares_flights st) of
        (Inl _, _) \<Rightarrow> st
      | (Inr d, fl) \<Rightarrow> st\<lparr>shares_flights := fl, open_draws := d # open_draws st\<rparr>)"
| "share_step standing charge a n (SSettle i units) st =
     (if i < length (open_draws st)
      then let d = open_draws st ! i; (fl, l) = settle_draw charge d units (shares_flights st, shares_ledger st)
           in st\<lparr>shares_flights := fl, shares_ledger := l, open_draws := take i (open_draws st) @ drop (Suc i) (open_draws st)\<rparr>
      else st)"

fun frugal_run :: "('l \<Rightarrow> entity_id \<Rightarrow> allocation_ref \<Rightarrow> nat \<Rightarrow> resident_standing) \<Rightarrow>
    ('l \<Rightarrow> entity_id \<Rightarrow> allocation_ref \<Rightarrow> nat \<Rightarrow> nat \<Rightarrow> 'l) \<Rightarrow> allocation_ref \<Rightarrow> nat \<Rightarrow> share_call list \<Rightarrow> 'l share_state \<Rightarrow> bool" where
  "frugal_run standing charge a n [] st = True"
| "frugal_run standing charge a n (c # cs) st =
     ((case c of
         SDraw r units \<Rightarrow> True
       | SSettle i units \<Rightarrow> i < length (open_draws st) \<and> units \<le> draw_reserved (open_draws st ! i)) \<and>
      frugal_run standing charge a n cs (share_step standing charge a n c st))"

definition drawn_by :: "entity_id \<Rightarrow> resident_draw list \<Rightarrow> nat" where
  "drawn_by r ds = sum_list (map draw_reserved (filter (\<lambda>d. draw_resident d = r) ds))"


lemma drawn_by_remove:
  assumes "i < length ds"
  shows "drawn_by r ds = (if draw_resident (ds ! i) = r then draw_reserved (ds ! i) else 0) + drawn_by r (take i ds @ drop (Suc i) ds)"
proof -
  have "drawn_by r ds = drawn_by r (take i ds @ ds ! i # drop (Suc i) ds)" using id_take_nth_drop [OF assms] by simp
  also have "\<dots> = (if draw_resident (ds ! i) = r then draw_reserved (ds ! i) else 0) + drawn_by r (take i ds @ drop (Suc i) ds)"
    by (simp add: drawn_by_def)
  finally show ?thesis .
qed

text \<open>A pinned share with what is used of it, and what its open draws hold, inside it.\<close>

definition share_kept :: "('l \<Rightarrow> entity_id \<Rightarrow> allocation_ref \<Rightarrow> nat \<Rightarrow> resident_standing) \<Rightarrow> allocation_ref \<Rightarrow> nat \<Rightarrow> entity_id \<Rightarrow> nat \<Rightarrow> 'l share_state \<Rightarrow> bool" where
  "share_kept standing a n r s st \<longleftrightarrow>
     is_pinned (standing (shares_ledger st) r a n) \<and> share (standing (shares_ledger st) r a n) = s \<and>
     held_in_flight (shares_flights st) r a = drawn_by r (open_draws st) \<and>
     standing_used (standing (shares_ledger st) r a n) + drawn_by r (open_draws st) \<le> s \<and>
     list_all (\<lambda>d. draw_allocation d = a) (open_draws st)"

lemma held_put [simp]:
  "held_in_flight (fl((r', a') \<mapsto> h)) r a = (if r' = r \<and> a' = a then h else held_in_flight fl r a)"
  "held_in_flight (fl((r', a') := None)) r a = (if r' = r \<and> a' = a then 0 else held_in_flight fl r a)"
  by (auto simp: held_in_flight_def)

lemma held_landed:
  "held_in_flight (land_draw d fl) r a =
     held_in_flight fl r a - (if draw_resident d = r \<and> draw_allocation d = a then draw_reserved d else 0)"
  by (auto simp: land_draw_def Let_def)

context share_ledger begin

lemma kept_draw:
  assumes k: "share_kept standing a n r s st" and s: "s < usize_max"
  shows "share_kept standing a n r s (share_step standing charge a n (SDraw r' units) st)"
proof (cases "draw_units (standing (shares_ledger st) r' a n) r' a units (shares_flights st)")
  case (Pair res fl)
  show ?thesis
  proof (cases res)
    case (Inl e)
    then show ?thesis using k Pair by simp
  next
    case (Inr d)
    then have d: "draw_resident d = r'" "draw_reserved d = units" "draw_allocation d = a"
      "fl = (shares_flights st)((r', a) \<mapsto> sat_add (held_in_flight (shares_flights st) r' a) units)"
      using Pair by (auto simp: draw_units_def Let_def split: if_splits)
    show ?thesis
    proof (cases "r' = r")
      case False
      then show ?thesis using k Pair Inr d by (simp add: share_kept_def drawn_by_def)
    next
      case True
      let ?u = "standing_used (standing (shares_ledger st) r a n)" and ?h = "drawn_by r (open_draws st)"
      have fit: "sat_add ?u ?h = ?u + ?h" using k s by (simp add: share_kept_def)
      have "sat_add (?u + ?h) units - max s (?u + ?h) = 0"
        using Pair Inr True k fit by (auto simp: draw_units_def Let_def share_kept_def split: if_splits)
      then have "?u + ?h + units \<le> s" using k s by (auto simp: share_kept_def sat_add_def)
      then show ?thesis using k Pair Inr d True s by (simp add: share_kept_def drawn_by_def)
    qed
  qed
qed

lemma kept_settle:
  assumes k: "share_kept standing a n r s st" and s: "s < usize_max" and l: "sound (shares_ledger st)" "share_set (shares_ledger st) r"
    and i: "i < length (open_draws st)" "units \<le> draw_reserved (open_draws st ! i)"
  shows "share_kept standing a n r s (share_step standing charge a n (SSettle i units) st)"
proof -
  let ?d = "open_draws st ! i"
  have a: "draw_allocation ?d = a" using k i(1) by (simp add: share_kept_def list_all_length)
  let ?l = "if units = 0 then shares_ledger st else charge (shares_ledger st) (draw_resident ?d) a units (settled_overdraft ?d units)"
  have st: "share_step standing charge a n (SSettle i units) st = st\<lparr>shares_flights := land_draw ?d (shares_flights st),
      shares_ledger := ?l, open_draws := take i (open_draws st) @ drop (Suc i) (open_draws st)\<rparr>"
    using i(1) a by (simp add: settle_draw_def Let_def)
  have used: "standing_used (standing ?l r a n) \<le> standing_used (standing (shares_ledger st) r a n) + (if draw_resident ?d = r then units else 0)"
    using charged_self [OF l(1), of r a units] charged_other [OF l(1), of r "draw_resident ?d" a units] by (auto simp: sat_add_def)
  have keep: "is_pinned (standing ?l r a n) = is_pinned (standing (shares_ledger st) r a n)"
    "share (standing ?l r a n) = share (standing (shares_ledger st) r a n)"
    using charged_pin [OF l(1)] charged_share [OF l] by simp_all
  have "list_all (\<lambda>d. draw_allocation d = a) (take i (open_draws st) @ drop (Suc i) (open_draws st))"
    using k by (auto simp: share_kept_def list_all_iff dest: in_set_takeD in_set_dropD)
  moreover have "held_in_flight (land_draw ?d (shares_flights st)) r a = drawn_by r (take i (open_draws st) @ drop (Suc i) (open_draws st))"
    using k a drawn_by_remove [OF i(1), of r] by (auto simp: share_kept_def held_landed)
  moreover have "standing_used (standing ?l r a n) + drawn_by r (take i (open_draws st) @ drop (Suc i) (open_draws st)) \<le> s"
    using k used i(2) drawn_by_remove [OF i(1), of r] by (auto simp: share_kept_def split: if_splits)
  ultimately show ?thesis unfolding st using k keep by (simp add: share_kept_def)
qed

lemma run_keeps_share:
  "share_kept standing a n r s st \<Longrightarrow> s < usize_max \<Longrightarrow> sound (shares_ledger st) \<Longrightarrow> share_set (shares_ledger st) r \<Longrightarrow>
   frugal_run standing charge a n cs st \<Longrightarrow> share_kept standing a n r s (fold (share_step standing charge a n) cs st)"
proof (induction cs arbitrary: st)
  case (Cons c cs)
  let ?st = "share_step standing charge a n c st"
  have "share_kept standing a n r s ?st"
    using Cons.prems kept_draw kept_settle by (cases c) (simp_all del: share_step.simps)
  moreover have "sound (shares_ledger ?st)" "share_set (shares_ledger ?st) r"
    using Cons.prems(3,4) charged_sound charged_share
    by (cases c; auto simp: settle_draw_def Let_def split: prod.split sum.split)+
  ultimately show ?case using Cons.IH [of ?st] Cons.prems by simp
qed simp

end


section \<open>The vault's ledger keeps the laws\<close>

definition answers :: "vault_ledger \<Rightarrow> bool" where
  "answers l \<longleftrightarrow> readable l \<and> writable l"

definition share_given :: "vault_ledger \<Rightarrow> entity_id \<Rightarrow> bool" where
  "share_given l r \<longleftrightarrow> share_units (row_share (own_row (ledger_rows l) r)) \<noteq> None"

lemma own_row_update: "own_row (AList.update r' rw rows) r = (if r' = r then rw else own_row rows r)"
  by (simp add: own_row_def update_conv')

lemma charged_row_fields [simp]:
  "row_share (charged_row a u ov rw) = row_share rw" "used_on (charged_row a u ov rw) a = sat_add (used_on rw a) u"
  "a \<noteq> b \<Longrightarrow> used_on (charged_row a u ov rw) b = 0"
  by (auto simp: charged_row_def used_on_def Let_def)

interpretation vl: share_ledger vault_standing vault_charge answers share_given
  by unfold_locales
    (auto simp: vault_standing_def vault_charge_def answers_def share_given_def rows_of_def Let_def own_row_update)


definition resident_a :: entity_id where "resident_a = replicate 16 1"
definition resident_b :: entity_id where "resident_b = replicate 16 2"

definition first_allocation :: allocation_ref where "first_allocation = \<lparr>alloc_id = ''a'', generation = 1\<rparr>"
definition next_allocation :: allocation_ref where "next_allocation = \<lparr>alloc_id = ''a'', generation = 2\<rparr>"

definition pinned_ledger :: "allocation_ref \<Rightarrow> nat \<Rightarrow> vault_ledger" where
  "pinned_ledger a used = \<lparr>ledger_rows = [(resident_a, \<lparr>row_share = \<lparr>share_units = Some 100, share_pinned = True\<rparr>, row_allocation = Some a,
      row_used = used, row_overdraft = 0, row_overdrafts = 0\<rparr>)], readable = True, writable = True\<rparr>"

definition pinned_calls :: "share_call list" where
  "pinned_calls = [SDraw resident_a 60, SDraw resident_b 500, SDraw resident_a 50, SSettle 1 40]"

lemma residents_differ: "resident_a \<noteq> resident_b" "resident_b \<noteq> resident_a"
  by (simp_all add: resident_a_def resident_b_def)

lemmas share_computes = pinned_calls_def pinned_ledger_def draw_units_def vault_standing_def rows_of_def own_row_def default_row_def
  residents_differ held_in_flight_def used_on_def Let_def set_shares_def unset_others_def


section \<open>Where the ledger forgets\<close>

text \<open>
  The bound is on one allocation.  A lease on an allocation that a newer one replaced still settles on the old one
  (\<open>HostAccount::grant\<close>), and the row has room for one allocation only.
\<close>

text \<open>C26: a late settlement frees a pinned share.  Once a call of a replaced allocation settles, its resident's
  depletion on the live allocation reads as zero, whatever it was: a call that fits the whole share is
  admitted again though the pinned share was spent.\<close>

theorem late_settlement_frees_a_pinned_share:
  assumes "readable l" "writable l" "old \<noteq> new" "share_units (row_share (own_row (ledger_rows l) r)) = Some s"
    and "units \<le> s" "s < usize_max" "held_in_flight fl r new = 0" "0 < charged"
  shows "\<exists>d. fst (draw_units (vault_standing (snd (settle_draw vault_charge \<lparr>draw_resident = r, draw_allocation = old, draw_share = s,
      draw_used = u, draw_reserved = charged, draw_overdraft = ov\<rparr> charged (fl0, l))) r new n) r new units fl) = Ok d \<and> draw_used d = 0"
  using assms
  by (auto simp: settle_draw_def vault_standing_def vault_charge_def rows_of_def own_row_update draw_units_def Let_def)

lemma late_settlement_frees_a_pinned_share_witness:
  "used_on (own_row (rows_of (pinned_ledger next_allocation 100)) resident_a) next_allocation = 100 \<and>
   (\<exists>d. fst (draw_units (vault_standing (snd (settle_draw vault_charge \<lparr>draw_resident = resident_a, draw_allocation = first_allocation,
      draw_share = 100, draw_used = 0, draw_reserved = 5, draw_overdraft = 0\<rparr> 5 (Map.empty, pinned_ledger next_allocation 100)))
      resident_a next_allocation 1000) resident_a next_allocation 100 Map.empty) = Ok d \<and> draw_used d = 0)"
  using late_settlement_frees_a_pinned_share [of "pinned_ledger next_allocation 100" first_allocation next_allocation resident_a 100 100
      Map.empty 5 0 0 Map.empty 1000]
  by (simp add: share_computes usize_max_def first_allocation_def next_allocation_def)

text \<open>The same share read before a settlement that lands before the tally is locked: neither side counts the call.\<close>

lemma stale_standing_frees_a_pinned_share:
  assumes "units \<le> share s" "standing_used s = 0" "share s < usize_max"
    and "held_in_flight fl r a = draw_reserved d" "draw_resident d = r" "draw_allocation d = a"
  shows "\<exists>d'. fst (draw_units s r a units (fst (settle_draw charge d charged (fl, l)))) = Ok d' \<and> draw_used d' = 0"
  using assms by (auto simp: draw_units_def settle_draw_def held_landed Let_def)

end
