(* ===== verification/RunAdmission.thy ===== *)
theory RunAdmission
  imports RunShares
begin

text \<open>
  One run's admission (\<open>crates/oneiron/src/llm/run_admission\<close>): every paid call of a run is admitted against
  the run's declaration, its budget line and, when the host pays, the vault's allocation and the resident's
  share of it; it starts once, at the gate of the run that admitted it; and it settles on what it was admitted on.

  A run's state is held beside the meters it and its host share, the host's account and the residents' ledger.
  The code locks each in turn; a function here is one call with no other thread between its locks.  The digests
  and what a backend says of its own request are arguments; the time and the instance of a receipt are not kept.
\<close>

section \<open>Refusals\<close>

datatype run_denied =
  UndeclaredTeacher model_id | UnknownSelector nat | OtherModelOffered | NoOffer model_id | LocalityMismatch
| RouteOverride string | BackendRefused | KeyAtT1 | UndeclaredConnector string | UnitMismatch lease_unit lease_unit
| BudgetRefused budget_denied | NoAllocation | AllocationExhausted | AllocationRefused allocation_refusal
| ResidentShareSpent entity_id | DispatchDenied dispatch_refused | DeclarationEditRefused | KeptOnDevice string
| WorldRouteNotAdmitted

datatype model_error = BudgetError budget_denied | KeptOnDeviceError string | WorldRouteError

fun denied_error :: "run_denied \<Rightarrow> model_error" where
  "denied_error (BudgetRefused d) = BudgetError d"
| "denied_error NoAllocation = BudgetError Exhausted"
| "denied_error AllocationExhausted = BudgetError Exhausted"
| "denied_error (ResidentShareSpent r) = BudgetError Exhausted"
| "denied_error (AllocationRefused HostCheckHold) = BudgetError HostCheck"
| "denied_error (DispatchDenied r) = BudgetError LeaseInvalid"
| "denied_error (KeptOnDevice reason) = KeptOnDeviceError reason"
| "denied_error WorldRouteNotAdmitted = WorldRouteError"
| "denied_error (UndeclaredTeacher m) = BudgetError AdmissionDenied"
| "denied_error (UnknownSelector n) = BudgetError AdmissionDenied"
| "denied_error OtherModelOffered = BudgetError AdmissionDenied"
| "denied_error (NoOffer m) = BudgetError AdmissionDenied"
| "denied_error LocalityMismatch = BudgetError AdmissionDenied"
| "denied_error (RouteOverride k) = BudgetError AdmissionDenied"
| "denied_error BackendRefused = BudgetError AdmissionDenied"
| "denied_error KeyAtT1 = BudgetError AdmissionDenied"
| "denied_error (UndeclaredConnector c) = BudgetError AdmissionDenied"
| "denied_error (UnitMismatch a b) = BudgetError AdmissionDenied"
| "denied_error DeclarationEditRefused = BudgetError AdmissionDenied"

section \<open>Requests\<close>

record tier_precedence =
  per_seat :: "string option"
  named_seat :: "string option"

definition metered_seat :: "tier_precedence \<Rightarrow> string option" where
  "metered_seat t = (case named_seat t of Some s \<Rightarrow> Some s | None \<Rightarrow> per_seat t)"

text \<open>A request, as far as admission reads it: the keys of its parameters, and of each provider's options, in key order.\<close>

record llm_request =
  request_model :: model_id
  envelope :: budget_request
  tier :: tier_precedence
  param_keys :: "string list"
  provider_options :: "(string \<times> string list) list"

definition is_route_selector :: "string \<Rightarrow> bool" where
  "is_route_selector key \<longleftrightarrow> key \<in> set [''model'', ''models'', ''route'', ''provider'']"

definition known_namespaces :: "string list" where
  "known_namespaces = [''openai'', ''anthropic'', ''gemini'']"

fun option_override :: "(string \<times> string list) list \<Rightarrow> string option" where
  "option_override [] = None"
| "option_override ((namespace, keys) # options) =
     (if is_route_selector namespace then Some namespace
      else case find is_route_selector keys of
             Some key \<Rightarrow> Some ((if namespace \<in> set known_namespaces then namespace else ''*'') @ ''.'' @ key)
           | None \<Rightarrow> option_override options)"

definition route_selector_override :: "llm_request \<Rightarrow> string option" where
  "route_selector_override q =
     (case find is_route_selector (param_keys q) of Some key \<Rightarrow> Some key | None \<Rightarrow> option_override (provider_options q))"

record run_attribution =
  bound_agent :: entity_id
  bound_cycle :: entity_id
  bound_item :: entity_id
  bound_purpose :: call_purpose
  bound_scope :: string

record call_origin =
  origin_sources :: "entity_id list option"
  origin_initiator :: "entity_id option"

section \<open>Permits and receipts\<close>

record permit_facts =
  fact_selector :: "string option"
  fact_subject :: string
  fact_model :: "model_id option"
  fact_offer :: string
  fact_route :: string
  fact_locality :: model_locality
  fact_payer :: payer
  fact_person :: "payer_person option"
  fact_catalog :: "string option"
  fact_lease :: string
  reserved_by_permit :: nat
  permit_unit :: lease_unit
  fact_allocation :: "allocation_ref option"
  fact_allocation_unit :: "lease_unit option"
  fact_allocation_reserved :: "nat option"
  fact_target :: "string option"
  fact_purpose :: "string option"
  fact_call_purpose :: "string option"
  fact_attribution :: "run_attribution option"
  fact_seat :: "string option"
  rules_enforced :: bool
  fact_sources :: "entity_id list option"
  fact_initiator :: "entity_id option"

record allocation_hold =
  hold_meter :: nat
  hold_lease :: budget_lease
  hold_unit :: lease_unit
  hold_resident :: "resident_draw option"

record run_permit =
  facts :: permit_facts
  permit_revision :: nat
  permit_lease :: budget_lease
  permit_metered :: bool
  permit_allocation :: "allocation_hold option"
  native_unit :: lease_unit
  native_cost :: nat
  reserve_native :: nat
  permit_rates :: "unit_rate list"

record call_facts =
  call_revision :: nat
  call_model :: model_id
  call_digest :: "string option"
  call_served :: "string option"
  call_settled :: "nat option"

datatype overage_source = ProviderReported | Counted

record usage_overage =
  reported_units :: nat
  overage_reserved :: nat
  overage_units :: nat
  overage_source :: overage_source

record stream_usage =
  admitted_ms :: nat
  bound_ms :: nat

text \<open>What a backend measured of one physical request: the engine model it names, and the rest of the record.\<close>

record inference_receipt =
  receipt_model :: "string option"
  receipt_rest :: string

datatype inference_observation = PartialCall inference_receipt | FinalCall inference_receipt

record settled_row =
  settled_lease :: string
  settled_dispatched :: bool
  settled_usage :: "(nat \<times> nat) option"
  service_quantity :: "nat option"
  settled_stream :: "stream_usage option"
  inference_calls :: "inference_receipt list"
  settled_overage :: "usage_overage option"
  settled_units :: nat
  settled_unit :: lease_unit
  allocation_charge :: "nat option"
  settled_error :: "budget_denied option"
  allocation_error :: "budget_denied option"

datatype run_event =
  Admitted permit_facts
| Denied "string option" "string option" "string option" run_denied
| Dispatched string string string string "string option" "string option" bool
| Settled settled_row
| Revised declaration_editor nat
| ResidentOverdraft string entity_id allocation_ref nat nat nat
| PlanModelSubstituted entity_id model_id model_id

text \<open>A run, and the meters, the account and the ledger it shares with others.\<close>

record run =
  run_name :: string
  revision :: nat
  terms :: run_declaration
  line_meter :: nat
  run_payer :: "payer_person option"
  attribution :: "run_attribution option"
  memory_work :: bool
  receipts :: "(nat \<times> run_event) list"
  budget_hits :: "(string \<times> nat \<times> budget_denied) list"
  calls :: "(string \<times> call_facts) list"
  paid :: "string set"
  meters :: "nat \<Rightarrow> meter"
  account :: "host_account option"
  shares :: vault_ledger

definition start_run :: "string \<Rightarrow> run_declaration \<Rightarrow> nat \<Rightarrow> payer_person option \<Rightarrow> run_attribution option \<Rightarrow>
    (nat \<Rightarrow> meter) \<Rightarrow> host_account option \<Rightarrow> vault_ledger \<Rightarrow> run" where
  "start_run name d meter payer bound ms acct l =
     \<lparr>run_name = name, revision = 1, terms = d, line_meter = meter, run_payer = payer, attribution = bound,
      memory_work = False, receipts = [], budget_hits = [], calls = [], paid = {}, meters = ms, account = acct, shares = l\<rparr>"

text \<open>A run on a line of its own, under a fresh handle.\<close>

definition new_run :: "nat \<Rightarrow> string \<Rightarrow> run_declaration \<Rightarrow> (nat \<Rightarrow> meter) \<Rightarrow> host_account option \<Rightarrow> vault_ledger \<Rightarrow> run" where
  "new_run fresh name d ms acct l =
     start_run name d fresh None None
       (ms(fresh := with_reserve_units fresh name (line_limit (budget d)) (line_reserve (budget d)) Suspend)) acct l"

definition for_memory_work :: "run \<Rightarrow> run" where
  "for_memory_work s = s\<lparr>memory_work := True\<rparr>"

definition on_meter :: "nat \<Rightarrow> (meter \<Rightarrow> 'a \<times> meter) \<Rightarrow> run \<Rightarrow> 'a \<times> run" where
  "on_meter h f s = (fst (f (meters s h)), s\<lparr>meters := (meters s)(h := snd (f (meters s h)))\<rparr>)"

definition record_event :: "nat \<Rightarrow> run_event \<Rightarrow> run \<Rightarrow> run" where
  "record_event n e s = s\<lparr>receipts := receipts s @ [(n, e)]\<rparr>"

definition budget_hit :: "string \<Rightarrow> nat \<Rightarrow> budget_denied \<Rightarrow> run \<Rightarrow> run" where
  "budget_hit seat meter d s = s\<lparr>budget_hits := budget_hits s @ [(seat, meter, d)]\<rparr>"


section \<open>Admission\<close>

definition free_work :: "payer \<Rightarrow> model_locality \<Rightarrow> key_custody \<Rightarrow> bool" where
  "free_work p l c \<longleftrightarrow> p = LocalPayer \<and> (case l of ThirdParty \<Rightarrow> False | _ \<Rightarrow> c = Keyless)"

definition offer_is_free_work :: "offer_binding \<Rightarrow> bool" where
  "offer_is_free_work o1 = free_work (bound_payer o1) (bound_locality o1) (custody o1)"

definition priced :: "nat \<Rightarrow> lease_unit \<Rightarrow> lease_unit \<Rightarrow> unit_rate list \<Rightarrow> (run_denied, nat) result" where
  "priced units native target rs =
     (case convert_units units native target rs of
        Inl NoRate \<Rightarrow> Err (UnitMismatch native target)
      | Inl TooLarge \<Rightarrow> Err (BudgetRefused Exhausted)
      | Inr n \<Rightarrow> Ok n)"

definition custody_rule :: "run_declaration \<Rightarrow> payer \<Rightarrow> key_custody \<Rightarrow> string \<Rightarrow> (run_denied, bool) result" where
  "custody_rule d p c name =
     (if \<not> is_declared d then Ok True
      else if p = CustomerSeat then Ok False
      else if (p = HostPays \<or> p = CustomerKey \<or> p = CustomerAccount) \<and> c = T1
      then (if overrides_custody d name then Ok False else Err KeyAtT1)
      else Ok True)"

definition purpose_key :: "call_purpose \<Rightarrow> string" where
  "purpose_key p = (case p of OtherPurpose name \<Rightarrow> ''other:'' @ name | _ \<Rightarrow> purpose_manifest_name p)"

text \<open>The resident whose share a call draws on: who started it, else the agent the run serves.\<close>

definition resident_of :: "call_origin \<Rightarrow> run \<Rightarrow> entity_id option" where
  "resident_of og s =
     (case origin_initiator og of Some r \<Rightarrow> Some r | None \<Rightarrow> map_option bound_agent (attribution s))"

definition run_bound :: "run \<Rightarrow> offer_binding \<Rightarrow> offer_binding" where
  "run_bound s o1 = (case run_payer s of Some p \<Rightarrow> o1\<lparr>bound_person := Some p\<rparr> | None \<Rightarrow> o1)"

definition free_lease :: "payer \<Rightarrow> key_custody \<Rightarrow> dispatch_binding \<Rightarrow> run \<Rightarrow> (run_denied, budget_lease option) result \<times> run" where
  "free_lease p c b s =
     (if \<not> free_work p (bind_locality b) c then (Ok None, s)
      else case on_meter (line_meter s) (admit_free_work b (c = Keyless)) s of
             (Inl d, s1) \<Rightarrow> (Err (BudgetRefused d), s1)
           | (Inr adm, s1) \<Rightarrow> (Ok (Some (admitted_lease adm)), s1))"

text \<open>The lease on the run's line: unmetered for free work, else reserved at its price.  A model call has a purpose.\<close>

definition take_line :: "payer \<Rightarrow> key_custody \<Rightarrow> dispatch_binding \<Rightarrow> nat \<Rightarrow> lease_unit \<Rightarrow> lease_unit \<Rightarrow> unit_rate list \<Rightarrow>
    call_purpose option \<Rightarrow> run \<Rightarrow> (run_denied, budget_lease \<times> nat \<times> bool) result \<times> run" where
  "take_line p c b native_units native unit rs purpose s =
     (case free_lease p c b s of
        (Inl e, s1) \<Rightarrow> (Err e, s1)
      | (Inr (Some l), s1) \<Rightarrow> (Ok (l, 0, False), s1)
      | (Inr None, s1) \<Rightarrow>
          (case priced native_units native unit rs of
             Inl e \<Rightarrow> (Err e, s1)
           | Inr reserve \<Rightarrow>
               (case on_meter (line_meter s1)
                       (case purpose of Some q \<Rightarrow> admit_call_bound reserve q b | None \<Rightarrow> admit_reserve_bound reserve b) s1 of
                  (Inl d, s2) \<Rightarrow> (Err (BudgetRefused d), s2)
                | (Inr adm, s2) \<Rightarrow> (Ok (admitted_lease adm, reserve, True), s2))))"

definition hold_allocation :: "payer \<Rightarrow> nat \<Rightarrow> lease_unit \<Rightarrow> unit_rate list \<Rightarrow> entity_id option \<Rightarrow> run \<Rightarrow>
    (run_denied, (allocation_ref \<times> allocation_hold) option) result \<times> run" where
  "hold_allocation p native_units native rs resident s =
     (if p \<noteq> HostPays \<or> memory_work s then (Ok None, s)
      else case account s of
        None \<Rightarrow> (Err NoAllocation, s)
      | Some acct \<Rightarrow>
          (case live acct of
             None \<Rightarrow> (Err (case fresh_refused acct of Some reason \<Rightarrow> AllocationRefused reason | None \<Rightarrow> NoAllocation), s)
           | Some lv \<Rightarrow>
               (case priced native_units native (live_unit lv) rs of
                  Inl e \<Rightarrow> (Err e, s)
                | Inr units \<Rightarrow>
                    (case on_meter (live_meter lv) (admit_reserve units) s of
                       (Inl d, s1) \<Rightarrow>
                         (Err (case d of
                                 Exhausted \<Rightarrow> (case fresh_refused acct of Some reason \<Rightarrow> AllocationRefused reason | None \<Rightarrow> AllocationExhausted)
                               | _ \<Rightarrow> BudgetRefused d),
                          budget_hit (alloc_id (live_ref lv)) (live_meter lv) d s1)
                     | (Inr adm, s1) \<Rightarrow>
                         (let hold = \<lparr>hold_meter = live_meter lv, hold_lease = admitted_lease adm, hold_unit = live_unit lv, hold_resident = None\<rparr>
                          in case (if keeps_residents acct then resident else None) of
                               None \<Rightarrow> (Ok (Some (live_ref lv, hold)), s1)
                             | Some r \<Rightarrow>
                                 (case draw_units (vault_standing (shares s1) r (live_ref lv) (read_limit (read_meter (meters s1 (live_meter lv)))))
                                         r (live_ref lv) units (in_flight acct) of
                                    (Inl who, _) \<Rightarrow>
                                      (Err (ResidentShareSpent who), snd (on_meter (live_meter lv) (abort (admitted_lease adm)) s1))
                                  | (Inr d, fl) \<Rightarrow>
                                      (Ok (Some (live_ref lv, hold\<lparr>hold_resident := Some d\<rparr>)),
                                       s1\<lparr>account := Some (acct\<lparr>in_flight := fl\<rparr>)\<rparr>)))))))"

definition note_overdraft :: "nat \<Rightarrow> string \<Rightarrow> resident_draw \<Rightarrow> run \<Rightarrow> run" where
  "note_overdraft n lease d s =
     (if draw_overdraft d = 0 then s
      else record_event n (ResidentOverdraft lease (draw_resident d) (draw_allocation d) (draw_share d) (draw_used d) (draw_overdraft d)) s)"

text \<open>Line, then allocation; a refused allocation aborts the lease of the line, and an overdraft is noted.\<close>

definition take_leases :: "nat \<Rightarrow> payer \<Rightarrow> key_custody \<Rightarrow> dispatch_binding \<Rightarrow> nat \<Rightarrow> lease_unit \<Rightarrow> lease_unit \<Rightarrow> unit_rate list \<Rightarrow>
    call_purpose option \<Rightarrow> entity_id option \<Rightarrow> run \<Rightarrow>
    (run_denied, (budget_lease \<times> nat \<times> bool) \<times> (allocation_ref \<times> allocation_hold) option) result \<times> run" where
  "take_leases n p c b native_units native unit rs purpose resident s =
     (case take_line p c b native_units native unit rs purpose s of
        (Inl e, s1) \<Rightarrow> (Err e, s1)
      | (Inr taken, s1) \<Rightarrow>
          (case hold_allocation p native_units native rs resident s1 of
             (Inl e, s2) \<Rightarrow> (Err e, snd (on_meter (line_meter s2) (abort (fst taken)) s2))
           | (Inr held, s2) \<Rightarrow>
               (Ok (taken, held),
                case held of
                  Some (_, hold) \<Rightarrow> (case hold_resident hold of Some d \<Rightarrow> note_overdraft n (lease_name (fst taken)) d s2 | None \<Rightarrow> s2)
                | None \<Rightarrow> s2)))"

text \<open>What is checked of a model call before anything is reserved: the declared teachers, the offer, the key's rung.\<close>

definition check_model :: "run_declaration \<Rightarrow> llm_request \<Rightarrow> offer_binding \<Rightarrow> (run_denied, (string \<times> string) option \<times> bool) result" where
  "check_model d q o1 =
     (case (case teachers d of
              None \<Rightarrow> Ok None
            | Some t \<Rightarrow>
                (case pins_admit (pins t) (request_model q) (purpose_of (envelope q)) of
                   Inl (ModelNotPinned m) \<Rightarrow> Err (UndeclaredTeacher m)
                 | Inl (BackgroundTierDisabled _) \<Rightarrow> Err (UndeclaredTeacher (request_model q))
                 | Inr _ \<Rightarrow> Ok (Some (teacher_target t, teacher_purpose t)))) of
        Inl e \<Rightarrow> Err e
      | Inr teacher \<Rightarrow>
          (if bound_model o1 \<noteq> request_model q then Err OtherModelOffered
           else if bound_locality o1 \<noteq> call_locality (envelope q) then Err LocalityMismatch
           else case route_selector_override q of
                  Some key \<Rightarrow> Err (RouteOverride key)
                | None \<Rightarrow>
                    (case custody_rule d (bound_payer o1) (custody o1) (bound_offer o1) of
                       Inl e \<Rightarrow> Err e
                     | Inr enforced \<Rightarrow> Ok (teacher, enforced))))"

definition allocation_facts :: "(allocation_ref \<times> allocation_hold) option \<Rightarrow> run \<Rightarrow> permit_facts \<Rightarrow> permit_facts" where
  "allocation_facts held s f =
     f\<lparr>fact_allocation := map_option fst held, fact_allocation_unit := map_option (hold_unit \<circ> snd) held,
       fact_allocation_reserved := Option.bind held (\<lambda>(_, h). reserved_for (hold_lease h) (meters s (hold_meter h)))\<rparr>"

definition admit_model :: "(bound_service \<Rightarrow> string) \<Rightarrow> run_declaration \<Rightarrow> nat \<Rightarrow> string option \<Rightarrow> llm_request \<Rightarrow> offer_binding \<Rightarrow>
    string option \<Rightarrow> call_origin \<Rightarrow> run \<Rightarrow> (run_denied, run_permit) result \<times> run" where
  "admit_model identity d n selector q o1 digest og s =
     (case check_model d q o1 of
        Inl e \<Rightarrow> (Err e, s)
      | Inr (teacher, enforced) \<Rightarrow>
          (let native = line_reserve (budget d); unit = line_unit (budget d);
               b = (offer_dispatch identity o1)\<lparr>request_digest := digest\<rparr>
           in case take_leases n (bound_payer o1) (custody o1) b native tokens_unit unit (rates o1)
                     (Some (purpose_of (envelope q))) (resident_of og s) s of
                (Inl e, s1) \<Rightarrow> (Err e, s1)
              | (Inr ((lease, reserved, is_metered), held), s1) \<Rightarrow>
                  (Ok \<lparr>facts = allocation_facts held s1
                         \<lparr>fact_selector = selector, fact_subject = model_text (request_model q), fact_model = Some (request_model q),
                          fact_offer = bound_offer o1, fact_route = route_key (bound_route o1), fact_locality = bound_locality o1,
                          fact_payer = bound_payer o1, fact_person = bound_person o1, fact_catalog = catalog_revision o1,
                          fact_lease = lease_name lease, reserved_by_permit = reserved, permit_unit = unit,
                          fact_allocation = None, fact_allocation_unit = None, fact_allocation_reserved = None,
                          fact_target = map_option fst teacher, fact_purpose = map_option snd teacher,
                          fact_call_purpose = Some (purpose_key (purpose_of (envelope q))), fact_attribution = attribution s,
                          fact_seat = metered_seat (tier q), rules_enforced = enforced, fact_sources = origin_sources og,
                          fact_initiator = origin_initiator og\<rparr>,
                       permit_revision = n, permit_lease = lease, permit_metered = is_metered,
                       permit_allocation = map_option snd held, native_unit = tokens_unit, native_cost = 1,
                       reserve_native = native, permit_rates = rates o1\<rparr>, s1)))"

definition admit_connector :: "(bound_service \<Rightarrow> string) \<Rightarrow> run_declaration \<Rightarrow> nat \<Rightarrow> paid_connector \<Rightarrow> nat \<Rightarrow> call_origin \<Rightarrow> run \<Rightarrow>
    (run_denied, run_permit) result \<times> run" where
  "admit_connector identity d n c quantity og s =
     (if \<not> admits_connector d (connector c) then (Err (UndeclaredConnector (connector c)), s)
      else case custody_rule d (connector_payer c) (connector_custody c) (connector c) of
        Inl e \<Rightarrow> (Err e, s)
      | Inr enforced \<Rightarrow>
          (let native = unit_cost c * quantity; unit = line_unit (budget d)
           in case take_leases n (connector_payer c) (connector_custody c) (connector_dispatch identity c) native (cost_unit c) unit
                     (connector_rates c) None (resident_of og s) s of
                (Inl e, s1) \<Rightarrow> (Err e, s1)
              | (Inr ((lease, reserved, is_metered), held), s1) \<Rightarrow>
                  (Ok \<lparr>facts = allocation_facts held s1
                         \<lparr>fact_selector = None, fact_subject = connector c, fact_model = None,
                          fact_offer = connector c, fact_route = route_key (connector_route c), fact_locality = connector_locality c,
                          fact_payer = connector_payer c, fact_person = run_payer s, fact_catalog = connector_revision c,
                          fact_lease = lease_name lease, reserved_by_permit = reserved, permit_unit = unit,
                          fact_allocation = None, fact_allocation_unit = None, fact_allocation_reserved = None,
                          fact_target = None, fact_purpose = None,
                          fact_call_purpose = map_option (purpose_key \<circ> bound_purpose) (attribution s), fact_attribution = attribution s,
                          fact_seat = None, rules_enforced = enforced, fact_sources = origin_sources og,
                          fact_initiator = origin_initiator og\<rparr>,
                       permit_revision = n, permit_lease = lease, permit_metered = is_metered,
                       permit_allocation = map_option snd held, native_unit = cost_unit c, native_cost = unit_cost c,
                       reserve_native = native, permit_rates = connector_rates c\<rparr>, s1)))"


definition receipt_for :: "nat \<Rightarrow> string option \<Rightarrow> string \<Rightarrow> (run_denied, run_permit) result \<Rightarrow> model_id option \<Rightarrow> run \<Rightarrow>
    (run_denied, run_permit) result \<times> run" where
  "receipt_for n selector subj admitted model s =
     (case admitted of
        Inr p \<Rightarrow>
          (Ok p, record_event n (Admitted (facts p))
             (case model of
                Some m \<Rightarrow> s\<lparr>calls := AList.update (lease_name (permit_lease p))
                  \<lparr>call_revision = n, call_model = m, call_digest = None, call_served = None, call_settled = None\<rparr> (calls s)\<rparr>
              | None \<Rightarrow> s\<lparr>paid := insert (lease_name (permit_lease p)) (paid s)\<rparr>))
      | Inl reason \<Rightarrow>
          (Err reason,
           let s1 = record_event n (Denied selector (Some subj) None reason) s
           in case reason of BudgetRefused d \<Rightarrow> budget_hit subj (line_meter s1) d s1 | _ \<Rightarrow> s1))"

definition admit_offer :: "(bound_service \<Rightarrow> string) \<Rightarrow> string option \<Rightarrow> llm_request \<Rightarrow> offer_binding \<Rightarrow> string option \<Rightarrow> call_origin \<Rightarrow> run \<Rightarrow>
    (run_denied, run_permit) result \<times> run" where
  "admit_offer identity selector q o1 digest og s =
     (let (res, s1) = admit_model identity (terms s) (revision s) selector q (run_bound s o1) digest og s
      in receipt_for (revision s) selector (model_text (request_model q)) res (Some (request_model q)) s1)"

definition admit_paid :: "(bound_service \<Rightarrow> string) \<Rightarrow> paid_connector \<Rightarrow> nat \<Rightarrow> call_origin \<Rightarrow> run \<Rightarrow> (run_denied, run_permit) result \<times> run" where
  "admit_paid identity c quantity og s =
     (let (res, s1) = admit_connector identity (terms s) (revision s) c quantity og s
      in receipt_for (revision s) None (connector c) res None s1)"

section \<open>Dispatch\<close>

definition revision_for :: "budget_lease option \<Rightarrow> run \<Rightarrow> nat" where
  "revision_for lease s =
     (case Option.bind lease (\<lambda>l. map_of (calls s) (lease_name l)) of Some f \<Rightarrow> call_revision f | None \<Rightarrow> revision s)"

definition refuse :: "string option \<Rightarrow> budget_lease option \<Rightarrow> run_denied \<Rightarrow> run \<Rightarrow> run" where
  "refuse subj lease reason s =
     record_event (revision_for lease s) (Denied None subj (map_option lease_name lease) reason) s"

definition refuse_call :: "string option \<Rightarrow> string \<Rightarrow> run_denied \<Rightarrow> run \<Rightarrow> run" where
  "refuse_call selector subj reason s = record_event (revision s) (Denied selector (Some subj) None reason) s"

definition record_substitution :: "entity_id \<Rightarrow> model_id \<Rightarrow> model_id \<Rightarrow> run \<Rightarrow> run" where
  "record_substitution child planned m s = record_event (revision s) (PlanModelSubstituted child planned m) s"

definition start_dispatch :: "budget_lease \<Rightarrow> dispatch_binding \<Rightarrow> run \<Rightarrow> (run_denied, unit) result \<times> run" where
  "start_dispatch lease c s =
     (let ours = map_of (calls s) (lease_name lease) \<noteq> None \<or> lease_name lease \<in> paid s;
          (started, s1) =
            (if ours then on_meter (line_meter s) (begin_dispatch lease c) s
             else (Err (if lease_open lease (meters s (line_meter s)) = Some False then Closed else ForeignLease), s))
      in case started of
           Inr _ \<Rightarrow> (Ok (), s1)
         | Inl refused \<Rightarrow> (Err (DispatchDenied refused), refuse (Some (subject c)) (Some lease) (DispatchDenied refused) s1))"

definition dispatch_paid :: "(bound_service \<Rightarrow> string) \<Rightarrow> budget_lease \<Rightarrow> paid_connector \<Rightarrow> run \<Rightarrow> (run_denied, unit) result \<times> run" where
  "dispatch_paid identity lease c s = start_dispatch lease (connector_dispatch identity c) s"

text \<open>A started call, as its receipt names it.\<close>

record started_call =
  started_lease :: budget_lease
  started_model :: model_id
  started_digest :: string
  started_isolation :: "string option"

definition dispatched_row :: "started_call \<Rightarrow> string \<Rightarrow> string option \<Rightarrow> bool \<Rightarrow> run \<Rightarrow> run" where
  "dispatched_row d route served answered s =
     (let name = lease_name (started_lease d);
          s1 = (case map_of (calls s) name of
                  Some f \<Rightarrow> s\<lparr>calls := AList.update name (f\<lparr>call_digest := Some (started_digest d), call_served := served\<rparr>) (calls s)\<rparr>
                | None \<Rightarrow> s);
          n = (case map_of (calls s) name of Some f \<Rightarrow> call_revision f | None \<Rightarrow> revision s)
      in record_event n (Dispatched name (model_text (started_model d)) route (started_digest d) served (started_isolation d) answered) s1)"

datatype 'e gate_error = InvalidRequest | BackendError 'e | RunRefused model_error

text \<open>The gate of a run's model backend.  What the backend says of the request's bytes, and the request's own
  digest, are arguments.\<close>

definition gate_open :: "dispatch_binding \<Rightarrow> llm_request \<Rightarrow> budget_lease \<Rightarrow> (string option \<Rightarrow> ('e, string option) result) \<Rightarrow>
    string option \<Rightarrow> run \<Rightarrow> ('e gate_error, string) result \<times> run" where
  "gate_open gate_offer q lease backend canonical s =
     (let model = model_text (request_model q)
      in case route_selector_override q of
           Some key \<Rightarrow> (Err InvalidRequest, refuse (Some model) (Some lease) (RouteOverride key) s)
         | None \<Rightarrow>
             (case backend (admitted_request_digest lease (meters s (line_meter s))) of
                Inl e \<Rightarrow> (Err (BackendError e), refuse (Some model) (Some lease) BackendRefused s)
              | Inr bound \<Rightarrow>
                  (case (case bound of Some d \<Rightarrow> Some d | None \<Rightarrow> canonical) of
                     None \<Rightarrow> (Err InvalidRequest, s)
                   | Some digest \<Rightarrow>
                       (case start_dispatch lease (gate_offer\<lparr>subject := model, request_digest := bound\<rparr>) s of
                          (Inl denied, s1) \<Rightarrow> (Err (RunRefused (denied_error denied)), s1)
                        | (Inr _, s1) \<Rightarrow> (Ok digest, s1)))))"

text \<open>A started call's receipt is written once: the pending call is gone once it is.\<close>

definition finish_pending :: "string \<Rightarrow> string option \<Rightarrow> bool \<Rightarrow> started_call option \<Rightarrow> run \<Rightarrow> started_call option \<times> run" where
  "finish_pending route served answered pending s =
     (None, case pending of Some d \<Rightarrow> dispatched_row d route served answered s | None \<Rightarrow> s)"

definition failed_pending :: "string \<Rightarrow> bool \<Rightarrow> started_call option \<Rightarrow> run \<Rightarrow> started_call option \<times> run" where
  "failed_pending route unsent pending s =
     (case pending of
        Some d \<Rightarrow>
          (if unsent
           then (case on_meter (line_meter s) (mark_unsent (started_lease d)) s of
                   (Inr _, s1) \<Rightarrow> (None, s1)
                 | (Inl _, s1) \<Rightarrow> finish_pending route None False pending s1)
           else finish_pending route None False pending s)
      | None \<Rightarrow> finish_pending route None False pending s)"

text \<open>The gate of a call whose bytes its host sends itself.\<close>

record raw_dispatch =
  raw_call :: dispatch_binding
  raw_lease :: budget_lease
  raw_model :: model_id
  raw_digest :: string
  raw_isolation :: "string option"
  raw_started :: "started_call option"

definition new_raw_dispatch :: "(bound_service \<Rightarrow> string) \<Rightarrow> run_permit \<Rightarrow> offer_binding \<Rightarrow> string \<Rightarrow> string option \<Rightarrow> run \<Rightarrow> raw_dispatch" where
  "new_raw_dispatch identity p o1 digest isolation s =
     \<lparr>raw_call = (offer_dispatch identity (run_bound s o1))\<lparr>request_digest := Some digest\<rparr>, raw_lease = permit_lease p,
      raw_model = bound_model o1, raw_digest = digest, raw_isolation = isolation, raw_started = None\<rparr>"

definition raw_start :: "raw_dispatch \<Rightarrow> run \<Rightarrow> (model_error option, unit) result \<times> raw_dispatch \<times> run" where
  "raw_start r s =
     (if raw_started r \<noteq> None then (Err None, r, s)
      else case start_dispatch (raw_lease r) (raw_call r) s of
             (Inl denied, s1) \<Rightarrow> (Err (Some (denied_error denied)), r, s1)
           | (Inr _, s1) \<Rightarrow>
               (Ok (), r\<lparr>raw_started := Some \<lparr>started_lease = raw_lease r, started_model = raw_model r,
                                              started_digest = raw_digest r, started_isolation = raw_isolation r\<rparr>\<rparr>, s1))"

definition raw_finish :: "string option \<Rightarrow> bool \<Rightarrow> raw_dispatch \<Rightarrow> run \<Rightarrow> raw_dispatch \<times> run" where
  "raw_finish served answered r s =
     (r\<lparr>raw_started := None\<rparr>,
      case raw_started r of Some d \<Rightarrow> dispatched_row d (bind_route (raw_call r)) served answered s | None \<Rightarrow> s)"

section \<open>The declaration\<close>

definition resolve_selector :: "string \<Rightarrow> run \<Rightarrow> (run_denied, model_id) result" where
  "resolve_selector selector s =
     (case Option.bind (teachers (terms s)) (\<lambda>t. teacher_alias t selector) of
        Some m \<Rightarrow> Ok m
      | None \<Rightarrow> (case parse_model_id selector of Inl _ \<Rightarrow> Err (UnknownSelector (length selector)) | Inr m \<Rightarrow> Ok m))"

definition revise :: "declaration_editor \<Rightarrow> run_declaration \<Rightarrow> run \<Rightarrow> (run_denied, nat) result \<times> run" where
  "revise editor d s =
     (let n = revision s;
          refused =
            (if editor = RunEdits then Some DeclarationEditRefused
             else if line_unit (budget d) \<noteq> line_unit (budget (terms s))
             then Some (UnitMismatch (line_unit (budget (terms s))) (line_unit (budget d)))
             else None)
      in case refused of
           Some reason \<Rightarrow> (Err reason, record_event n (Denied None None None reason) s)
         | None \<Rightarrow>
             (let s1 = (if budget d \<noteq> budget (terms s)
                        then s\<lparr>meters := (meters s)(line_meter s := revise_line (line_limit (budget d)) (line_reserve (budget d)) (meters s (line_meter s)))\<rparr>
                        else s);
                  n' = min (n + 1) u32_max
              in (Ok n', record_event n' (Revised editor n) (s1\<lparr>revision := n', terms := d\<rparr>))))"

record called_teacher =
  called_model :: model_id
  called_served :: "string option"
  called_digest :: string
  called_lease :: string
  called_settled :: "nat option"

definition teacher_report :: "run \<Rightarrow> model_id set \<times> called_teacher list" where
  "teacher_report s =
     (case teachers (terms s) of None \<Rightarrow> {} | Some t \<Rightarrow> allowed_models (pins t),
      List.map_filter (\<lambda>(lease, f). map_option (\<lambda>digest.
        \<lparr>called_model = call_model f, called_served = call_served f, called_digest = digest, called_lease = lease,
         called_settled = call_settled f\<rparr>) (call_digest f)) (sort_key fst (calls s)))"


section \<open>Settlement\<close>

datatype call_outcome = Answered llm_usage | Used nat | UsedCounted nat | FailedCall | KeptCall

record call_charge =
  charge_native :: lease_unit
  charge_quantity :: "nat option"
  charge_reserve :: nat
  charge_kept :: bool

definition outcome_charge :: "call_outcome \<Rightarrow> lease_unit \<Rightarrow> nat \<Rightarrow> nat \<Rightarrow> call_charge" where
  "outcome_charge out native cost reserve =
     \<lparr>charge_native = native,
      charge_quantity =
        (case out of
           Answered usage \<Rightarrow> Some (answered_units_wide usage (min reserve usize_max))
         | Used quantity \<Rightarrow> Some (quantity * cost)
         | UsedCounted quantity \<Rightarrow> Some (quantity * cost)
         | FailedCall \<Rightarrow> None
         | KeptCall \<Rightarrow> Some 0),
      charge_reserve = reserve, charge_kept = (out = KeptCall)\<rparr>"

definition charge_units :: "nat \<Rightarrow> lease_unit \<Rightarrow> lease_unit \<Rightarrow> unit_rate list \<Rightarrow> nat \<Rightarrow> nat" where
  "charge_units native from_unit to_unit rs reserved =
     (case convert_units native from_unit to_unit rs of
        Inr units \<Rightarrow> units
      | Inl TooLarge \<Rightarrow> usize_max
      | Inl NoRate \<Rightarrow> reserved)"

definition usage_in :: "call_charge \<Rightarrow> lease_unit \<Rightarrow> unit_rate list \<Rightarrow> nat \<Rightarrow> nat option" where
  "usage_in c unit rs reserved =
     map_option (\<lambda>quantity. if charge_kept c then 0 else charge_units quantity (charge_native c) unit rs reserved) (charge_quantity c)"

definition settled_in :: "call_charge \<Rightarrow> lease_unit \<Rightarrow> unit_rate list \<Rightarrow> nat \<Rightarrow> bool \<Rightarrow> nat" where
  "settled_in c unit rs reserved was_sent =
     (case usage_in c unit rs reserved of Some u \<Rightarrow> u | None \<Rightarrow> if was_sent then reserved else 0)"

definition native_units :: "call_charge \<Rightarrow> bool \<Rightarrow> nat" where
  "native_units c was_sent = (case charge_quantity c of Some q \<Rightarrow> q | None \<Rightarrow> if was_sent then charge_reserve c else 0)"

text \<open>The inference receipts a settlement records: those reported, then each observed request none of them stands for.\<close>

definition stands_for :: "inference_receipt \<Rightarrow> inference_receipt \<Rightarrow> bool" where
  "stands_for reported observed \<longleftrightarrow>
     (receipt_model observed = None \<or> receipt_model observed = receipt_model reported) \<and>
     receipt_rest reported = receipt_rest observed"

fun observed_receipt :: "inference_observation \<Rightarrow> inference_receipt" where
  "observed_receipt (PartialCall r) = r"
| "observed_receipt (FinalCall r) = r"

text \<open>The first reported receipt still free that stands for a final observation, marked.\<close>

fun claim_slot :: "inference_receipt \<Rightarrow> (inference_receipt \<times> bool) list \<Rightarrow> (inference_receipt \<times> bool) list option" where
  "claim_slot obs [] = None"
| "claim_slot obs ((r, used) # slots) =
     (if \<not> used \<and> stands_for r obs then Some ((r, True) # slots) else map_option (Cons (r, used)) (claim_slot obs slots))"

fun kept_observations :: "(inference_receipt \<times> bool) list \<Rightarrow> inference_observation list \<Rightarrow> inference_receipt list" where
  "kept_observations slots [] = []"
| "kept_observations slots (PartialCall r # os) = r # kept_observations slots os"
| "kept_observations slots (FinalCall r # os) =
     (case claim_slot r slots of Some slots' \<Rightarrow> kept_observations slots' os | None \<Rightarrow> r # kept_observations slots os)"

definition settled_inference_calls :: "inference_receipt list \<Rightarrow> inference_observation list \<Rightarrow> inference_receipt list" where
  "settled_inference_calls reported observed =
     (if reported = [] then map observed_receipt observed
      else reported @ kept_observations (map (\<lambda>r. (r, False)) reported) observed)"

definition overage_of :: "call_outcome \<Rightarrow> nat \<Rightarrow> nat \<Rightarrow> usage_overage option" where
  "overage_of out charged reserved =
     (case (case out of Used _ \<Rightarrow> Some ProviderReported | UsedCounted _ \<Rightarrow> Some Counted | _ \<Rightarrow> None) of
        Some source \<Rightarrow>
          (if charged > reserved
           then Some \<lparr>reported_units = charged, overage_reserved = reserved, overage_units = charged - reserved, overage_source = source\<rparr>
           else None)
      | None \<Rightarrow> None)"

text \<open>The line's settlement: its usage when the outcome has one, else the abort, and whether the call had started.\<close>

definition settle_line :: "run_permit \<Rightarrow> call_charge \<Rightarrow> run \<Rightarrow> ((budget_denied, settlement) result \<times> bool \<times> nat) \<times> run" where
  "settle_line p c s =
     (let units = usage_in c (permit_unit (facts p)) (permit_rates p) (reserved_by_permit (facts p));
          (settled, s1) = on_meter (line_meter s)
            (case units of Some u \<Rightarrow> settle_usage (permit_lease p) u | None \<Rightarrow> abort (permit_lease p)) s;
          started = (dispatched (permit_lease p) (meters s1 (line_meter s1)) = Some True)
      in ((settled, started, case units of Some u \<Rightarrow> u | None \<Rightarrow> if started then reserved_by_permit (facts p) else 0), s1))"

definition settle_allocation :: "run_permit \<Rightarrow> call_charge \<Rightarrow> bool \<Rightarrow> run \<Rightarrow> (nat \<times> (budget_denied, settlement) result) option \<times> run" where
  "settle_allocation p c started s =
     (case permit_allocation p of
        None \<Rightarrow> (None, s)
      | Some hold \<Rightarrow>
          (let reserved = (case reserved_for (hold_lease hold) (meters s (hold_meter hold)) of Some u \<Rightarrow> u | None \<Rightarrow> 0);
               usage = usage_in c (hold_unit hold) (permit_rates p) reserved;
               units = (case usage of Some u \<Rightarrow> u | None \<Rightarrow> if started then reserved else 0);
               (settled, s1) = on_meter (hold_meter hold)
                 (case usage of
                    Some u \<Rightarrow> settle_usage (hold_lease hold) u
                  | None \<Rightarrow> if started then settle_reserved (hold_lease hold) else abort (hold_lease hold)) s
           in (Some (units, settled), s1)))"

definition settle_resident :: "run_permit \<Rightarrow> nat \<Rightarrow> run \<Rightarrow> run" where
  "settle_resident p units s =
     (case Option.bind (permit_allocation p) hold_resident of
        None \<Rightarrow> s
      | Some d \<Rightarrow>
          (case account s of
             None \<Rightarrow> s
           | Some acct \<Rightarrow>
               (let (fl, l) = settle_draw vault_charge d units (in_flight acct, shares s)
                in s\<lparr>account := Some (acct\<lparr>in_flight := fl\<rparr>), shares := l\<rparr>)))"

text \<open>\<open>reported\<close> are the receipts an answer's usage and its call reported; \<open>observed\<close> what the lease observed.\<close>

definition settle_permit :: "run_permit \<Rightarrow> call_outcome \<Rightarrow> stream_usage option \<Rightarrow> inference_receipt list \<Rightarrow> inference_observation list \<Rightarrow>
    run \<Rightarrow> (run_denied, settlement) result \<times> run" where
  "settle_permit p out stream reported observed s =
     (let name = lease_name (permit_lease p);
          c = outcome_charge out (native_unit p) (native_cost p) (reserve_native p);
          ((settled, started, units), s1) = settle_line p c (s\<lparr>paid := paid s - {name}\<rparr>);
          (allocation, s2) = settle_allocation p c started s1;
          s3 = (case allocation of Some (u, _) \<Rightarrow> settle_resident p u s2 | None \<Rightarrow> s2);
          charged = (if permit_metered p then units else 0);
          s4 = (case (settled, map_of (calls s3) name) of
                  (Inr _, Some f) \<Rightarrow> s3\<lparr>calls := AList.update name (f\<lparr>call_settled := Some charged\<rparr>) (calls s3)\<rparr>
                | _ \<Rightarrow> s3);
          allocation_failed = (case allocation of Some (_, Inl e) \<Rightarrow> Some e | _ \<Rightarrow> None);
          s5 = record_event (permit_revision p) (Settled
                 \<lparr>settled_lease = name, settled_dispatched = started,
                  settled_usage = (case out of Answered u \<Rightarrow> Some (input_total u, output_total u) | _ \<Rightarrow> None),
                  service_quantity = (case out of Used q \<Rightarrow> Some q | UsedCounted q \<Rightarrow> Some q | _ \<Rightarrow> None),
                  settled_stream = stream, inference_calls = settled_inference_calls reported observed,
                  settled_overage = overage_of out charged (reserved_by_permit (facts p)),
                  settled_units = charged, settled_unit = permit_unit (facts p), allocation_charge = map_option fst allocation,
                  settled_error = (case settled of Inl e \<Rightarrow> Some e | Inr _ \<Rightarrow> None), allocation_error = allocation_failed\<rparr>) s4
      in (case settled of
            Inl d \<Rightarrow> Err (BudgetRefused d)
          | Inr st \<Rightarrow> (case allocation_failed of Some d \<Rightarrow> Err (BudgetRefused d) | None \<Rightarrow> Ok st), s5))"

text \<open>A permit dropped unsettled settles as failed.\<close>

definition drop_permit :: "run_permit \<Rightarrow> inference_observation list \<Rightarrow> run \<Rightarrow> run" where
  "drop_permit p observed s = snd (settle_permit p FailedCall None [] observed s)"

definition settle_unsent :: "run_permit \<Rightarrow> inference_observation list \<Rightarrow> run \<Rightarrow> (run_denied, settlement) result \<times> run" where
  "settle_unsent p observed s =
     (case on_meter (line_meter s) (mark_unsent (permit_lease p)) s of
        (Inl d, s1) \<Rightarrow> (Err (BudgetRefused d), s1)
      | (Inr _, s1) \<Rightarrow>
          (case permit_allocation p of
             None \<Rightarrow> settle_permit p FailedCall None [] observed s1
           | Some hold \<Rightarrow>
               (case on_meter (hold_meter hold) (mark_unsent (hold_lease hold)) s1 of
                  (Inl d, s2) \<Rightarrow> (Err (BudgetRefused d), s2)
                | (Inr _, s2) \<Rightarrow> settle_permit p FailedCall None [] observed s2)))"

definition permit_sent :: "run_permit \<Rightarrow> run \<Rightarrow> bool" where
  "permit_sent p s \<longleftrightarrow> dispatched (permit_lease p) (meters s (line_meter s)) = Some True"

end
