(* ===== verification/RunMoves.thy ===== *)
theory RunMoves
  imports RunAdmission
begin

text \<open>
  How a run of the admission (\<open>crates/oneiron/src/llm/run_admission\<close>) moves the meters it draws on: by their own
  calls alone, whatever it is asked and whatever others do with a meter they share; and what it holds of them
  while it admits a call, which is nothing once the call is refused.
\<close>

section \<open>Bookkeeping moves no meter\<close>

lemma recorded [simp]:
  "meters (record_event n e s) = meters s" "line_meter (record_event n e s) = line_meter s"
  "calls (record_event n e s) = calls s" "paid (record_event n e s) = paid s" "account (record_event n e s) = account s"
  "shares (record_event n e s) = shares s" "terms (record_event n e s) = terms s" "revision (record_event n e s) = revision s"
  "receipts (record_event n e s) = receipts s @ [(n, e)]"
  by (simp_all add: record_event_def)

lemma hit [simp]:
  "meters (budget_hit a h d s) = meters s" "line_meter (budget_hit a h d s) = line_meter s" "calls (budget_hit a h d s) = calls s"
  "paid (budget_hit a h d s) = paid s" "account (budget_hit a h d s) = account s" "shares (budget_hit a h d s) = shares s"
  "receipts (budget_hit a h d s) = receipts s" "terms (budget_hit a h d s) = terms s" "revision (budget_hit a h d s) = revision s"
  by (simp_all add: budget_hit_def)

lemma on_meter_fields [simp]:
  "fst (on_meter h f s) = fst (f (meters s h))" "meters (snd (on_meter h f s)) = (meters s)(h := snd (f (meters s h)))"
  "line_meter (snd (on_meter h f s)) = line_meter s" "calls (snd (on_meter h f s)) = calls s" "paid (snd (on_meter h f s)) = paid s"
  "account (snd (on_meter h f s)) = account s" "shares (snd (on_meter h f s)) = shares s" "receipts (snd (on_meter h f s)) = receipts s"
  "terms (snd (on_meter h f s)) = terms s" "revision (snd (on_meter h f s)) = revision s"
  by (simp_all add: on_meter_def)

lemma noted [simp]:
  "meters (note_overdraft n l d s) = meters s" "line_meter (note_overdraft n l d s) = line_meter s"
  "calls (note_overdraft n l d s) = calls s" "paid (note_overdraft n l d s) = paid s"
  by (simp_all add: note_overdraft_def)


section \<open>A run moves its meters by their own calls\<close>

text \<open>\<open>unsent\<close> says whether a dispatch mark may come off.\<close>

definition moves :: "bool \<Rightarrow> nat \<Rightarrow> (nat \<Rightarrow> meter) \<Rightarrow> (nat \<Rightarrow> meter) \<Rightarrow> bool" where
  "moves unsent k ms ms' \<longleftrightarrow>
     (\<forall>h. \<exists>cs. list_all call_fits cs \<and> (list_ex takes_mark_off cs \<longrightarrow> unsent) \<and> length cs \<le> k \<and> ms' h = fold meter_step cs (ms h))"

definition by_call :: "bool \<Rightarrow> (meter \<Rightarrow> 'a \<times> meter) \<Rightarrow> bool" where
  "by_call unsent f \<longleftrightarrow> (\<forall>m. snd (f m) = m \<or> (\<exists>c. call_fits c \<and> (takes_mark_off c \<longrightarrow> unsent) \<and> snd (f m) = meter_step c m))"

lemma moves_refl [simp]: "moves u k ms ms"
  by (auto simp: moves_def intro: exI [of _ "[]"])

lemma moves_trans: "moves u j a b \<Longrightarrow> moves u k b c \<Longrightarrow> j + k \<le> n \<Longrightarrow> moves u n a c"
proof (unfold moves_def, intro allI)
  fix h
  assume "\<forall>h. \<exists>cs. list_all call_fits cs \<and> (list_ex takes_mark_off cs \<longrightarrow> u) \<and> length cs \<le> j \<and> b h = fold meter_step cs (a h)"
    and "\<forall>h. \<exists>cs. list_all call_fits cs \<and> (list_ex takes_mark_off cs \<longrightarrow> u) \<and> length cs \<le> k \<and> c h = fold meter_step cs (b h)"
    and n: "j + k \<le> n"
  then obtain cs ds where "list_all call_fits cs" "list_ex takes_mark_off cs \<longrightarrow> u" "length cs \<le> j" "b h = fold meter_step cs (a h)"
    "list_all call_fits ds" "list_ex takes_mark_off ds \<longrightarrow> u" "length ds \<le> k" "c h = fold meter_step ds (b h)" by metis
  then show "\<exists>cs. list_all call_fits cs \<and> (list_ex takes_mark_off cs \<longrightarrow> u) \<and> length cs \<le> n \<and> c h = fold meter_step cs (a h)"
    using n by (intro exI [of _ "cs @ ds"]) auto
qed

lemma moves_mono: "moves u j a b \<Longrightarrow> j \<le> k \<Longrightarrow> (u \<longrightarrow> v) \<Longrightarrow> moves v k a b"
  unfolding moves_def by (meson le_trans)

lemma moves_upd:
  assumes "by_call u f"
  shows "moves u (Suc 0) ms (ms(h := snd (f (ms h))))"
proof (unfold moves_def, intro allI)
  fix h'
  show "\<exists>cs. list_all call_fits cs \<and> (list_ex takes_mark_off cs \<longrightarrow> u) \<and> length cs \<le> Suc 0 \<and>
      (ms(h := snd (f (ms h)))) h' = fold meter_step cs (ms h')"
  proof (cases "h' = h \<and> snd (f (ms h)) \<noteq> ms h")
    case True
    with assms obtain c where "call_fits c" "takes_mark_off c \<longrightarrow> u" "snd (f (ms h)) = meter_step c (ms h)"
      unfolding by_call_def by blast
    then show ?thesis using True by (intro exI [of _ "[c]"]) simp
  qed (auto intro: exI [of _ "[]"])
qed

lemma by_calls:
  "by_call False (admit_free_work b kl)" "by_call False (admit_call_bound r p b)" "by_call False (admit_reserve_bound r b)"
  "by_call False (admit_reserve r)" "by_call False (abort l)" "by_call False (settle_usage l n)" "by_call False (settle_reserved l)"
  "by_call False (begin_dispatch l c)" "by_call True (mark_unsent l)"
  by (auto simp: by_call_def
      intro: exI [of _ "CFree b kl"] exI [of _ "CCallBound r p b"] exI [of _ "CReserveBound r b"] exI [of _ "CReserve r"]
        exI [of _ "CAbort l"] exI [of _ "CSettleUsage l n"] exI [of _ "CSettleReserved l"] exI [of _ "CBegin l c"] exI [of _ "CUnsent l"])

lemma by_call_mono: "by_call False f \<Longrightarrow> by_call u f"
  by (auto simp: by_call_def)

lemma moves_on: "by_call False f \<Longrightarrow> moves u (Suc 0) (meters s) (meters (snd (on_meter h f s)))"
  by (simp add: moves_upd by_call_mono)

text \<open>Sound meters stay sound, and what they issued stays on record.\<close>

lemma moves_inv:
  assumes "moves u k ms ms'" "meter_inv (ms h)" "next_lease_seq (ms h) + k < usize_max"
  shows "meter_inv (ms' h)" "next_lease_seq (ms' h) \<le> next_lease_seq (ms h) + k"
proof -
  obtain cs where cs: "list_all call_fits cs" "length cs \<le> k" "ms' h = fold meter_step cs (ms h)"
    using assms(1) by (auto simp: moves_def)
  then show "meter_inv (ms' h)" "next_lease_seq (ms' h) \<le> next_lease_seq (ms h) + k"
    using meter_run_inv [of "ms h" cs] assms(2,3) by auto
qed

lemma moves_record:
  assumes "moves u k ms ms'" "meter_inv (ms h)" "next_lease_seq (ms h) + k < usize_max" "own_record l (ms h) = Some r"
  shows "\<exists>r'. own_record l (ms' h) = Some r' \<and> later u r r'"
proof -
  obtain cs where cs: "list_all call_fits cs" "list_ex takes_mark_off cs \<longrightarrow> u" "length cs \<le> k" "ms' h = fold meter_step cs (ms h)"
    using assms(1) by (auto simp: moves_def)
  then obtain r' where "own_record l (ms' h) = Some r'" "later (list_ex takes_mark_off cs) r r'"
    using run_own_record [of "ms h" cs l r] assms(2-4) by auto
  with cs(2) show ?thesis by (auto simp: later_def)
qed


section \<open>What taking the leases can come to\<close>

definition line_call :: "nat \<Rightarrow> call_purpose option \<Rightarrow> dispatch_binding \<Rightarrow> meter \<Rightarrow> (budget_denied, budget_admission) result \<times> meter" where
  "line_call r purpose b = (case purpose of Some q \<Rightarrow> admit_call_bound r q b | None \<Rightarrow> admit_reserve_bound r b)"

lemma by_line_call: "by_call False (line_call r purpose b)"
  by (cases purpose) (simp_all add: line_call_def by_calls)

lemma refused_admission:
  "fst (line_call r purpose b m) = Err d \<Longrightarrow> snd (line_call r purpose b m) = m"
  "fst (admit_reserve r m) = Err d \<Longrightarrow> snd (admit_reserve r m) = m"
  "fst (admit_free_work b kl m) = Err d \<Longrightarrow> snd (admit_free_work b kl m) = m"
  by (auto simp: line_call_def admission_defs admitting_def metered_admission_def reserve_bound_def unmetered_admission_def
      issue_lease_def case_prod_unfold Let_def split: option.splits reserve_plan.splits if_splits)

lemma on_meter_same: "snd (f (meters s h)) = meters s h \<Longrightarrow> snd (on_meter h f s) = s"
  by (simp add: on_meter_def)

lemma on_meter_eq: "on_meter h f s = (x, s1) \<longleftrightarrow> x = fst (f (meters s h)) \<and> s1 = snd (on_meter h f s)"
  by (auto simp: on_meter_def)

lemma take_line_cases:
  obtains (free) adm where "free_work p (bind_locality b) c" "fst (admit_free_work b (c = Keyless) (meters s (line_meter s))) = Ok adm"
    "take_line p c b nu nt unit rs purpose s =
       (Ok (admitted_lease adm, 0, False), snd (on_meter (line_meter s) (admit_free_work b (c = Keyless)) s))"
  | (paid) r adm where "\<not> free_work p (bind_locality b) c" "fst (line_call r purpose b (meters s (line_meter s))) = Ok adm"
    "priced nu nt unit rs = Ok r"
    "take_line p c b nu nt unit rs purpose s = (Ok (admitted_lease adm, r, True), snd (on_meter (line_meter s) (line_call r purpose b) s))"
  | (refused) e where "take_line p c b nu nt unit rs purpose s = (Err e, s)"
proof (cases "free_work p (bind_locality b) c")
  case True
  show thesis
  proof (cases "fst (admit_free_work b (c = Keyless) (meters s (line_meter s)))")
    case (Inl d)
    show thesis by (rule refused [of "BudgetRefused d"])
      (use True Inl on_meter_same [where f = "admit_free_work b (c = Keyless)", OF refused_admission(3) [OF Inl]] in \<open>simp add: take_line_def free_lease_def on_meter_def\<close>)
  next
    case (Inr adm)
    show thesis by (rule free [OF True Inr]) (use True Inr in \<open>simp add: take_line_def free_lease_def on_meter_def\<close>)
  qed
next
  case False
  show thesis
  proof (cases "priced nu nt unit rs")
    case (Inl e)
    show thesis by (rule refused [of e]) (use False Inl in \<open>simp add: take_line_def free_lease_def\<close>)
  next
    case r: (Inr r)
    show thesis
    proof (cases "fst (line_call r purpose b (meters s (line_meter s)))")
      case (Inl d)
      show thesis by (rule refused [of "BudgetRefused d"])
        (use False r Inl on_meter_same [where f = "line_call r purpose b", OF refused_admission(1) [OF Inl]] in \<open>simp add: take_line_def free_lease_def on_meter_def line_call_def\<close>)
    next
      case (Inr adm)
      show thesis by (rule paid [OF False Inr r])
        (use False r Inr in \<open>simp add: take_line_def free_lease_def on_meter_def line_call_def\<close>)
    qed
  qed
qed

lemma hold_after_reserve:
  assumes "p = HostPays" "\<not> memory_work s" "account s = Some acct" "live acct = Some lv" "priced nu nt (live_unit lv) rs = Ok units"
    and taken: "on_meter (live_meter lv) (admit_reserve units) s = (Ok adm, s1)"
  obtains (spent) e where
    "hold_allocation p nu nt rs resident s = (Err e, snd (on_meter (live_meter lv) (abort (admitted_lease adm)) s1))"
  | (held) hold acc where "hold_meter hold = live_meter lv" "hold_lease hold = admitted_lease adm"
    "hold_allocation p nu nt rs resident s = (Ok (Some (live_ref lv, hold)), s1\<lparr>account := acc\<rparr>)"
proof (cases "if keeps_residents acct then resident else None")
  case None
  have "s1\<lparr>account := account s1\<rparr> = s1" by simp
  then show thesis using None assms
    by (intro held [of "\<lparr>hold_meter = live_meter lv, hold_lease = admitted_lease adm, hold_unit = live_unit lv, hold_resident = None\<rparr>" "account s1"])
      (auto simp: hold_allocation_def Let_def)
next
  case r: (Some r)
  define dr where "dr = draw_units (vault_standing (shares s1) r (live_ref lv) (read_limit (read_meter (meters s1 (live_meter lv)))))
    r (live_ref lv) units (in_flight acct)"
  show thesis
  proof (cases "fst dr")
    case (Inl who)
    show thesis by (rule spent [of "ResidentShareSpent who"])
      (use assms r Inl in \<open>simp add: hold_allocation_def Let_def dr_def [symmetric] case_prod_unfold\<close>)
  next
    case (Inr d)
    show thesis
      by (rule held [of "\<lparr>hold_meter = live_meter lv, hold_lease = admitted_lease adm, hold_unit = live_unit lv, hold_resident = Some d\<rparr>"
          "Some (acct\<lparr>in_flight := snd dr\<rparr>)"])
        (use assms r Inr in \<open>simp_all add: hold_allocation_def Let_def dr_def [symmetric] case_prod_unfold\<close>)
  qed
qed

lemma hold_cases:
  obtains (none) "hold_allocation p nu nt rs resident s = (Ok None, s)"
  | (refused) e hits where "hold_allocation p nu nt rs resident s = (Err e, s\<lparr>budget_hits := hits\<rparr>)"
  | (spent) e h units adm where "fst (admit_reserve units (meters s h)) = Ok adm"
    "hold_allocation p nu nt rs resident s =
       (Err e, snd (on_meter h (abort (admitted_lease adm)) (snd (on_meter h (admit_reserve units) s))))"
  | (held) a hold units adm acc where "fst (admit_reserve units (meters s (hold_meter hold))) = Ok adm" "hold_lease hold = admitted_lease adm"
    "hold_allocation p nu nt rs resident s =
       (Ok (Some (a, hold)), (snd (on_meter (hold_meter hold) (admit_reserve units) s))\<lparr>account := acc\<rparr>)"
proof -
  have same: "s\<lparr>budget_hits := budget_hits s\<rparr> = s" by simp
  consider (free) "p \<noteq> HostPays \<or> memory_work s" | (unpaid) "p = HostPays" "\<not> memory_work s" "Option.bind (account s) live = None"
    | (live) acct lv where "p = HostPays" "\<not> memory_work s" "account s = Some acct" "live acct = Some lv"
    by (cases "Option.bind (account s) live") (auto simp: bind_eq_Some_conv)
  then show thesis
  proof cases
    case free
    then show thesis by (intro none) (simp add: hold_allocation_def)
  next
    case unpaid
    then have "account s = None \<or> (\<exists>acct. account s = Some acct \<and> live acct = None)" by (cases "account s") auto
    with unpaid have "\<exists>e. hold_allocation p nu nt rs resident s = (Err e, s)" by (auto simp: hold_allocation_def)
    then obtain e where "hold_allocation p nu nt rs resident s = (Err e, s)" ..
    then show thesis using same by (intro refused [of e "budget_hits s"]) simp
  next
    case (live acct lv)
    consider (unpriced) e where "priced nu nt (live_unit lv) rs = Err e"
      | (short) units d where "priced nu nt (live_unit lv) rs = Ok units" "fst (admit_reserve units (meters s (live_meter lv))) = Err d"
      | (taken) units adm where "priced nu nt (live_unit lv) rs = Ok units" "fst (admit_reserve units (meters s (live_meter lv))) = Ok adm"
      by (metis sum.exhaust)
    then show thesis
    proof cases
      case (unpriced e)
      then show thesis using live same by (intro refused [of e "budget_hits s"]) (simp add: hold_allocation_def)
    next
      case (short units d)
      show thesis
        by (rule refused) (use live short on_meter_same [where f = "admit_reserve units", OF refused_admission(2) [OF short(2)]] in
          \<open>simp add: hold_allocation_def on_meter_def budget_hit_def\<close>)
    next
      case (taken units adm)
      have "on_meter (live_meter lv) (admit_reserve units) s = (Ok adm, snd (on_meter (live_meter lv) (admit_reserve units) s))"
        using taken(2) by (simp add: on_meter_def)
      from live taken(1) this show thesis
        by (cases rule: hold_after_reserve [where resident = resident]) (use taken(2) spent held in metis)+
    qed
  qed
qed


section \<open>Every operation of a run\<close>

lemma moves_line: "moves u (Suc 0) (meters s) (meters (snd (take_line p c b nu nt unit rs purpose s)))"
  by (cases rule: take_line_cases [of p b c s nu nt unit rs purpose])
    (simp_all add: moves_upd by_call_mono by_calls by_line_call)

lemma moves_hold: "moves u 2 (meters s) (meters (snd (hold_allocation p nu nt rs resident s)))"
proof (cases rule: hold_cases [of p nu nt rs resident s])
  case (spent e h units adm)
  have "moves u (Suc 0) (meters s) (meters (snd (on_meter h (admit_reserve units) s)))" by (rule moves_on [OF by_calls(4)])
  moreover have "moves u (Suc 0) (meters (snd (on_meter h (admit_reserve units) s)))
      (meters (snd (on_meter h (abort (admitted_lease adm)) (snd (on_meter h (admit_reserve units) s)))))"
    by (rule moves_on [OF by_calls(5)])
  ultimately show ?thesis unfolding spent(2) snd_conv by (rule moves_trans) simp
next
  case (held a hold units adm acc)
  have "moves u (Suc 0) (meters s) (meters (snd (on_meter (hold_meter hold) (admit_reserve units) s)))" by (rule moves_on [OF by_calls(4)])
  then show ?thesis unfolding held(3) by (auto elim: moves_mono)
qed simp_all

lemma line_kept [simp]:
  "line_meter (snd (take_line p c b nu nt unit rs purpose s)) = line_meter s"
  "line_meter (snd (hold_allocation p nu nt rs resident s)) = line_meter s"
  by (cases rule: take_line_cases [of p b c s nu nt unit rs purpose]; simp)
    (cases rule: hold_cases [of p nu nt rs resident s]; simp)

lemma take_leases_cases:
  obtains (no_line) e where "fst (take_line p c b nu nt unit rs purpose s) = Err e"
    "take_leases n p c b nu nt unit rs purpose resident s = (Err e, snd (take_line p c b nu nt unit rs purpose s))"
  | (no_allocation) taken e s1 where "take_line p c b nu nt unit rs purpose s = (Ok taken, s1)"
    "fst (hold_allocation p nu nt rs resident s1) = Err e"
    "take_leases n p c b nu nt unit rs purpose resident s =
       (Err e, snd (on_meter (line_meter s) (abort (fst taken)) (snd (hold_allocation p nu nt rs resident s1))))"
  | (taken) taken held s1 s2 where "take_line p c b nu nt unit rs purpose s = (Ok taken, s1)"
    "hold_allocation p nu nt rs resident s1 = (Ok held, s2)"
    "take_leases n p c b nu nt unit rs purpose resident s =
       (Ok (taken, held), case Option.bind held (hold_resident \<circ> snd) of Some d \<Rightarrow> note_overdraft n (lease_name (fst taken)) d s2 | None \<Rightarrow> s2)"
proof (cases "fst (take_line p c b nu nt unit rs purpose s)")
  case (Inl e)
  then show thesis by (intro no_line [of e]) (simp_all add: take_leases_def case_prod_unfold)
next
  case (Inr t)
  define s1 where "s1 = snd (take_line p c b nu nt unit rs purpose s)"
  have t: "take_line p c b nu nt unit rs purpose s = (Ok t, s1)" using Inr by (simp add: s1_def prod_eq_iff)
  have line: "line_meter (snd (hold_allocation p nu nt rs resident s1)) = line_meter s" by (simp add: s1_def)
  show thesis
  proof (cases "fst (hold_allocation p nu nt rs resident s1)")
    case (Inl e)
    then show thesis using t line by (intro no_allocation [of t s1 e]) (simp_all add: take_leases_def case_prod_unfold)
  next
    case (Inr held)
    then obtain s2 where h: "hold_allocation p nu nt rs resident s1 = (Ok held, s2)" by (metis prod.collapse)
    show thesis by (rule taken [OF t h]) (cases held; simp add: take_leases_def t h split: prod.split)
  qed
qed

lemma moves_leases: "moves u 4 (meters s) (meters (snd (take_leases n p c b nu nt unit rs purpose resident s)))"
proof -
  let ?s1 = "snd (take_line p c b nu nt unit rs purpose s)" and ?s2 = "\<lambda>s1. snd (hold_allocation p nu nt rs resident s1)"
  have one: "moves u 3 (meters s) (meters (?s2 ?s1))" by (rule moves_trans [OF moves_line moves_hold]) simp
  show ?thesis
  proof (cases rule: take_leases_cases [of p c b nu nt unit rs purpose s n resident])
    case (no_line e)
    then show ?thesis using moves_line [of u s p c b nu nt unit rs purpose] by (auto elim: moves_mono)
  next
    case (no_allocation taken e s1)
    have "moves u 3 (meters s) (meters (?s2 s1))" using one no_allocation(1) by simp
    then show ?thesis unfolding no_allocation(3) snd_conv by (rule moves_trans) (rule moves_on [OF by_calls(5)], simp)
  next
    case (taken taken held s1 s2)
    have "moves u 3 (meters s) (meters s2)" using one taken(1,2) by simp
    then show ?thesis unfolding taken(3) by (auto elim: moves_mono split: option.split)
  qed
qed

lemma admission_meters:
  "moves u 4 (meters s) (meters (snd (admit_offer identity selector q o1 digest og s)))"
  "moves u 4 (meters s) (meters (snd (admit_paid identity c quantity og s)))"
proof -
  have receipt: "meters (snd (receipt_for n sel subj res m s)) = meters s" for n sel subj res m s
    by (auto simp: receipt_for_def Let_def split: sum.split run_denied.split option.split)
  have model: "moves u 4 (meters s) (meters (snd (admit_model identity d n selector q o2 digest og s)))" for d n o2
    using moves_leases [of u s n]
    by (auto simp: admit_model_def Let_def case_prod_unfold split: sum.split)
  have paid: "moves u 4 (meters s) (meters (snd (admit_connector identity d n c quantity og s)))" for d n
    using moves_leases [of u s n]
    by (auto simp: admit_connector_def Let_def case_prod_unfold split: sum.split)
  show "moves u 4 (meters s) (meters (snd (admit_offer identity selector q o1 digest og s)))"
    "moves u 4 (meters s) (meters (snd (admit_paid identity c quantity og s)))"
    by (simp_all add: admit_offer_def admit_paid_def case_prod_unfold Let_def receipt model paid)
qed

lemma moves_start: "moves u (Suc 0) (meters s) (meters (snd (start_dispatch l c s)))"
  using moves_on [OF by_calls(8) [of l c], of u s "line_meter s"]
  by (auto simp: start_dispatch_def refuse_def Let_def case_prod_unfold split: sum.split)

lemma moves_settle_line: "moves u (Suc 0) (meters s) (meters (snd (settle_line p c s)))"
  by (cases "usage_in c (permit_unit (facts p)) (permit_rates p) (reserved_by_permit (facts p))")
    (simp_all add: settle_line_def case_prod_unfold Let_def moves_upd by_call_mono by_calls)

lemma moves_settle_allocation: "moves u (Suc 0) (meters s) (meters (snd (settle_allocation p c started s)))"
  by (auto simp: settle_allocation_def case_prod_unfold Let_def moves_upd by_call_mono by_calls split: option.split)

lemma settle_resident_fields [simp]:
  "meters (settle_resident p u s) = meters s" "line_meter (settle_resident p u s) = line_meter s"
  "calls (settle_resident p u s) = calls s" "paid (settle_resident p u s) = paid s"
  "receipts (settle_resident p u s) = receipts s" "revision (settle_resident p u s) = revision s" "terms (settle_resident p u s) = terms s"
  by (auto simp: settle_resident_def case_prod_unfold Let_def split: option.split)


lemma moves_settle: "moves u 2 (meters s) (meters (snd (settle_permit p out stream rep obs s)))"
proof -
  let ?n = "lease_name (permit_lease p)" and ?c = "outcome_charge out (native_unit p) (native_cost p) (reserve_native p)"
  define s0 where "s0 = s\<lparr>paid := paid s - {?n}\<rparr>"
  define l where "l = settle_line p ?c s0"
  define a where "a = settle_allocation p ?c (fst (snd (fst l))) (snd l)"
  have "meters (snd (settle_permit p out stream rep obs s)) = meters (snd a)"
    by (auto simp: settle_permit_def Let_def case_prod_unfold s0_def [symmetric] l_def [symmetric] a_def [symmetric]
        split: option.split sum.split)
  moreover have "moves u (Suc 0) (meters s) (meters (snd l))"
    using moves_settle_line [of u s0 p ?c] by (simp add: l_def s0_def)
  moreover have "moves u (Suc 0) (meters (snd l)) (meters (snd a))" unfolding a_def by (rule moves_settle_allocation)
  ultimately show ?thesis using moves_trans by fastforce
qed

lemma moves_mark: "moves True (Suc 0) (meters s) (meters (snd (on_meter h (mark_unsent l) s)))"
  using moves_upd [OF by_calls(9)] by simp

lemma moves_unsent: "moves True 4 (meters s) (meters (snd (settle_unsent p obs s)))"
proof -
  have one: "moves True (Suc 0) (meters s) (meters (snd (on_meter (line_meter s) (mark_unsent (permit_lease p)) s)))" by (rule moves_mark)
  define s1 where "s1 = snd (on_meter (line_meter s) (mark_unsent (permit_lease p)) s)"
  note one = one [folded s1_def]
  have settle: "moves True 2 (meters s2) (meters (snd (settle_permit p FailedCall None [] obs s2)))" for s2 by (rule moves_settle)
  show ?thesis
  proof (cases "fst (mark_unsent (permit_lease p) (meters s (line_meter s)))")
    case (Inl d)
    then show ?thesis using one by (auto simp: settle_unsent_def case_prod_unfold s1_def elim: moves_mono)
  next
    case ok: (Inr u)
    show ?thesis
    proof (cases "permit_allocation p")
      case None
      have "moves True 4 (meters s) (meters (snd (settle_permit p FailedCall None [] obs s1)))"
        by (rule moves_trans [OF one settle]) simp
      then show ?thesis using ok None by (simp add: settle_unsent_def case_prod_unfold s1_def)
    next
      case (Some hold)
      define s2 where "s2 = snd (on_meter (hold_meter hold) (mark_unsent (hold_lease hold)) s1)"
      have two: "moves True 2 (meters s) (meters s2)" unfolding s2_def by (rule moves_trans [OF one moves_mark]) simp
      have "moves True 4 (meters s) (meters (snd (settle_permit p FailedCall None [] obs s2)))"
        by (rule moves_trans [OF two settle]) simp
      moreover have "moves True 4 (meters s) (meters s2)" using two by (auto elim: moves_mono)
      moreover have "snd (settle_unsent p obs s) = s2 \<or> snd (settle_unsent p obs s) = snd (settle_permit p FailedCall None [] obs s2)"
        using ok Some by (auto simp: settle_unsent_def case_prod_unfold s1_def s2_def split: sum.split)
      ultimately show ?thesis by metis
    qed
  qed
qed

section \<open>Runs\<close>

text \<open>What may happen to a run: its own operations, and what others do with a meter, the account or the ledger it shares.\<close>

datatype run_call =
  RAdmit "string option" llm_request offer_binding "string option" call_origin
| RAdmitPaid paid_connector nat call_origin
| RStart budget_lease dispatch_binding
| RGate dispatch_binding llm_request budget_lease "string option \<Rightarrow> (string, string option) result" "string option"
| RSent started_call string "string option" bool
| RNotSent started_call string
| RSettle run_permit call_outcome "stream_usage option" "inference_receipt list" "inference_observation list"
| RSettleUnsent run_permit "inference_observation list"
| RRevise declaration_editor run_declaration
| ROther nat meter_call
| RHost "host_account option" vault_ledger

fun run_step :: "(bound_service \<Rightarrow> string) \<Rightarrow> run_call \<Rightarrow> run \<Rightarrow> run" where
  "run_step identity (RAdmit sel q o1 digest og) s = snd (admit_offer identity sel q o1 digest og s)"
| "run_step identity (RAdmitPaid c quantity og) s = snd (admit_paid identity c quantity og s)"
| "run_step identity (RStart l c) s = snd (start_dispatch l c s)"
| "run_step identity (RGate b q l backend canonical) s = snd (gate_open b q l backend canonical s)"
| "run_step identity (RSent d route served answered) s = dispatched_row d route served answered s"
| "run_step identity (RNotSent d route) s = snd (failed_pending route True (Some d) s)"
| "run_step identity (RSettle p out stream rep obs) s = snd (settle_permit p out stream rep obs s)"
| "run_step identity (RSettleUnsent p obs) s = snd (settle_unsent p obs s)"
| "run_step identity (RRevise e d) s = snd (revise e d s)"
| "run_step identity (ROther h c) s = s\<lparr>meters := (meters s)(h := meter_step c (meters s h))\<rparr>"
| "run_step identity (RHost acct l) s = s\<lparr>account := acct, shares := l\<rparr>"

fun run_call_fits :: "run_call \<Rightarrow> bool" where
  "run_call_fits (RRevise e d) = (line_limit (budget d) \<le> usize_max)"
| "run_call_fits (ROther h c) = call_fits c"
| "run_call_fits c = True"

fun unsends :: "run_call \<Rightarrow> bool" where
  "unsends (RNotSent d route) = True"
| "unsends (RSettleUnsent p obs) = True"
| "unsends (ROther h c) = takes_mark_off c"
| "unsends c = False"

lemma dispatched_row_fields [simp]:
  "meters (dispatched_row d route served answered s) = meters s" "line_meter (dispatched_row d route served answered s) = line_meter s"
  by (auto simp: dispatched_row_def Let_def split: option.split)

lemma run_step_moves:
  assumes "run_call_fits c" "unsends c \<longrightarrow> u"
  shows "moves u 4 (meters s) (meters (run_step identity c s))"
proof (cases c)
  case (RAdmit sel q o1 digest og)
  then show ?thesis using admission_meters(1) by simp
next
  case (RAdmitPaid c quantity og)
  then show ?thesis using admission_meters(2) by simp
next
  case (RStart l c)
  then show ?thesis using moves_start [of u s l c] by (auto elim: moves_mono)
next
  case (RGate b q l backend canonical)
  have "moves u 4 (meters s) (meters (snd (start_dispatch l c s)))" for c using moves_start [of u s l c] by (auto elim: moves_mono)
  then show ?thesis using RGate
    by (auto simp: gate_open_def refuse_def Let_def case_prod_unfold split: option.split sum.split)
next
  case (RNotSent d route)
  then show ?thesis using assms moves_mark [of s "line_meter s" "started_lease d"]
    by (auto simp: failed_pending_def finish_pending_def case_prod_unfold split: sum.split elim: moves_mono)
next
  case (RSettle p out stream rep obs)
  then show ?thesis using moves_settle [of u s p out stream rep obs] by (auto elim: moves_mono)
next
  case (RSettleUnsent p obs)
  then show ?thesis using assms moves_unsent [of s p obs] by simp
next
  case (RRevise e d)
  have "moves u (Suc 0) (meters s) ((meters s)(line_meter s := snd ((), revise_line (line_limit (budget d)) (line_reserve (budget d)) (meters s (line_meter s)))))"
    by (rule moves_upd [where f = "\<lambda>m. ((), revise_line (line_limit (budget d)) (line_reserve (budget d)) m)"])
      (use RRevise assms in \<open>auto simp: by_call_def intro!: exI [of _ "CRevise (line_limit (budget d)) (line_reserve (budget d))"]\<close>)
  then show ?thesis using RRevise by (auto simp: revise_def Let_def split: option.split elim: moves_mono)
next
  case (ROther h c)
  have "moves u (Suc 0) (meters s) ((meters s)(h := snd ((), meter_step c (meters s h))))"
    by (rule moves_upd [where f = "\<lambda>m. ((), meter_step c m)"]) (use ROther assms in \<open>auto simp: by_call_def\<close>)
  then show ?thesis using ROther by (auto elim: moves_mono)
qed simp_all

lemma run_moves:
  "list_all run_call_fits cs \<Longrightarrow> list_ex unsends cs \<longrightarrow> u \<Longrightarrow> moves u (4 * length cs) (meters s) (meters (fold (run_step identity) cs s))"
proof (induction cs arbitrary: s)
  case (Cons c cs)
  have "moves u 4 (meters s) (meters (run_step identity c s))" using Cons.prems by (intro run_step_moves) auto
  then show ?case using moves_trans Cons by fastforce
qed simp


section \<open>What a call holds while it is being admitted\<close>

definition spent :: "meter \<Rightarrow> nat \<times> nat \<times> (nat \<times> nat) list" where
  "spent m = (used_units m, shared_used m, map (\<lambda>t. (tally_used t, floor_used t)) (row_tallies m))"

definition open_leases :: "meter \<Rightarrow> (string \<times> lease_record) list" where
  "open_leases m = filter (\<lambda>(_, r). lease_state r = OpenLease) (leases m)"

text \<open>The books of a meter: what it and its rows have spent and reserved, and the leases it holds open.\<close>

definition books :: "meter \<Rightarrow> nat \<times> nat \<times> nat \<times> nat \<times> (nat \<times> nat \<times> nat \<times> nat) list \<times> (string \<times> lease_record) list" where
  "books m = (used_units m, reserved_units m, shared_used m, shared_reserved m, map money (row_tallies m), open_leases m)"

text \<open>\<open>m'\<close> is \<open>m\<close> with the leases \<open>xs\<close> open beside its own.\<close>

definition holds_more :: "nat \<Rightarrow> meter \<Rightarrow> meter \<Rightarrow> (string \<times> lease_record) list \<Rightarrow> bool" where
  "holds_more n m m' xs \<longleftrightarrow>
     meter_inv m' \<and> spent m' = spent m \<and> policy m' = policy m \<and> open_leases m' = open_leases m @ xs \<and>
     next_lease_seq m' \<le> next_lease_seq m + n"

lemma spent_money: "map money ts = map money ts' \<Longrightarrow> map (\<lambda>t. (tally_used t, floor_used t)) ts = map (\<lambda>t. (tally_used t, floor_used t)) ts'"
proof -
  assume "map money ts = map money ts'"
  then have "map (\<lambda>(a, b, c, d). (a, c)) (map money ts) = map (\<lambda>(a, b, c, d). (a, c)) (map money ts')" by simp
  then show ?thesis by (simp add: comp_def money_def)
qed

lemma holds_fired: "holds_more n m m' xs \<Longrightarrow> holds_more n m (snd (fire_ladders m')) xs"
proof -
  assume h: "holds_more n m m' xs"
  obtain F ts where f: "snd (fire_ladders m') = m'\<lparr>fired_thresholds := F, row_tallies := ts\<rparr>" "map money ts = map money (row_tallies m')"
    using fire_ladders_effect [of m'] by auto
  have "spent (snd (fire_ladders m')) = spent m'" using spent_money [OF f(2)] by (simp add: f(1) spent_def)
  then show ?thesis using h fire_ladders_inv [of m'] by (simp add: holds_more_def open_leases_def)
qed

lemma update_fresh: "map_of al k = None \<Longrightarrow> AList.update k v al = al @ [(k, v)]"
  by (induction al) (auto split: if_splits)

definition fresh_record :: "nat \<Rightarrow> bool \<Rightarrow> dispatch_binding option \<Rightarrow> lease_record \<Rightarrow> bool" where
  "fresh_record u is_metered b r \<longleftrightarrow>
     reserve_units r = u \<and> metered r = is_metered \<and> lease_binding r = b \<and> lease_state r = OpenLease \<and> \<not> was_dispatched r"

lemma issued_open:
  assumes "names_ok m0" "next_lease_seq m0 < usize_max" "leases m' = leases m0" "next_lease_seq m' = next_lease_seq m0"
    "attempt_id m' = attempt_id m0" "kind = ''metered'' \<or> kind = ''local''" "issue_lease_with u k kind a b m' = (l, m'')"
  shows "\<exists>r. own_record l m'' = Some r \<and> fresh_record u k b r \<and> open_leases m'' = open_leases m0 @ [(lease_name l, r)] \<and>
    policy m'' = policy m' \<and> spent m'' = spent m' \<and> next_lease_seq m'' = Suc (next_lease_seq m0)"
proof -
  let ?r = "new_record u k a b"
  have "map_of (leases m0) (lease_id m' kind (Suc (next_lease_seq m0))) = None"
    using lease_name_fresh [OF assms(1,2,6)] assms(5) by (simp add: lease_id_def)
  then have "leases m'' = leases m0 @ [(lease_name l, ?r)]" "own_record l m'' = Some ?r"
    using assms(2-4,7) by (auto simp: issue_lease_with_def Let_def update_fresh new_record_def own_record_def update_conv' map_add_def)
  then show ?thesis using assms(2,4,7)
    by (intro exI [of _ ?r]) (auto simp: fresh_record_def new_record_def open_leases_def issue_lease_with_def Let_def spent_def)
qed

lemma holds_issued:
  assumes h: "holds_more n m m' xs" and seq: "next_lease_seq m + n < usize_max"
    and same: "leases m1 = leases m'" "next_lease_seq m1 = next_lease_seq m'" "attempt_id m1 = attempt_id m'"
      "spent m1 = spent m'" "policy m1 = policy m'"
    and kind: "kind = ''metered'' \<or> kind = ''local''" and issue: "issue_lease_with u k kind a b m1 = (l, m2)" and inv: "meter_inv m2"
  shows "\<exists>r. own_record l m2 = Some r \<and> fresh_record u k b r \<and> holds_more (Suc n) m m2 (xs @ [(lease_name l, r)])"
proof -
  have "names_ok m'" "next_lease_seq m' < usize_max" using h seq by (auto simp: holds_more_def meter_inv_def)
  from issued_open [OF this same(1-3) kind issue] show ?thesis using h inv same by (auto simp: holds_more_def)
qed

lemma holds_reserved:
  assumes h: "holds_more n m m' xs" and seq: "next_lease_seq m + n < usize_max" and ok: "fst (reserve_bound r p b m') = Ok l"
  shows "\<exists>rec. own_record l (snd (reserve_bound r p b m')) = Some rec \<and> fresh_record r True b rec \<and>
    holds_more (Suc n) m (snd (reserve_bound r p b m')) (xs @ [(lease_name l, rec)])"
proof -
  from ok obtain a where a: "plan_reserve m' r p = AdmitPlan a"
    "reserve_bound r p b m' = (Ok l, snd (issue_lease_with r True ''metered'' a b (commit_reservation r a m')))"
    "fst (issue_lease_with r True ''metered'' a b (commit_reservation r a m')) = l"
    by (auto simp: reserve_bound_def case_prod_unfold Let_def split: if_splits reserve_plan.splits)
  have inv: "meter_inv m'" "next_lease_seq m' < usize_max" using h seq by (auto simp: holds_more_def)
  obtain ts where ts: "commit_reservation r a m' = m'\<lparr>reserved_units := reserved_units m' + r, row_tallies := ts,
      shared_reserved := shared_reserved m' + alloc_shared a\<rparr>" "length ts = length (policy m')"
    "\<And>j. j < length (policy m') \<Longrightarrow> tally_used (ts ! j) = tally_used (row_tallies m' ! j) \<and> floor_used (ts ! j) = floor_used (row_tallies m' ! j)"
    using committed_rows [OF inv(1) plan_admits [OF a(1)]] by blast
  have "map (\<lambda>t. (tally_used t, floor_used t)) ts = map (\<lambda>t. (tally_used t, floor_used t)) (row_tallies m')"
    using ts(2,3) meter_invD(6) [OF inv(1)] by (intro nth_equalityI) auto
  then have "spent (commit_reservation r a m') = spent m'" by (simp add: ts(1) spent_def)
  moreover have "meter_inv (snd (reserve_bound r p b m'))" by (rule reserve_inv [OF inv])
  moreover have "issue_lease_with r True ''metered'' a b (commit_reservation r a m') = (l, snd (reserve_bound r p b m'))"
    using a by (simp add: prod_eq_iff)
  ultimately show ?thesis
    using holds_issued [OF h seq, of "commit_reservation r a m'" "''metered''"] by (simp add: ts(1))
qed

lemma own_fired [simp]: "own_record l (snd (fire_ladders m)) = own_record l m"
  by (simp add: own_record_def)

lemma admitted_of:
  "fst (admitting x) = Ok adm \<Longrightarrow> fst x = Ok (admitted_lease adm) \<and> snd (admitting x) = snd (fire_ladders (snd x))"
  by (auto simp: admitting_def metered_admission_def case_prod_unfold Let_def split: sum.splits)

lemma holds_admitted:
  assumes "holds_more n m m' xs" "next_lease_seq m + n < usize_max" "fst (admitting (reserve_bound r p b m')) = Ok adm"
  shows "\<exists>rec. own_record (admitted_lease adm) (snd (admitting (reserve_bound r p b m'))) = Some rec \<and> fresh_record r True b rec \<and>
    holds_more (Suc n) m (snd (admitting (reserve_bound r p b m'))) (xs @ [(lease_name (admitted_lease adm), rec)])"
  using holds_reserved [OF assms(1,2)] admitted_of [OF assms(3)] holds_fired by fastforce

lemma holds_free:
  assumes h: "holds_more n m m' xs" and seq: "next_lease_seq m + n < usize_max" and ok: "fst (admit_free_work b kl m') = Ok adm"
  shows "\<exists>rec. own_record (admitted_lease adm) (snd (admit_free_work b kl m')) = Some rec \<and> fresh_record 0 False (Some b) rec \<and>
    holds_more (Suc n) m (snd (admit_free_work b kl m')) (xs @ [(lease_name (admitted_lease adm), rec)])"
proof -
  have inv: "meter_inv m'" "next_lease_seq m' < usize_max" using h seq by (auto simp: holds_more_def)
  have eq: "admit_free_work b kl m' = unmetered_admission (Some b) m'" using ok by (auto simp: admit_free_work_def Let_def split: if_splits)
  have "issue_lease_with 0 False ''local'' no_allocation (Some b) m' = (admitted_lease adm, snd (admit_free_work b kl m'))"
    using ok unfolding eq by (auto simp: unmetered_admission_def issue_lease_def case_prod_unfold Let_def)
  then show ?thesis using holds_issued [OF h seq, of m' "''local''"] unmetered_inv [OF inv, of "Some b"] by (simp add: eq)
qed


lemma distinct_leases: "meter_inv m \<Longrightarrow> distinct (map fst (leases m))"
  using meter_invD(2) [of m] by (simp add: names_ok_def)

lemma closed_leases:
  "distinct (map fst al) \<Longrightarrow> map_of al k = Some r \<Longrightarrow> lease_state r' \<noteq> OpenLease \<Longrightarrow>
   filter (\<lambda>(_, x). lease_state x = OpenLease) (AList.update k r' al) =
   filter (\<lambda>(i, _). i \<noteq> k) (filter (\<lambda>(_, x). lease_state x = OpenLease) al)"
proof (induction al)
  case (Cons p al)
  show ?case
  proof (cases "fst p = k")
    case True
    then have "\<forall>q \<in> set al. fst q \<noteq> k" using Cons.prems(1) by (metis distinct.simps(2) image_eqI list.set_map list.simps(9))
    then have "filter (\<lambda>(i, _). i \<noteq> k) (filter (\<lambda>(_, x). lease_state x = OpenLease) al) = filter (\<lambda>(_, x). lease_state x = OpenLease) al"
      by (simp add: case_prod_unfold) (rule filter_cong; auto)
    then show ?thesis using True Cons.prems by (cases p) auto
  qed (use Cons in \<open>cases p; auto\<close>)
qed simp

lemma holds_aborted:
  assumes h: "holds_more n m m' (xs @ [(lease_name l, r)])" and r: "own_record l m' = Some r" "\<not> was_dispatched r" "lease_state r = OpenLease"
  shows "holds_more n m (snd (abort l m')) xs"
proof -
  have inv: "meter_inv m'" using h by (simp add: holds_more_def)
  have own: "issuer l = guard_identity m'" "map_of (leases m') (lease_name l) = Some r"
    using r(1) by (auto simp: own_record_def split: if_splits)
  let ?m = "release_reservations r (close_lease (lease_name l) r AbortedLease m')"
  have abort: "snd (abort l m') = snd (fire_ladders ?m)"
    using own r by (simp add: abort_def settlement_of_def case_prod_unfold Let_def)
  obtain ts where ts: "?m = m'\<lparr>leases := AList.update (lease_name l) (r\<lparr>lease_state := AbortedLease\<rparr>) (leases m'),
      reserved_units := reserved_units m' - reserve_units r, row_tallies := ts, shared_reserved := shared_reserved m' - shared_units r\<rparr>"
    "length ts = length (policy m')"
    "\<And>j. j < length (policy m') \<Longrightarrow> tally_used (ts ! j) = tally_used (row_tallies m' ! j) \<and> floor_used (ts ! j) = floor_used (row_tallies m' ! j)"
    using released_rows [OF inv own(2) r(3), of AbortedLease] by auto
  have "map (\<lambda>t. (tally_used t, floor_used t)) ts = map (\<lambda>t. (tally_used t, floor_used t)) (row_tallies m')"
    using ts(2,3) meter_invD(6) [OF inv] by (intro nth_equalityI) auto
  then have "spent ?m = spent m'" by (simp add: ts(1) spent_def)
  moreover have "open_leases ?m = filter (\<lambda>(i, _). i \<noteq> lease_name l) (open_leases m')"
    unfolding open_leases_def ts(1) using closed_leases [OF distinct_leases [OF inv] own(2), of "r\<lparr>lease_state := AbortedLease\<rparr>"] by simp
  moreover have "filter (\<lambda>(i, _). i \<noteq> lease_name l) (open_leases m') = open_leases m @ xs"
  proof -
    have eq: "open_leases m' = (open_leases m @ xs) @ [(lease_name l, r)]" using h by (simp add: holds_more_def)
    have "distinct (map fst (open_leases m'))" unfolding open_leases_def by (rule distinct_map_filter [OF distinct_leases [OF inv]])
    then have "lease_name l \<notin> fst ` set (open_leases m @ xs)" by (simp add: eq image_Un)
    then have "\<forall>q \<in> set (open_leases m @ xs). fst q \<noteq> lease_name l" by (metis image_eqI)
    then show ?thesis by (simp add: eq filter_id_conv case_prod_unfold)
  qed
  moreover have "meter_inv ?m" using release_inv [OF inv own(2) r(3)] by simp
  ultimately have "holds_more n m ?m xs" using h by (simp add: holds_more_def ts(1))
  then show ?thesis unfolding abort by (rule holds_fired)
qed

lemma open_sum_leases: "open_sum f m = alist_sum f (open_leases m)"
proof -
  have "alist_sum (held_by f) al = alist_sum f (filter (\<lambda>(_, r). lease_state r = OpenLease) al)" for al
    by (induction al) (auto simp: held_by_def)
  then show ?thesis by (simp add: open_sum_def open_leases_def)
qed

lemma holds_books:
  assumes "meter_inv m" "holds_more n m m' []"
  shows "books m' = books m"
proof -
  have h: "meter_inv m'" "spent m' = spent m" "policy m' = policy m" "open_leases m' = open_leases m"
    using assms(2) by (simp_all add: holds_more_def)
  have sum: "open_sum f m' = open_sum f m" for f by (simp add: open_sum_leases h(4))
  have len: "length (row_tallies m') = length (row_tallies m)" using meter_invD(6) [OF assms(1)] meter_invD(6) [OF h(1)] h(3) by simp
  have used: "map (\<lambda>t. (tally_used t, floor_used t)) (row_tallies m') = map (\<lambda>t. (tally_used t, floor_used t)) (row_tallies m)"
    using h(2) by (simp add: spent_def)
  have "map money (row_tallies m') = map money (row_tallies m)"
  proof (rule nth_equalityI)
    fix i assume i: "i < length (map money (row_tallies m'))"
    then have i': "i < length (policy m)" "i < length (policy m')" "i < length (row_tallies m)"
      using meter_invD(6) [OF assms(1)] len h(3) by simp_all
    have "(tally_used (row_tallies m' ! i), floor_used (row_tallies m' ! i)) = (tally_used (row_tallies m ! i), floor_used (row_tallies m ! i))"
      using used i i'(3) by (metis (no_types, lifting) length_map nth_map)
    then show "map money (row_tallies m') ! i = map money (row_tallies m) ! i"
      using meter_invD(7) [OF assms(1) i'(1)] meter_invD(7) [OF h(1) i'(2)] i i'(3) by (simp add: money_def tally_ok_def sum)
  qed (simp add: len)
  then show ?thesis using h(2,4) meter_invD(8,9) [OF assms(1)] meter_invD(8,9) [OF h(1)]
    by (simp add: books_def spent_def sum)
qed

lemma holds_start: "meter_inv m \<Longrightarrow> holds_more 0 m m []"
  by (simp add: holds_more_def)

text \<open>The lease of the line, and the reservation on the allocation, as they are taken.\<close>

lemma line_holds:
  assumes h: "holds_more n m m' xs" and seq: "next_lease_seq m + n < usize_max" and ok: "fst (line_call r purpose b m') = Ok adm"
  shows "\<exists>rec. own_record (admitted_lease adm) (snd (line_call r purpose b m')) = Some rec \<and> fresh_record r True (Some b) rec \<and>
    holds_more (Suc n) m (snd (line_call r purpose b m')) (xs @ [(lease_name (admitted_lease adm), rec)])"
  using holds_admitted [OF h seq] ok by (cases purpose) (auto simp: line_call_def admission_defs)

lemma allocation_holds:
  assumes h: "holds_more n m m' xs" and seq: "next_lease_seq m + n < usize_max" and ok: "fst (admit_reserve r m') = Ok adm"
  shows "\<exists>rec. own_record (admitted_lease adm) (snd (admit_reserve r m')) = Some rec \<and> fresh_record r True None rec \<and>
    holds_more (Suc n) m (snd (admit_reserve r m')) (xs @ [(lease_name (admitted_lease adm), rec)])"
  using holds_admitted [OF h seq] ok by (auto simp: admission_defs)

lemma take_line_holds:
  assumes inv: "meter_inv (meters s (line_meter s))" and seq: "next_lease_seq (meters s (line_meter s)) < usize_max"
    and taken: "take_line p c b nu nt unit rs purpose s = (Ok (l, u, k), s1)"
  shows "\<exists>m r. s1 = s\<lparr>meters := (meters s)(line_meter s := m)\<rparr> \<and> own_record l m = Some r \<and> fresh_record u k (Some b) r \<and>
    holds_more 1 (meters s (line_meter s)) m [(lease_name l, r)]"
proof (cases rule: take_line_cases [of p b c s nu nt unit rs purpose])
  case (free adm)
  then show ?thesis using taken holds_free [OF holds_start [OF inv] _ free(2)] seq by (auto simp: on_meter_def)
next
  case (paid r adm)
  then show ?thesis using taken line_holds [OF holds_start [OF inv] _ paid(2)] seq by (auto simp: on_meter_def)
qed (use taken in simp)


lemma moves_identity: "moves u k ms ms' \<Longrightarrow> guard_identity (ms' h) = guard_identity (ms h)"
  unfolding moves_def using run_identity by metis

lemma held_record:
  assumes "holds_more n m m' (xs @ [(lease_name l, r)])" "issuer l = guard_identity m'"
  shows "own_record l m' = Some r"
proof -
  have "(lease_name l, r) \<in> set (open_leases m')" using assms(1) by (simp add: holds_more_def)
  then have "map_of (leases m') (lease_name l) = Some r"
    using distinct_leases [of m'] assms(1) by (auto simp: open_leases_def holds_more_def)
  then show ?thesis using assms(2) by (simp add: own_record_def)
qed

text \<open>A refusal of the allocation leaves no hold on it, on any meter.\<close>

lemma refused_hold:
  assumes h: "holds_more n m (meters s h) xs" and seq: "next_lease_seq m + n < usize_max"
    and no: "fst (hold_allocation p nu nt rs resident s) = Err e"
  shows "\<exists>k \<le> Suc n. holds_more k m (meters (snd (hold_allocation p nu nt rs resident s)) h) xs"
proof (cases rule: hold_cases [of p nu nt rs resident s])
  case none
  then show ?thesis using no by simp
next
  case (refused e hits)
  then show ?thesis using h by (intro exI [of _ n]) simp
next
  case (spent e h' units adm)
  show ?thesis
  proof (cases "h = h'")
    case True
    obtain rec where rec: "own_record (admitted_lease adm) (snd (admit_reserve units (meters s h))) = Some rec" "fresh_record units True None rec"
      "holds_more (Suc n) m (snd (admit_reserve units (meters s h))) (xs @ [(lease_name (admitted_lease adm), rec)])"
      using allocation_holds [OF h seq] spent(1) True by blast
    then have "holds_more (Suc n) m (snd (abort (admitted_lease adm) (snd (admit_reserve units (meters s h))))) xs"
      by (intro holds_aborted) (auto simp: fresh_record_def)
    then show ?thesis using spent(2) True by auto
  next
    case False
    then show ?thesis using spent(2) h by (intro exI [of _ n]) simp
  qed
next
  case (held a hold units adm acc)
  then show ?thesis using no by simp
qed

lemma hold_keeps:
  assumes "fst (hold_allocation p nu nt rs resident s) = Err e"
  shows "account (snd (hold_allocation p nu nt rs resident s)) = account s" "shares (snd (hold_allocation p nu nt rs resident s)) = shares s"
    "calls (snd (hold_allocation p nu nt rs resident s)) = calls s" "paid (snd (hold_allocation p nu nt rs resident s)) = paid s"
    "receipts (snd (hold_allocation p nu nt rs resident s)) = receipts s"
  using assms by (cases rule: hold_cases [of p nu nt rs resident s]; simp)+

text \<open>Everything of a run but its receipts and the hits it reported.\<close>

definition untouched :: "run \<Rightarrow> run \<Rightarrow> bool" where
  "untouched s s' \<longleftrightarrow>
     (\<forall>h. books (meters s' h) = books (meters s h)) \<and> account s' = account s \<and> shares s' = shares s \<and>
     calls s' = calls s \<and> paid s' = paid s"

lemma refused_leases:
  assumes sound: "\<And>h. meter_inv (meters s h)" "\<And>h. next_lease_seq (meters s h) + 2 < usize_max"
    and no: "fst (take_leases n p c b nu nt unit rs purpose resident s) = Err e"
  shows "untouched s (snd (take_leases n p c b nu nt unit rs purpose resident s)) \<and>
    receipts (snd (take_leases n p c b nu nt unit rs purpose resident s)) = receipts s"
proof (cases rule: take_leases_cases [of p c b nu nt unit rs purpose s n resident])
  case (no_line e)
  then have "snd (take_leases n p c b nu nt unit rs purpose resident s) = s"
    by (cases rule: take_line_cases [of p b c s nu nt unit rs purpose]) auto
  then show ?thesis by (simp_all add: untouched_def)
next
  case (taken taken held s1 s2)
  then show ?thesis using no by simp_all
next
  case (no_allocation taken e s1)
  obtain l u k where t: "taken = (l, u, k)" by (metis prod_cases3)
  obtain m r where m: "s1 = s\<lparr>meters := (meters s)(line_meter s := m)\<rparr>" "own_record l m = Some r" "fresh_record u k (Some b) r"
    "holds_more 1 (meters s (line_meter s)) m [(lease_name l, r)]"
    using take_line_holds [OF sound(1) _ no_allocation(1) [unfolded t]] sound(2) [of "line_meter s"] by auto
  define s2 where "s2 = snd (hold_allocation p nu nt rs resident s1)"
  have keeps: "account s2 = account s" "shares s2 = shares s" "calls s2 = calls s" "paid s2 = paid s" "receipts s2 = receipts s"
    using hold_keeps [OF no_allocation(2)] m(1) by (simp_all add: s2_def)
  have end_state: "snd (take_leases n p c b nu nt unit rs purpose resident s) = snd (on_meter (line_meter s) (abort l) s2)"
    using no_allocation(3) t by (simp add: s2_def)
  have "books (meters (snd (on_meter (line_meter s) (abort l) s2)) h) = books (meters s h)" for h
  proof (cases "h = line_meter s")
    case True
    obtain j where j: "holds_more j (meters s h) (meters s2 h) ([] @ [(lease_name l, r)])"
      using refused_hold [where n = 1 and m = "meters s h" and h = h and xs = "[(lease_name l, r)]", OF _ _ no_allocation(2)] m(1,4) sound(2) [of h] True
      by (auto simp: s2_def)
    have "guard_identity (meters s2 h) = guard_identity m"
      using moves_identity [OF moves_hold [where s = s1], where h = h] m(1) True by (simp add: s2_def)
    then have "own_record l (meters s2 h) = Some r" using m(2) by (intro held_record [OF j]) (simp add: own_record_def split: if_splits)
    then have "holds_more j (meters s h) (snd (abort l (meters s2 h))) []"
      using m(3) by (intro holds_aborted [OF j]) (simp_all add: fresh_record_def)
    then show ?thesis using holds_books [OF sound(1)] True by simp
  next
    case False
    obtain j where "holds_more j (meters s h) (meters s2 h) []"
      using refused_hold [where n = 0 and m = "meters s h" and h = h and xs = "[]", OF _ _ no_allocation(2)] holds_start [OF sound(1)] m(1) sound(2) [of h] False
      by (auto simp: s2_def)
    then show ?thesis using holds_books [OF sound(1)] False by simp
  qed
  then show ?thesis
    unfolding end_state using keeps by (simp_all add: untouched_def)
qed

lemma refused_model:
  assumes sound: "\<And>h. meter_inv (meters s h)" "\<And>h. next_lease_seq (meters s h) + 2 < usize_max"
    and no: "fst (admit_model identity d n selector q o1 digest og s) = Err e"
  shows "untouched s (snd (admit_model identity d n selector q o1 digest og s)) \<and>
    receipts (snd (admit_model identity d n selector q o1 digest og s)) = receipts s"
  using no refused_leases [OF sound]
  by (auto simp: admit_model_def Let_def case_prod_unfold untouched_def split: sum.splits)

lemma refused_connector:
  assumes sound: "\<And>h. meter_inv (meters s h)" "\<And>h. next_lease_seq (meters s h) + 2 < usize_max"
    and no: "fst (admit_connector identity d n c quantity og s) = Err e"
  shows "untouched s (snd (admit_connector identity d n c quantity og s)) \<and>
    receipts (snd (admit_connector identity d n c quantity og s)) = receipts s"
  using no refused_leases [OF sound]
  by (auto simp: admit_connector_def Let_def case_prod_unfold untouched_def split: sum.splits if_splits)

lemma refusal_receipt:
  "fst res = Err e \<Longrightarrow> untouched s (snd res) \<and> receipts (snd res) = receipts s \<Longrightarrow>
   receipt_for n selector subj (fst res) model (snd res) = (Err e', s') \<Longrightarrow>
   e' = e \<and> untouched s s' \<and> receipts s' = receipts s @ [(n, Denied selector (Some subj) None e)]"
  by (cases e) (auto simp: receipt_for_def untouched_def Let_def)

end
