(* ===== verification/RunPermits.thy ===== *)
theory RunPermits
  imports RunMoves
begin

text \<open>
  What a run promises whoever pays for it (\<open>crates/oneiron/src/llm/run_admission\<close>): a refused call leaves
  nothing behind, a permit starts the one call it was given for, and what a settlement's receipt says is what
  the meters were charged.  The run may be interleaved with any calls of the other users of its meters.
\<close>


section \<open>Meters in service\<close>

text \<open>A meter that at most \<open>k\<close> of its own calls have moved since it was built.\<close>

definition served :: "nat \<Rightarrow> meter \<Rightarrow> bool" where
  "served k m \<longleftrightarrow>
     (\<exists>identity attempt limit reserve exhausted act rows cs.
        limit \<le> usize_max \<and> policy_fits rows \<and> list_all call_fits cs \<and> length cs \<le> k \<and>
        m = fold meter_step cs (new_meter identity attempt limit reserve exhausted act rows))"

lemma served_inv:
  assumes "served k m" "k < usize_max"
  shows "meter_inv m" "next_lease_seq m \<le> k"
  using assms new_meter_run unfolding served_def by (metis le_less_trans, metis le_less_trans le_trans)

lemma served_moves:
  assumes "served k (ms h)" "moves u n ms ms'"
  shows "served (k + n) (ms' h)"
proof -
  from assms(1) obtain identity attempt limit reserve exhausted act rows cs where
    m: "limit \<le> usize_max" "policy_fits rows" "list_all call_fits cs" "length cs \<le> k"
      "ms h = fold meter_step cs (new_meter identity attempt limit reserve exhausted act rows)"
    unfolding served_def by blast
  moreover obtain ds where "list_all call_fits ds" "length ds \<le> n" "ms' h = fold meter_step ds (ms h)"
    using assms(2) by (auto simp: moves_def)
  ultimately show ?thesis unfolding served_def
    by (intro exI [of _ identity] exI [of _ attempt] exI [of _ limit] exI [of _ reserve] exI [of _ exhausted] exI [of _ act]
        exI [of _ rows] exI [of _ "cs @ ds"]) simp
qed

lemma new_meter_served: "limit \<le> usize_max \<Longrightarrow> policy_fits rows \<Longrightarrow> served k (new_meter identity attempt limit reserve exhausted act rows)"
  unfolding served_def
  by (intro exI [of _ identity] exI [of _ attempt] exI [of _ limit] exI [of _ reserve] exI [of _ exhausted] exI [of _ act]
      exI [of _ rows] exI [of _ "[]"]) simp

text \<open>A run keeps its line.\<close>

lemma leases_line [simp]: "line_meter (snd (take_leases n p c b nu nt unit rs purpose resident s)) = line_meter s"
proof (cases rule: take_leases_cases [of p c b nu nt unit rs purpose s n resident])
  case (no_allocation taken e s1)
  then show ?thesis using line_kept(2) [of p nu nt rs resident s1] line_kept(1) [of p c b nu nt unit rs purpose s] by simp
next
  case (taken taken held s1 s2)
  then show ?thesis using line_kept(2) [of p nu nt rs resident s1] line_kept(1) [of p c b nu nt unit rs purpose s]
    by (simp split: option.split)
qed simp

lemma receipt_fields [simp]:
  "line_meter (snd (receipt_for n sel subj res m s)) = line_meter s" "meters (snd (receipt_for n sel subj res m s)) = meters s"
  by (auto simp: receipt_for_def Let_def split: sum.split run_denied.split option.split)

lemma admission_line [simp]:
  "line_meter (snd (admit_offer identity selector q o1 digest og s)) = line_meter s"
  "line_meter (snd (admit_paid identity c quantity og s)) = line_meter s"
proof -
  have "line_meter (snd (admit_model identity d n selector q o2 digest og s)) = line_meter s" for d n o2
    by (auto simp: admit_model_def Let_def case_prod_unfold split: sum.split)
  moreover have "line_meter (snd (admit_connector identity d n c quantity og s)) = line_meter s" for d n
    by (auto simp: admit_connector_def Let_def case_prod_unfold split: sum.split)
  ultimately show "line_meter (snd (admit_offer identity selector q o1 digest og s)) = line_meter s"
    "line_meter (snd (admit_paid identity c quantity og s)) = line_meter s"
    by (simp_all add: admit_offer_def admit_paid_def case_prod_unfold Let_def)
qed

lemma start_line [simp]: "line_meter (snd (start_dispatch l c s)) = line_meter s"
  by (auto simp: start_dispatch_def refuse_def Let_def case_prod_unfold split: sum.split)

lemma settle_line_line [simp]: "line_meter (snd (settle_line p c s)) = line_meter s"
  by (simp add: settle_line_def case_prod_unfold Let_def)

lemma settle_allocation_line [simp]: "line_meter (snd (settle_allocation p c started s)) = line_meter s"
  by (simp add: settle_allocation_def case_prod_unfold Let_def split: option.split)

lemma settle_line_kept [simp]: "line_meter (snd (settle_permit p out stream rep obs s)) = line_meter s"
  by (auto simp: settle_permit_def Let_def case_prod_unfold split: option.split sum.split)

lemma line_of_step [simp]: "line_meter (run_step identity c s) = line_meter s"
  by (cases c)
    (auto simp: gate_open_def refuse_def failed_pending_def finish_pending_def settle_unsent_def revise_def Let_def case_prod_unfold
      split: option.split sum.split)

lemma line_of_run [simp]: "line_meter (fold (run_step identity) cs s) = line_meter s"
  by (induction cs arbitrary: s) simp_all


text \<open>C23: a refused call leaves nothing behind.  When the admission of a model call or of a paid connector call
  is refused, wherever on the way, the books of every meter, the account with what its residents hold, the
  ledger and the permits of the run are as they were; the refusal is on one receipt.\<close>

theorem refused_call_holds_nothing:
  assumes "\<And>h. served k (meters s h)" "k + 2 < usize_max"
    and "admit_offer identity selector q o1 digest og s = (Err e, s') \<and> refusal = Denied selector (Some (model_text (request_model q))) None e \<or>
      admit_paid identity c quantity og s = (Err e, s') \<and> refusal = Denied None (Some (connector c)) None e"
  shows "untouched s s' \<and> receipts s' = receipts s @ [(revision s, refusal)]"
proof -
  have sound: "meter_inv (meters s h)" "next_lease_seq (meters s h) + 2 < usize_max" for h
    using served_inv [OF assms(1), of h] assms(2) by simp_all
  show ?thesis using assms(3)
  proof
    assume a: "admit_offer identity selector q o1 digest og s = (Err e, s') \<and> refusal = Denied selector (Some (model_text (request_model q))) None e"
    define res where "res = admit_model identity (terms s) (revision s) selector q (run_bound s o1) digest og s"
    have r: "receipt_for (revision s) selector (model_text (request_model q)) (fst res) (Some (request_model q)) (snd res) = (Err e, s')"
      using a by (simp add: admit_offer_def case_prod_unfold Let_def res_def)
    then obtain e' where e': "fst res = Err e'" by (cases "fst res") (auto simp: receipt_for_def)
    then show ?thesis using refusal_receipt [OF e' _ r] refused_model [OF sound] a unfolding res_def by blast
  next
    assume a: "admit_paid identity c quantity og s = (Err e, s') \<and> refusal = Denied None (Some (connector c)) None e"
    define res where "res = admit_connector identity (terms s) (revision s) c quantity og s"
    have r: "receipt_for (revision s) None (connector c) (fst res) None (snd res) = (Err e, s')"
      using a by (simp add: admit_paid_def case_prod_unfold Let_def res_def)
    then obtain e' where e': "fst res = Err e'" by (cases "fst res") (auto simp: receipt_for_def)
    then show ?thesis using refusal_receipt [OF e' _ r] refused_connector [OF sound] a unfolding res_def by blast
  qed
qed


section \<open>A permit and its leases\<close>

lemma held_member:
  assumes "holds_more n m m' xs" "(lease_name l, r) \<in> set xs" "issuer l = guard_identity m'"
  shows "own_record l m' = Some r"
proof -
  have "(lease_name l, r) \<in> set (open_leases m')" using assms(1,2) by (simp add: holds_more_def)
  then have "map_of (leases m') (lease_name l) = Some r"
    using distinct_leases [of m'] assms(1) by (auto simp: open_leases_def holds_more_def)
  then show ?thesis using assms(3) by (simp add: own_record_def)
qed

text \<open>What a permit was given: a lease of the line bound to its call, and one on the allocation bound to nothing.\<close>

definition holds_leases :: "budget_lease \<Rightarrow> nat \<Rightarrow> bool \<Rightarrow> dispatch_binding \<Rightarrow> allocation_hold option \<Rightarrow> run \<Rightarrow> bool" where
  "holds_leases l u k b held s \<longleftrightarrow>
     (\<exists>r. own_record l (meters s (line_meter s)) = Some r \<and> fresh_record u k (Some b) r) \<and>
     (case held of None \<Rightarrow> True
      | Some hold \<Rightarrow> \<exists>n r. own_record (hold_lease hold) (meters s (hold_meter hold)) = Some r \<and> fresh_record n True None r)"

lemma taken_leases:
  assumes sound: "\<And>h. meter_inv (meters s h)" "\<And>h. next_lease_seq (meters s h) + 2 < usize_max"
    and taken: "take_leases n p c b nu nt unit rs purpose resident s = (Ok ((l, u, k), held), s')"
  shows "holds_leases l u k b (map_option snd held) s'"
proof (cases rule: take_leases_cases [of p c b nu nt unit rs purpose s n resident])
  case (taken t held' s1 s2)
  with assms(3) have t: "take_line p c b nu nt unit rs purpose s = (Ok (l, u, k), s1)"
    "hold_allocation p nu nt rs resident s1 = (Ok held, s2)" "meters s' = meters s2" "line_meter s' = line_meter s2"
    by (auto split: option.splits)
  obtain m r where m: "s1 = s\<lparr>meters := (meters s)(line_meter s := m)\<rparr>" "own_record l m = Some r" "fresh_record u k (Some b) r"
    "holds_more 1 (meters s (line_meter s)) m [(lease_name l, r)]"
    using take_line_holds [OF sound(1) _ t(1)] sound(2) [of "line_meter s"] by auto
  show ?thesis
  proof (cases rule: hold_cases [of p nu nt rs resident s1])
    case (held a hold units adm acc)
    let ?h = "hold_meter hold"
    define xs where "xs = (if ?h = line_meter s then [(lease_name l, r)] else [])"
    have more: "holds_more 1 (meters s ?h) (meters s1 ?h) xs"
      using m(1,4) sound(1) [of ?h] by (auto simp: xs_def holds_more_def)
    obtain rh where rh: "own_record (hold_lease hold) (snd (admit_reserve units (meters s1 ?h))) = Some rh" "fresh_record units True None rh"
      "holds_more 2 (meters s ?h) (snd (admit_reserve units (meters s1 ?h))) (xs @ [(lease_name (hold_lease hold), rh)])"
      using allocation_holds [OF more _ held(1)] sound(2) [of ?h] held(2) by (auto simp: numeral_2_eq_2)
    have "guard_identity (meters s2 (line_meter s)) = guard_identity m"
      using moves_identity [OF moves_hold [where s = s1 and p = p and nu = nu and nt = nt and rs = rs and resident = resident],
        where h = "line_meter s"] t(2) m(1) by simp
    then have "issuer l = guard_identity (meters s2 (line_meter s))" using m(2) by (simp add: own_record_def split: if_splits)
    then have "own_record l (meters s2 (line_meter s)) = Some r"
      using held_member [OF rh(3), of l r] held(3) t(2) m(1,2) by (cases "?h = line_meter s") (auto simp: xs_def)
    then show ?thesis using held(3) t m(1,3) rh(1,2) by (auto simp: holds_leases_def)
  qed (use t m in \<open>auto simp: holds_leases_def\<close>)
qed (use taken in simp_all)

lemma permit_of_model:
  assumes "admit_model identity d n selector q o1 digest og s = (Ok p, s')"
  obtains held where "take_leases n (bound_payer o1) (custody o1) ((offer_dispatch identity o1)\<lparr>request_digest := digest\<rparr>)
      (line_reserve (budget d)) tokens_unit (line_unit (budget d)) (rates o1) (Some (purpose_of (envelope q))) (resident_of og s) s =
      (Ok ((permit_lease p, reserved_by_permit (facts p), permit_metered p), held), s')" "permit_allocation p = map_option snd held"
proof -
  define t where "t = take_leases n (bound_payer o1) (custody o1) ((offer_dispatch identity o1)\<lparr>request_digest := digest\<rparr>)
      (line_reserve (budget d)) tokens_unit (line_unit (budget d)) (rates o1) (Some (purpose_of (envelope q))) (resident_of og s) s"
  from assms obtain l u k held s1 where "t = (Ok ((l, u, k), held), s1)"
    by (cases t) (auto simp: admit_model_def Let_def t_def [symmetric] split: sum.splits)
  with assms show thesis by (intro that [of held]) (auto simp: admit_model_def allocation_facts_def Let_def t_def [symmetric] split: sum.splits)
qed

lemma permit_of_connector:
  assumes "admit_connector identity d n c quantity og s = (Ok p, s')"
  obtains held where "take_leases n (connector_payer c) (connector_custody c) (connector_dispatch identity c)
      (unit_cost c * quantity) (cost_unit c) (line_unit (budget d)) (connector_rates c) None (resident_of og s) s =
      (Ok ((permit_lease p, reserved_by_permit (facts p), permit_metered p), held), s')" "permit_allocation p = map_option snd held"
proof -
  define t where "t = take_leases n (connector_payer c) (connector_custody c) (connector_dispatch identity c)
      (unit_cost c * quantity) (cost_unit c) (line_unit (budget d)) (connector_rates c) None (resident_of og s) s"
  from assms obtain l u k held s1 where "t = (Ok ((l, u, k), held), s1)"
    by (cases t) (auto simp: admit_connector_def Let_def t_def [symmetric] split: sum.splits if_splits)
  with assms show thesis by (intro that [of held]) (auto simp: admit_connector_def allocation_facts_def Let_def t_def [symmetric] split: sum.splits if_splits)
qed


text \<open>The binding a call is admitted for, and the permit its admission gives.\<close>

definition admits :: "(bound_service \<Rightarrow> string) \<Rightarrow> run_call \<Rightarrow> run \<Rightarrow> run_permit \<Rightarrow> dispatch_binding \<Rightarrow> run \<Rightarrow> bool" where
  "admits identity c s p b s' \<longleftrightarrow>
     (case c of
        RAdmit selector q o1 digest og \<Rightarrow>
          admit_offer identity selector q o1 digest og s = (Ok p, s') \<and> b = (offer_dispatch identity (run_bound s o1))\<lparr>request_digest := digest\<rparr>
      | RAdmitPaid pc quantity og \<Rightarrow> admit_paid identity pc quantity og s = (Ok p, s') \<and> b = connector_dispatch identity pc
      | _ \<Rightarrow> False)"

lemma receipt_Ok:
  assumes "receipt_for n sel subj res m s = (Ok p, s')"
  shows "res = Ok p" "meters s' = meters s" "line_meter s' = line_meter s"
    "map_of (calls s') (lease_name (permit_lease p)) \<noteq> None \<or> lease_name (permit_lease p) \<in> paid s'"
  using assms by (auto simp: receipt_for_def update_conv' split: sum.splits option.splits)

lemma admits_leases:
  assumes a: "admits identity c s p b s'"
  obtains n pay key nu nt unit rs purpose resident held s2 where
    "take_leases n pay key b nu nt unit rs purpose resident s =
       (Ok ((permit_lease p, reserved_by_permit (facts p), permit_metered p), held), s2)"
    "permit_allocation p = map_option snd held" "meters s' = meters s2" "line_meter s' = line_meter s2"
    "map_of (calls s') (lease_name (permit_lease p)) \<noteq> None \<or> lease_name (permit_lease p) \<in> paid s'"
proof (cases c)
  case (RAdmit selector q o1 digest og)
  with a have ok: "admit_offer identity selector q o1 digest og s = (Ok p, s')"
    and b: "b = (offer_dispatch identity (run_bound s o1))\<lparr>request_digest := digest\<rparr>" by (simp_all add: admits_def)
  define res where "res = admit_model identity (terms s) (revision s) selector q (run_bound s o1) digest og s"
  have r: "receipt_for (revision s) selector (model_text (request_model q)) (fst res) (Some (request_model q)) (snd res) = (Ok p, s')"
    using ok by (simp add: admit_offer_def case_prod_unfold Let_def res_def)
  have "admit_model identity (terms s) (revision s) selector q (run_bound s o1) digest og s = (Ok p, snd res)"
    using receipt_Ok(1) [OF r] by (simp add: res_def prod_eq_iff)
  from permit_of_model [OF this] show thesis using that receipt_Ok(2-4) [OF r] unfolding b by metis
next
  case (RAdmitPaid pc quantity og)
  with a have ok: "admit_paid identity pc quantity og s = (Ok p, s')" and b: "b = connector_dispatch identity pc" by (simp_all add: admits_def)
  define res where "res = admit_connector identity (terms s) (revision s) pc quantity og s"
  have r: "receipt_for (revision s) None (connector pc) (fst res) None (snd res) = (Ok p, s')"
    using ok by (simp add: admit_paid_def case_prod_unfold Let_def res_def)
  have "admit_connector identity (terms s) (revision s) pc quantity og s = (Ok p, snd res)"
    using receipt_Ok(1) [OF r] by (simp add: res_def prod_eq_iff)
  from permit_of_connector [OF this] show thesis using that receipt_Ok(2-4) [OF r] unfolding b by metis
qed (use a in \<open>simp_all add: admits_def\<close>)

lemma admitted_holds:
  assumes sound: "\<And>h. served k (meters s h)" "k + 2 < usize_max" and a: "admits identity c s p b s'"
  shows "holds_leases (permit_lease p) (reserved_by_permit (facts p)) (permit_metered p) b (permit_allocation p) s'"
    "map_of (calls s') (lease_name (permit_lease p)) \<noteq> None \<or> lease_name (permit_lease p) \<in> paid s'"
    "moves u 4 (meters s) (meters s')" "line_meter s' = line_meter s"
proof -
  have inv: "meter_inv (meters s h)" "next_lease_seq (meters s h) + 2 < usize_max" for h
    using served_inv [OF sound(1), of h] sound(2) by simp_all
  obtain n pay key nu nt unit rs purpose resident held s2 where
    h: "take_leases n pay key b nu nt unit rs purpose resident s =
       (Ok ((permit_lease p, reserved_by_permit (facts p), permit_metered p), held), s2)"
    "permit_allocation p = map_option snd held" "meters s' = meters s2" "line_meter s' = line_meter s2"
    and reg: "map_of (calls s') (lease_name (permit_lease p)) \<noteq> None \<or> lease_name (permit_lease p) \<in> paid s'"
    by (rule admits_leases [OF a])
  show "map_of (calls s') (lease_name (permit_lease p)) \<noteq> None \<or> lease_name (permit_lease p) \<in> paid s'" by (rule reg)
  show "holds_leases (permit_lease p) (reserved_by_permit (facts p)) (permit_metered p) b (permit_allocation p) s'"
    using taken_leases [OF inv h(1)] unfolding holds_leases_def h(2-4) .
  show "moves u 4 (meters s) (meters s')" using moves_leases [of u s n pay key b nu nt unit rs purpose resident] h by simp
  show "line_meter s' = line_meter s" using leases_line [of n pay key b nu nt unit rs purpose resident s] h by simp
qed

lemma started_at:
  assumes "fst (start_dispatch l c s) = Ok u"
  shows "fst (begin_dispatch l c (meters s (line_meter s))) = Ok ()"
    "meters (snd (start_dispatch l c s)) (line_meter s) = snd (begin_dispatch l c (meters s (line_meter s)))"
  using assms by (auto simp: start_dispatch_def Let_def case_prod_unfold split: sum.splits if_splits)

lemma not_started:
  assumes "own_record l (meters s (line_meter s)) = Some r" "was_dispatched r"
  shows "fst (start_dispatch l c s) \<noteq> Ok u"
  using assms begun [of l c "meters s (line_meter s)"] started_at(1) [of l c s u] by fastforce

lemma bound_starts:
  assumes "own_record l m = Some r" "lease_state r = OpenLease" "\<not> was_dispatched r" "lease_binding r = Some b"
  shows "fst (begin_dispatch l b m) = Ok ()"
  using assms by (auto simp: own_record_def begin_dispatch_def split: if_splits)


text \<open>C22: a permit starts only its call.  A call the run admitted, of a model or of a connector, can start there and then for
  the binding it was admitted with.  Whatever happens before its permit is used, a start it is granted is for that
  very binding, offer, route, place and request digest; and after it, unless the request is found never to have been
  sent, the permit starts nothing again.\<close>

theorem permit_starts_only_its_call:
  assumes "\<And>h. served k (meters s h)" "k + 4 * length (cs @ cs') + 5 < usize_max"
    and admitted: "admits identity call s p b s1"
    and s2: "s2 = fold (run_step identity) cs s1" and s3: "s3 = fold (run_step identity) cs' (snd (start_dispatch (permit_lease p) c s2))"
    and fits: "list_all run_call_fits (cs @ cs')" and sent: "\<not> list_ex unsends cs'"
  shows "fst (start_dispatch (permit_lease p) b s1) = Ok () \<and>
    (fst (start_dispatch (permit_lease p) c s2) = Ok () \<longrightarrow> c = b \<and> fst (start_dispatch (permit_lease p) c' s3) \<noteq> Ok ())"
proof -
  let ?l = "permit_lease p" and ?L = "line_meter s"
  note holds = admitted_holds [OF assms(1) _ admitted]
  have lines: "line_meter s1 = ?L" "line_meter s2 = ?L" "line_meter s3 = ?L" using holds(4) assms(2) by (simp_all add: s2 s3)
  obtain r where r: "own_record ?l (meters s1 ?L) = Some r" "fresh_record (reserved_by_permit (facts p)) (permit_metered p) (Some b) r"
    using holds(1) assms(2) lines(1) by (auto simp: holds_leases_def)
  have here: "fst (start_dispatch ?l b s1) = Ok ()"
    using holds(2) bound_starts [OF r(1)] r(2) assms(2) lines(1)
    by (auto simp: start_dispatch_def fresh_record_def case_prod_unfold Let_def on_meter_def split: sum.split)
  have one: "moves False 4 (meters s) (meters s1)" using holds(3) assms(2) by simp
  have two: "moves True (4 * length cs) (meters s1) (meters s2)" unfolding s2 by (rule run_moves) (use fits in simp_all)
  have inv0: "meter_inv (meters s ?L)" "next_lease_seq (meters s ?L) \<le> k" using served_inv [OF assms(1), of ?L] assms(2) by auto
  have inv1: "meter_inv (meters s1 ?L)" "next_lease_seq (meters s1 ?L) \<le> k + 4" using moves_inv [OF one inv0(1)] inv0(2) assms(2) by auto
  have inv2: "meter_inv (meters s2 ?L)" "next_lease_seq (meters s2 ?L) \<le> k + 4 + 4 * length cs"
    using moves_inv [OF two inv1(1)] inv1(2) assms(2) by auto
  obtain r2 where r2: "own_record ?l (meters s2 ?L) = Some r2" "later True r r2"
    using moves_record [OF two inv1(1) _ r(1)] inv1(2) assms(2) by auto
  have "c = b \<and> fst (start_dispatch ?l c' s3) \<noteq> Ok ()" if start: "fst (start_dispatch ?l c s2) = Ok ()"
  proof -
    note at = started_at [OF start, unfolded lines(2)]
    obtain r' where r': "own_record ?l (meters s2 ?L) = Some r'" "lease_state r' = OpenLease" "lease_binding r' = Some c"
      "own_record ?l (snd (begin_dispatch ?l c (meters s2 ?L))) = Some (r'\<lparr>was_dispatched := True\<rparr>)"
      by (rule begun [OF at(1)])
    have "c = b" using r2 r'(1,3) r(2) by (simp add: later_def fresh_record_def)
    moreover have three: "moves False (Suc 0) (meters s2) (meters (snd (start_dispatch ?l c s2)))" by (rule moves_start)
    have inv: "meter_inv (meters (snd (start_dispatch ?l c s2)) ?L)" "next_lease_seq (meters (snd (start_dispatch ?l c s2)) ?L) \<le> k + 5 + 4 * length cs"
      using moves_inv [OF three inv2(1)] inv2(2) assms(2) by auto
    have four: "moves False (4 * length cs') (meters (snd (start_dispatch ?l c s2))) (meters s3)"
      unfolding s3 by (rule run_moves) (use fits sent in simp_all)
    obtain r3 where "own_record ?l (meters s3 ?L) = Some r3" "later False (r'\<lparr>was_dispatched := True\<rparr>) r3"
      using moves_record [OF four inv(1)] r'(4) inv(2) at(2) assms(2) by auto
    then have "fst (start_dispatch ?l c' s3) \<noteq> Ok ()" using r'(2) lines(3) by (intro not_started) (auto simp: later_def)
    ultimately show ?thesis by blast
  qed
  with here show ?thesis by blast
qed

section \<open>Settlement\<close>

lemma settled_usage_exact:
  assumes "own_record l m = Some r" "lease_state r = OpenLease"
  shows "fst (settle_usage l n m) \<noteq> Err e"
    "used_units (snd (settle_usage l n m)) = (if metered r then sat_add (used_units m) n else used_units m)"
    "reserved_units (snd (settle_usage l n m)) = reserved_units m - reserve_units r"
    "\<exists>r'. own_record l (snd (settle_usage l n m)) = Some r' \<and> lease_state r' \<noteq> OpenLease \<and> was_dispatched r' = was_dispatched r"
proof -
  let ?m = "release_reservations r (close_lease (lease_name l) r (SettledLease (sat_add (used_units m) n)) m)"
  have own: "issuer l = guard_identity m" "map_of (leases m) (lease_name l) = Some r"
    using assms(1) by (auto simp: own_record_def split: if_splits)
  have eq: "settle_usage l n m = settlement_of (if metered r then apply_usage r n (?m\<lparr>used_units := sat_add (used_units m) n\<rparr>) else ?m)"
    using own assms(2) by (simp add: settle_usage_def Let_def)
  have rel: "used_units ?m = used_units m" "reserved_units ?m = reserved_units m - reserve_units r"
    by (simp_all add: release_reservations_def fold_at_row fold_at_pairs close_lease_def)
  have app: "used_units (apply_usage r n x) = used_units x" "reserved_units (apply_usage r n x) = reserved_units x" for x
    using applied_fields [of r n x] by auto
  show "fst (settle_usage l n m) \<noteq> Err e" by (simp add: eq settlement_of_def case_prod_unfold Let_def)
  show "used_units (snd (settle_usage l n m)) = (if metered r then sat_add (used_units m) n else used_units m)"
    "reserved_units (snd (settle_usage l n m)) = reserved_units m - reserve_units r"
    by (simp_all add: eq settlement_of_def case_prod_unfold Let_def app rel)
  show "\<exists>r'. own_record l (snd (settle_usage l n m)) = Some r' \<and> lease_state r' \<noteq> OpenLease \<and> was_dispatched r' = was_dispatched r"
    using own assms by (simp add: own_record_def settle_usage_leases update_conv') (simp add: eq settlement_of_def case_prod_unfold Let_def own_record_def)
qed

lemma aborted_exact:
  assumes "own_record l m = Some r" "lease_state r = OpenLease" "\<not> was_dispatched r"
  shows "fst (abort l m) \<noteq> Err e" "used_units (snd (abort l m)) = used_units m"
    "reserved_units (snd (abort l m)) = reserved_units m - reserve_units r"
    "\<exists>r'. own_record l (snd (abort l m)) = Some r' \<and> lease_state r' \<noteq> OpenLease \<and> was_dispatched r' = was_dispatched r"
proof -
  have own: "issuer l = guard_identity m" "map_of (leases m) (lease_name l) = Some r"
    using assms(1) by (auto simp: own_record_def split: if_splits)
  have eq: "abort l m = settlement_of (release_reservations r (close_lease (lease_name l) r AbortedLease m))"
    using own assms(2,3) by (simp add: abort_def)
  have rel: "used_units (release_reservations r (close_lease n r st m)) = used_units m"
    "reserved_units (release_reservations r (close_lease n r st m)) = reserved_units m - reserve_units r" for n st
    by (simp_all add: release_reservations_def fold_at_row fold_at_pairs close_lease_def)
  show "fst (abort l m) \<noteq> Err e" "used_units (snd (abort l m)) = used_units m"
    "reserved_units (snd (abort l m)) = reserved_units m - reserve_units r"
    by (simp_all add: eq settlement_of_def case_prod_unfold Let_def rel)
  show "\<exists>r'. own_record l (snd (abort l m)) = Some r' \<and> lease_state r' \<noteq> OpenLease \<and> was_dispatched r' = was_dispatched r"
    using own assms by (simp add: eq own_record_def update_conv')
qed

lemma abort_started:
  assumes "own_record l m = Some r" "lease_state r = OpenLease" "was_dispatched r"
  shows "abort l m = settle_usage l (reserve_units r) m"
  using assms by (auto simp: abort_def own_record_def split: if_splits)


lemma sat_add_room: "sat_add a b < usize_max \<Longrightarrow> sat_add a b = a + b"
  by (auto simp: sat_add_def)

lemma open_reserved:
  assumes "meter_inv m" "own_record l m = Some r" "lease_state r = OpenLease"
  shows "reserve_units r \<le> reserved_units m"
proof -
  have "map_of (leases m) (lease_name l) = Some r" using assms(2) by (auto simp: own_record_def split: if_splits)
  then have "held_by reserve_units r \<le> open_sum reserve_units m" unfolding open_sum_def by (rule alist_sum_ge)
  then show ?thesis using meter_invD(8) [OF assms(1)] assms(3) by (simp add: held_by_def)
qed

lemma line_settled:
  assumes r: "own_record (permit_lease p) (meters s (line_meter s)) = Some r" "lease_state r = OpenLease"
      "reserve_units r = reserved_by_permit (facts p)" "metered r = permit_metered p"
    and settle: "settle_line p c s = ((settled, started, units), s')" and room: "used_units (meters s' (line_meter s)) < usize_max"
  shows "(\<exists>st. settled = Ok st) \<and> started = was_dispatched r \<and>
    used_units (meters s' (line_meter s)) = used_units (meters s (line_meter s)) + (if permit_metered p then units else 0) \<and>
    reserved_units (meters s' (line_meter s)) = reserved_units (meters s (line_meter s)) - reserve_units r \<and>
    lease_open (permit_lease p) (meters s' (line_meter s)) = Some False \<and>
    (\<exists>m. s' = s\<lparr>meters := (meters s)(line_meter s := m)\<rparr>)"
proof -
  let ?m = "meters s (line_meter s)" and ?l = "permit_lease p"
  define x where "x = (case usage_in c (permit_unit (facts p)) (permit_rates p) (reserved_by_permit (facts p)) of
      Some u \<Rightarrow> settle_usage ?l u ?m | None \<Rightarrow> abort ?l ?m)"
  have eq: "settled = fst x" "s' = s\<lparr>meters := (meters s)(line_meter s := snd x)\<rparr>" "started = (dispatched ?l (snd x) = Some True)"
    "units = (case usage_in c (permit_unit (facts p)) (permit_rates p) (reserved_by_permit (facts p)) of Some u \<Rightarrow> u
       | None \<Rightarrow> if started then reserved_by_permit (facts p) else 0)"
    using settle by (auto simp: settle_line_def Let_def case_prod_unfold on_meter_def x_def split: option.splits)
  consider (usage) u where "usage_in c (permit_unit (facts p)) (permit_rates p) (reserved_by_permit (facts p)) = Some u" "x = settle_usage ?l u ?m"
    | (failed) "usage_in c (permit_unit (facts p)) (permit_rates p) (reserved_by_permit (facts p)) = None" "was_dispatched r"
        "x = settle_usage ?l (reserve_units r) ?m"
    | (unsent) "usage_in c (permit_unit (facts p)) (permit_rates p) (reserved_by_permit (facts p)) = None" "\<not> was_dispatched r" "x = abort ?l ?m"
    using abort_started [OF r(1,2)] by (auto simp: x_def split: option.splits)
  then show ?thesis
  proof cases
    case (usage u)
    then show ?thesis using settled_usage_exact [OF r(1,2), of u] room r(4) eq sat_add_room [of "used_units ?m" u]
      by (cases "fst x") (auto simp: dispatched_def lease_open_def)
  next
    case failed
    then show ?thesis using settled_usage_exact [OF r(1,2), of "reserve_units r"] room r(3,4) eq sat_add_room [of "used_units ?m" "reserve_units r"]
      by (cases "fst x") (auto simp: dispatched_def lease_open_def)
  next
    case unsent
    then show ?thesis using aborted_exact [OF r(1,2)] eq
      by (cases "fst x") (auto simp: dispatched_def lease_open_def)
  qed
qed

lemma allocation_settled:
  assumes hold: "permit_allocation p = Some hold" and r: "own_record (hold_lease hold) (meters s (hold_meter hold)) = Some r"
      "lease_state r = OpenLease" "metered r" "\<not> was_dispatched r"
    and room: "used_units (meters (snd (settle_allocation p c started s)) (hold_meter hold)) < usize_max"
  shows "\<exists>u st m. fst (settle_allocation p c started s) = Some (u, Ok st) \<and>
    snd (settle_allocation p c started s) = s\<lparr>meters := (meters s)(hold_meter hold := m)\<rparr> \<and>
    used_units m = used_units (meters s (hold_meter hold)) + u \<and> lease_open (hold_lease hold) m = Some False"
proof -
  let ?m = "meters s (hold_meter hold)" and ?l = "hold_lease hold"
  have reserved: "reserved_for ?l ?m = Some (reserve_units r)" using r(1) by (auto simp: reserved_for_def own_record_def split: if_splits)
  define usage where "usage = usage_in c (hold_unit hold) (permit_rates p) (reserve_units r)"
  define x where "x = (case usage of Some u \<Rightarrow> settle_usage ?l u ?m | None \<Rightarrow> if started then settle_usage ?l (reserve_units r) ?m else abort ?l ?m)"
  define u where "u = (case usage of Some u \<Rightarrow> u | None \<Rightarrow> if started then reserve_units r else 0)"
  have eq: "fst (settle_allocation p c started s) = Some (u, fst x)"
    "snd (settle_allocation p c started s) = s\<lparr>meters := (meters s)(hold_meter hold := snd x)\<rparr>"
    using hold reserved
    by (auto simp: settle_allocation_def Let_def case_prod_unfold on_meter_def usage_def [symmetric] x_def u_def settle_reserved_def
        split: option.split)
  have "used_units (snd x) < usize_max" using room by (simp add: eq(2))
  consider (usage) "x = settle_usage ?l u ?m" | (unsent) "x = abort ?l ?m" "u = 0"
    by (cases usage; cases started) (auto simp: x_def u_def)
  then have "(\<exists>st. fst x = Ok st) \<and> used_units (snd x) = used_units ?m + u \<and> lease_open ?l (snd x) = Some False"
  proof cases
    case usage
    then show ?thesis using settled_usage_exact [OF r(1,2), of u] \<open>used_units (snd x) < usize_max\<close> r(3) sat_add_room [of "used_units ?m" u]
      by (cases "fst x") (auto simp: lease_open_def)
  next
    case unsent
    then show ?thesis using aborted_exact [OF r(1,2,4)] by (cases "fst x") (auto simp: lease_open_def)
  qed
  then show ?thesis using eq by auto
qed


text \<open>A permit whose leases are open as it was given them.\<close>

definition permit_open :: "run_permit \<Rightarrow> run \<Rightarrow> bool" where
  "permit_open p s \<longleftrightarrow>
     lease_open (permit_lease p) (meters s (line_meter s)) = Some True \<and>
     (case permit_allocation p of None \<Rightarrow> True
      | Some hold \<Rightarrow> hold_meter hold \<noteq> line_meter s \<and> lease_open (hold_lease hold) (meters s (hold_meter hold)) = Some True)"

lemma open_permit_records:
  assumes sound: "\<And>h. served k (meters s h)" "k + 4 * length cs + 5 < usize_max" and a: "admits identity call s p b s1"
    and s2: "s2 = fold (run_step identity) cs s1" and fits: "list_all run_call_fits cs" and op: "permit_open p s2"
  shows "line_meter s2 = line_meter s" "\<And>h. meter_inv (meters s2 h)"
    "\<exists>r. own_record (permit_lease p) (meters s2 (line_meter s2)) = Some r \<and> lease_state r = OpenLease \<and>
       reserve_units r = reserved_by_permit (facts p) \<and> metered r = permit_metered p"
    "permit_allocation p = Some hold \<Longrightarrow>
       \<exists>r. own_record (hold_lease hold) (meters s2 (hold_meter hold)) = Some r \<and> lease_state r = OpenLease \<and> metered r \<and> \<not> was_dispatched r"
proof -
  have le: "k + 2 < usize_max" using sound(2) by simp
  note holds = admitted_holds [OF sound(1) le a]
  have one: "moves False 4 (meters s) (meters s1)" by (rule holds(3))
  have two: "moves True (4 * length cs) (meters s1) (meters s2)" unfolding s2 by (rule run_moves) (use fits in simp_all)
  have inv1: "meter_inv (meters s1 h)" "next_lease_seq (meters s1 h) \<le> k + 4" for h
  proof -
    have h: "meter_inv (meters s h)" "next_lease_seq (meters s h) \<le> k" using served_inv [OF sound(1), of h] sound(2) by auto
    show "meter_inv (meters s1 h)" "next_lease_seq (meters s1 h) \<le> k + 4" using moves_inv [OF one h(1)] h(2) sound(2) by auto
  qed
  show "\<And>h. meter_inv (meters s2 h)"
  proof -
    fix h
    show "meter_inv (meters s2 h)" using moves_inv(1) [OF two inv1(1)] inv1(2) [of h] sound(2) by auto
  qed
  show line: "line_meter s2 = line_meter s" using holds(4) by (simp add: s2)
  have kept: "\<exists>r'. own_record l (meters s2 h) = Some r' \<and> later True r r'" if "own_record l (meters s1 h) = Some r" for l h r
    using moves_record [OF two inv1(1) _ that] inv1(2) [of h] sound(2) by auto
  obtain r where "own_record (permit_lease p) (meters s1 (line_meter s1)) = Some r"
    "fresh_record (reserved_by_permit (facts p)) (permit_metered p) (Some b) r"
    using holds(1) by (auto simp: holds_leases_def)
  then show "\<exists>r. own_record (permit_lease p) (meters s2 (line_meter s2)) = Some r \<and> lease_state r = OpenLease \<and>
       reserve_units r = reserved_by_permit (facts p) \<and> metered r = permit_metered p"
    using kept [of "permit_lease p" "line_meter s1" r] op holds(4) line
    by (auto simp: permit_open_def lease_open_def fresh_record_def later_def)
  assume hold: "permit_allocation p = Some hold"
  then obtain n r where "own_record (hold_lease hold) (meters s1 (hold_meter hold)) = Some r" "fresh_record n True None r"
    using holds(1) by (auto simp: holds_leases_def)
  then show "\<exists>r. own_record (hold_lease hold) (meters s2 (hold_meter hold)) = Some r \<and> lease_state r = OpenLease \<and> metered r \<and> \<not> was_dispatched r"
    using kept [of "hold_lease hold" "hold_meter hold" r] op hold
    by (auto simp: permit_open_def lease_open_def fresh_record_def later_def)
qed

text \<open>The receipt of a settlement, from its two settlements.\<close>

lemma settlement_parts:
  assumes "settle_permit p out stream rep obs s = (res, s')"
  obtains settled started units s1 allocation s2 row where
    "settle_line p (outcome_charge out (native_unit p) (native_cost p) (reserve_native p)) (s\<lparr>paid := paid s - {lease_name (permit_lease p)}\<rparr>) =
       ((settled, started, units), s1)"
    "settle_allocation p (outcome_charge out (native_unit p) (native_cost p) (reserve_native p)) started s1 = (allocation, s2)"
    "receipts s' = receipts s2 @ [(permit_revision p, Settled row)]" "meters s' = meters s2"
    "settled_lease row = lease_name (permit_lease p)" "settled_dispatched row = started"
    "settled_units row = (if permit_metered p then units else 0)" "allocation_charge row = map_option fst allocation"
    "settled_error row = (case settled of Inl e \<Rightarrow> Some e | Inr _ \<Rightarrow> None)"
    "allocation_error row = (case allocation of Some (_, Inl e) \<Rightarrow> Some e | _ \<Rightarrow> None)"
    "case settled of Inl e \<Rightarrow> True | Inr st \<Rightarrow> allocation_error row = None \<longrightarrow> res = Ok st"
proof -
  let ?c = "outcome_charge out (native_unit p) (native_cost p) (reserve_native p)"
  obtain settled started units s1 where l: "settle_line p ?c (s\<lparr>paid := paid s - {lease_name (permit_lease p)}\<rparr>) = ((settled, started, units), s1)"
    by (metis prod.exhaust)
  obtain allocation s2 where a: "settle_allocation p ?c started s1 = (allocation, s2)" by (metis prod.exhaust)
  show thesis
    by (rule that [OF l a, where row = "\<lparr>settled_lease = lease_name (permit_lease p), settled_dispatched = started,
        settled_usage = (case out of Answered u \<Rightarrow> Some (input_total u, output_total u) | _ \<Rightarrow> None),
        service_quantity = (case out of Used q \<Rightarrow> Some q | UsedCounted q \<Rightarrow> Some q | _ \<Rightarrow> None),
        settled_stream = stream, inference_calls = settled_inference_calls rep obs,
        settled_overage = overage_of out (if permit_metered p then units else 0) (reserved_by_permit (facts p)),
        settled_units = (if permit_metered p then units else 0), settled_unit = permit_unit (facts p), allocation_charge = map_option fst allocation,
        settled_error = (case settled of Inl e \<Rightarrow> Some e | Inr _ \<Rightarrow> None),
        allocation_error = (case allocation of Some (_, Inl e) \<Rightarrow> Some e | _ \<Rightarrow> None)\<rparr>"])
      (use assms l a in \<open>auto simp: settle_permit_def Let_def case_prod_unfold split: option.splits sum.splits\<close>)
qed


lemma allocation_elsewhere:
  "(\<And>hold. permit_allocation p = Some hold \<Longrightarrow> hold_meter hold \<noteq> h) \<Longrightarrow> meters (snd (settle_allocation p c started s)) h = meters s h"
  by (cases "permit_allocation p") (auto simp: settle_allocation_def Let_def case_prod_unfold)



section \<open>A run\<close>

text \<open>A run with a line of 1000 tokens, no account, and a connector call of 100 tokens that the host or the customer's key pays.\<close>

definition sample_run :: run where
  "sample_run = new_run 7 ''r'' (undeclared \<lparr>line_limit = 1000, line_reserve = 100, line_unit = tokens_unit\<rparr>)
     (\<lambda>h. with_reserve_units h ''r'' 1000 100 Suspend) None \<lparr>ledger_rows = [], readable = True, writable = True\<rparr>"

definition sample_connector :: "payer \<Rightarrow> paid_connector" where
  "sample_connector pay = \<lparr>connector = ''web'', connector_route = \<lparr>route_adapter = ''web'', route_origin = ''host''\<rparr>, connector_locality = ThirdParty,
     connector_payer = pay, connector_credential = None, connector_revision = None, connector_custody = T0, unit_cost = 1,
     cost_unit = tokens_unit, connector_rates = []\<rparr>"

definition sample_origin :: call_origin where "sample_origin = \<lparr>origin_sources = None, origin_initiator = None\<rparr>"
definition sample_identity :: "bound_service \<Rightarrow> string" where "sample_identity b = ''id''"
definition sample_paid :: "payer \<Rightarrow> run_call" where "sample_paid pay = RAdmitPaid (sample_connector pay) 100 sample_origin"

lemma sample_meters: "meters sample_run = (\<lambda>h. with_reserve_units h ''r'' 1000 100 Suspend)" "line_meter sample_run = 7"
  "account sample_run = None" "memory_work sample_run = False" "attribution sample_run = None"
  "budget (terms sample_run) = \<lparr>line_limit = 1000, line_reserve = 100, line_unit = tokens_unit\<rparr>" "is_declared (terms sample_run) = False"
  by (auto simp: sample_run_def new_run_def start_run_def undeclared_def)

lemma sample_connector_fields:
  "connector (sample_connector pay) = ''web''" "connector_payer (sample_connector pay) = pay" "connector_custody (sample_connector pay) = T0"
  "unit_cost (sample_connector pay) = 1" "cost_unit (sample_connector pay) = tokens_unit" "connector_rates (sample_connector pay) = []"
  "bind_locality (connector_dispatch sample_identity (sample_connector pay)) = ThirdParty"
  by (simp_all add: sample_connector_def connector_dispatch_def)

lemma sample_served: "served 0 (meters sample_run h)"
  by (simp add: sample_meters with_reserve_units_def new_meter_served policy_fits_def usize_max_def)

lemma sample_grants:
  obtains adm where "fst (admit_reserve_bound 100 b (with_reserve_units 7 ''r'' 1000 100 Suspend)) = Ok adm"
    "used_units (snd (admit_reserve_bound 100 b (with_reserve_units 7 ''r'' 1000 100 Suspend))) = 0"
  by (simp add: plain_computes with_reserve_units_def usize_max_def)

lemma sample_leases:
  fixes pay
  defines "b \<equiv> connector_dispatch sample_identity (sample_connector pay)"
  assumes adm: "fst (admit_reserve_bound 100 b (with_reserve_units 7 ''r'' 1000 100 Suspend)) = Ok adm" and pay: "pay \<noteq> LocalPayer"
  shows "take_line pay T0 b 100 tokens_unit tokens_unit [] None sample_run =
    (Ok (admitted_lease adm, 100, True), snd (on_meter 7 (admit_reserve_bound 100 b) sample_run))"
  using adm pay
  by (simp add: take_line_def free_lease_def free_work_def priced_def convert_units_def sample_meters on_meter_def usize_max_def
        sample_connector_fields b_def [symmetric])

text \<open>A host-paid call of a run with no account takes its line, and gives it back.\<close>

lemma refused_call_holds_nothing_witness:
  "\<exists>s'. admit_paid sample_identity (sample_connector HostPays) 100 sample_origin sample_run = (Err NoAllocation, s') \<and> untouched sample_run s'"
proof -
  let ?b = "connector_dispatch sample_identity (sample_connector HostPays)"
  obtain adm where adm: "fst (admit_reserve_bound 100 ?b (with_reserve_units 7 ''r'' 1000 100 Suspend)) = Ok adm" by (rule sample_grants)
  have "fst (admit_paid sample_identity (sample_connector HostPays) 100 sample_origin sample_run) = Err NoAllocation"
    using sample_leases [OF adm]
    by (simp add: admit_paid_def admit_connector_def sample_connector_fields admits_connector_def custody_rule_def take_leases_def
        hold_allocation_def receipt_for_def case_prod_unfold Let_def sample_meters on_meter_def)
  then obtain s' where s': "admit_paid sample_identity (sample_connector HostPays) 100 sample_origin sample_run = (Err NoAllocation, s')"
    by (metis prod.collapse)
  then show ?thesis
    using refused_call_holds_nothing [of 0 sample_run sample_identity None _ _ None sample_origin NoAllocation s'
        "Denied None (Some (connector (sample_connector HostPays))) None NoAllocation" "sample_connector HostPays" 100, OF sample_served]
    by (auto simp: usize_max_def)
qed



abbreviation sample_binding :: dispatch_binding where
  "sample_binding \<equiv> connector_dispatch sample_identity (sample_connector CustomerKey)"

lemma sample_run_admitted:
  obtains p s1 where "admits sample_identity (sample_paid CustomerKey) sample_run p sample_binding s1" "permit_allocation p = None"
    "\<forall>h. used_units (meters s1 h) = 0"
proof -
  obtain adm where adm: "fst (admit_reserve_bound 100 sample_binding (with_reserve_units 7 ''r'' 1000 100 Suspend)) = Ok adm"
    "used_units (snd (admit_reserve_bound 100 sample_binding (with_reserve_units 7 ''r'' 1000 100 Suspend))) = 0" by (rule sample_grants)
  define res where "res = admit_paid sample_identity (sample_connector CustomerKey) 100 sample_origin sample_run"
  have res: "(\<exists>p. fst res = Ok p \<and> permit_allocation p = None) \<and> (\<forall>h. used_units (meters (snd res) h) = 0)"
    using sample_leases [OF adm(1)] adm(2)
    by (auto simp: res_def admit_paid_def admit_connector_def sample_connector_fields admits_connector_def custody_rule_def take_leases_def
        hold_allocation_def receipt_for_def case_prod_unfold Let_def sample_meters on_meter_def with_reserve_units_def new_meter_def)
  then obtain p where p: "fst res = Ok p" "permit_allocation p = None" by blast
  then have "admits sample_identity (sample_paid CustomerKey) sample_run p sample_binding (snd res)"
    by (simp add: admits_def sample_paid_def res_def prod_eq_iff)
  with p res show thesis using that by blast
qed

lemma permit_starts_only_its_call_witness:
  "\<exists>p s1. admits sample_identity (sample_paid CustomerKey) sample_run p sample_binding s1 \<and>
     fst (start_dispatch (permit_lease p) sample_binding s1) = Ok () \<and>
     fst (start_dispatch (permit_lease p) sample_binding (snd (start_dispatch (permit_lease p) sample_binding s1))) \<noteq> Ok ()"
proof -
  obtain p s1 where a: "admits sample_identity (sample_paid CustomerKey) sample_run p sample_binding s1" by (rule sample_run_admitted)
  show ?thesis
    using permit_starts_only_its_call [OF sample_served _ a, where cs = "[]" and cs' = "[]" and c = sample_binding and c' = sample_binding,
        OF _ refl refl] a by (auto simp: usize_max_def)
qed


lemma unsent_charges_nothing:
  assumes r: "own_record (permit_lease p) (meters s (line_meter s)) = Some r" "fresh_record u k b r" and none: "permit_allocation p = None"
  shows "used_units (meters (snd (settle_permit p FailedCall None rep obs s)) h) = used_units (meters s h)"
proof -
  have "used_units (snd (abort (permit_lease p) (meters s (line_meter s)))) = used_units (meters s (line_meter s))"
    using aborted_exact(2) [OF r(1)] r(2) by (simp add: fresh_record_def)
  moreover have "meters (snd (settle_permit p FailedCall None rep obs s)) =
      (meters s)(line_meter s := snd (abort (permit_lease p) (meters s (line_meter s))))"
    using none by (auto simp: settle_permit_def settle_line_def settle_allocation_def outcome_charge_def usage_in_def on_meter_def
        case_prod_unfold Let_def split: option.split sum.split)
  ultimately show ?thesis by simp
qed


end
