(* ===== verification/Spec2Isabelle.thy ===== *)
theory Spec2Isabelle
  imports WorkLineRuns RepoAccess ConsultLadder Postings RoomWorld RunPermits
begin

text \<open>
  A verification development for the oneiron memory engine.

  The engine keeps a person's memory in a vault: an ordered database of entities, edges and text, which
  agents, hosts and other devices read and write under grants.  The development models the parts of it
  whose correctness is their own logic, not a library's.

  \<^item> The naming layer every part uses: the registry of entity types, the 16-byte entity ids with their texts,
  and the edges between them.
  \<^item> The scopes and repository bounds a grant carries, which decide what a caller may reach, and the one
  encoding a pact of two vaults gives its scope.
  \<^item> The off-record room: an in-memory overlay of the database that a session writes into instead of the
  vault, until a turn of it is saved or all of it is dropped.
  \<^item> The line in which work waits its turn for a bounded number of permits.
  \<^item> The money: the meter of one budget, the leases a call holds of it, and the admission of the paid calls
  of a run against its own line and the allocation of its host.
  \<^item> The consult ladder, which decides what a consulted magistrate may settle and when a human is asked.
\<close>

section \<open>Theories and the code they model\<close>

text \<open>
  Paths are under \<^theory_text>\<open>src/crates/\<close>.  A definition has the name of the function or type it models, unless that
  name is one of the library's or two types of the source share it.  Definitions stand in the order of the code.

  \<^item> Prelude: results, values and sums of association lists, digits, saturating arithmetic, decimal text.
  \<^item> Registry: \<open>oneiron-contracts/src/registry\<close>, the zones, families and kinds of type bytes and their tables.
  \<^item> EntityIds: \<open>oneiron-contracts/src/entity_id.rs\<close>, ids, their ULID and hex texts, the mint, derived ids.
  \<^item> Edges: \<open>oneiron-base/src/edge\<close> and \<open>oneiron-store/src/index_keys.rs\<close>, kinds, the value codec, records and keys.
  \<^item> Scopes, Selectors, PactScopes, RepoAccess: \<open>oneiron-authority/src/federation\<close> (\<open>scope.rs\<close>,
  \<open>selector_kind.rs\<close>, \<open>pact_scope.rs\<close>, \<open>repo_scope.rs\<close> with \<open>git_push.rs\<close>).
  \<^item> OrderedMaps: the \<open>BTreeMap\<close> and \<open>BTreeSet\<close> of the standard library, as sorted lists.
  \<^item> RoomJournal, Overlay, OverlayMerge, Postings: the journal and the keyspaces of a room and the accessors that
  compose it with the database, \<open>oneiron-store/src/session_overlay\<close> and \<open>oneiron-store/src/overlay_db\<close>.
  \<^item> Promotion, RoomLife, SavedArtifacts, RoomWorld: \<open>oneiron-store/src/session_overlay\<close>, the saving of a turn
  (\<open>snapshot.rs\<close>, \<open>overlay/retire.rs\<close>), the lifecycle with its leases, segments, routes and short ids
  (\<open>overlay/lifecycle.rs\<close>, \<open>overlay/segment.rs\<close>, \<open>overlay/rows.rs\<close>, \<open>route.rs\<close>, \<open>short_id.rs\<close>), the retirement of a saved
  selection (\<open>overlay/retire_selected.rs\<close>), and all of these calls under threads.
  \<^item> WorkLine, WorkLineRuns: \<open>oneiron-base/src/work_line.rs\<close>, the line, and its users over time.
  \<^item> BudgetMeter, BudgetLeases: \<open>oneiron-model/src/llm/budget\<close>, the meter, and what it promises.
  \<^item> ModelIds: \<open>oneiron-model/src/llm/model_id.rs\<close>.
  \<^item> RunBudget: \<open>oneiron-run-budget/src/run_budget\<close>, the declaration of a run and the maximum of a paid job.
  \<^item> RunHost, RunShares, RunAdmission, RunMoves, RunPermits: \<open>oneiron/src/llm/run_admission\<close> with
  \<open>oneiron/src/llm/budget/resident.rs\<close>, what a host binds, the shares of its residents, the calls of a run, how they
  move the meters, and what a run promises.
  \<^item> ConsultLadder: \<open>oneiron/src/consult_ladder\<close>, the ladder, the novelty guard, routing and the magistrate.
\<close>

section \<open>How state and operations correspond\<close>

text \<open>
  A struct is a record or a datatype of one constructor, an enum a datatype, an operation a function from the
  state and its arguments to its result and the next state.  Where the code guards its state with one mutex, an
  operation is one critical section and the theories of runs interleave operations freely.  A call that sleeps
  on a condition variable is split at the sleep: its first half, and its second, which is taken only in a state
  where its test passes.

  \<^item> A meter (BudgetMeter) is the record behind the mutex of a budget guard; \<open>meter_step\<close> is any one call on it.
  \<^item> A room (Overlay, RoomLife) is the record behind the mutex of an overlay; the segment of the calling
  thread, which the code keeps in a thread local, is an argument.  In RoomWorld a world is the room with the
  segment, the guard and the wait of every thread, and \<open>world_step\<close> is any one call of any one thread.
  \<^item> A line (WorkLineRuns) is the pool of WorkLine with the pieces of work that hold its permits;
  \<open>line_step\<close> is any one move of a caller, a permit or the host.
  \<^item> A run (RunAdmission) is the run's own state beside the meters, the host's account and the ledger it shares
  with others.  Its operations call those of BudgetMeter on the meters by their handles.  \<open>run_step\<close>
  (RunMoves) is any one call of the run, or any one call of another user on a shared meter.
  \<^item> A job under a maximum (RunBudget) and a consult task (ConsultLadder) are state machines of their own.

  Where one component relies on another, or several share a contract, the contract is a locale, and the model's own
  definitions interpret it: \<open>keyed_store\<close> (a keyspace and a sorted list of rows), \<open>scope_atom\<close>
  (plain members and selector ranges), \<open>axis_codec\<close> (the three axes of a pact scope), \<open>waiting_line\<close> (the fair
  queue), \<open>share_ledger\<close> (the ledger of a vault's residents).
\<close>

section \<open>What the lemmas show\<close>

text \<open>
  \<^item> Rooms.  Reading and writing through a room is reading and writing a private copy of the database; its
  ordered scans, merged row by row as they are asked for, are the reference merge of the source; its
  posting lists are a set of rows.  Under its threads a room keeps its locks and leases apart, stays in
  its budget, gains nothing once sealed, refuses the routes of an earlier mode and never blocks a seal or a close
  for good.  Saving a turn, or a selection, replays and takes away exactly what was captured.
  \<^item> Grants.  Narrower scopes and bounds admit less, in every check; an admitted act is inside its bounds; globs
  match what their grammar documents; scopes and bounds each have one encoding.
  \<^item> Money.  A meter accounts for every unit, does not overspend its line while calls keep to what they
  reserved, keeps the floors of its policy, starts a lease once and settles it once.  A run moves its
  meters by these calls only, holds nothing of a call it refused, starts a permit only for the call
  it was given for, and settles it with a receipt that says what was charged.  A pinned share of a resident is
  kept on one allocation; one property shows where it is not, across two.
  \<^item> Work line.  Permits are conserved and within the bound, the line is fair, waits end.
  \<^item> Names.  Minted ids ascend and texts round-trip, tables agree with each other, an edge has one encoding.
  \<^item> Consult ladder.  A human, once asked, stays asked; a magistrate's power is bounded by its inputs.
\<close>

section \<open>Numbers, texts, parameters\<close>

text \<open>
  A \<open>u64\<close> or \<open>usize\<close> is a natural number; every saturating or checked addition is written out against
  \<open>usize_max\<close>.  Bytes are 8-bit words and a generation or a bit pattern a word of its width.  A \<open>&str\<close> is the
  list of its UTF-8 bytes as characters; where the code walks characters, the bytes are cut into them first.

  There is no fuel: every function is structurally recursive or has a termination measure, the merging
  iterator among them.  Theorems about runs of a meter bound the number of calls instead: its next lease
  number is a \<open>u64\<close> and the names of leases would collide once it stops at its maximum.  Each call on a meter takes at
  most one number, so \<open>n\<close> calls are within \<open>n < usize_max\<close>; a call of a run takes at most four calls of one
  meter, hence the bounds of the form \<open>k + 4 * length cs + 5 < usize_max\<close>, where \<open>k\<close> counts the calls a
  meter had served before and five suffice for the call in question.

  What the code calls and does not contain is an argument: the hashes (BLAKE3, xxHash), the
  bytes of a MessagePack value, the serialised form of a binding, clocks, random bytes, the compiled sizes of
  types, and the cursors of the database, of which the hypotheses say that they are ordered as documented.
\<close>

section \<open>What is not modelled\<close>

text \<open>
  \<^item> Memory: copy-on-write sharing, the scrubbing of freed buffers, the charge for retained memory.  These
  change no answer of a modelled call.  Poisoned locks are left out for the same reason.
  \<^item> Of the run admission: the media gate and its jobs, streamed capture, the wire seat and the account of a
  person, whose content is payloads of providers and transactions of the vault; a receipt's time and instance.
  The operations of RunAdmission take their locks one after another without another thread between two of them.
  \<^item> Of the consult ladder: the facade that stores a task.
  \<^item> The storage engine, the CRDT, cryptography, network transports, provider clients, processes and git: library
  and system calls.  What they decide by is modelled where it is the engine's: scopes, bounds, budgets.
  \<^item> The memory facade, claims, notes, policy gates, attempt queues, recovery and housekeeping: transactions over
  stored rows, whose content is the store.
  \<^item> Retrieval: its ranking is arithmetic on floats, whose rounding the model would have to invent.
  \<^item> Document formats, server handlers, language bindings, applications and deployment.
\<close>

end
